(* ===== verification/Prelude.thy ===== *)
theory Prelude
  imports Main "HOL-Library.Word" "HOL-Library.Monad_Syntax" "HOL-Library.Multiset"
begin

text \<open>
  Shared vocabulary of the development: the C integer types as words, the kernel's
  \<^verbatim>\<open>panic\<close>, the named collections of simplification facts that the component
  theories extend, and generic lemmas on options, lists and words.

  Fallible kernel code is written in the option monad with the state passed explicitly:
  \<open>None\<close> is "the call does not return" (the kernel panicked, which prints a message and
  spins for ever), \<open>Some (r, s)\<close> is a return with result \<open>r\<close> in state \<open>s\<close>.
\<close>

unbundle bit_operations_syntax

section \<open>C integer types\<close>

type_synonym u8 = "8 word"
type_synonym u16 = "16 word"
type_synonym u32 = "32 word"
type_synonym u64 = "64 word"

section \<open>Collections of facts\<close>

named_theorems riscv_simps \<open>the macros of riscv.h and memlayout.h, unfolded\<close>
named_theorems mem_simps \<open>loads after stores, page by page\<close>
named_theorems kalloc_defs \<open>the operations of the page allocator, unfolded\<close>
named_theorems vm_simps \<open>facts on page-table lookups\<close>
named_theorems frame_simps \<open>what an operation leaves unchanged\<close>

section \<open>Panic\<close>

definition panic :: "string \<Rightarrow> 'a option" where
  "panic msg = None"

lemma panic_None [simp]: "panic msg = None"
  by (simp add: panic_def)

lemma panic_neq_Some [simp]: "panic msg \<noteq> Some x"
  by simp

section \<open>Options and lists\<close>

lemma bind_Some_iff [simp]:
  "Option.bind m f = Some y \<longleftrightarrow> (\<exists>x. m = Some x \<and> f x = Some y)"
  by (cases m) auto

lemma if_None_iff [simp]:
  "(if b then None else x) = Some y \<longleftrightarrow> \<not> b \<and> x = Some y"
  "(if b then x else None) = Some y \<longleftrightarrow> b \<and> x = Some y"
  by auto

section \<open>Words\<close>

lemma word_minus_less_iff:
  fixes a p :: "'a::len word"
  assumes "n \<le> 2 ^ LENGTH('a)"
  shows "unat (a - p) < n \<longleftrightarrow> (\<exists>i<n. a = p + of_nat i)"
proof
  assume "unat (a - p) < n"
  then show "\<exists>i<n. a = p + of_nat i"
    by (intro exI [of _ "unat (a - p)"]) simp
next
  assume "\<exists>i<n. a = p + of_nat i"
  then obtain i where "i < n" "a = p + of_nat i" by blast
  then show "unat (a - p) < n"
    using assms by (simp add: unat_of_nat)
qed

lemma unat_add_no_overflow:
  fixes a b :: "'a::len word"
  assumes "unat a + unat b < 2 ^ LENGTH('a)"
  shows "unat (a + b) = unat a + unat b"
  using assms by (simp add: unat_word_ariths)

lemma unat_sub_le:
  fixes a b :: "'a::len word"
  assumes "b \<le> a"
  shows "unat (a - b) = unat a - unat b"
  using assms by (rule unat_sub)

lemma unat_minus_1_64: "unat (- 1 :: u64) = 18446744073709551615"
  by (simp add: unsigned_minus_1_eq_mask mask_eq_exp_minus_1)

lemma unat_ucast_32_64 [simp]: "unat (ucast (n :: u32) :: u64) = unat n"
proof -
  have "unat n < 2 ^ 32"
    using unsigned_less [of n, where ?'a = nat] by simp
  then have "unat n < 2 ^ 64" by simp
  then show ?thesis
    by (simp add: unsigned_ucast_eq take_bit_nat_eq_self)
qed

lemma of_nat_unat_word: "of_nat (unat w) = (w :: u64)"
  by simp

lemma of_nat_unat_32_64 [simp]: "of_nat (unat (n :: u32)) = (ucast n :: u64)"
  by (metis of_nat_unat_word unat_ucast_32_64)

lemma int_of_page_count:
  assumes "d < 2 ^ 31"
  shows "scast (ucast (of_nat d :: u64) :: u32) = (of_nat d :: u64)"
proof -
  have "(ucast (of_nat d :: u64) :: u32) = of_nat d"
    using assms by (simp add: unsigned_of_nat take_bit_nat_eq_self)
  moreover have "signed_take_bit 31 (int d) = int d"
    using assms by (simp add: signed_take_bit_int_eq_self)
  ultimately show ?thesis by (simp add: signed_of_nat)
qed

end
