(* ===== verification/Riscv.thy ===== *)
theory Riscv
  imports Prelude
begin

text \<open>
  The macros of \<^verbatim>\<open>kernel/riscv.h\<close> and \<^verbatim>\<open>kernel/memlayout.h\<close> that the memory code
  computes with, as functions on 64-bit words, and byte-addressed memory with the
  little-endian 64-bit loads and stores of the hardware. The kernel maps physical memory
  directly, so one function from addresses to bytes is both what the kernel dereferences
  and what the page tables name.
\<close>

section \<open>Page sizes and address arithmetic\<close>

abbreviation PGSIZE :: u64 where
  "PGSIZE \<equiv> 4096"

definition PGROUNDUP :: "u64 \<Rightarrow> u64" where
  "PGROUNDUP sz = (sz + PGSIZE - 1) AND NOT (PGSIZE - 1)"

definition PGROUNDDOWN :: "u64 \<Rightarrow> u64" where
  "PGROUNDDOWN a = a AND NOT (PGSIZE - 1)"

definition PTE_V :: u64 where "PTE_V = push_bit 0 1"
definition PTE_R :: u64 where "PTE_R = push_bit 1 1"
definition PTE_W :: u64 where "PTE_W = push_bit 2 1"
definition PTE_X :: u64 where "PTE_X = push_bit 3 1"
definition PTE_U :: u64 where "PTE_U = push_bit 4 1"
definition PTE_COW :: u64 where "PTE_COW = push_bit 8 1"

definition PA2PTE :: "u64 \<Rightarrow> u64" where
  "PA2PTE pa = push_bit 10 (drop_bit 12 pa)"

definition PTE2PA :: "u64 \<Rightarrow> u64" where
  "PTE2PA pte = push_bit 12 (drop_bit 10 pte)"

definition PTE_FLAGS :: "u64 \<Rightarrow> u64" where
  "PTE_FLAGS pte = pte AND 0x3FF"

definition PXSHIFT :: "nat \<Rightarrow> nat" where
  "PXSHIFT level = 12 + 9 * level"

definition PX :: "nat \<Rightarrow> u64 \<Rightarrow> u64" where
  "PX level va = drop_bit (PXSHIFT level) va AND 0x1FF"

definition MAXVA :: u64 where
  "MAXVA = push_bit (9 + 9 + 9 + 12 - 1) 1"

definition KERNBASE :: u64 where "KERNBASE = 0x80000000"
definition PHYSTOP :: u64 where "PHYSTOP = KERNBASE + 128*1024*1024"
definition TRAMPOLINE :: u64 where "TRAMPOLINE = MAXVA - PGSIZE"
definition TRAPFRAME :: u64 where "TRAPFRAME = TRAMPOLINE - PGSIZE"

definition KSTACK :: "u64 \<Rightarrow> u64" where
  "KSTACK p = TRAMPOLINE - (p + 1) * 2 * PGSIZE"

lemmas PTE_bits = PTE_V_def PTE_R_def PTE_W_def PTE_X_def PTE_U_def PTE_COW_def

lemma MAXVA_val: "MAXVA = 0x4000000000"
  by (simp add: MAXVA_def)

lemma PHYSTOP_val: "PHYSTOP = 0x88000000"
  by (simp add: PHYSTOP_def KERNBASE_def)

lemma TRAMPOLINE_val: "TRAMPOLINE = 0x3FFFFFF000"
  by (simp add: TRAMPOLINE_def MAXVA_val)

lemma TRAPFRAME_val: "TRAPFRAME = 0x3FFFFFE000"
  by (simp add: TRAPFRAME_def TRAMPOLINE_val)

section \<open>Page-aligned addresses\<close>

definition page_aligned :: "u64 \<Rightarrow> bool" where
  "page_aligned a \<longleftrightarrow> a mod PGSIZE = 0"

lemma low12_mask: "(4095::u64) = mask 12"
  by (simp add: mask_eq_exp_minus_1)

lemma PGROUNDDOWN_bit: "bit (PGROUNDDOWN a) n \<longleftrightarrow> 12 \<le> n \<and> bit a n"
  by (cases "n < 64") (auto simp: PGROUNDDOWN_def low12_mask bit_simps not_less dest: bit_imp_le_length)

lemma page_aligned_bits: "page_aligned a \<longleftrightarrow> (\<forall>n<12. \<not> bit a n)"
proof -
  have "a mod PGSIZE = take_bit 12 a"
    by (simp add: take_bit_eq_mod)
  moreover have "take_bit 12 a = 0 \<longleftrightarrow> (\<forall>n<12. \<not> bit a n)"
    by (auto simp: bit_eq_iff bit_simps)
  ultimately show ?thesis by (simp add: page_aligned_def)
qed

lemma page_aligned_PGROUNDDOWN [simp]: "page_aligned (PGROUNDDOWN a)"
  by (simp add: page_aligned_bits PGROUNDDOWN_bit)

lemma PGROUNDDOWN_id [simp]: "page_aligned a \<Longrightarrow> PGROUNDDOWN a = a"
  by (rule bit_word_eqI) (auto simp: PGROUNDDOWN_bit page_aligned_bits not_le[symmetric])

lemma PGROUNDDOWN_idem [simp]: "PGROUNDDOWN (PGROUNDDOWN a) = PGROUNDDOWN a"
  by simp

lemma PGROUNDUP_alt: "PGROUNDUP a = PGROUNDDOWN (a + 4095)"
  by (simp add: PGROUNDUP_def PGROUNDDOWN_def add.commute)

lemma page_aligned_PGROUNDUP [simp]: "page_aligned (PGROUNDUP a)"
  by (simp add: PGROUNDUP_alt)

lemma unat_PGROUNDDOWN: "unat (PGROUNDDOWN a) = unat a div 4096 * 4096"
proof -
  have "PGROUNDDOWN a = push_bit 12 (drop_bit 12 a)"
    by (rule bit_word_eqI) (auto simp: PGROUNDDOWN_bit bit_simps)
  moreover have "unat a < 2 ^ 64"
    using unsigned_less [of a, where ?'a = nat] by simp
  then have "unat a div 4096 < 2 ^ 64" "unat a div 4096 * 4096 < 2 ^ 64"
    by linarith+
  then have "unat (push_bit 12 (drop_bit 12 a)) = unat a div 4096 * 4096"
    by (simp add: drop_bit_eq_div push_bit_eq_mult unat_word_ariths)
  ultimately show ?thesis by simp
qed

lemma page_aligned_unat: "page_aligned a \<longleftrightarrow> 4096 dvd unat a"
  by (simp add: page_aligned_def dvd_eq_mod_eq_0 word_unat_eq_iff unat_word_ariths)

section \<open>Byte-addressed memory\<close>

type_synonym memory = "u64 \<Rightarrow> u8"

definition load64 :: "memory \<Rightarrow> u64 \<Rightarrow> u64" where
  "load64 m a = foldr (\<lambda>i v. push_bit 8 v OR ucast (m (a + of_nat i))) [0..<8] 0"

definition store64 :: "memory \<Rightarrow> u64 \<Rightarrow> u64 \<Rightarrow> memory" where
  "store64 m a v = fold (\<lambda>i m. m(a + of_nat i := ucast (drop_bit (8 * i) v))) [0..<8] m"

lemma fold_store:
  fixes m :: "u64 \<Rightarrow> 'b"
  assumes "n \<le> 2 ^ 64"
  shows "fold (\<lambda>i m. m(a + of_nat i := g i)) [0..<n] m b =
    (if unat (b - a) < n then g (unat (b - a)) else m b)"
  using assms
proof (induction n)
  case (Suc n)
  have eq: "b = a + of_nat n \<longleftrightarrow> unat (b - a) = n"
  proof
    assume "b = a + of_nat n"
    then show "unat (b - a) = n" using Suc.prems by (simp add: unat_of_nat)
  next
    assume "unat (b - a) = n"
    then have "of_nat n = b - a" by auto
    then show "b = a + of_nat n" by simp
  qed
  have IH: "fold (\<lambda>i m. m(a + of_nat i := g i)) [0..<n] m b =
      (if unat (b - a) < n then g (unat (b - a)) else m b)"
    using Suc.prems by (intro Suc.IH) simp
  have "fold (\<lambda>i m. m(a + of_nat i := g i)) [0..<Suc n] m b =
      (if b = a + of_nat n then g n else fold (\<lambda>i m. m(a + of_nat i := g i)) [0..<n] m b)"
    by simp
  also have "\<dots> = (if unat (b - a) < Suc n then g (unat (b - a)) else m b)"
    unfolding IH eq by (simp add: less_Suc_eq)
  finally show ?case .
qed simp

lemma store64_apply:
  "store64 m a v b = (if unat (b - a) < 8 then ucast (drop_bit (8 * unat (b - a)) v) else m b)"
  unfolding store64_def by (rule fold_store) simp

lemma bit_foldr_bytes:
  "bit (foldr (\<lambda>i v. push_bit 8 v OR ucast (m (a + of_nat i))) [k..<k + c] (0::u64)) n \<longleftrightarrow>
   n < 64 \<and> n < 8 * c \<and> bit (m (a + of_nat (k + n div 8)) :: u8) (n mod 8)"
proof (induction c arbitrary: k n)
  case (Suc c)
  let ?F = "\<lambda>i v. push_bit 8 v OR ucast (m (a + of_nat i)) :: u64"
  have "bit (foldr ?F [k..<k + Suc c] 0) n \<longleftrightarrow>
      bit (push_bit 8 (foldr ?F [Suc k..<Suc k + c] 0)) n \<or> bit (ucast (m (a + of_nat k)) :: u64) n"
    by (simp add: upt_conv_Cons bit_or_iff del: upt_Suc)
  also have "\<dots> \<longleftrightarrow> (8 \<le> n \<and> n < 64 \<and> bit (foldr ?F [Suc k..<Suc k + c] 0) (n - 8)) \<or>
      (n < 8 \<and> bit (m (a + of_nat k)) n)"
    by (auto simp: bit_push_bit_iff bit_unsigned_iff simp del: upt_Suc dest: bit_imp_le_length)
  also have "\<dots> \<longleftrightarrow> n < 64 \<and> n < 8 * Suc c \<and> bit (m (a + of_nat (k + n div 8))) (n mod 8)"
  proof (cases "n < 8")
    case False
    then have shift: "Suc k + (n - 8) div 8 = k + n div 8" "(n - 8) mod 8 = n mod 8"
      by (auto simp: le_div_geq le_mod_geq)
    show ?thesis
      unfolding Suc.IH shift using False by auto
  qed auto
  finally show ?case .
qed simp

lemma bit_load64: "bit (load64 m a) n \<longleftrightarrow> n < 64 \<and> bit (m (a + of_nat (n div 8))) (n mod 8)"
  using bit_foldr_bytes [of m a 0 8 n] by (auto simp: load64_def)

lemma load64_store64 [mem_simps, simp]: "load64 (store64 m a v) a = v"
proof (rule bit_word_eqI)
  fix n assume "n < LENGTH(64)"
  then have "n < 64" "n div 8 < 8" "unat (of_nat (n div 8) :: u64) = n div 8"
    by (auto simp: unat_of_nat)
  then show "bit (load64 (store64 m a v) a) n = bit v n"
    by (simp add: bit_load64 store64_apply bit_simps)
qed

lemma load64_cong:
  assumes "\<And>i. i < 8 \<Longrightarrow> m (a + of_nat i) = m' (a + of_nat i)"
  shows "load64 m a = load64 m' a"
  by (rule bit_word_eqI) (simp add: bit_load64 assms)

section \<open>Memory, page by page\<close>

lemma page_bound: "page_aligned p \<Longrightarrow> unat p + 4096 \<le> 2 ^ 64"
proof -
  assume "page_aligned p"
  then obtain k where k: "unat p = 4096 * k"
    by (auto simp: page_aligned_unat)
  have "unat p < 2 ^ 64"
    using unsigned_less [of p, where ?'a = nat] by simp
  with k have "k < 2 ^ 52" by simp
  with k show ?thesis by simp
qed

lemma PGROUNDDOWN_offset [simp]:
  assumes "page_aligned p" "off < 4096"
  shows "PGROUNDDOWN (p + off) = p"
proof -
  from assms(2) have off: "unat off < 4096"
    by (simp add: word_less_nat_alt)
  obtain k where k: "unat p = 4096 * k"
    using assms(1) by (auto simp: page_aligned_unat)
  have "unat (p + off) = unat p + unat off"
    using page_bound [OF assms(1)] off by (intro unat_add_no_overflow) simp
  then show ?thesis
    using off k by (simp add: word_unat_eq_iff unat_PGROUNDDOWN)
qed

lemma PGROUNDDOWN_eq_iff:
  assumes "page_aligned p"
  shows "PGROUNDDOWN a = p \<longleftrightarrow> unat (a - p) < 4096"
proof
  assume "unat (a - p) < 4096"
  then show "PGROUNDDOWN a = p"
    using PGROUNDDOWN_offset [OF assms, of "a - p"] by (simp add: word_less_nat_alt)
next
  assume eq: "PGROUNDDOWN a = p"
  have "unat (a - p) = unat a - unat p"
    by (rule unat_sub) (simp add: eq [symmetric] word_le_nat_alt unat_PGROUNDDOWN)
  then show "unat (a - p) < 4096"
    by (simp add: eq [symmetric] unat_PGROUNDDOWN minus_div_mult_eq_mod)
qed

lemma slot_offset:
  assumes "i < 512" "j < 8"
  shows "8 * i + of_nat j < (4096::u64)" "unat (8 * i + of_nat j :: u64) = 8 * unat i + j"
proof -
  from assms have i: "unat i < 512" by (simp add: word_less_nat_alt)
  have j: "unat (of_nat j :: u64) = j" using assms(2) by (simp add: unat_of_nat)
  have "unat (8 * i) = 8 * unat i"
    using i by (simp add: unat_word_ariths)
  then show *: "unat (8 * i + of_nat j :: u64) = 8 * unat i + j"
    using i j assms(2) by (subst unat_add_no_overflow) auto
  show "8 * i + of_nat j < (4096::u64)"
    using i assms(2) by (simp add: word_less_nat_alt *)
qed

lemma PGROUNDDOWN_slot [simp]:
  assumes "page_aligned p" "i < 512"
  shows "PGROUNDDOWN (p + 8 * i) = p"
  using PGROUNDDOWN_offset [OF assms(1) slot_offset(1) [OF assms(2), of 0]] by simp

lemma load64_page_cong:
  assumes "page_aligned p" "i < 512" "\<And>a. PGROUNDDOWN a = p \<Longrightarrow> m a = m' a"
  shows "load64 m (p + 8 * i) = load64 m' (p + 8 * i)"
proof (rule load64_cong)
  fix j :: nat assume "j < 8"
  then have "PGROUNDDOWN (p + (8 * i + of_nat j)) = p"
    by (intro PGROUNDDOWN_offset assms slot_offset)
  then show "m (p + 8 * i + of_nat j) = m' (p + 8 * i + of_nat j)"
    by (intro assms(3)) (simp add: add.assoc)
qed

lemma store64_other_page [simp]:
  assumes "page_aligned p" "i < 512" "PGROUNDDOWN b \<noteq> p"
  shows "store64 m (p + 8 * i) v b = m b"
proof -
  have "\<not> unat (b - (p + 8 * i)) < 8"
  proof
    assume "unat (b - (p + 8 * i)) < 8"
    then obtain j where "j < 8" "b = p + 8 * i + of_nat j"
      by (subst (asm) word_minus_less_iff) auto
    then have "PGROUNDDOWN b = p"
      using PGROUNDDOWN_offset [OF assms(1) slot_offset(1) [OF assms(2)], of j]
      by (simp add: add.assoc)
    with assms(3) show False by simp
  qed
  then show ?thesis by (simp add: store64_apply)
qed

lemma load64_store64_slot:
  assumes "page_aligned p" "page_aligned q" "i < 512" "j < 512" "p \<noteq> q \<or> i \<noteq> j"
  shows "load64 (store64 m (p + 8 * i) v) (q + 8 * j) = load64 m (q + 8 * j)"
proof (cases "p = q")
  case True
  with assms(5) have ij: "unat i \<noteq> unat j" by (simp add: word_unat_eq_iff)
  show ?thesis
  proof (rule load64_cong)
    fix k :: nat assume k: "k < 8"
    have "\<not> unat ((q + 8 * j + of_nat k) - (p + 8 * i)) < 8"
    proof
      assume "unat ((q + 8 * j + of_nat k) - (p + 8 * i)) < 8"
      then obtain l where l: "l < 8" "q + 8 * j + of_nat k = p + 8 * i + of_nat l"
        by (subst (asm) word_minus_less_iff) auto
      then have "8 * j + of_nat k = (8 * i + of_nat l :: u64)"
        using True by (simp add: add.assoc)
      then have "8 * unat j + k = 8 * unat i + l"
        using slot_offset(2) [OF assms(3) l(1)] slot_offset(2) [OF assms(4) k] by metis
      with ij k l(1) show False by presburger
    qed
    then show "store64 m (p + 8 * i) v (q + 8 * j + of_nat k) = m (q + 8 * j + of_nat k)"
      by (simp add: store64_apply)
  qed
next
  case False
  then show ?thesis
    using assms by (intro load64_page_cong) auto
qed

section \<open>Page-table entries\<close>

lemma and_flag_iff:
  "e AND PTE_V = 0 \<longleftrightarrow> \<not> bit e 0"  "e AND PTE_R = 0 \<longleftrightarrow> \<not> bit e 1"
  "e AND PTE_W = 0 \<longleftrightarrow> \<not> bit e 2"  "e AND PTE_X = 0 \<longleftrightarrow> \<not> bit e 3"
  "e AND PTE_U = 0 \<longleftrightarrow> \<not> bit e 4"  "e AND PTE_COW = 0 \<longleftrightarrow> \<not> bit e 8"
  by (simp_all add: PTE_bits bit_iff_and_push_bit_not_eq_0)

lemma bit_PTE:
  "bit PTE_V n \<longleftrightarrow> n = 0" "bit PTE_R n \<longleftrightarrow> n = 1" "bit PTE_W n \<longleftrightarrow> n = 2"
  "bit PTE_X n \<longleftrightarrow> n = 3" "bit PTE_U n \<longleftrightarrow> n = 4" "bit PTE_COW n \<longleftrightarrow> n = 8"
  unfolding PTE_bits bit_push_bit_iff by (auto simp: bit_1_iff)

lemma bit_PA2PTE: "bit (PA2PTE pa) n \<longleftrightarrow> 10 \<le> n \<and> n < 64 \<and> bit pa (n + 2)"
  by (auto simp: PA2PTE_def bit_simps)

lemma bit_PTE2PA: "bit (PTE2PA e) n \<longleftrightarrow> 12 \<le> n \<and> n < 64 \<and> bit e (n - 2)"
  by (auto simp: PTE2PA_def bit_simps dest!: le_Suc_ex)

lemma bit_PTE_FLAGS: "bit (PTE_FLAGS e) n \<longleftrightarrow> n < 10 \<and> bit e n"
proof -
  have m10: "(0x3FF::u64) = mask 10" by (simp add: mask_eq_exp_minus_1)
  show ?thesis unfolding PTE_FLAGS_def m10 by (auto simp: bit_simps)
qed

lemmas pte_bits = bit_PTE bit_PA2PTE bit_PTE2PA bit_PTE_FLAGS

end
