(* ===== verification/CString.thy ===== *)
theory CString
  imports Riscv
begin

text \<open>
  \<^verbatim>\<open>kernel/string.c\<close>: block and string routines on byte-addressed memory. Each C loop is
  a recursion with the loop's own reads and writes in the loop's own order, so overlapping
  arguments behave as they do in the code; the closed forms that the rest of the kernel
  model uses are proved, not assumed.
\<close>

section \<open>Memory blocks\<close>

definition memset :: "memory \<Rightarrow> u64 \<Rightarrow> u8 \<Rightarrow> u32 \<Rightarrow> memory" where
  "memset m dst c n = fold (\<lambda>i m. m(dst + of_nat i := c)) [0..<unat n] m"

fun memcmp_loop :: "memory \<Rightarrow> u64 \<Rightarrow> u64 \<Rightarrow> nat \<Rightarrow> int" where
  "memcmp_loop m s1 s2 0 = 0"
| "memcmp_loop m s1 s2 (Suc n) =
     (if m s1 \<noteq> m s2 then uint (m s1) - uint (m s2) else memcmp_loop m (s1 + 1) (s2 + 1) n)"

definition memcmp :: "memory \<Rightarrow> u64 \<Rightarrow> u64 \<Rightarrow> u32 \<Rightarrow> int" where
  "memcmp m v1 v2 n = memcmp_loop m v1 v2 (unat n)"

text \<open>The two copying loops of \<open>memmove\<close>: backwards from the ends, forwards from the starts.\<close>

fun move_down :: "memory \<Rightarrow> u64 \<Rightarrow> u64 \<Rightarrow> nat \<Rightarrow> memory" where
  "move_down m d s 0 = m"
| "move_down m d s (Suc n) = move_down (m(d - 1 := m (s - 1))) (d - 1) (s - 1) n"

fun move_up :: "memory \<Rightarrow> u64 \<Rightarrow> u64 \<Rightarrow> nat \<Rightarrow> memory" where
  "move_up m d s 0 = m"
| "move_up m d s (Suc n) = move_up (m(d := m s)) (d + 1) (s + 1) n"

definition memmove :: "memory \<Rightarrow> u64 \<Rightarrow> u64 \<Rightarrow> u32 \<Rightarrow> memory" where
  "memmove m dst src n =
     (if n = 0 then m
      else if src < dst \<and> dst < src + ucast n
        then move_down m (dst + ucast n) (src + ucast n) (unat n)
        else move_up m dst src (unat n))"

definition memcpy :: "memory \<Rightarrow> u64 \<Rightarrow> u64 \<Rightarrow> u32 \<Rightarrow> memory" where
  "memcpy m dst src n = memmove m dst src n"

section \<open>Strings\<close>

fun strncmp_loop :: "memory \<Rightarrow> u64 \<Rightarrow> u64 \<Rightarrow> nat \<Rightarrow> int" where
  "strncmp_loop m p q 0 = 0"
| "strncmp_loop m p q (Suc n) =
     (if m p \<noteq> 0 \<and> m p = m q then strncmp_loop m (p + 1) (q + 1) n
      else uint (m p) - uint (m q))"

definition strncmp :: "memory \<Rightarrow> u64 \<Rightarrow> u64 \<Rightarrow> u32 \<Rightarrow> int" where
  "strncmp m p q n = strncmp_loop m p q (unat n)"

fun strncpy_pad :: "memory \<Rightarrow> u64 \<Rightarrow> nat \<Rightarrow> memory" where
  "strncpy_pad m s 0 = m"
| "strncpy_pad m s (Suc n) = strncpy_pad (m(s := 0)) (s + 1) n"

fun strncpy_copy :: "memory \<Rightarrow> u64 \<Rightarrow> u64 \<Rightarrow> nat \<Rightarrow> memory" where
  "strncpy_copy m s t 0 = m"
| "strncpy_copy m s t (Suc n) =
     (let m' = m(s := m t) in
      if m' s \<noteq> 0 then strncpy_copy m' (s + 1) (t + 1) n else strncpy_pad m' (s + 1) n)"

definition strncpy :: "memory \<Rightarrow> u64 \<Rightarrow> u64 \<Rightarrow> int \<Rightarrow> memory" where
  "strncpy m s t n = strncpy_copy m s t (nat n)"

text \<open>
  \<open>safestrcpy_loop m s t k\<close> is the loop of \<open>safestrcpy\<close> entered with \<open>--n\<close> about to give
  \<open>k\<close>, followed by the final store of the terminator.
\<close>

fun safestrcpy_loop :: "memory \<Rightarrow> u64 \<Rightarrow> u64 \<Rightarrow> nat \<Rightarrow> memory" where
  "safestrcpy_loop m s t 0 = m(s := 0)"
| "safestrcpy_loop m s t (Suc k) =
     (let m' = m(s := m t) in
      if m' s \<noteq> 0 then safestrcpy_loop m' (s + 1) (t + 1) k else m'(s + 1 := 0))"

definition safestrcpy :: "memory \<Rightarrow> u64 \<Rightarrow> u64 \<Rightarrow> int \<Rightarrow> memory" where
  "safestrcpy m s t n = (if n \<le> 0 then m else safestrcpy_loop m s t (nat n - 1))"

text \<open>\<open>strlen\<close> runs until it meets a zero byte; \<open>None\<close> when there is none.\<close>

partial_function (option) strlen_from :: "memory \<Rightarrow> u64 \<Rightarrow> int \<Rightarrow> int option" where
  "strlen_from m s n = (if m (s + of_int n) = 0 then Some n else strlen_from m s (n + 1))"

definition strlen :: "memory \<Rightarrow> u64 \<Rightarrow> int option" where
  "strlen m s = strlen_from m s 0"

section \<open>Closed forms\<close>

lemma memset_apply:
  "memset m dst c n a = (if unat (a - dst) < unat n then c else m a)"
proof -
  have "unat n < 2 ^ 32"
    using unsigned_less [of n, where ?'a = nat] by simp
  then have "unat n \<le> 2 ^ 64" by simp
  then show ?thesis
    unfolding memset_def by (subst fold_store) auto
qed

lemma memset_page:
  assumes "page_aligned p"
  shows "memset m p c 4096 a = (if PGROUNDDOWN a = p then c else m a)"
  using assms by (simp add: memset_apply PGROUNDDOWN_eq_iff)

text \<open>A forward copy whose source does not start below the destination inside the block.\<close>

lemma move_up_apply:
  assumes "unat d + n \<le> 2 ^ 64" "unat s + n \<le> 2 ^ 64" "s \<ge> d \<or> unat s + n \<le> unat d"
  shows "move_up m d s n a = (if unat (a - d) < n then m (s + (a - d)) else m a)"
  using assms
proof (induction n arbitrary: m d s)
  case (Suc n)
  show ?case
  proof (cases n)
    case 0
    have "unat (a - d) = 0 \<longleftrightarrow> a = d" by (simp add: unat_eq_zero)
    with 0 show ?thesis by auto
  next
    case (Suc n')
    then have d1: "unat (d + 1) = unat d + 1" and s1: "unat (s + 1) = unat s + 1"
      using Suc.prems(1,2) by (auto simp: unat_word_ariths)
    have IH: "move_up (m(d := m s)) (d + 1) (s + 1) n a =
        (if unat (a - (d + 1)) < n then (m(d := m s)) (s + 1 + (a - (d + 1))) else (m(d := m s)) a)"
      using Suc.prems d1 s1 by (intro Suc.IH) (auto simp: word_le_nat_alt)
    have eq: "s + 1 + (a - (d + 1)) = s + (a - d)" by simp
    show ?thesis
    proof (cases "a = d")
      case True
      then have "unat (a - (d + 1)) = 2 ^ 64 - 1"
        by (simp add: unat_minus_1_64)
      with True IH Suc.prems(1) show ?thesis by simp
    next
      case False
      then have "a - d \<noteq> 0" by simp
      then have am: "unat (a - (d + 1)) = unat (a - d) - 1" "0 < unat (a - d)"
        by (simp_all add: unat_minus_one diff_diff_eq [symmetric] unat_gt_0)
      have ne: "s + (a - d) \<noteq> d" if lt: "unat (a - d) < Suc n"
      proof
        assume "s + (a - d) = d"
        then have "unat s + unat (a - d) = unat d"
          using Suc.prems(2) lt by (subst (asm) word_unat_eq_iff) (simp add: unat_word_ariths)
        with Suc.prems(3) lt am(2) show False by (auto simp: word_le_nat_alt)
      qed
      show ?thesis
        using IH False am ne by (auto simp: eq)
    qed
  qed
qed simp


text \<open>A backward copy whose source starts below the destination.\<close>

lemma move_down_apply:
  assumes "unat d + n \<le> 2 ^ 64" "unat s + n \<le> 2 ^ 64" "s < d"
  shows "move_down m (d + of_nat n) (s + of_nat n) n a =
    (if unat (a - d) < n then m (s + (a - d)) else m a)"
  using assms
proof (induction n arbitrary: m)
  case (Suc n)
  let ?m = "m(d + of_nat n := m (s + of_nat n))"
  have n: "unat (of_nat n :: u64) = n"
    using Suc.prems(1) by (simp add: unat_of_nat)
  have dn: "unat (d + of_nat n) = unat d + n" and sn: "unat (s + of_nat n) = unat s + n"
    using Suc.prems(1,2) n by (simp_all add: unat_word_ariths)
  have IH: "move_down ?m (d + of_nat n) (s + of_nat n) n a =
      (if unat (a - d) < n then ?m (s + (a - d)) else ?m a)"
    using Suc.prems by (intro Suc.IH) auto
  have step: "move_down m (d + of_nat (Suc n)) (s + of_nat (Suc n)) (Suc n) a =
      move_down ?m (d + of_nat n) (s + of_nat n) n a"
    by (simp add: algebra_simps)
  have ne: "s + (a - d) \<noteq> d + of_nat n" if lt: "unat (a - d) < n"
  proof
    assume "s + (a - d) = d + of_nat n"
    then have "unat s + unat (a - d) = unat d + n"
      using Suc.prems(2) lt by (subst (asm) word_unat_eq_iff) (simp add: dn unat_add_no_overflow)
    with Suc.prems(3) lt show False by (simp add: word_less_nat_alt)
  qed
  have last: "a = d + of_nat n \<longleftrightarrow> unat (a - d) = n"
  proof
    assume "unat (a - d) = n"
    then have "a - d = of_nat n" by auto
    then show "a = d + of_nat n" by (simp add: algebra_simps)
  qed (simp add: n)
  show ?case
    unfolding step IH using ne last by (auto simp: less_Suc_eq)
qed simp

text \<open>
  \<open>memmove\<close> copies the block as it was before the call, also when the two ranges overlap,
  and writes nothing outside the destination.
\<close>

lemma memmove_apply:
  assumes "unat dst + unat n \<le> 2 ^ 64" "unat src + unat n < 2 ^ 64"
  shows "memmove m dst src n a = (if unat (a - dst) < unat n then m (src + (a - dst)) else m a)"
proof (cases "n = 0")
  case False
  have end_src: "unat (src + ucast n) = unat src + unat n"
    using assms(2) by (subst unat_add_no_overflow) simp_all
  show ?thesis
  proof (cases "src < dst \<and> dst < src + ucast n")
    case True
    then show ?thesis
      using move_down_apply [of dst "unat n" src m a] assms False
      by (simp add: memmove_def)
  next
    case no_overlap: False
    then have "src \<ge> dst \<or> unat src + unat n \<le> unat dst"
      by (auto simp: word_less_nat_alt word_le_nat_alt end_src)
    then show ?thesis
      using move_up_apply [of dst "unat n" src m a] assms False no_overlap
      by (auto simp: memmove_def)
  qed
qed (simp add: memmove_def)

lemma memmove_page:
  assumes "page_aligned p" "unat q + 4096 < 2 ^ 64"
  shows "memmove m p q 4096 a = (if PGROUNDDOWN a = p then m (q + (a - p)) else m a)"
  using assms page_bound [OF assms(1)]
  by (subst memmove_apply) (auto simp: PGROUNDDOWN_eq_iff)

section \<open>Zero-terminated strings\<close>

text \<open>\<open>str_at m p xs\<close>: the C string at \<open>p\<close> consists of the non-zero bytes \<open>xs\<close>.\<close>

fun str_at :: "memory \<Rightarrow> u64 \<Rightarrow> u8 list \<Rightarrow> bool" where
  "str_at m p [] \<longleftrightarrow> m p = 0"
| "str_at m p (x # xs) \<longleftrightarrow> x \<noteq> 0 \<and> m p = x \<and> str_at m (p + 1) xs"

lemma str_at_upd:
  "\<lbrakk>\<And>j. j \<le> length xs \<Longrightarrow> a \<noteq> p + of_nat j\<rbrakk> \<Longrightarrow> str_at (m(a := c)) p xs = str_at m p xs"
proof (induction xs arbitrary: p)
  case Nil
  then show ?case using Nil.prems [of 0] by simp
next
  case (Cons x xs)
  have "str_at (m(a := c)) (p + 1) xs = str_at m (p + 1) xs"
    using Cons.prems [of "Suc j" for j] by (intro Cons.IH) (simp add: add.assoc)
  then show ?case using Cons.prems [of 0] by (simp del: fun_upd_apply add: fun_upd_other)
qed

lemma str_at_unique: "str_at m p xs \<Longrightarrow> str_at m p ys \<Longrightarrow> xs = ys"
proof (induction xs arbitrary: p ys)
  case Nil
  then show ?case by (cases ys) auto
next
  case (Cons x xs)
  then show ?case by (cases ys) auto
qed

lemma strlen_from_str_at:
  "str_at m (s + of_int n) xs \<Longrightarrow> strlen_from m s n = Some (n + int (length xs))"
proof (induction xs arbitrary: n)
  case Nil
  then show ?case by (subst strlen_from.simps) simp
next
  case (Cons x xs)
  then have "strlen_from m s (n + 1) = Some (n + 1 + int (length xs))"
    by (intro Cons.IH) (simp add: add.assoc)
  with Cons.prems show ?case by (subst strlen_from.simps) simp
qed

lemma strlen_str_at: "str_at m s xs \<Longrightarrow> strlen m s = Some (int (length xs))"
  using strlen_from_str_at [of m s 0 xs] by (simp add: strlen_def)

text \<open>\<open>safestrcpy\<close> writes only its \<open>n\<close> bytes of destination.\<close>

lemma unat_pred_offset:
  fixes a s :: u64
  assumes "Suc k < unat (a - s)"
  shows "k < unat (a - (s + 1))"
proof -
  have "a - s \<noteq> 0" using assms by auto
  then have "unat (a - (s + 1)) = unat (a - s) - 1"
    by (simp add: unat_minus_one diff_diff_eq [symmetric])
  with assms show ?thesis by simp
qed

lemma safestrcpy_loop_frame:
  "k < unat (a - s) \<Longrightarrow> safestrcpy_loop m s t k a = m a"
proof (induction k arbitrary: m s t)
  case (Suc k)
  have "k < unat (a - (s + 1))" using Suc.prems by (rule unat_pred_offset)
  then have "safestrcpy_loop (m(s := m t)) (s + 1) (t + 1) k a = (m(s := m t)) a"
    by (rule Suc.IH)
  moreover have "a \<noteq> s" "a \<noteq> s + 1"
    using Suc.prems by auto
  ultimately show ?case by (simp add: Let_def)
qed auto

lemma safestrcpy_loop_str_at:
  assumes "str_at m t xs" "k < 2 ^ 63"
    and "\<And>i j. i \<le> k \<Longrightarrow> j \<le> length xs \<Longrightarrow> s + of_nat i \<noteq> t + of_nat j"
  shows "str_at (safestrcpy_loop m s t k) s (take k xs)"
  using assms
proof (induction k arbitrary: m s t xs)
  case (Suc k)
  show ?case
  proof (cases xs)
    case Nil
    with Suc.prems(1) show ?thesis by (simp add: Let_def)
  next
    case (Cons x ys)
    with Suc.prems(1) have x: "x \<noteq> 0" "m t = x" "str_at m (t + 1) ys" by auto
    have apart: "s \<noteq> t + 1 + of_nat j" if "j \<le> length ys" for j
      using Suc.prems(3) [of 0 "Suc j"] that Cons by (simp add: add.assoc)
    have "str_at (m(s := x)) (t + 1) ys"
      using x(3) apart by (simp add: str_at_upd)
    then have rest: "str_at (safestrcpy_loop (m(s := x)) (s + 1) (t + 1) k) (s + 1) (take k ys)"
      using Suc.prems(2) Suc.prems(3) [of "Suc i" "Suc j" for i j] Cons
      by (intro Suc.IH) (simp_all add: add.assoc del: fun_upd_apply)
    have "safestrcpy_loop (m(s := x)) (s + 1) (t + 1) k s = (m(s := x)) s"
      using Suc.prems(2) by (intro safestrcpy_loop_frame) (simp add: unat_minus_1_64)
    with rest x Cons show ?thesis by (simp add: Let_def)
  qed
qed simp

section \<open>String comparison\<close>

definition bytes_at :: "memory \<Rightarrow> u64 \<Rightarrow> nat \<Rightarrow> u8 list" where
  "bytes_at m p n = map (\<lambda>i. m (p + of_nat i)) [0..<n]"

lemma bytes_at_Suc: "bytes_at m p (Suc n) = m p # bytes_at m (p + 1) n"
  unfolding bytes_at_def
  by (simp add: upt_conv_Cons map_Suc_upt [symmetric] add.assoc del: upt_Suc)

lemma strncmp_loop_zero:
  "strncmp_loop m p q n = 0 \<longleftrightarrow>
   takeWhile (\<lambda>c. c \<noteq> 0) (bytes_at m p n) = takeWhile (\<lambda>c. c \<noteq> 0) (bytes_at m q n)"
proof (induction n arbitrary: p q)
  case 0
  then show ?case by (simp add: bytes_at_def)
next
  case (Suc n)
  then show ?case by (auto simp: bytes_at_Suc word_uint_eq_iff)
qed

section \<open>Correctness of the string routines\<close>

text \<open>
  C11. \<open>memmove\<close> is a block copy even when the two ranges overlap: the destination receives
  the bytes the source had before the call, in both copying directions, and no other byte
  of memory changes.
\<close>

theorem memmove_overlap_safe:
  assumes "unat dst + unat n \<le> 2 ^ 64" "unat src + unat n < 2 ^ 64"
  shows "memmove m dst src n =
    (\<lambda>a. if unat (a - dst) < unat n then m (src + (a - dst)) else m a)"
  using memmove_apply [OF assms] by blast

theorem memmove_overlap_safe_witness:
  "memmove ucast 12 10 4 15 = 13 \<and> memmove ucast 10 12 4 10 = 12"
  using memmove_overlap_safe [of 12 4 10 ucast] memmove_overlap_safe [of 10 4 12 ucast] by simp

text \<open>
  C12. \<open>safestrcpy\<close> into a buffer of \<open>n > 0\<close> bytes that does not overlap the source always
  leaves a terminated string there, the longest prefix of the source that fits, so a later
  \<open>strlen\<close> returns, with a result below \<open>n\<close>.
\<close>

theorem safestrcpy_terminates:
  assumes "str_at m t xs" "0 < n" "n < 2 ^ 31"
    and "\<forall>i<nat n. \<forall>j\<le>length xs. s + of_nat i \<noteq> t + of_nat j"
  shows "str_at (safestrcpy m s t n) s (take (nat n - 1) xs) \<and>
    strlen (safestrcpy m s t n) s = Some (int (min (length xs) (nat n - 1)))"
proof -
  have "str_at (safestrcpy_loop m s t (nat n - 1)) s (take (nat n - 1) xs)"
    using assms by (intro safestrcpy_loop_str_at) auto
  then have "str_at (safestrcpy m s t n) s (take (nat n - 1) xs)"
    using assms(2) by (simp add: safestrcpy_def)
  from this strlen_str_at [OF this] show ?thesis by (simp add: min.commute)
qed

theorem safestrcpy_terminates_witness:
  "str_at (safestrcpy ((\<lambda>_. 0)(0 := 104, 1 := 105, 2 := 106)) 100 0 3) 100 [104, 105]"
proof -
  have "\<forall>i<3. \<forall>j\<le>3. (100 :: u64) + of_nat i \<noteq> 0 + of_nat j"
    by (simp add: less_Suc_eq le_Suc_eq numeral_3_eq_3 all_simps(6)) 
  then show ?thesis
    using safestrcpy_terminates [of "(\<lambda>_. 0)(0 := 104, 1 := 105, 2 := 106)" 0 "[104, 105, 106]" 3 100]
    by (simp add: numeral_3_eq_3)
qed

text \<open>
  C13. \<open>strncmp\<close> returns 0 exactly when the two strings agree up to their terminators within
  the first \<open>n\<close> bytes.
\<close>

theorem strncmp_zero_iff:
  "strncmp m p q n = 0 \<longleftrightarrow>
   takeWhile (\<lambda>c. c \<noteq> 0) (bytes_at m p (unat n)) = takeWhile (\<lambda>c. c \<noteq> 0) (bytes_at m q (unat n))"
  unfolding strncmp_def by (rule strncmp_loop_zero)

end
