(* ===== verification/Kalloc.thy ===== *)
theory Kalloc
  imports CString
begin

text \<open>
  \<^verbatim>\<open>kernel/kalloc.c\<close>: the physical page allocator, with the per-page reference counter
  that the copy-on-write fork adds. The free list is the list of \<^verbatim>\<open>struct run\<close> that the
  code threads through the free pages themselves, so it lives in the modelled memory.
  \<open>kend\<close> is the linker's \<^verbatim>\<open>end\<close>, the first address after the kernel.

  The critical sections on \<^verbatim>\<open>kmem.lock\<close> and \<^verbatim>\<open>ref_page_lock\<close> are taken as executed
  without interference; the locks themselves are modelled in theory \<open>Spinlock\<close>. The reference
  counters are C ints; here they are unbounded, since a counter is at most the number of mappings of
  its page, which the page tables that fit in RAM keep far below the largest int.
\<close>

section \<open>State and operations\<close>

record kmem =
  mem :: memory
  freelist :: u64
  reference_counter :: "u64 \<Rightarrow> int"
  kend :: u64

definition kfree :: "u64 \<Rightarrow> 'a kmem_scheme \<Rightarrow> 'a kmem_scheme option" where
  "kfree pa s =
     (if pa mod PGSIZE \<noteq> 0 \<or> pa < kend s \<or> PHYSTOP \<le> pa then panic ''kfree''
      else if reference_counter s (pa div PGSIZE) \<le> 0 then panic ''decrementing freed page''
      else if reference_counter s (pa div PGSIZE) = 1 then
        let s = s\<lparr>reference_counter := (reference_counter s)(pa div PGSIZE := 0)\<rparr>;
            s = s\<lparr>mem := memset (mem s) pa 1 4096\<rparr>;
            r = pa;
            s = s\<lparr>mem := store64 (mem s) r (freelist s)\<rparr>
        in Some (s\<lparr>freelist := r\<rparr>)
      else
        Some (s\<lparr>reference_counter :=
          (reference_counter s)(pa div PGSIZE := reference_counter s (pa div PGSIZE) - 1)\<rparr>))"

definition kalloc :: "'a kmem_scheme \<Rightarrow> u64 \<times> 'a kmem_scheme" where
  "kalloc s =
     (let r = freelist s;
          s = (if r \<noteq> 0 then s\<lparr>freelist := load64 (mem s) r\<rparr> else s)
      in if r \<noteq> 0 then
           let s = s\<lparr>mem := memset (mem s) r 5 4096\<rparr>
           in (r, s\<lparr>reference_counter := (reference_counter s)(r div PGSIZE := 1)\<rparr>)
         else (r, s))"

text \<open>A call of \<open>kfree\<close> that returns was given an address below \<open>PHYSTOP\<close>, so the loop stops.\<close>

lemma kfree_returns_below: "kfree pa s = Some s' \<Longrightarrow> pa < PHYSTOP"
  by (auto simp: kfree_def split: if_splits)

function freerange_loop :: "u64 \<Rightarrow> u64 \<Rightarrow> 'a kmem_scheme \<Rightarrow> 'a kmem_scheme option" where
  "freerange_loop p pa_end s =
     (if p + PGSIZE \<le> pa_end
      then do { s \<leftarrow> kfree p s; freerange_loop (p + PGSIZE) pa_end s }
      else Some s)"
  by pat_completeness auto
termination
proof (relation "measure (\<lambda>(p, e, s). 2 ^ 64 - unat p)", goal_cases)
  case (2 p pa_end s s')
  then have "unat p < 0x88000000"
    using kfree_returns_below [of p s s'] by (simp add: PHYSTOP_val word_less_nat_alt)
  then show ?case
    by (simp add: unat_word_ariths)
qed simp

definition freerange :: "u64 \<Rightarrow> u64 \<Rightarrow> 'a kmem_scheme \<Rightarrow> 'a kmem_scheme option" where
  "freerange pa_start pa_end s = freerange_loop (PGROUNDUP pa_start) pa_end s"

definition kinit :: "'a kmem_scheme \<Rightarrow> 'a kmem_scheme option" where
  "kinit s =
     (let s = fold (\<lambda>i s. s\<lparr>reference_counter := (reference_counter s)(of_nat i := 1)\<rparr>)
                [0..<unat (PHYSTOP div PGSIZE)] s
      in freerange (kend s) PHYSTOP s)"

declare freerange_loop.simps [simp del]

section \<open>The free list as an abstract list of pages\<close>

fun flist :: "memory \<Rightarrow> u64 \<Rightarrow> u64 list \<Rightarrow> bool" where
  "flist m p [] \<longleftrightarrow> p = 0"
| "flist m p (q # qs) \<longleftrightarrow> p = q \<and> q \<noteq> 0 \<and> flist m (load64 m q) qs"

text \<open>A page the allocator may hand out: aligned, above the kernel image, below \<open>PHYSTOP\<close>.\<close>

definition ram_page :: "'a kmem_scheme \<Rightarrow> u64 \<Rightarrow> bool" where
  "ram_page s p \<longleftrightarrow> page_aligned p \<and> kend s \<le> p \<and> p < PHYSTOP"

abbreviation refs :: "'a kmem_scheme \<Rightarrow> u64 \<Rightarrow> int" where
  "refs s p \<equiv> reference_counter s (p div PGSIZE)"

text \<open>
  The allocator's invariant: \<open>ps\<close> is the free list, without repetition; a page of RAM is on
  it exactly when its reference count is 0, and no count is negative.
\<close>

definition kinv :: "u64 list \<Rightarrow> 'a kmem_scheme \<Rightarrow> bool" where
  "kinv ps s \<longleftrightarrow>
     KERNBASE \<le> kend s \<and> kend s \<le> PHYSTOP \<and>
     flist (mem s) (freelist s) ps \<and> distinct ps \<and>
     (\<forall>p. ram_page s p \<longrightarrow> 0 \<le> refs s p \<and> (p \<in> set ps \<longleftrightarrow> refs s p = 0)) \<and>
     (\<forall>p\<in>set ps. ram_page s p)"

lemma flist_unique: "flist m p xs \<Longrightarrow> flist m p ys \<Longrightarrow> xs = ys"
proof (induction xs arbitrary: p ys)
  case Nil
  then show ?case by (cases ys) auto
next
  case (Cons x xs)
  then show ?case by (cases ys) auto
qed

lemma load64_page_base:
  "page_aligned p \<Longrightarrow> (\<And>a. PGROUNDDOWN a = p \<Longrightarrow> m a = m' a) \<Longrightarrow> load64 m p = load64 m' p"
  using load64_page_cong [of p 0 m m'] by simp

text \<open>Only the pages of the list matter.\<close>

lemma flist_cong:
  assumes "\<forall>q\<in>set ps. page_aligned q" "\<And>a. PGROUNDDOWN a \<in> set ps \<Longrightarrow> m a = m' a"
  shows "flist m p ps = flist m' p ps"
  using assms
proof (induction ps arbitrary: p)
  case (Cons q qs)
  have "load64 m q = load64 m' q"
    using Cons.prems by (intro load64_page_base) auto
  moreover have "flist m (load64 m q) qs = flist m' (load64 m q) qs"
    using Cons.prems by (intro Cons.IH) auto
  ultimately show ?case by simp
qed simp

lemma page_index_inj:
  assumes "page_aligned p" "page_aligned q"
  shows "p div PGSIZE = q div PGSIZE \<longleftrightarrow> p = q"
proof
  assume "p div PGSIZE = q div PGSIZE"
  then have "unat (p div PGSIZE) = unat (q div PGSIZE)" by simp
  then have "unat p div 4096 = unat q div 4096"
    by (simp add: unat_div_distrib)
  then show "p = q"
    using assms by (auto simp: word_unat_eq_iff page_aligned_unat)
qed simp

lemma ram_page_aligned: "ram_page s p \<Longrightarrow> page_aligned p"
  by (simp add: ram_page_def)

lemma ram_pageD:
  assumes "ram_page s p" "KERNBASE \<le> kend s"
  shows "page_aligned p" "p \<noteq> 0" "unat p + 4096 < 2 ^ 64" "unat p < 2 ^ 56"
proof -
  show "page_aligned p" using assms(1) by (simp add: ram_page_def)
  have "KERNBASE \<le> p" using assms by (auto simp: ram_page_def intro: order_trans)
  then have lo: "0x80000000 \<le> unat p"
    by (simp add: KERNBASE_def word_le_nat_alt)
  have "p < PHYSTOP" using assms by (simp add: ram_page_def)
  then have hi: "unat p < 0x88000000"
    by (simp add: PHYSTOP_val word_less_nat_alt)
  show "p \<noteq> 0" using lo by (metis unat_0 not_numeral_le_zero)
  show "unat p + 4096 < 2 ^ 64" "unat p < 2 ^ 56" using hi by simp_all
qed

lemma kinvD:
  assumes "kinv ps s"
  shows "KERNBASE \<le> kend s" "kend s \<le> PHYSTOP" "flist (mem s) (freelist s) ps" "distinct ps"
    "p \<in> set ps \<Longrightarrow> ram_page s p" "p \<in> set ps \<Longrightarrow> refs s p = 0" "p \<in> set ps \<Longrightarrow> page_aligned p"
    "ram_page s p \<Longrightarrow> 0 \<le> refs s p" "ram_page s p \<Longrightarrow> refs s p = 0 \<Longrightarrow> p \<in> set ps"
  using assms unfolding kinv_def by (blast dest: ram_page_aligned)+

section \<open>Allocation\<close>

lemma kalloc_empty: "kinv [] s \<Longrightarrow> kalloc s = (0, s)"
  by (simp add: kinv_def kalloc_def)

text \<open>Allocation pops the free list: what changes is the page, its count and the list.\<close>

lemma kalloc_Cons:
  assumes "kinv (p # ps) s"
  obtains s' where "kalloc s = (p, s')" "kinv ps s'"
    "\<And>a. mem s' a = (if PGROUNDDOWN a = p then 5 else mem s a)"
    "reference_counter s' = (reference_counter s)(p div PGSIZE := 1)"
    "s' = s\<lparr>mem := mem s', freelist := freelist s', reference_counter := reference_counter s'\<rparr>"
proof -
  note inv = kinvD [OF assms]
  have p: "p \<noteq> 0" "freelist s = p" "flist (mem s) (load64 (mem s) p) ps" "page_aligned p" "p \<notin> set ps"
    using inv(3,4,7) by auto
  define s' where "s' = s\<lparr>mem := memset (mem s) p 5 4096, freelist := load64 (mem s) p,
    reference_counter := (reference_counter s)(p div PGSIZE := 1)\<rparr>"
  have m: "mem s' a = (if PGROUNDDOWN a = p then 5 else mem s a)" for a
    using p(4) by (simp add: s'_def memset_page)
  have "kalloc s = (p, s')"
    using p(1,2) by (simp add: kalloc_def s'_def)
  moreover have "kinv ps s'"
  proof -
    have "flist (mem s) (load64 (mem s) p) ps = flist (mem s') (load64 (mem s) p) ps"
      using inv(7) p(5) by (intro flist_cong) (auto simp: m)
    moreover have "ram_page s' q = ram_page s q" for q
      by (simp add: ram_page_def s'_def)
    moreover have "refs s' q = (if q = p then 1 else refs s q)" if "ram_page s q" for q
      using that p(4) page_index_inj [of q p] by (simp add: s'_def ram_page_def)
    ultimately show ?thesis
      using assms p(3,5) by (auto simp: kinv_def s'_def)
  qed
  ultimately show ?thesis
    using m by (intro that [of s']) (simp_all add: s'_def)
qed

section \<open>Freeing\<close>

lemma kfree_None_iff:
  "kfree p s = None \<longleftrightarrow> \<not> ram_page s p \<or> refs s p \<le> 0"
  by (auto simp: kfree_def ram_page_def page_aligned_def Let_def)

text \<open>Dropping a reference that is not the last one only counts down.\<close>

lemma kfree_shared:
  assumes "ram_page s p" "1 < refs s p"
  shows "kfree p s = Some (s\<lparr>reference_counter := (reference_counter s)(p div PGSIZE := refs s p - 1)\<rparr>)"
  using assms by (simp add: kfree_def ram_page_def page_aligned_def not_less not_le)

lemma kinv_refs_update:
  assumes "kinv ps s" "ram_page s p" "0 < refs s p" "0 < n"
  shows "kinv ps (s\<lparr>reference_counter := (reference_counter s)(p div PGSIZE := n)\<rparr>)"
proof -
  let ?s = "s\<lparr>reference_counter := (reference_counter s)(p div PGSIZE := n)\<rparr>"
  have p: "page_aligned p" using assms(2) by (simp add: ram_page_def)
  have "refs ?s q = (if q = p then n else refs s q)" if "ram_page s q" for q
    using that p page_index_inj [of q p] by (simp add: ram_page_def)
  moreover have "ram_page ?s q = ram_page s q" for q
    by (simp add: ram_page_def)
  ultimately show ?thesis
    using assms unfolding kinv_def by auto
qed

text \<open>Dropping the last reference pushes the page on the free list.\<close>

lemma kfree_last:
  assumes "kinv ps s" "ram_page s p" "refs s p = 1"
  obtains s' where "kfree p s = Some s'" "kinv (p # ps) s'"
    "\<And>a. PGROUNDDOWN a \<noteq> p \<Longrightarrow> mem s' a = mem s a"
    "reference_counter s' = (reference_counter s)(p div PGSIZE := 0)"
    "s' = s\<lparr>mem := mem s', freelist := freelist s', reference_counter := reference_counter s'\<rparr>"
proof -
  note inv = kinvD [OF assms(1)]
  note p = ram_pageD [OF assms(2) inv(1)]
  have fresh: "p \<notin> set ps" using assms inv(6) [of p] by auto
  define s' where "s' = s\<lparr>mem := store64 (memset (mem s) p 1 4096) p (freelist s), freelist := p,
    reference_counter := (reference_counter s)(p div PGSIZE := 0)\<rparr>"
  have m: "mem s' a = mem s a" if "PGROUNDDOWN a \<noteq> p" for a
    using that p(1) store64_other_page [of p 0 a] by (simp add: s'_def memset_page)
  have "kfree p s = Some s'"
    using assms(2,3) by (simp add: kfree_def s'_def ram_page_def page_aligned_def not_less not_le Let_def)
  moreover have "kinv (p # ps) s'"
  proof -
    have "flist (mem s') (load64 (mem s') p) ps"
    proof -
      have "load64 (mem s') p = freelist s" by (simp add: s'_def)
      moreover have "flist (mem s) (freelist s) ps = flist (mem s') (freelist s) ps"
        using inv(7) fresh by (intro flist_cong) (auto intro!: m [symmetric])
      ultimately show ?thesis using inv(3) by simp
    qed
    moreover have "ram_page s' q = ram_page s q" for q
      by (simp add: ram_page_def s'_def)
    moreover have "refs s' q = (if q = p then 0 else refs s q)" if "ram_page s q" for q
      using that p(1) page_index_inj [of q p] by (simp add: s'_def ram_page_def)
    ultimately show ?thesis
      using assms fresh p(2) by (auto simp: kinv_def s'_def)
  qed
  ultimately show ?thesis
    using m by (intro that [of s']) (simp_all add: s'_def)
qed

section \<open>Boot: every page of RAM becomes free\<close>

lemma last_page_below:
  assumes "page_aligned q" "q < PHYSTOP" "p \<le> q"
  shows "p + PGSIZE \<le> PHYSTOP" "unat (p + PGSIZE) = unat p + 4096"
proof -
  have "unat q < 0x88000000" "unat p \<le> unat q"
    using assms(2,3) by (simp_all add: PHYSTOP_val word_less_nat_alt word_le_nat_alt)
  moreover have "4096 dvd unat q" "4096 dvd (0x88000000::nat)"
    using assms(1) by (simp_all add: page_aligned_unat)
  ultimately have "unat p + 4096 \<le> 0x88000000"
    by (auto elim!: dvdE)
  then show "p + PGSIZE \<le> PHYSTOP" "unat (p + PGSIZE) = unat p + 4096"
    by (simp_all add: PHYSTOP_val word_le_nat_alt unat_word_ariths)
qed

lemma page_aligned_step: "page_aligned p \<Longrightarrow> page_aligned (p + PGSIZE)"
  by (auto simp: page_aligned_unat unat_word_ariths intro!: dvd_mod)

lemma next_page_le_iff:
  assumes "page_aligned p" "page_aligned q" "unat (p + PGSIZE) = unat p + 4096"
  shows "p + PGSIZE \<le> q \<longleftrightarrow> p \<le> q \<and> p \<noteq> q"
proof -
  obtain i where "unat p = 4096 * i"
    using assms(1) by (auto simp: page_aligned_unat)
  moreover obtain j where "unat q = 4096 * j"
    using assms(2) by (auto simp: page_aligned_unat)
  ultimately show ?thesis
    using assms(3) by (auto simp: word_le_nat_alt word_unat_eq_iff)
qed

lemma freerange_loop_frees:
  assumes "kinv ps s" "page_aligned p" "kend s \<le> p" "p \<le> PHYSTOP"
    and "\<And>q. ram_page s q \<Longrightarrow> p \<le> q \<Longrightarrow> refs s q = 1"
  shows "\<exists>ps' s'. freerange_loop p PHYSTOP s = Some s' \<and> kinv ps' s' \<and> kend s' = kend s \<and>
    set ps' = set ps \<union> {q. ram_page s q \<and> p \<le> q}"
  using assms
proof (induction "2 ^ 64 - unat p" arbitrary: ps s p rule: less_induct)
  case less
  show ?case
  proof (cases "p < PHYSTOP")
    case False
    then have "p = PHYSTOP" using less.prems(4) by simp
    moreover have "\<not> PHYSTOP + PGSIZE \<le> PHYSTOP" by (simp add: PHYSTOP_val)
    moreover have "{q. ram_page s q \<and> PHYSTOP \<le> q} = {}"
      by (auto simp: ram_page_def)
    ultimately show ?thesis
      using less.prems(1) by (subst freerange_loop.simps) auto
  next
    case True
    note last = last_page_below [OF less.prems(2) True order_refl]
    have shrink: "2 ^ 64 - unat (p + PGSIZE) < 2 ^ 64 - unat p"
      using last(2) unsigned_less [of "p + PGSIZE", where ?'a = nat] by simp
    have p: "ram_page s p" "refs s p = 1"
      using less.prems True by (auto simp: ram_page_def)
    from kfree_last [OF less.prems(1) p] obtain t where t: "kfree p s = Some t" "kinv (p # ps) t"
        "reference_counter t = (reference_counter s)(p div PGSIZE := 0)" "kend t = kend s"
      by (metis (no_types, lifting) kmem.ext_inject kmem.surjective kmem.update_convs)
    have ram: "ram_page t q = ram_page s q" for q
      by (simp add: ram_page_def t(4))
    have "refs t q = 1" if "ram_page t q" "p + PGSIZE \<le> q" for q
    proof -
      from that(1) have q: "ram_page s q" "page_aligned q"
        by (simp_all add: ram ram_page_aligned)
      then have "p \<le> q" "p \<noteq> q"
        using that(2) next_page_le_iff [OF less.prems(2) _ last(2)] by auto
      with q less.prems(2,5) page_index_inj [of p q] show ?thesis by (auto simp: t(3))
    qed
    moreover have "kend t \<le> p + PGSIZE"
      using less.prems(3) last(2) by (simp add: t(4) word_le_nat_alt)
    ultimately obtain ps' s' where r: "freerange_loop (p + PGSIZE) PHYSTOP t = Some s'"
        "kinv ps' s'" "kend s' = kend t" "set ps' = set (p # ps) \<union> {q. ram_page t q \<and> p + PGSIZE \<le> q}"
      using less.hyps [OF shrink t(2) page_aligned_step [OF less.prems(2)] _ last(1)] by auto
    have "ram_page t q \<and> p + PGSIZE \<le> q \<longleftrightarrow> ram_page s q \<and> p \<le> q \<and> p \<noteq> q" for q
      using next_page_le_iff [OF less.prems(2) ram_page_aligned last(2), of s q] by (auto simp: ram)
    then have "set (p # ps) \<union> {q. ram_page t q \<and> p + PGSIZE \<le> q} = set ps \<union> {q. ram_page s q \<and> p \<le> q}"
      using p(1) by auto
    with r t last(1) show ?thesis
      by (subst freerange_loop.simps) auto
  qed
qed

lemma kinit_counts:
  "fold (\<lambda>i s. s\<lparr>reference_counter := (reference_counter s)(of_nat i := 1)\<rparr>) xs s =
   s\<lparr>reference_counter := fold (\<lambda>i c. c(of_nat i := 1)) xs (reference_counter s)\<rparr>"
  by (induction xs arbitrary: s) simp_all

lemma kinit_refs:
  assumes "ram_page s p"
  shows "fold (\<lambda>i c. c(of_nat i := 1)) [0..<unat (PHYSTOP div PGSIZE)] f (p div PGSIZE) = 1"
proof -
  have "unat p < 0x88000000"
    using assms by (simp add: ram_page_def PHYSTOP_val word_less_nat_alt)
  then have "unat p div 4096 < 0x88000" by simp
  then have "unat (p div PGSIZE) < 0x88000"
    by (simp add: unat_div_distrib)
  then show ?thesis
    using fold_store [of "unat (PHYSTOP div PGSIZE)" 0 "\<lambda>_. 1" f "p div PGSIZE"]
    by (simp add: PHYSTOP_val)
qed

lemma PGROUNDUP_bounds:
  assumes "a \<le> PHYSTOP"
  shows "a \<le> PGROUNDUP a" "PGROUNDUP a \<le> PHYSTOP"
proof -
  have a: "unat a \<le> 0x88000000" using assms by (simp add: PHYSTOP_val word_le_nat_alt)
  then have "unat (a + 4095) = unat a + 4095" by (simp add: unat_word_ariths)
  then have "unat (PGROUNDUP a) = (unat a + 4095) div 4096 * 4096"
    by (simp add: PGROUNDUP_alt unat_PGROUNDDOWN)
  then show "a \<le> PGROUNDUP a" "PGROUNDUP a \<le> PHYSTOP"
    using a by (simp_all add: PHYSTOP_val word_le_nat_alt)
qed

lemma PGROUNDUP_least:
  assumes "a \<le> PHYSTOP" "page_aligned q" "a \<le> q"
  shows "PGROUNDUP a \<le> q"
proof -
  have a: "unat a \<le> 0x88000000" using assms(1) by (simp add: PHYSTOP_val word_le_nat_alt)
  then have "unat (a + 4095) = unat a + 4095" by (simp add: unat_word_ariths)
  then have "unat (PGROUNDUP a) = (unat a + 4095) div 4096 * 4096"
    by (simp add: PGROUNDUP_alt unat_PGROUNDDOWN)
  moreover obtain k where "unat q = 4096 * k"
    using assms(2) by (auto simp: page_aligned_unat)
  ultimately show ?thesis
    using assms(3) by (simp add: word_le_nat_alt)
qed

lemma kinit_kinv:
  assumes "KERNBASE \<le> kend s" "kend s \<le> PHYSTOP" "freelist s = 0"
  shows "\<exists>ps s'. kinit s = Some s' \<and> kinv ps s' \<and> set ps = {p. ram_page s p} \<and> kend s' = kend s"
proof -
  define s1 where "s1 = s\<lparr>reference_counter :=
    fold (\<lambda>i c. c(of_nat i := 1)) [0..<unat (PHYSTOP div PGSIZE)] (reference_counter s)\<rparr>"
  have ram: "ram_page s1 p = ram_page s p" for p by (simp add: s1_def ram_page_def)
  have one: "refs s1 p = 1" if "ram_page s p" for p
    using kinit_refs [OF that] by (simp add: s1_def)
  have "kinv [] s1"
    using assms one by (auto simp: kinv_def ram) (auto simp: s1_def)
  moreover have k1: "kend s1 = kend s" by (simp add: s1_def)
  ultimately obtain ps s' where *: "freerange_loop (PGROUNDUP (kend s1)) PHYSTOP s1 = Some s'"
      "kinv ps s'" "set ps = {q. ram_page s q \<and> PGROUNDUP (kend s1) \<le> q}" "kend s' = kend s1"
    using freerange_loop_frees [of "[]" s1 "PGROUNDUP (kend s1)"] assms(2) one PGROUNDUP_bounds [of "kend s"]
    by (auto simp: ram)
  moreover have "{q. ram_page s q \<and> PGROUNDUP (kend s1) \<le> q} = {q. ram_page s q}"
    using PGROUNDUP_least [OF assms(2)] by (auto simp: ram_page_def s1_def)
  moreover have "kinit s = freerange_loop (PGROUNDUP (kend s1)) PHYSTOP s1"
    by (simp add: kinit_def freerange_def kinit_counts s1_def)
  ultimately show ?thesis using k1 by auto
qed

section \<open>The interface of a counting page allocator\<close>

text \<open>
  What the virtual-memory code relies on: allocation takes a page off a pool and gives it
  one reference, releasing a page drops a reference and returns the page to the pool with
  the last one. The client facts below hold for every such allocator.
\<close>

fun iter_alloc :: "('s \<Rightarrow> u64 \<times> 's) \<Rightarrow> nat \<Rightarrow> 's \<Rightarrow> u64 list \<times> 's" where
  "iter_alloc alloc 0 s = ([], s)"
| "iter_alloc alloc (Suc n) s =
     (let (p, s) = alloc s; (ps, s) = iter_alloc alloc n s in (p # ps, s))"

fun iter_free :: "(u64 \<Rightarrow> 's \<Rightarrow> 's option) \<Rightarrow> nat \<Rightarrow> u64 \<Rightarrow> 's \<Rightarrow> 's option" where
  "iter_free free 0 p s = Some s"
| "iter_free free (Suc n) p s = do { s \<leftarrow> free p s; iter_free free n p s }"

locale page_pool =
  fixes alloc :: "'s \<Rightarrow> u64 \<times> 's"
    and free :: "u64 \<Rightarrow> 's \<Rightarrow> 's option"
    and pool :: "u64 list \<Rightarrow> 's \<Rightarrow> bool"
    and valid :: "'s \<Rightarrow> u64 \<Rightarrow> bool"
    and count :: "'s \<Rightarrow> u64 \<Rightarrow> int"
  assumes alloc_out: "pool [] s \<Longrightarrow> alloc s = (0, s)"
    and alloc_pop: "pool (p # ps) s \<Longrightarrow> \<exists>s'. alloc s = (p, s') \<and> pool ps s' \<and> count s' p = 1 \<and>
          valid s' = valid s \<and> (\<forall>q. valid s q \<longrightarrow> q \<noteq> p \<longrightarrow> count s' q = count s q)"
    and pool_page: "pool ps s \<Longrightarrow> p \<in> set ps \<Longrightarrow> valid s p \<and> p \<noteq> 0 \<and> count s p = 0"
    and pool_distinct: "pool ps s \<Longrightarrow> distinct ps"
    and free_last: "pool ps s \<Longrightarrow> valid s p \<Longrightarrow> count s p = 1 \<Longrightarrow>
          \<exists>s'. free p s = Some s' \<and> pool (p # ps) s' \<and> count s' p = 0 \<and>
            valid s' = valid s \<and> (\<forall>q. valid s q \<longrightarrow> q \<noteq> p \<longrightarrow> count s' q = count s q)"
    and free_shared: "pool ps s \<Longrightarrow> valid s p \<Longrightarrow> 1 < count s p \<Longrightarrow>
          \<exists>s'. free p s = Some s' \<and> pool ps s' \<and> count s' p = count s p - 1 \<and>
            valid s' = valid s \<and> (\<forall>q. valid s q \<longrightarrow> q \<noteq> p \<longrightarrow> count s' q = count s q)"
    and free_bad: "pool ps s \<Longrightarrow> \<not> valid s p \<or> count s p \<le> 0 \<Longrightarrow> free p s = None"
begin

lemma alloc_many:
  assumes "pool ps s" "n \<le> length ps"
  shows "\<exists>s'. iter_alloc alloc n s = (take n ps, s') \<and> pool (drop n ps) s' \<and> valid s' = valid s"
  using assms
proof (induction n arbitrary: ps s)
  case (Suc n)
  then obtain p qs where ps: "ps = p # qs" by (cases ps) auto
  with alloc_pop Suc.prems(1) obtain s1 where "alloc s = (p, s1)" "pool qs s1" "valid s1 = valid s"
    by blast
  with Suc.IH [of qs s1] Suc.prems(2) ps show ?case by auto
qed simp

lemma alloc_free_inverse:
  assumes "pool (p # ps) s"
  shows "\<exists>s' s''. alloc s = (p, s') \<and> free p s' = Some s'' \<and> pool (p # ps) s'' \<and>
    valid s'' = valid s \<and> (\<forall>q. valid s q \<longrightarrow> count s'' q = count s q)"
proof -
  have p: "valid s p" "count s p = 0"
    using pool_page [OF assms, of p] by auto
  from alloc_pop [OF assms] obtain s' where s': "alloc s = (p, s')" "pool ps s'" "count s' p = 1"
      "valid s' = valid s" "\<forall>q. valid s q \<longrightarrow> q \<noteq> p \<longrightarrow> count s' q = count s q" by blast
  from free_last [OF s'(2) _ s'(3)] p(1) s'(4) obtain s'' where s'': "free p s' = Some s''"
      "pool (p # ps) s''" "count s'' p = 0" "valid s'' = valid s'"
      "\<forall>q. valid s q \<longrightarrow> q \<noteq> p \<longrightarrow> count s'' q = count s' q" by auto
  have "count s'' q = count s q" if "valid s q" for q
    using that s'(5) s''(3,5) p(2) by (cases "q = p") auto
  with s' s'' show ?thesis by (intro exI [of _ s'] exI [of _ s'']) auto
qed

lemma freed_by_last_reference:
  assumes "pool ps s" "valid s p" "count s p = int (Suc n)" "k \<le> Suc n"
  shows "\<exists>s'. iter_free free k p s = Some s' \<and> count s' p = int (Suc n - k) \<and> valid s' = valid s \<and>
    pool (if k = Suc n then p # ps else ps) s'"
  using assms
proof (induction k arbitrary: n s)
  case 0
  then show ?case by auto
next
  case (Suc k)
  show ?case
  proof (cases n)
    case 0
    with Suc.prems free_last [of ps s p] show ?thesis by fastforce
  next
    case (Suc m)
    from free_shared [of ps s p] Suc.prems Suc obtain s1 where s1: "free p s = Some s1" "pool ps s1"
        "count s1 p = int (Suc m)" "valid s1 = valid s" by auto
    from Suc.IH [OF s1(2) _ s1(3)] s1(4) Suc.prems(2,4) Suc obtain s' where
      "iter_free free k p s1 = Some s'" "count s' p = int (Suc m - k)" "valid s' = valid s"
      "pool (if k = Suc m then p # ps else ps) s'" by auto
    with s1 Suc show ?thesis by auto
  qed
qed

end

lemma ram_page_kend: "kend t = kend s \<Longrightarrow> ram_page t = ram_page s"
  by (simp add: ram_page_def fun_eq_iff)

lemma kend_frame:
  "t = s\<lparr>mem := m, freelist := f, reference_counter := c\<rparr> \<Longrightarrow> kend t = kend s"
  by simp

lemma refs_upd:
  assumes "ram_page s p" "ram_page s q" "reference_counter t = (reference_counter s)(p div PGSIZE := n)"
  shows "refs t q = (if q = p then n else refs s q)"
  using assms page_index_inj [of q p] by (simp add: ram_page_def)

interpretation kalloc: page_pool kalloc kfree kinv ram_page refs
proof (unfold_locales, goal_cases)
  case (1 s)
  then show ?case by (rule kalloc_empty)
next
  case (2 p ps s)
  then obtain s' where s': "kalloc s = (p, s')" "kinv ps s'"
    "reference_counter s' = (reference_counter s)(p div PGSIZE := 1)"
    "s' = s\<lparr>mem := mem s', freelist := freelist s', reference_counter := reference_counter s'\<rparr>"
    by (rule kalloc_Cons)
  moreover have "ram_page s p" using 2 kinvD(5) by fastforce
  moreover have "ram_page s' = ram_page s"
    by (intro ram_page_kend kend_frame, rule s'(4))
  ultimately show ?case using refs_upd [of s p _ s' 1] by (intro exI [of _ s']) simp
next
  case (3 ps s p)
  then show ?case using kinvD(5,6) [OF 3(1), of p] ram_pageD(2) kinvD(1) [OF 3(1)] by blast
next
  case (4 ps s)
  then show ?case by (rule kinvD)
next
  case (5 ps s p)
  then obtain s' where s': "kfree p s = Some s'" "kinv (p # ps) s'"
    "reference_counter s' = (reference_counter s)(p div PGSIZE := 0)"
    "s' = s\<lparr>mem := mem s', freelist := freelist s', reference_counter := reference_counter s'\<rparr>"
    by (rule kfree_last)
  moreover have "ram_page s' = ram_page s"
    by (intro ram_page_kend kend_frame, rule s'(4))
  ultimately show ?case using refs_upd [OF 5(2), of _ s' 0] 5(2) by (intro exI [of _ s']) simp
next
  case (6 ps s p)
  let ?s = "s\<lparr>reference_counter := (reference_counter s)(p div PGSIZE := refs s p - 1)\<rparr>"
  have "kinv ps ?s" using 6 by (intro kinv_refs_update) auto
  moreover have "ram_page ?s = ram_page s" by (intro ram_page_kend) simp
  ultimately show ?case
    using kfree_shared [OF 6(2,3)] refs_upd [OF 6(2), of _ ?s "refs s p - 1"] 6(2) by simp
next
  case (7 ps s p)
  then show ?case by (simp add: kfree_None_iff)
qed

section \<open>Correctness of the allocator\<close>

text \<open>
  C7. Booting: from an empty free list, with the kernel image between \<open>KERNBASE\<close> and
  \<open>PHYSTOP\<close>, \<open>kinit\<close> returns without a panic and leaves exactly the pages between the
  image and \<open>PHYSTOP\<close> on the free list, each once and with reference count 0.
\<close>

theorem kinit_frees_all_ram:
  assumes "KERNBASE \<le> kend s" "kend s \<le> PHYSTOP" "freelist s = 0"
  shows "\<exists>ps s'. kinit s = Some s' \<and> kinv ps s' \<and> set ps = {p. ram_page s p}"
  using kinit_kinv [OF assms] by blast

theorem kinit_frees_all_ram_witness:
  "\<exists>ps s'. kinit \<lparr>mem = \<lambda>_. 0, freelist = 0, reference_counter = \<lambda>_. 0, kend = 0x87FFD123\<rparr> = Some s' \<and>
     kinv ps s' \<and>
     set ps = {p. ram_page \<lparr>mem = \<lambda>_. 0, freelist = 0, reference_counter = \<lambda>_. 0, kend = 0x87FFD123\<rparr> p}"
  by (rule kinit_frees_all_ram) (simp_all add: KERNBASE_def PHYSTOP_val)

text \<open>A machine with two pages of RAM, both free, to run the allocator on.\<close>

definition two_pages :: kmem where
  "two_pages = \<lparr>mem = store64 (\<lambda>_. 0) 0x87FFE000 0x87FFF000, freelist = 0x87FFE000,
     reference_counter = \<lambda>_. 0, kend = 0x87FFE000\<rparr>"

lemma two_pages_ram: "ram_page two_pages p \<longleftrightarrow> p = 0x87FFE000 \<or> p = 0x87FFF000"
proof
  assume "ram_page two_pages p"
  then have "4096 dvd unat p" "0x87FFE000 \<le> unat p" "unat p < 0x88000000"
    by (simp_all add: two_pages_def ram_page_def page_aligned_unat PHYSTOP_val word_le_nat_alt
        word_less_nat_alt)
  then obtain k where k: "unat p = 4096 * k" "0x87FFE \<le> k" "k < 0x88000" by auto
  then have "k = 0x87FFE \<or> k = 0x87FFF" by auto
  with k(1) have "unat p = 0x87FFE000 \<or> unat p = 0x87FFF000" by auto
  then show "p = 0x87FFE000 \<or> p = 0x87FFF000" by (simp add: word_unat_eq_iff)
qed (auto simp: two_pages_def ram_page_def page_aligned_def PHYSTOP_val)

lemma two_pages_kinv: "kinv [0x87FFE000, 0x87FFF000] two_pages"
proof -
  have "load64 (mem two_pages) 0x87FFF000 = load64 (\<lambda>_. 0) 0x87FFF000"
    using load64_store64_slot [of "0x87FFE000" "0x87FFF000" 0 0]
    by (simp add: two_pages_def page_aligned_def)
  also have "\<dots> = 0" by (simp add: load64_def upt_rec)
  finally have "flist (mem two_pages) (freelist two_pages) [0x87FFE000, 0x87FFF000]"
    by (simp add: two_pages_def)
  then show ?thesis
    unfolding kinv_def two_pages_ram by (simp add: two_pages_def KERNBASE_def PHYSTOP_val)
qed

text \<open>
  C8. Allocating \<open>n\<close> pages while that many are free hands out the first \<open>n\<close> pages of the
  free list: pairwise distinct pages of RAM, each with a positive reference count and no
  longer on the free list.
\<close>

theorem kalloc_distinct_pages:
  assumes "kinv ps s" "n \<le> length ps"
  shows "\<exists>s'. iter_alloc kalloc n s = (take n ps, s') \<and> kinv (drop n ps) s' \<and> distinct (take n ps) \<and>
    (\<forall>p\<in>set (take n ps). ram_page s' p \<and> 0 < refs s' p \<and> p \<notin> set (drop n ps))"
proof -
  from kalloc.alloc_many [OF assms] obtain s' where s': "iter_alloc kalloc n s = (take n ps, s')"
    "kinv (drop n ps) s'" "ram_page s' = ram_page s" by blast
  have "ram_page s' p \<and> 0 < refs s' p \<and> p \<notin> set (drop n ps)" if "p \<in> set (take n ps)" for p
  proof -
    have "ram_page s' p" using kinvD(5) [OF assms(1)] that s'(3) by (auto dest: in_set_takeD)
    moreover have "p \<notin> set (drop n ps)"
      using that kinvD(4) [OF assms(1)] set_take_disj_set_drop_if_distinct [of ps n n] by auto
    ultimately show ?thesis using kinvD(8,9) [OF s'(2), of p] by force
  qed
  with s' kinvD(4) [OF assms(1)] show ?thesis by auto
qed

theorem kalloc_distinct_pages_witness:
  "\<exists>s'. iter_alloc kalloc 2 two_pages = ([0x87FFE000, 0x87FFF000], s') \<and> kinv [] s'"
  using kalloc_distinct_pages [OF two_pages_kinv, of 2] by auto

text \<open>
  C9. A page with \<open>n + 1\<close> references survives its first \<open>n\<close> releases and goes back on the
  free list with exactly the last one; no release on the way panics.
\<close>

theorem kfree_last_reference:
  assumes "kinv ps s" "ram_page s p" "refs s p = int (Suc n)" "k \<le> Suc n"
  shows "\<exists>s'. iter_free kfree k p s = Some s' \<and> refs s' p = int (Suc n - k) \<and>
    kinv (if k = Suc n then p # ps else ps) s'"
  using kalloc.freed_by_last_reference [OF assms] by blast

theorem kfree_last_reference_witness:
  "\<exists>s'. iter_free kfree 2 0x87FFF000
      (two_pages\<lparr>freelist := 0, reference_counter := \<lambda>_. 2\<rparr>) = Some s' \<and>
    refs s' 0x87FFF000 = 0 \<and> kinv [0x87FFF000] s'"
proof -
  have "ram_page (two_pages\<lparr>freelist := 0, reference_counter := \<lambda>_. 2\<rparr>) = ram_page two_pages"
    by (rule ram_page_kend) simp
  then have "kinv [] (two_pages\<lparr>freelist := 0, reference_counter := \<lambda>_. 2\<rparr>)"
    by (simp add: kinv_def two_pages_def KERNBASE_def PHYSTOP_val)
  moreover have "ram_page (two_pages\<lparr>freelist := 0, reference_counter := \<lambda>_. 2\<rparr>) 0x87FFF000"
    by (simp add: ram_page_def two_pages_def page_aligned_def PHYSTOP_val)
  ultimately show ?thesis
    using kfree_last_reference [of "[]" _ "0x87FFF000" 1 2] by force
qed

text \<open>
  Freeing a page that was just allocated undoes the allocation: the free list is the one
  before, and so is every reference count.
\<close>

lemma kalloc_kfree_inverse:
  assumes "kinv (p # ps) s"
  shows "\<exists>s' s''. kalloc s = (p, s') \<and> kfree p s' = Some s'' \<and> kinv (p # ps) s'' \<and>
    (\<forall>q. ram_page s q \<longrightarrow> refs s'' q = refs s q)"
  using kalloc.alloc_free_inverse [OF assms] by blast

end
