(* ===== verification/Vm.thy ===== *)
theory Vm
  imports Kalloc
begin

text \<open>
  \<^verbatim>\<open>kernel/vm.c\<close>: Sv39 page tables in physical memory, with the copy-on-write sharing of
  \<^verbatim>\<open>uvmcopy\<close> and the copy-on-write branch of \<^verbatim>\<open>copyout\<close>. A page table is the address of
  its root page; every operation reads and writes entries in the modelled memory, entry
  \<open>i\<close> of the table at \<open>t\<close> being the 64-bit word at \<open>t + 8 * i\<close>. A null pointer result is
  the address 0, an \<^verbatim>\<open>int\<close> result is an \<open>int\<close>; permission and flag words have at most ten
  bits and are kept as 64-bit words.
\<close>

section \<open>Walking and mapping\<close>

fun walk_level :: "nat \<Rightarrow> u64 \<Rightarrow> u64 \<Rightarrow> bool \<Rightarrow> 'a kmem_scheme \<Rightarrow> u64 \<times> 'a kmem_scheme" where
  "walk_level 0 pagetable va alloc s = (pagetable + 8 * PX 0 va, s)"
| "walk_level (Suc l) pagetable va alloc s =
     (let pte = pagetable + 8 * PX (Suc l) va in
      if load64 (mem s) pte AND PTE_V \<noteq> 0
      then walk_level l (PTE2PA (load64 (mem s) pte)) va alloc s
      else if \<not> alloc then (0, s)
      else let (pagetable, s) = kalloc s in
        if pagetable = 0 then (0, s)
        else let s = s\<lparr>mem := memset (mem s) pagetable 0 4096\<rparr>;
                 s = s\<lparr>mem := store64 (mem s) pte (PA2PTE pagetable OR PTE_V)\<rparr>
             in walk_level l pagetable va alloc s)"

definition walk :: "u64 \<Rightarrow> u64 \<Rightarrow> bool \<Rightarrow> 'a kmem_scheme \<Rightarrow> (u64 \<times> 'a kmem_scheme) option" where
  "walk pagetable va alloc s =
     (if MAXVA \<le> va then panic ''walk'' else Some (walk_level 2 pagetable va alloc s))"

definition walkaddr :: "u64 \<Rightarrow> u64 \<Rightarrow> 'a kmem_scheme \<Rightarrow> u64 option" where
  "walkaddr pagetable va s =
     (if MAXVA \<le> va then Some 0
      else do {
        (pte, s) \<leftarrow> walk pagetable va False s;
        if pte = 0 then Some 0
        else if load64 (mem s) pte AND PTE_V = 0 then Some 0
        else if load64 (mem s) pte AND PTE_U = 0 then Some 0
        else Some (PTE2PA (load64 (mem s) pte)) })"

lemma walk_below: "walk pagetable va alloc s = Some r \<Longrightarrow> va < MAXVA"
  by (auto simp: walk_def split: if_splits)

lemma walk_below_unat: "walk pagetable va alloc s = Some r \<Longrightarrow> unat va < 0x4000000000"
  using walk_below [of pagetable va alloc s r] by (simp add: MAXVA_val word_less_nat_alt)

lemma shrink_64:
  "unat (a::u64) < 0x8000000000 \<Longrightarrow> 18446744073709551616 - unat (a + PGSIZE) < 18446744073709551616 - unat a"
  by (simp add: unat_word_ariths)

function mappages_loop ::
  "u64 \<Rightarrow> u64 \<Rightarrow> u64 \<Rightarrow> u64 \<Rightarrow> u64 \<Rightarrow> 'a kmem_scheme \<Rightarrow> (int \<times> 'a kmem_scheme) option" where
  "mappages_loop pagetable a last_a pa perm s =
     do {
       (pte, s) \<leftarrow> walk pagetable a True s;
       if pte = 0 then Some (-1, s)
       else if load64 (mem s) pte AND PTE_V \<noteq> 0 then panic ''mappages: remap''
       else let s = s\<lparr>mem := store64 (mem s) pte (PA2PTE pa OR perm OR PTE_V)\<rparr> in
         if a = last_a then Some (0, s)
         else mappages_loop pagetable (a + PGSIZE) last_a (pa + PGSIZE) perm s }"
  by pat_completeness auto
termination
proof (relation "measure (\<lambda>(pt, a, l, pa, perm, s). 2 ^ 64 - unat a)", goal_cases)
  case (2 pagetable a last_a pa perm s x pte s' s'')
  then show ?case using walk_below_unat [of pagetable a True s x] by (auto intro!: shrink_64)
qed simp

definition mappages ::
  "u64 \<Rightarrow> u64 \<Rightarrow> u64 \<Rightarrow> u64 \<Rightarrow> u64 \<Rightarrow> 'a kmem_scheme \<Rightarrow> (int \<times> 'a kmem_scheme) option" where
  "mappages pagetable va sz pa perm s =
     (if sz = 0 then panic ''mappages: size''
      else mappages_loop pagetable (PGROUNDDOWN va) (PGROUNDDOWN (va + sz - 1)) pa perm s)"

definition kvmmap :: "u64 \<Rightarrow> u64 \<Rightarrow> u64 \<Rightarrow> u64 \<Rightarrow> u64 \<Rightarrow> 'a kmem_scheme \<Rightarrow> 'a kmem_scheme option" where
  "kvmmap kpgtbl va pa sz perm s =
     do {
       (r, s) \<leftarrow> mappages kpgtbl va sz pa perm s;
       if r \<noteq> 0 then panic ''kvmmap'' else Some s }"

function uvmunmap_loop :: "u64 \<Rightarrow> u64 \<Rightarrow> u64 \<Rightarrow> bool \<Rightarrow> 'a kmem_scheme \<Rightarrow> 'a kmem_scheme option" where
  "uvmunmap_loop pagetable a va_end do_free s =
     (if a < va_end then do {
        (pte, s) \<leftarrow> walk pagetable a False s;
        if pte = 0 then panic ''uvmunmap: walk''
        else if load64 (mem s) pte AND PTE_V = 0 then panic ''uvmunmap: not mapped''
        else if PTE_FLAGS (load64 (mem s) pte) = PTE_V then panic ''uvmunmap: not a leaf''
        else do {
          s \<leftarrow> (if do_free then kfree (PTE2PA (load64 (mem s) pte)) s else Some s);
          uvmunmap_loop pagetable (a + PGSIZE) va_end do_free (s\<lparr>mem := store64 (mem s) pte 0\<rparr>) } }
      else Some s)"
  by pat_completeness auto
termination
proof (relation "measure (\<lambda>(pt, a, e, f, s). 2 ^ 64 - unat a)", goal_cases)
  case (2 pagetable a va_end do_free s x)
  then show ?case using walk_below_unat [of pagetable a False s x] by (auto intro!: shrink_64)
qed simp

definition uvmunmap :: "u64 \<Rightarrow> u64 \<Rightarrow> u64 \<Rightarrow> bool \<Rightarrow> 'a kmem_scheme \<Rightarrow> 'a kmem_scheme option" where
  "uvmunmap pagetable va npages do_free s =
     (if va mod PGSIZE \<noteq> 0 then panic ''uvmunmap: not aligned''
      else uvmunmap_loop pagetable va (va + npages * PGSIZE) do_free s)"

section \<open>User address spaces\<close>

definition uvmcreate :: "'a kmem_scheme \<Rightarrow> u64 \<times> 'a kmem_scheme" where
  "uvmcreate s =
     (let (pagetable, s) = kalloc s in
      if pagetable = 0 then (0, s)
      else (pagetable, s\<lparr>mem := memset (mem s) pagetable 0 4096\<rparr>))"

definition uvmfirst :: "u64 \<Rightarrow> u64 \<Rightarrow> u32 \<Rightarrow> 'a kmem_scheme \<Rightarrow> 'a kmem_scheme option" where
  "uvmfirst pagetable src sz s =
     (if 4096 \<le> sz then panic ''uvmfirst: more than a page''
      else let (pg, s) = kalloc s;
               s = s\<lparr>mem := memset (mem s) pg 0 4096\<rparr>
           in do {
             (r, s) \<leftarrow> mappages pagetable 0 PGSIZE pg (PTE_W OR PTE_R OR PTE_X OR PTE_U) s;
             Some (s\<lparr>mem := memmove (mem s) pg src sz\<rparr>) })"

definition uvmdealloc :: "u64 \<Rightarrow> u64 \<Rightarrow> u64 \<Rightarrow> 'a kmem_scheme \<Rightarrow> (u64 \<times> 'a kmem_scheme) option" where
  "uvmdealloc pagetable oldsz newsz s =
     (if oldsz \<le> newsz then Some (oldsz, s)
      else if PGROUNDUP newsz < PGROUNDUP oldsz then
        let npages = ucast ((PGROUNDUP oldsz - PGROUNDUP newsz) div PGSIZE) :: u32
        in do {
          s \<leftarrow> uvmunmap pagetable (PGROUNDUP newsz) (scast npages) True s;
          Some (newsz, s) }
      else Some (newsz, s))"

lemma mappages_below_unat:
  "mappages pagetable a sz pa perm s = Some r \<Longrightarrow> unat a < 0x8000000000"
proof -
  assume "mappages pagetable a sz pa perm s = Some r"
  then obtain q where "walk pagetable (PGROUNDDOWN a) True s = Some q"
    by (auto simp: mappages_def mappages_loop.simps [of _ "PGROUNDDOWN a"] split: if_splits)
  then have "unat (PGROUNDDOWN a) < 0x4000000000" by (rule walk_below_unat)
  then show ?thesis by (simp add: unat_PGROUNDDOWN)
qed

function uvmalloc_loop ::
  "u64 \<Rightarrow> u64 \<Rightarrow> u64 \<Rightarrow> u64 \<Rightarrow> u64 \<Rightarrow> 'a kmem_scheme \<Rightarrow> (u64 \<times> 'a kmem_scheme) option" where
  "uvmalloc_loop pagetable oldsz a newsz xperm s =
     (if a < newsz then
        let (pg, s) = kalloc s in
        if pg = 0 then do {
          (r, s) \<leftarrow> uvmdealloc pagetable a oldsz s;
          Some (0, s) }
        else
          let s = s\<lparr>mem := memset (mem s) pg 0 4096\<rparr> in do {
          (r, s) \<leftarrow> mappages pagetable a PGSIZE pg (PTE_R OR PTE_U OR xperm) s;
          if r \<noteq> 0 then do {
            s \<leftarrow> kfree pg s;
            (r, s) \<leftarrow> uvmdealloc pagetable a oldsz s;
            Some (0, s) }
          else uvmalloc_loop pagetable oldsz (a + PGSIZE) newsz xperm s }
      else Some (newsz, s))"
  by pat_completeness auto
termination
proof (relation "measure (\<lambda>(pt, l, a, n, x, s). 2 ^ 64 - unat a)", goal_cases)
  case (2 pagetable oldsz a newsz xperm s x pg s' s'' y)
  then show ?case
    using mappages_below_unat [of pagetable a PGSIZE pg "PTE_R OR PTE_U OR xperm" s'' y]
    by (auto intro!: shrink_64)
qed simp

definition uvmalloc :: "u64 \<Rightarrow> u64 \<Rightarrow> u64 \<Rightarrow> u64 \<Rightarrow> 'a kmem_scheme \<Rightarrow> (u64 \<times> 'a kmem_scheme) option" where
  "uvmalloc pagetable oldsz newsz xperm s =
     (if newsz < oldsz then Some (oldsz, s)
      else let oldsz = PGROUNDUP oldsz in uvmalloc_loop pagetable oldsz oldsz newsz xperm s)"

text \<open>\<open>freewalk_from t i\<close> is the loop of \<open>freewalk\<close> on the table \<open>t\<close> from entry \<open>i\<close> on.\<close>

partial_function (option) freewalk_from :: "u64 \<Rightarrow> nat \<Rightarrow> 'a kmem_scheme \<Rightarrow> 'a kmem_scheme option" where
  "freewalk_from pagetable i s =
     (if i < 512 then
        let pte = load64 (mem s) (pagetable + 8 * of_nat i) in
        if pte AND PTE_V \<noteq> 0 \<and> pte AND (PTE_R OR PTE_W OR PTE_X) = 0 then
          do { s \<leftarrow> freewalk_from (PTE2PA pte) 0 s;
               freewalk_from pagetable (i + 1)
                 (s\<lparr>mem := store64 (mem s) (pagetable + 8 * of_nat i) 0\<rparr>) }
        else if pte AND PTE_V \<noteq> 0 then panic ''freewalk: leaf''
        else freewalk_from pagetable (i + 1) s
      else kfree pagetable s)"

definition freewalk :: "u64 \<Rightarrow> 'a kmem_scheme \<Rightarrow> 'a kmem_scheme option" where
  "freewalk pagetable s = freewalk_from pagetable 0 s"

definition uvmfree :: "u64 \<Rightarrow> u64 \<Rightarrow> 'a kmem_scheme \<Rightarrow> 'a kmem_scheme option" where
  "uvmfree pagetable sz s =
     do {
       s \<leftarrow> (if 0 < sz then uvmunmap pagetable 0 (PGROUNDUP sz div PGSIZE) True s else Some s);
       freewalk pagetable s }"

section \<open>Copy-on-write fork\<close>

function uvmcopy_loop ::
  "u64 \<Rightarrow> u64 \<Rightarrow> u64 \<Rightarrow> u64 \<Rightarrow> 'a kmem_scheme \<Rightarrow> (int \<times> 'a kmem_scheme) option" where
  "uvmcopy_loop old new i sz s =
     (if i < sz then do {
        (pte, s) \<leftarrow> walk old i False s;
        if pte = 0 then panic ''uvmcopy: pte should exist''
        else if load64 (mem s) pte AND PTE_V = 0 then panic ''uvmcopy: page not present''
        else
          let e = load64 (mem s) pte;
              pa = PTE2PA e;
              flags = PTE_FLAGS e;
              (s, flags) =
                (if e AND PTE_W \<noteq> 0
                 then (s\<lparr>mem := store64 (mem s) pte ((e OR PTE_COW) AND NOT PTE_W)\<rparr>,
                       (flags OR PTE_COW) AND NOT PTE_W)
                 else (s, flags))
          in do {
            (r, s) \<leftarrow> mappages new i PGSIZE pa flags s;
            if r \<noteq> 0 then do {
              s \<leftarrow> uvmunmap new 0 (i div PGSIZE) True s;
              Some (-1, s) }
            else
              uvmcopy_loop old new (i + PGSIZE) sz
                (s\<lparr>reference_counter :=
                   (reference_counter s)(pa div PGSIZE := reference_counter s (pa div PGSIZE) + 1)\<rparr>) } }
      else Some (0, s))"
  by pat_completeness auto
termination
proof (relation "measure (\<lambda>(old, new, i, sz, s). 2 ^ 64 - unat i)", goal_cases)
  case (2 old new i sz s x)
  then show ?case using walk_below_unat [of old i False s x] by (auto intro!: shrink_64)
qed simp

definition uvmcopy :: "u64 \<Rightarrow> u64 \<Rightarrow> u64 \<Rightarrow> 'a kmem_scheme \<Rightarrow> (int \<times> 'a kmem_scheme) option" where
  "uvmcopy old new sz s = uvmcopy_loop old new 0 sz s"

definition uvmclear :: "u64 \<Rightarrow> u64 \<Rightarrow> 'a kmem_scheme \<Rightarrow> 'a kmem_scheme option" where
  "uvmclear pagetable va s =
     do {
       (pte, s) \<leftarrow> walk pagetable va False s;
       if pte = 0 then panic ''uvmclear''
       else Some (s\<lparr>mem := store64 (mem s) pte (load64 (mem s) pte AND NOT PTE_U)\<rparr>) }"

section \<open>Copying between kernel and user memory\<close>

text \<open>
  The copy-on-write branch of \<open>copyout\<close>; the result tells whether the loop goes on
  (\<open>False\<close> is the \<^verbatim>\<open>return -1\<close>). \<open>e\<close> is the entry \<^verbatim>\<open>*my_pte\<close>.
\<close>

definition copyout_cow :: "u64 \<Rightarrow> u64 \<Rightarrow> u64 \<Rightarrow> 'a kmem_scheme \<Rightarrow> (bool \<times> 'a kmem_scheme) option" where
  "copyout_cow pagetable va0 e s =
     (let pa = PTE2PA e in
      if reference_counter s (pa div PGSIZE) \<le> 0 then Some (False, s)
      else
        let flags = (PTE_FLAGS e OR PTE_W) AND NOT PTE_COW;
            (new_page, s) = kalloc s
        in if new_page = 0 then Some (False, s)
        else let s = s\<lparr>mem := memmove (mem s) new_page pa 4096\<rparr> in
        do {
          s \<leftarrow> uvmunmap pagetable (PGROUNDUP va0) 1 True s;
          (r, s) \<leftarrow> mappages pagetable va0 PGSIZE new_page flags s;
          if r \<noteq> 0 then do { s \<leftarrow> kfree new_page s; Some (False, s) }
          else Some (True, s) })"

lemma chunk_pos:
  fixes len :: u64
  assumes "0 < len" "n = PGSIZE - (va - PGROUNDDOWN va)" "n' = (if len < n then len else n)"
  shows "0 < n'" "n' \<le> len" "n' \<le> PGSIZE" "unat (len - n') < unat len"
proof -
  have off: "unat (va - PGROUNDDOWN va) < 4096"
    by (simp add: PGROUNDDOWN_eq_iff [symmetric])
  then have n: "unat n = 4096 - unat (va - PGROUNDDOWN va)"
    unfolding assms(2) by (subst unat_sub_le) (simp_all add: word_le_nat_alt)
  show pos: "0 < n'"
    using assms(1,3) n off by (auto simp: word_less_nat_alt)
  show le: "n' \<le> len" using assms(3) by auto
  show "n' \<le> PGSIZE" using assms(3) n by (auto simp: word_le_nat_alt word_less_nat_alt)
  show "unat (len - n') < unat len"
    using pos le by (simp add: unat_sub_le word_less_nat_alt word_le_nat_alt)
qed

lemma chunk_shrink:
  fixes len :: u64
  assumes "0 < len"
  shows "unat (len - (if len < PGSIZE - (va - PGROUNDDOWN va) then len
    else PGSIZE - (va - PGROUNDDOWN va))) < unat len"
  using assms by (rule chunk_pos) (rule refl)+

text \<open>
  The kernel's side of a copy is a list of bytes: what the source buffer of \<open>copyout\<close> holds,
  what \<open>copyin\<close> and \<open>copyinstr\<close> have put into the destination buffer when they return.
\<close>

definition put_bytes :: "memory \<Rightarrow> u64 \<Rightarrow> u8 list \<Rightarrow> memory" where
  "put_bytes m a bs = (\<lambda>x. if unat (x - a) < length bs then bs ! unat (x - a) else m x)"

function copyout :: "u64 \<Rightarrow> u64 \<Rightarrow> u8 list \<Rightarrow> 'a kmem_scheme \<Rightarrow> (int \<times> 'a kmem_scheme) option" where
  "copyout pagetable dstva src s =
     (if src \<noteq> [] then
        let va0 = PGROUNDDOWN dstva in
        if MAXVA \<le> va0 \<or> va0 mod PGSIZE \<noteq> 0 then Some (-1, s)
        else do {
          (my_pte, s) \<leftarrow> walk pagetable va0 False s;
          if my_pte = 0 then Some (-1, s)
          else if load64 (mem s) my_pte AND PTE_V = 0 \<or> load64 (mem s) my_pte AND PTE_U = 0
          then Some (-1, s)
          else do {
            (ok, s) \<leftarrow> (if PTE_COW AND load64 (mem s) my_pte \<noteq> 0
                        then copyout_cow pagetable va0 (load64 (mem s) my_pte) s
                        else Some (True, s));
            if \<not> ok then Some (-1, s)
            else do {
              pa0 \<leftarrow> walkaddr pagetable va0 s;
              if pa0 = 0 then Some (-1, s)
              else
                let n = unat (PGSIZE - (dstva - va0));
                    n = (if length src < n then length src else n);
                    s = s\<lparr>mem := put_bytes (mem s) (pa0 + (dstva - va0)) (take n src)\<rparr>
                in copyout pagetable (va0 + PGSIZE) (drop n src) s } } }
      else Some (0, s))"
  by pat_completeness auto
termination
proof (relation "measure (\<lambda>(pt, d, src, s). length src)", goal_cases)
  case (2 pt dstva src s va0)
  have "unat (dstva - PGROUNDDOWN dstva) < 4096"
    by (simp add: PGROUNDDOWN_eq_iff [symmetric])
  then have "0 < unat (PGSIZE - (dstva - PGROUNDDOWN dstva))"
    by (subst unat_sub_le) (simp_all add: word_le_nat_alt)
  then show ?case using 2 by auto
qed simp

function copyin :: "u64 \<Rightarrow> u64 \<Rightarrow> u64 \<Rightarrow> 'a kmem_scheme \<Rightarrow> (int \<times> u8 list) option" where
  "copyin pagetable srcva len s =
     (if 0 < len then
        let va0 = PGROUNDDOWN srcva in do {
          pa0 \<leftarrow> walkaddr pagetable va0 s;
          if pa0 = 0 then Some (-1, [])
          else
            let n = PGSIZE - (srcva - va0);
                n = (if len < n then len else n)
            in do {
              (r, bs) \<leftarrow> copyin pagetable (va0 + PGSIZE) (len - n) s;
              Some (r, bytes_at (mem s) (pa0 + (srcva - va0)) (unat n) @ bs) } }
      else Some (0, []))"
  by pat_completeness auto
termination
  by (relation "measure (\<lambda>(pt, src, len, s). unat len)") (auto intro: chunk_shrink split del: if_split)

text \<open>
  The inner loop of \<open>copyinstr\<close> on one page, with its \<open>n\<close> as the recursion argument; the
  result is what it copied before a NUL, and \<open>got_null\<close>.
\<close>

fun copyinstr_page :: "nat \<Rightarrow> u64 \<Rightarrow> memory \<Rightarrow> u8 list \<times> bool" where
  "copyinstr_page 0 p m = ([], False)"
| "copyinstr_page (Suc n) p m =
     (if m p = 0 then ([], True)
      else let (bs, got_null) = copyinstr_page n (p + 1) m in (m p # bs, got_null))"

function copyinstr :: "u64 \<Rightarrow> u64 \<Rightarrow> u64 \<Rightarrow> 'a kmem_scheme \<Rightarrow> (int \<times> u8 list) option" where
  "copyinstr pagetable srcva mx s =
     (if 0 < mx then
        let va0 = PGROUNDDOWN srcva in do {
          pa0 \<leftarrow> walkaddr pagetable va0 s;
          if pa0 = 0 then Some (-1, [])
          else
            let n = PGSIZE - (srcva - va0);
                n = (if mx < n then mx else n);
                (bs, got_null) = copyinstr_page (unat n) (pa0 + (srcva - va0)) (mem s)
            in if got_null then Some (0, bs)
               else do {
                 (r, bs') \<leftarrow> copyinstr pagetable (va0 + PGSIZE) (mx - n) s;
                 Some (r, bs @ bs') } }
      else Some (-1, []))"
  by pat_completeness auto
termination
  by (relation "measure (\<lambda>(pt, src, mx, s). unat mx)") (auto intro: chunk_shrink split del: if_split)

lemmas vm_loops = mappages_loop.simps uvmunmap_loop.simps uvmalloc_loop.simps uvmcopy_loop.simps
  copyout.simps copyin.simps copyinstr.simps

declare vm_loops [simp del]

end
