(* ===== verification/PageTable.thy ===== *)
theory PageTable
  imports Vm "HOL-Library.Sublist"
begin

text \<open>
  The abstract view of the page tables that \<open>Vm\<close> manipulates: the tree of table pages
  below a root as a partial function from index paths, the address space of a root as a
  partial function from virtual addresses to entries, the invariant of all page tables of
  the system together (\<open>vm_ok\<close>), and how one store into a table page changes the view.
\<close>

section \<open>Indices of a virtual address\<close>

lemma bit_PX: "bit (PX l va) n \<longleftrightarrow> n < 9 \<and> bit va (12 + 9 * l + n)"
proof -
  have m9: "(0x1FF::u64) = mask 9" by (simp add: mask_eq_exp_minus_1)
  show ?thesis
    unfolding PX_def PXSHIFT_def m9 by (auto simp: bit_simps)
qed

lemma PX_less [simp]: "PX l va < 512"
proof -
  have "PX l va = take_bit 9 (PX l va)"
    by (rule bit_word_eqI) (auto simp: bit_PX bit_simps)
  then have "unat (PX l va) < 2 ^ 9"
    by (metis take_bit_nat_less_exp unsigned_take_bit_eq)
  then show ?thesis by (simp add: word_less_nat_alt)
qed

lemma PX_PGROUNDDOWN [simp]: "PX l (PGROUNDDOWN va) = PX l va"
  by (rule bit_word_eqI) (auto simp: bit_PX PGROUNDDOWN_bit)

lemma MAXVA_mask: "va < MAXVA \<longleftrightarrow> (\<forall>n\<ge>38. \<not> bit va n)"
proof
  assume "va < MAXVA"
  then have "unat va < 2 ^ 38" by (simp add: MAXVA_val word_less_nat_alt)
  then have "take_bit 38 va = va"
    by (simp add: word_unat_eq_iff unsigned_take_bit_eq take_bit_nat_eq_self)
  then show "\<forall>n\<ge>38. \<not> bit va n"
    by (metis bit_take_bit_iff linorder_not_less)
next
  assume *: "\<forall>n\<ge>38. \<not> bit va n"
  have "take_bit 38 va = va"
    using * by (intro bit_word_eqI) (auto simp: bit_simps not_less[symmetric])
  then have "unat va < 2 ^ 38"
    by (metis take_bit_nat_less_exp unsigned_take_bit_eq)
  then show "va < MAXVA" by (simp add: MAXVA_val word_less_nat_alt)
qed

lemma PX_eq_iff:
  assumes "va < MAXVA" "va' < MAXVA"
  shows "PX 2 va = PX 2 va' \<and> PX 1 va = PX 1 va' \<and> PX 0 va = PX 0 va' \<longleftrightarrow>
    PGROUNDDOWN va = PGROUNDDOWN va'"
proof
  assume eq: "PX 2 va = PX 2 va' \<and> PX 1 va = PX 1 va' \<and> PX 0 va = PX 0 va'"
  show "PGROUNDDOWN va = PGROUNDDOWN va'"
  proof (rule bit_word_eqI)
    fix n assume "n < LENGTH(64)"
    consider "n < 12" | "12 \<le> n" "n < 21" | "21 \<le> n" "n < 30" | "30 \<le> n" "n < 39" | "38 \<le> n"
      by linarith
    then show "bit (PGROUNDDOWN va) n = bit (PGROUNDDOWN va') n"
    proof cases
      case 2
      then show ?thesis
        using arg_cong [OF conjunct2 [OF conjunct2 [OF eq]], of "\<lambda>x. bit x (n - 12)"]
        by (simp add: bit_PX PGROUNDDOWN_bit less_diff_conv2)
    next
      case 3
      then show ?thesis
        using arg_cong [OF conjunct1 [OF conjunct2 [OF eq]], of "\<lambda>x. bit x (n - 21)"]
        by (simp add: bit_PX PGROUNDDOWN_bit less_diff_conv2)
    next
      case 4
      then show ?thesis
        using arg_cong [OF conjunct1 [OF eq], of "\<lambda>x. bit x (n - 30)"]
        by (simp add: bit_PX PGROUNDDOWN_bit less_diff_conv2)
    qed (use assms in \<open>auto simp: PGROUNDDOWN_bit MAXVA_mask\<close>)
  qed
next
  assume "PGROUNDDOWN va = PGROUNDDOWN va'"
  then show "PX 2 va = PX 2 va' \<and> PX 1 va = PX 1 va' \<and> PX 0 va = PX 0 va'"
    by (metis PX_PGROUNDDOWN)
qed

lemma PGROUNDDOWN_less_MAXVA [simp]: "PGROUNDDOWN va < MAXVA \<longleftrightarrow> va < MAXVA"
  unfolding MAXVA_mask by (auto simp: PGROUNDDOWN_bit)

section \<open>Entries\<close>

lemma page_aligned_PTE2PA [simp]: "page_aligned (PTE2PA e)"
  by (simp add: page_aligned_bits bit_PTE2PA)

lemma small_bits: "unat (p::u64) < 2 ^ 56 \<Longrightarrow> 56 \<le> n \<Longrightarrow> \<not> bit p n"
proof -
  assume "unat p < 2 ^ 56" "56 \<le> n"
  then have "take_bit 56 p = p"
    by (simp add: word_unat_eq_iff unsigned_take_bit_eq take_bit_nat_eq_self)
  then show ?thesis
    using \<open>56 \<le> n\<close> by (metis bit_take_bit_iff linorder_not_less)
qed

lemma PTE2PA_PA2PTE:
  assumes "page_aligned p" "unat p < 2 ^ 56" "\<And>n. bit f n \<Longrightarrow> n < 10"
  shows "PTE2PA (PA2PTE p OR f) = p"
proof (rule bit_word_eqI)
  fix n assume "n < LENGTH(64)"
  moreover have "\<not> n < 12 \<Longrightarrow> Suc (Suc (n - 2)) = n" by simp
  ultimately show "bit (PTE2PA (PA2PTE p OR f)) n = bit p n"
    using assms(1) assms(3) [of "n - 2"] small_bits [OF assms(2), of n]
    by (cases "n < 12") (auto simp: bit_PTE2PA bit_PA2PTE bit_or_iff page_aligned_bits)
qed

lemma PTE2PA_flags [simp]:
  "PTE2PA (e OR PTE_COW) = PTE2PA e" "PTE2PA (e OR PTE_W) = PTE2PA e"
  "PTE2PA (e AND NOT PTE_COW) = PTE2PA e" "PTE2PA (e AND NOT PTE_W) = PTE2PA e"
  "PTE2PA (e AND NOT PTE_U) = PTE2PA e"
  by (rule bit_word_eqI; auto simp: bit_PTE2PA bit_simps bit_PTE dest: bit_imp_le_length)+

section \<open>The tree of table pages\<close>

definition entry :: "memory \<Rightarrow> u64 \<Rightarrow> u64 \<Rightarrow> u64" where
  "entry m t i = load64 m (t + 8 * i)"

fun tbl :: "memory \<Rightarrow> u64 \<Rightarrow> u64 list \<Rightarrow> u64 option" where
  "tbl m t [] = Some t"
| "tbl m t (i # p) =
     (if i < 512 \<and> bit (entry m t i) 0 then tbl m (PTE2PA (entry m t i)) p else None)"

definition tabs :: "u64 set \<Rightarrow> memory \<Rightarrow> u64 set" where
  "tabs R m = {a. \<exists>r\<in>R. \<exists>p. length p \<le> 2 \<and> tbl m r p = Some a}"

definition forest :: "u64 set \<Rightarrow> memory \<Rightarrow> bool" where
  "forest R m \<longleftrightarrow> (\<forall>r\<in>R. page_aligned r) \<and>
     (\<forall>r\<in>R. \<forall>r'\<in>R. \<forall>p p' a. length p \<le> 2 \<longrightarrow> length p' \<le> 2 \<longrightarrow>
        tbl m r p = Some a \<longrightarrow> tbl m r' p' = Some a \<longrightarrow> r = r' \<and> p = p')"

text \<open>The address space below the root \<open>r\<close>: the valid leaf entry for a virtual address.\<close>

definition leaf :: "memory \<Rightarrow> u64 \<Rightarrow> u64 \<Rightarrow> u64 option" where
  "leaf m t i = (if bit (entry m t i) 0 then Some (entry m t i) else None)"

definition lookup :: "memory \<Rightarrow> u64 \<Rightarrow> u64 \<Rightarrow> u64 option" where
  "lookup m r va =
     (if va < MAXVA then Option.bind (tbl m r [PX 2 va, PX 1 va]) (\<lambda>t. leaf m t (PX 0 va)) else None)"

lemma tbl_append: "tbl m t (p @ q) = Option.bind (tbl m t p) (\<lambda>a. tbl m a q)"
  by (induction p arbitrary: t) auto

lemma tbl_aligned: "page_aligned t \<Longrightarrow> tbl m t p = Some a \<Longrightarrow> page_aligned a"
proof (induction p arbitrary: t)
  case (Cons i p)
  show ?case
    using Cons.IH [OF page_aligned_PTE2PA, of "entry m t i"] Cons.prems by (simp split: if_splits)
qed simp

lemma tbl_less: "tbl m t p = Some a \<Longrightarrow> i \<in> set p \<Longrightarrow> i < 512"
  by (induction p arbitrary: t) (auto split: if_splits)

lemma forestD:
  assumes "forest R m"
  shows "r \<in> R \<Longrightarrow> page_aligned r"
    "\<lbrakk>r \<in> R; r' \<in> R; tbl m r p = Some a; tbl m r' p' = Some a; length p \<le> 2; length p' \<le> 2\<rbrakk> \<Longrightarrow> r = r'"
    "\<lbrakk>r \<in> R; r' \<in> R; tbl m r p = Some a; tbl m r' p' = Some a; length p \<le> 2; length p' \<le> 2\<rbrakk> \<Longrightarrow> p = p'"
  using assms unfolding forest_def by blast+

lemma tabsI: "r \<in> R \<Longrightarrow> tbl m r p = Some a \<Longrightarrow> length p \<le> 2 \<Longrightarrow> a \<in> tabs R m"
  unfolding tabs_def by blast

lemma root_in_tabs: "r \<in> R \<Longrightarrow> r \<in> tabs R m"
  by (rule tabsI [of r R m "[]"]) auto

lemma entry_cong:
  "page_aligned t \<Longrightarrow> i < 512 \<Longrightarrow> (\<And>x. PGROUNDDOWN x = t \<Longrightarrow> m' x = m x) \<Longrightarrow> entry m' t i = entry m t i"
  unfolding entry_def by (rule load64_page_cong)

text \<open>Memory that agrees on the table pages has the same trees and address spaces.\<close>

lemma tbl_cong:
  assumes "page_aligned t"
    and "\<And>q a x. length q < length p \<Longrightarrow> tbl m t q = Some a \<Longrightarrow> PGROUNDDOWN x = a \<Longrightarrow> m' x = m x"
  shows "tbl m' t p = tbl m t p"
  using assms
proof (induction p arbitrary: t)
  case (Cons i p)
  have e: "entry m' t i = entry m t i" if "i < 512"
    using Cons.prems(1) that by (rule entry_cong) (rule Cons.prems(2) [of "[]" t], auto)
  have "tbl m' (PTE2PA (entry m t i)) p = tbl m (PTE2PA (entry m t i)) p"
    if "i < 512" "bit (entry m t i) 0"
  proof (rule Cons.IH)
    fix q a x assume "length q < length p" "tbl m (PTE2PA (entry m t i)) q = Some a" "PGROUNDDOWN x = a"
    then show "m' x = m x" using Cons.prems(2) [of "i # q" a x] that by simp
  qed simp
  with e show ?case by auto
qed simp

lemma agree_tabs:
  assumes "forest R m" "r \<in> R" "\<And>x. PGROUNDDOWN x \<in> tabs R m \<Longrightarrow> m' x = m x"
  shows "length p \<le> 2 \<Longrightarrow> tbl m' r p = tbl m r p" "lookup m' r va = lookup m r va"
proof -
  have t: "tbl m' r p = tbl m r p" if "length p \<le> 2" for p
  proof (rule tbl_cong)
    show "page_aligned r" using assms(1,2) by (rule forestD)
    fix q a x assume "length q < length p" "tbl m r q = Some a" "PGROUNDDOWN x = a"
    then show "m' x = m x"
      using that assms(2,3) tabsI [of r R m q a] by auto
  qed
  then show "length p \<le> 2 \<Longrightarrow> tbl m' r p = tbl m r p" by blast
  have "leaf m' a (PX 0 va) = leaf m a (PX 0 va)" if "tbl m r [PX 2 va, PX 1 va] = Some a" for a
  proof -
    have "page_aligned a" using forestD(1) [OF assms(1,2)] that by (rule tbl_aligned)
    moreover have "a \<in> tabs R m" using assms(2) that by (rule tabsI) simp
    ultimately have "entry m' a (PX 0 va) = entry m a (PX 0 va)"
      using assms(3) by (intro entry_cong) auto
    then show ?thesis by (simp add: leaf_def)
  qed
  then show "lookup m' r va = lookup m r va"
    by (cases "tbl m r [PX 2 va, PX 1 va]") (simp_all add: lookup_def t del: tbl.simps)
qed

lemma same_tbl:
  assumes "\<And>r p. r \<in> R \<Longrightarrow> length p \<le> 2 \<Longrightarrow> tbl m' r p = tbl m r p"
  shows "forest R m' = forest R m" "tabs R m' = tabs R m"
  using assms unfolding forest_def tabs_def by (simp, fastforce)

lemma agree_forest:
  assumes "forest R m" "\<And>x. PGROUNDDOWN x \<in> tabs R m \<Longrightarrow> m' x = m x"
  shows "forest R m'" "tabs R m' = tabs R m"
proof -
  have t: "tbl m' r p = tbl m r p" if "r \<in> R" "length p \<le> 2" for r p
    using assms(1) that(1) assms(2) that(2) by (rule agree_tabs)
  show "forest R m'" "tabs R m' = tabs R m"
    using assms(1) by (simp_all add: same_tbl [OF t])
qed

section \<open>One store into a table page\<close>

lemma entry_store:
  assumes "page_aligned t" "page_aligned a" "i < 512" "k < 512"
  shows "entry (store64 m (t + 8 * i) v) a k = (if a = t \<and> k = i then v else entry m a k)"
  using assms by (auto simp: entry_def load64_store64_slot)

text \<open>Only paths through the stored entry are affected.\<close>

lemma tbl_store:
  assumes "forest R m" "r0 \<in> R" "tbl m r0 p0 = Some t" "length p0 \<le> 2" "i < 512"
    and "r \<in> R" "length p \<le> 2" "\<not> (r = r0 \<and> prefix (p0 @ [i]) p)"
  shows "tbl (store64 m (t + 8 * i) v) r p = tbl m r p"
  using assms(7,8)
proof (induction p rule: rev_induct)
  case (snoc k p)
  let ?m = "store64 m (t + 8 * i) v"
  have IH: "tbl ?m r p = tbl m r p"
    using snoc by (auto simp: prefix_snoc)
  have "tbl ?m a [k] = tbl m a [k]" if a: "tbl m r p = Some a" for a
  proof -
    have "a \<noteq> t \<or> k \<noteq> i"
      using forestD(2,3) [OF assms(1) assms(6,2) a] assms(3,4) snoc.prems by auto
    moreover have "page_aligned a" "page_aligned t"
      using tbl_aligned forestD(1) [OF assms(1)] a assms by blast+
    ultimately have "k < 512 \<Longrightarrow> entry ?m a k = entry m a k"
      using assms(5) by (auto simp: entry_store)
    then show ?thesis by (cases "k < 512") simp_all
  qed
  then show ?case
    unfolding tbl_append IH by (cases "tbl m r p") auto
qed simp

text \<open>Writing a leaf entry changes the address space at one page and no tree.\<close>

lemma leaf_store:
  fixes v :: u64
  assumes "forest R m" "r0 \<in> R" "va0 < MAXVA" "tbl m r0 [PX 2 va0, PX 1 va0] = Some t"
  defines "m' \<equiv> store64 m (t + 8 * PX 0 va0) v"
  shows "r \<in> R \<Longrightarrow> length p \<le> 2 \<Longrightarrow> tbl m' r p = tbl m r p"
    and "forest R m'" "tabs R m' = tabs R m"
    and "r \<in> R \<Longrightarrow> lookup m' r va =
      (if r = r0 \<and> PGROUNDDOWN va = PGROUNDDOWN va0 then (if bit v 0 then Some v else None)
       else lookup m r va)"
proof -
  have t: "tbl m' r p = tbl m r p" if "r \<in> R" "length p \<le> 2" for r p
    unfolding m'_def using assms(1,2,4) _ _ that
    by (rule tbl_store) (use that(2) in \<open>auto dest!: prefix_length_le\<close>)
  then show "r \<in> R \<Longrightarrow> length p \<le> 2 \<Longrightarrow> tbl m' r p = tbl m r p" by blast
  show "forest R m'" "tabs R m' = tabs R m"
    using assms(1) by (simp_all add: same_tbl [OF t])
  show "lookup m' r va =
      (if r = r0 \<and> PGROUNDDOWN va = PGROUNDDOWN va0 then (if bit v 0 then Some v else None)
       else lookup m r va)" if r: "r \<in> R"
  proof (cases "va < MAXVA")
    case False
    then have "PGROUNDDOWN va \<noteq> PGROUNDDOWN va0"
      using assms(3) by (metis PGROUNDDOWN_less_MAXVA)
    with False show ?thesis by (simp add: lookup_def)
  next
    case True
    have "leaf m' a (PX 0 va) =
        (if r = r0 \<and> PGROUNDDOWN va = PGROUNDDOWN va0 then (if bit v 0 then Some v else None)
         else leaf m a (PX 0 va))" if a: "tbl m r [PX 2 va, PX 1 va] = Some a" for a
    proof -
      have "page_aligned a" "page_aligned t"
        using tbl_aligned forestD(1) [OF assms(1)] a assms r by blast+
      then have "entry m' a (PX 0 va) =
          (if a = t \<and> PX 0 va = PX 0 va0 then v else entry m a (PX 0 va))"
        unfolding m'_def by (intro entry_store) simp_all
      moreover have "a = t \<longleftrightarrow> r = r0 \<and> PX 2 va = PX 2 va0 \<and> PX 1 va = PX 1 va0"
        using forestD(2,3) [OF assms(1) r assms(2) a] assms(4) a by fastforce
      ultimately show ?thesis
        using PX_eq_iff [OF True assms(3)] by (auto simp: leaf_def)
    qed
    moreover have "tbl m r [PX 2 va, PX 1 va] = Some t"
      if "r = r0" "PGROUNDDOWN va = PGROUNDDOWN va0"
      using that assms(4) PX_eq_iff [OF True assms(3)] by auto
    ultimately show ?thesis
      using True t [OF r, of "[PX 2 va, PX 1 va]"]
      by (cases "tbl m r [PX 2 va, PX 1 va]") (auto simp: lookup_def simp del: tbl.simps)
  qed
qed

text \<open>Linking a zeroed page as a new table adds one path and changes no address space.\<close>

lemma link_store:
  assumes "forest R m" "r0 \<in> R" "tbl m r0 p0 = Some t" "length p0 < 2" "i < 512"
    and "\<not> bit (entry m t i) 0" "q \<notin> tabs R m" "page_aligned q" "unat q < 2 ^ 56"
    and "\<And>x. PGROUNDDOWN x = q \<Longrightarrow> m x = 0"
  defines "m' \<equiv> store64 m (t + 8 * i) (PA2PTE q OR PTE_V)"
  shows "r \<in> R \<Longrightarrow> length p \<le> 2 \<Longrightarrow>
      tbl m' r p = (if r = r0 \<and> p = p0 @ [i] then Some q else tbl m r p)"
    and "forest R m'" "tabs R m' = insert q (tabs R m)"
    and "r \<in> R \<Longrightarrow> lookup m' r va = lookup m r va"
proof -
  have al: "page_aligned t" using tbl_aligned forestD(1) [OF assms(1,2)] assms(3) by blast
  have tq: "t \<noteq> q" using assms(2,3,4,7) tabsI [of r0 R m p0 t] by auto
  have new: "PTE2PA (PA2PTE q OR PTE_V) = q" "bit (PA2PTE q OR PTE_V) 0"
    using assms(8,9) by (auto intro!: PTE2PA_PA2PTE simp: bit_PTE bit_or_iff)
  have zero: "entry m' q k = 0" if "k < 512" for k
  proof -
    have "load64 m (q + 8 * k) = load64 (\<lambda>_. 0) (q + 8 * k)"
      using assms(8,10) that by (intro load64_page_cong) auto
    also have "\<dots> = 0" by (rule bit_word_eqI) (simp add: bit_load64)
    finally show ?thesis
      unfolding m'_def using al assms(5,8) tq that by (simp add: entry_store) (simp add: entry_def)
  qed
  have zero_tbl: "tbl m' q p = None" if "p \<noteq> []" for p
    using that zero by (cases p) auto
  have old: "tbl m r0 (p0 @ i # p) = None" for p
    using assms(3,6) by (simp add: tbl_append)
  have new_tbl: "tbl m' r0 (p0 @ i # p) = (if p = [] then Some q else None)" for p
  proof -
    have "tbl m' r0 p0 = tbl m r0 p0"
      unfolding m'_def using assms(1,2,3) _ assms(5) assms(2) _ _
      by (rule tbl_store) (use assms(4) in \<open>auto dest!: prefix_length_le\<close>)
    moreover have "entry m' t i = PA2PTE q OR PTE_V"
      unfolding m'_def using al assms(5) by (simp add: entry_store)
    ultimately show ?thesis
      using assms(3,5) new zero_tbl by (simp add: tbl_append)
  qed
  have t: "tbl m' r p = (if r = r0 \<and> p = p0 @ [i] then Some q else tbl m r p)"
    if "r \<in> R" "length p \<le> 2" for r p
  proof (cases "r = r0 \<and> prefix (p0 @ [i]) p")
    case True
    then obtain p' where "r = r0" "p = p0 @ i # p'" by (auto simp: prefix_def)
    then show ?thesis using old [of p'] new_tbl [of p'] by auto
  next
    case False
    have "tbl m' r p = tbl m r p"
      unfolding m'_def using assms(1,2,3) _ assms(5) that False by (rule tbl_store) (use assms(4) in simp)
    with False show ?thesis by auto
  qed
  then show "r \<in> R \<Longrightarrow> length p \<le> 2 \<Longrightarrow>
      tbl m' r p = (if r = r0 \<and> p = p0 @ [i] then Some q else tbl m r p)" by blast
  have fresh: "tbl m r p \<noteq> Some q" if "r \<in> R" "length p \<le> 2" for r p
    using that assms(7) by (auto intro: tabsI)
  show "forest R m'"
    unfolding forest_def using forestD [OF assms(1)] fresh
    by (auto simp: t split: if_splits)
  show "tabs R m' = insert q (tabs R m)"
  proof (intro set_eqI iffI)
    fix a assume "a \<in> tabs R m'"
    then show "a \<in> insert q (tabs R m)" by (auto simp: tabs_def t split: if_splits)
  next
    fix a assume a: "a \<in> insert q (tabs R m)"
    have "q \<in> tabs R m'"
      using assms(2,4) by (intro tabsI [of r0 _ _ "p0 @ [i]"]) (simp_all add: t)
    moreover have "a \<in> tabs R m'" if r: "r \<in> R" "length p \<le> 2" "tbl m r p = Some a" for r p
    proof (rule tabsI [OF r(1) _ r(2)])
      show "tbl m' r p = Some a" using r old [of "[]"] by (auto simp: t)
    qed
    ultimately show "a \<in> tabs R m'" using a by (auto simp: tabs_def [of R m])
  qed
  show "lookup m' r va = lookup m r va" if r: "r \<in> R"
  proof (cases "va < MAXVA")
    case True
    let ?p = "[PX 2 va, PX 1 va]"
    show ?thesis
    proof (cases "r = r0 \<and> ?p = p0 @ [i]")
      case eq: True
      have "tbl m r ?p = None" using eq old [of "[]"] by metis
      moreover have "tbl m' r ?p = Some q" using eq new_tbl [of "[]"] by metis
      ultimately show ?thesis using True zero [of "PX 0 va"] by (simp add: lookup_def leaf_def del: tbl.simps)
    next
      case False
      then have same: "tbl m' r ?p = tbl m r ?p"
        using t [OF r, of ?p] by (metis One_nat_def Suc_1 le_refl length_Cons list.size(3))
      have "leaf m' a (PX 0 va) = leaf m a (PX 0 va)" if a: "tbl m r ?p = Some a" for a
      proof -
        have "a \<noteq> t"
          using forestD(3) [OF assms(1) r assms(2) a, of p0] assms(3,4) by auto
        moreover have "page_aligned a" using tbl_aligned forestD(1) [OF assms(1) r] a by blast
        ultimately show ?thesis
          unfolding leaf_def m'_def using al assms(5) by (simp add: entry_store)
      qed
      with same True show ?thesis
        by (cases "tbl m r ?p") (simp_all add: lookup_def del: tbl.simps)
    qed
  qed (simp add: lookup_def)
qed

end
