(* ===== verification/VmInv.thy ===== *)
theory VmInv
  imports PageTable
begin

text \<open>
  The invariant that ties the page tables of the system to the page allocator, and what
  \<^verbatim>\<open>walk\<close>, the only routine that allocates table pages, does to it.

  \<open>R\<close> is the set of roots of all page tables, \<open>ps\<close> the free list, and \<open>c p\<close> the number of
  references to page \<open>p\<close> that the kernel holds outside the page tables (a page it has just
  allocated, a trapframe that is not mapped). Every reference count is then exact: the
  number of leaf entries that map the page, plus one if it is a table page, plus \<open>c p\<close>.
\<close>

section \<open>The invariant\<close>

definition maps :: "u64 set \<Rightarrow> memory \<Rightarrow> u64 \<Rightarrow> (u64 \<times> u64) set" where
  "maps R m p = {(r, va). r \<in> R \<and> page_aligned va \<and> map_option PTE2PA (lookup m r va) = Some p}"

definition vm_ok :: "u64 set \<Rightarrow> u64 list \<Rightarrow> (u64 \<Rightarrow> int) \<Rightarrow> 'a kmem_scheme \<Rightarrow> bool" where
  "vm_ok R ps c s \<longleftrightarrow> finite R \<and> kinv ps s \<and> forest R (mem s) \<and>
     (\<forall>a\<in>tabs R (mem s). ram_page s a \<and> 0 < refs s a) \<and>
     (\<forall>r\<in>R. \<forall>va e. lookup (mem s) r va = Some e \<longrightarrow>
        PTE2PA e \<notin> tabs R (mem s) \<and> (ram_page s (PTE2PA e) \<longrightarrow> 0 < refs s (PTE2PA e))) \<and>
     (\<forall>p. ram_page s p \<longrightarrow>
        refs s p = int (card (maps R (mem s) p)) + of_bool (p \<in> tabs R (mem s)) + c p)"

lemma vm_okD:
  assumes "vm_ok R ps c s"
  shows "finite R" "kinv ps s" "forest R (mem s)"
    "a \<in> tabs R (mem s) \<Longrightarrow> ram_page s a" "a \<in> tabs R (mem s) \<Longrightarrow> 0 < refs s a"
    "r \<in> R \<Longrightarrow> lookup (mem s) r va = Some e \<Longrightarrow> PTE2PA e \<notin> tabs R (mem s)"
    "r \<in> R \<Longrightarrow> lookup (mem s) r va = Some e \<Longrightarrow> ram_page s (PTE2PA e) \<Longrightarrow> 0 < refs s (PTE2PA e)"
    "ram_page s p \<Longrightarrow> refs s p = int (card (maps R (mem s) p)) + of_bool (p \<in> tabs R (mem s)) + c p"
  using assms unfolding vm_ok_def by blast+

lemma vm_okI:
  assumes "finite R" "kinv ps s" "forest R (mem s)"
    "\<And>a. a \<in> tabs R (mem s) \<Longrightarrow> ram_page s a \<and> 0 < refs s a"
    "\<And>r va e. r \<in> R \<Longrightarrow> lookup (mem s) r va = Some e \<Longrightarrow>
       PTE2PA e \<notin> tabs R (mem s) \<and> (ram_page s (PTE2PA e) \<longrightarrow> 0 < refs s (PTE2PA e))"
    "\<And>p. ram_page s p \<Longrightarrow>
       refs s p = int (card (maps R (mem s) p)) + of_bool (p \<in> tabs R (mem s)) + c p"
  shows "vm_ok R ps c s"
  using assms unfolding vm_ok_def by blast

lemma finite_maps [simp]: "finite R \<Longrightarrow> finite (maps R m p)"
  by (rule finite_subset [of _ "R \<times> UNIV"]) (auto simp: maps_def)

lemma lookup_PGROUNDDOWN [simp]: "lookup m r (PGROUNDDOWN va) = lookup m r va"
  by (simp add: lookup_def)

lemma maps_cong: "(\<And>r va. r \<in> R \<Longrightarrow> lookup m' r va = lookup m r va) \<Longrightarrow> maps R m' p = maps R m p"
  by (auto simp: maps_def)

lemma tabs_aligned: "forest R m \<Longrightarrow> a \<in> tabs R m \<Longrightarrow> page_aligned a"
  unfolding tabs_def by (blast intro: tbl_aligned forestD)

text \<open>Free pages are neither tables nor mapped.\<close>

lemma free_page_unused:
  assumes "vm_ok R ps c s" "q \<in> set ps"
  shows "q \<notin> tabs R (mem s)" "r \<in> R \<Longrightarrow> lookup (mem s) r va = Some e \<Longrightarrow> PTE2PA e \<noteq> q"
    "maps R (mem s) q = {}" "c q = 0"
proof -
  note ok = vm_okD [OF assms(1)]
  have q: "ram_page s q" "refs s q = 0" using kinvD(5,6) [OF ok(2) assms(2)] .
  show t: "q \<notin> tabs R (mem s)" using ok(5) [of q] q(2) by auto
  show u: "PTE2PA e \<noteq> q" if "r \<in> R" "lookup (mem s) r va = Some e" for r va e
    using ok(7) [OF that] q by auto
  show m: "maps R (mem s) q = {}" using u by (fastforce simp: maps_def)
  show "c q = 0" using ok(8) [OF q(1)] q(2) t m by simp
qed

text \<open>
  With the same mappings and at least the same tables, no page can be free that was not free
  before: the counts are exact.
\<close>

lemma free_pages_subset:
  assumes ok: "vm_ok R ps c s" "vm_ok R ps' c s'" and kend: "kend s' = kend s"
    and mp: "\<And>p. maps R (mem s') p = maps R (mem s) p" and tb: "tabs R (mem s) \<subseteq> tabs R (mem s')"
  shows "set ps' \<subseteq> set ps"
proof
  have ram: "ram_page s' = ram_page s" using kend by (rule ram_page_kend)
  fix q assume q: "q \<in> set ps'"
  then have z: "refs s' q = 0" "ram_page s q" using kinvD(5,6) [OF vm_okD(2) [OF ok(2)]] ram by auto
  then have "of_bool (q \<in> tabs R (mem s)) \<le> (of_bool (q \<in> tabs R (mem s')) :: int)" using tb by auto
  then have "refs s q \<le> 0"
    using vm_okD(8) [OF ok(1) z(2)] vm_okD(8) [OF ok(2), of q] z ram mp
    by (cases "q \<in> tabs R (mem s')") (auto split: if_splits)
  then show "q \<in> set ps" using kinvD(8,9) [OF vm_okD(2) [OF ok(1)] z(2)] by simp
qed

lemma kinv_mem:
  assumes "kinv ps s" "\<And>x. PGROUNDDOWN x \<in> set ps \<Longrightarrow> m x = mem s x"
  shows "kinv ps (s\<lparr>mem := m\<rparr>)"
proof -
  have "flist m (freelist s) ps = flist (mem s) (freelist s) ps"
    using kinvD(7) [OF assms(1)] assms(2) by (intro flist_cong) auto
  moreover have "ram_page (s\<lparr>mem := m\<rparr>) = ram_page s" by (rule ram_page_kend) simp
  ultimately show ?thesis using assms(1) by (simp add: kinv_def)
qed

section \<open>Steps that only add table pages\<close>

text \<open>
  \<open>grows R ps c s ps' s'\<close>: from \<open>s\<close> to \<open>s'\<close> some free pages became table pages; every address
  space, every byte outside the tables and the free pages, and every reference count of a
  page in use are as before.
\<close>

definition grows :: "u64 set \<Rightarrow> u64 list \<Rightarrow> (u64 \<Rightarrow> int) \<Rightarrow> 'a kmem_scheme \<Rightarrow> u64 list \<Rightarrow> 'a kmem_scheme \<Rightarrow> bool" where
  "grows R ps c s ps' s' \<longleftrightarrow> vm_ok R ps' c s' \<and> suffix ps' ps \<and>
     kend s' = kend s \<and> kmem.more s' = kmem.more s \<and>
     (\<forall>r\<in>R. \<forall>va. lookup (mem s') r va = lookup (mem s) r va) \<and>
     tabs R (mem s') \<subseteq> tabs R (mem s) \<union> set ps \<and> tabs R (mem s) \<subseteq> tabs R (mem s') \<and>
     (\<forall>x. PGROUNDDOWN x \<notin> tabs R (mem s) \<longrightarrow> PGROUNDDOWN x \<notin> set ps \<longrightarrow> mem s' x = mem s x) \<and>
     (\<forall>p. ram_page s p \<longrightarrow> p \<notin> set ps \<or> p \<in> set ps' \<longrightarrow> refs s' p = refs s p)"

lemma growsD:
  assumes "grows R ps c s ps' s'"
  shows "vm_ok R ps' c s'" "suffix ps' ps" "kend s' = kend s" "kmem.more s' = kmem.more s"
    "r \<in> R \<Longrightarrow> lookup (mem s') r va = lookup (mem s) r va"
    "tabs R (mem s') \<subseteq> tabs R (mem s) \<union> set ps" "tabs R (mem s) \<subseteq> tabs R (mem s')"
    "PGROUNDDOWN x \<notin> tabs R (mem s) \<Longrightarrow> PGROUNDDOWN x \<notin> set ps \<Longrightarrow> mem s' x = mem s x"
    "ram_page s p \<Longrightarrow> p \<notin> set ps \<or> p \<in> set ps' \<Longrightarrow> refs s' p = refs s p"
    "ram_page s' = ram_page s" "set ps' \<subseteq> set ps"
proof -
  show k: "kend s' = kend s" and sf: "suffix ps' ps"
    using assms unfolding grows_def by blast+
  show "ram_page s' = ram_page s" using k by (rule ram_page_kend)
  show "set ps' \<subseteq> set ps" using sf by (rule set_mono_suffix)
qed (use assms in \<open>unfold grows_def, blast+\<close>)

lemma grows_refl: "vm_ok R ps c s \<Longrightarrow> grows R ps c s ps s"
  by (simp add: grows_def)

lemma grows_trans:
  assumes "grows R ps c s ps1 s1" "grows R ps1 c s1 ps2 s2"
  shows "grows R ps c s ps2 s2"
proof -
  note a = growsD [OF assms(1)] and b = growsD [OF assms(2)]
  have "refs s2 p = refs s p" if "ram_page s p" "p \<notin> set ps \<or> p \<in> set ps2" for p
  proof -
    have "p \<notin> set ps \<or> p \<in> set ps1" "p \<notin> set ps1 \<or> p \<in> set ps2"
      using that(2) a(11) b(11) by blast+
    then show ?thesis using a(9) [of p] b(9) [of p] that(1) by (simp add: a(10))
  qed
  moreover have "mem s2 x = mem s x" if "PGROUNDDOWN x \<notin> tabs R (mem s)" "PGROUNDDOWN x \<notin> set ps" for x
  proof -
    have "PGROUNDDOWN x \<notin> tabs R (mem s1)" "PGROUNDDOWN x \<notin> set ps1" using that a(6,11) by blast+
    then show ?thesis using a(8) [of x] b(8) [of x] that by simp
  qed
  moreover have "suffix ps2 ps" using b(2) a(2) by (rule suffix_order.trans)
  moreover have "tabs R (mem s2) \<subseteq> tabs R (mem s) \<union> set ps" using a(6,11) b(6) by blast
  ultimately show ?thesis
    unfolding grows_def using a(3,4,5,7) b(1,3,4,5,7) by simp
qed

text \<open>The allocating branch of \<open>walk\<close>.\<close>

lemma alloc_table:
  assumes ok: "vm_ok R (q # ps) c s" and r: "r \<in> R" and p0: "tbl (mem s) r p0 = Some t" "length p0 < 2"
    and i: "i < 512" "\<not> bit (entry (mem s) t i) 0"
  obtains s1 where "kalloc s = (q, s1)"
    "grows R (q # ps) c s ps
      (s1\<lparr>mem := store64 (memset (mem s1) q 0 4096) (t + 8 * i) (PA2PTE q OR PTE_V)\<rparr>)"
    "tbl (store64 (memset (mem s1) q 0 4096) (t + 8 * i) (PA2PTE q OR PTE_V)) r (p0 @ [i]) = Some q"
proof -
  note ok' = vm_okD [OF ok]
  from kalloc_Cons [OF ok'(2)] obtain s1 where s1: "kalloc s = (q, s1)" "kinv ps s1"
    "\<And>a. mem s1 a = (if PGROUNDDOWN a = q then 5 else mem s a)"
    "reference_counter s1 = (reference_counter s)(q div PGSIZE := 1)"
    "s1 = s\<lparr>mem := mem s1, freelist := freelist s1, reference_counter := reference_counter s1\<rparr>"
    by blast
  note free = free_page_unused [OF ok, of q, simplified]
  have q: "ram_page s q" "q \<notin> set ps" using kinvD(4,5) [OF ok'(2)] by auto
  note qD = ram_pageD [OF q(1) kinvD(1) [OF ok'(2)]]
  let ?m1 = "memset (mem s1) q 0 4096"
  let ?m' = "store64 ?m1 (t + 8 * i) (PA2PTE q OR PTE_V)"
  have m1: "?m1 x = (if PGROUNDDOWN x = q then 0 else mem s x)" for x
    using qD(1) by (simp add: memset_page s1(3))
  have agree: "PGROUNDDOWN x \<in> tabs R (mem s) \<Longrightarrow> ?m1 x = mem s x" for x
    using free(1) by (auto simp: m1)
  have f1: "forest R ?m1" "tabs R ?m1 = tabs R (mem s)"
    using agree by (auto intro!: agree_forest [OF ok'(3)])
  have l1: "lookup ?m1 r va = lookup (mem s) r va" "length p \<le> 2 \<Longrightarrow> tbl ?m1 r p = tbl (mem s) r p"
    if "r \<in> R" for r va p
    using agree by (auto intro!: agree_tabs [OF ok'(3) that])
  have t: "t \<in> tabs R (mem s)" using r p0 by (intro tabsI) auto
  have "page_aligned t" using ok'(3) t by (rule tabs_aligned)
  then have e1: "entry ?m1 t i = entry (mem s) t i"
    using i(1) t free(1) by (intro entry_cong) (auto simp: m1)
  have p0': "tbl ?m1 r p0 = Some t" using l1(2) [OF r, of p0] p0 by simp
  note L = link_store [OF f1(1) r p0' p0(2) i(1), of q, unfolded f1(2) e1, OF i(2) free(1) qD(1,4)]
  have lk: "lookup ?m' r va = lookup (mem s) r va" if "r \<in> R" for r va
    using L(4) [OF _ that] l1(1) [OF that] by (simp add: m1)
  have tb: "tabs R ?m' = insert q (tabs R (mem s))" "forest R ?m'"
    using L(2,3) by (simp_all add: m1)
  have kend1: "kend s1 = kend s" using s1(5) by (rule kend_frame)
  let ?s' = "s1\<lparr>mem := ?m'\<rparr>"
  have ram: "ram_page ?s' = ram_page s" by (rule ram_page_kend) (simp add: kend1)
  have rf: "refs ?s' p = (if p = q then 1 else refs s p)" if "ram_page s p" for p
    using refs_upd [OF q(1) that, of ?s'] s1(4) by simp
  have tps: "t \<notin> set ps" using free_page_unused(1) [OF ok, of t] t by auto
  have out: "?m' x = mem s x" if "PGROUNDDOWN x \<noteq> t" "PGROUNDDOWN x \<noteq> q" for x
    using that \<open>page_aligned t\<close> i(1) by (simp add: m1)
  have kinv': "kinv ps ?s'"
  proof (rule kinv_mem [OF s1(2)])
    fix x assume "PGROUNDDOWN x \<in> set ps"
    then have "PGROUNDDOWN x \<noteq> t" "PGROUNDDOWN x \<noteq> q" using tps q(2) by auto
    then show "?m' x = mem s1 x" using out s1(3) by simp
  qed
  have mp: "maps R ?m' = maps R (mem s)" by (intro ext maps_cong lk)
  have "vm_ok R ps c ?s'"
  proof (rule vm_okI)
    show "finite R" "kinv ps ?s'" "forest R (mem ?s')" using ok'(1) kinv' tb(2) by simp_all
    show "ram_page ?s' a \<and> 0 < refs ?s' a" if "a \<in> tabs R (mem ?s')" for a
      using that ok'(4,5) [of a] rf [of a] q(1) by (auto simp: tb ram)
    show "PTE2PA e \<notin> tabs R (mem ?s') \<and> (ram_page ?s' (PTE2PA e) \<longrightarrow> 0 < refs ?s' (PTE2PA e))"
      if "r \<in> R" "lookup (mem ?s') r va = Some e" for r va e
      using ok'(6,7) [of r va e] free(2) [of r va e] rf [of "PTE2PA e"] that lk by (simp add: tb ram)
    show "refs ?s' p = int (card (maps R (mem ?s') p)) + of_bool (p \<in> tabs R (mem ?s')) + c p"
      if "ram_page ?s' p" for p
      using rf [of p] ok'(8) [of p] free that by (cases "p = q") (simp_all add: tb ram mp)
  qed
  moreover have "kmem.more s1 = kmem.more s"
    using s1(5) by (metis kmem.ext_inject kmem.surjective kmem.update_convs)
  moreover have "?m' x = mem s x" if "PGROUNDDOWN x \<notin> tabs R (mem s)" "PGROUNDDOWN x \<notin> set (q # ps)" for x
    using out [of x] that t by auto
  moreover have "suffix ps (q # ps)" by (simp add: suffix_Cons)
  ultimately have "grows R (q # ps) c s ps ?s'"
    unfolding grows_def using lk tb(1) kend1 rf q(2) by auto
  moreover have "tbl ?m' r (p0 @ [i]) = Some q"
    using L(1) [OF _ r, of "p0 @ [i]"] p0(2) by (simp add: m1)
  ultimately show ?thesis using s1(1) that by blast
qed

section \<open>Walking\<close>

definition vpath :: "u64 \<Rightarrow> u64 list" where
  "vpath va = [PX 2 va, PX 1 va]"

lemma lookup_vpath:
  "lookup m r va =
     (if va < MAXVA then Option.bind (tbl m r (vpath va)) (\<lambda>t. leaf m t (PX 0 va)) else None)"
  by (simp add: lookup_def vpath_def)

lemma walk_level_False:
  assumes "l \<le> 2" "tbl (mem s) r (take (2 - l) (vpath va)) = Some t"
  shows "walk_level l t va False s =
    (case tbl (mem s) r (vpath va) of None \<Rightarrow> 0 | Some t \<Rightarrow> t + 8 * PX 0 va, s)"
  using assms
proof (induction l arbitrary: t)
  case 0
  then show ?case by (simp add: vpath_def del: tbl.simps)
next
  case (Suc l)
  let ?e = "entry (mem s) t (PX (Suc l) va)"
  have step: "take (2 - l) (vpath va) = take (2 - Suc l) (vpath va) @ [PX (Suc l) va]"
    using Suc.prems(1) by (cases l) (auto simp: vpath_def numeral_2_eq_2)
  then have tbl: "tbl (mem s) r (take (2 - l) (vpath va)) = (if bit ?e 0 then Some (PTE2PA ?e) else None)"
    using Suc.prems(2) by (simp add: tbl_append)
  show ?case
  proof (cases "bit ?e 0")
    case True
    then show ?thesis
      using Suc.IH [of "PTE2PA ?e"] Suc.prems(1) tbl by (simp add: and_flag_iff entry_def)
  next
    case False
    then have "tbl (mem s) r (vpath va) = None"
      using tbl tbl_append [of "mem s" r "take (2 - l) (vpath va)" "drop (2 - l) (vpath va)"] by simp
    with False show ?thesis by (simp add: and_flag_iff entry_def)
  qed
qed

lemma walk_False:
  "va < MAXVA \<Longrightarrow> walk r va False s =
     Some (case tbl (mem s) r (vpath va) of None \<Rightarrow> 0 | Some t \<Rightarrow> t + 8 * PX 0 va, s)"
  using walk_level_False [of 2 s r va r] by (simp add: walk_def not_le)

lemma walk_level_present:
  assumes "l \<le> 2" "tbl (mem s) r (take (2 - l) (vpath va)) = Some t" "tbl (mem s) r (vpath va) = Some t'"
  shows "walk_level l t va alloc s = (t' + 8 * PX 0 va, s)"
  using assms
proof (induction l arbitrary: t)
  case 0
  then show ?case by (simp add: vpath_def del: tbl.simps)
next
  case (Suc l)
  let ?e = "entry (mem s) t (PX (Suc l) va)"
  have "take (2 - l) (vpath va) = take (2 - Suc l) (vpath va) @ [PX (Suc l) va]"
    using Suc.prems(1) by (cases l) (auto simp: vpath_def numeral_2_eq_2)
  then have tbl: "tbl (mem s) r (take (2 - l) (vpath va)) = (if bit ?e 0 then Some (PTE2PA ?e) else None)"
    using Suc.prems(2) by (simp add: tbl_append)
  moreover have "tbl (mem s) r (take (2 - l) (vpath va)) \<noteq> None"
    using Suc.prems(3) tbl_append [of "mem s" r "take (2 - l) (vpath va)" "drop (2 - l) (vpath va)"]
    by (cases "tbl (mem s) r (take (2 - l) (vpath va))") simp_all
  ultimately have "bit ?e 0" by (auto split: if_splits)
  then show ?case
    using Suc.IH [of "PTE2PA ?e"] Suc.prems(1,3) tbl by (simp add: and_flag_iff entry_def)
qed

lemma walk_present:
  "va < MAXVA \<Longrightarrow> tbl (mem s) r (vpath va) = Some t \<Longrightarrow> walk r va alloc s = Some (t + 8 * PX 0 va, s)"
  using walk_level_present [of 2 s r va r t alloc] by (simp add: walk_def not_le)

lemma walk_level_True:
  assumes "l \<le> 2" "vm_ok R ps c s" "r \<in> R" "tbl (mem s) r (take (2 - l) (vpath va)) = Some t"
  shows "\<exists>pte ps' s'. walk_level l t va True s = (pte, s') \<and> grows R ps c s ps' s' \<and>
    length ps \<le> length ps' + l \<and>
    (pte = 0 \<and> ps' = [] \<and> length ps < l \<or>
     (\<exists>t'. tbl (mem s') r (vpath va) = Some t' \<and> pte = t' + 8 * PX 0 va))"
  using assms
proof (induction l arbitrary: t ps s)
  case 0
  then show ?case
    using grows_refl [OF 0(2)] by (auto simp: vpath_def simp del: tbl.simps)
next
  case (Suc l)
  let ?e = "entry (mem s) t (PX (Suc l) va)"
  have step: "take (2 - l) (vpath va) = take (2 - Suc l) (vpath va) @ [PX (Suc l) va]"
    using Suc.prems(1) by (cases l) (auto simp: vpath_def numeral_2_eq_2)
  then have tbl: "tbl (mem s) r (take (2 - l) (vpath va)) = (if bit ?e 0 then Some (PTE2PA ?e) else None)"
    using Suc.prems(4) by (simp add: tbl_append)
  show ?case
  proof (cases "bit ?e 0")
    case True
    then show ?thesis
      using Suc.IH [of ps s "PTE2PA ?e"] Suc.prems tbl by (fastforce simp: and_flag_iff entry_def)
  next
    case inv: False
    show ?thesis
    proof (cases ps)
      case Nil
      then have "kalloc s = (0, s)" using Suc.prems(2) vm_okD(2) kalloc_empty by blast
      with inv Nil grows_refl [OF Suc.prems(2)] show ?thesis
        by (auto simp: and_flag_iff entry_def Let_def)
    next
      case (Cons q qs)
      have "length (take (2 - Suc l) (vpath va)) < 2" by (simp add: vpath_def)
      from alloc_table [OF Suc.prems(2) [unfolded Cons] Suc.prems(3,4) this PX_less inv]
      obtain s1 where s1: "kalloc s = (q, s1)" "grows R (q # qs) c s qs
          (s1\<lparr>mem := store64 (memset (mem s1) q 0 4096) (t + 8 * PX (Suc l) va) (PA2PTE q OR PTE_V)\<rparr>)"
        "tbl (store64 (memset (mem s1) q 0 4096) (t + 8 * PX (Suc l) va) (PA2PTE q OR PTE_V)) r
          (take (2 - Suc l) (vpath va) @ [PX (Suc l) va]) = Some q" by blast
      have "q \<noteq> 0"
        using Suc.prems(2) kalloc.pool_page [OF vm_okD(2), of R ps c s q] Cons by simp
      then have "walk_level (Suc l) t va True s = walk_level l q va True
          (s1\<lparr>mem := store64 (memset (mem s1) q 0 4096) (t + 8 * PX (Suc l) va) (PA2PTE q OR PTE_V)\<rparr>)"
        using inv s1(1) by (simp add: and_flag_iff entry_def Let_def)
      then show ?thesis
        using Suc.IH [OF _ growsD(1) [OF s1(2)] Suc.prems(3), of q] s1(2,3) step Suc.prems(1) Cons
        by (auto intro: grows_trans)
    qed
  qed
qed

lemma walk_True:
  assumes "vm_ok R ps c s" "r \<in> R" "va < MAXVA"
  obtains pte ps' s' where "walk r va True s = Some (pte, s')" "grows R ps c s ps' s'"
    "length ps \<le> length ps' + 2"
    "pte = 0 \<and> ps' = [] \<and> length ps < 2 \<or> (\<exists>t. tbl (mem s') r (vpath va) = Some t \<and> pte = t + 8 * PX 0 va)"
  using walk_level_True [of 2 R ps c s r va r] assms by (auto simp: walk_def not_le)

end
