(* ===== verification/VmOps.thy ===== *)
theory VmOps
  imports VmInv
begin

text \<open>
  The elementary changes that the operations of \<^verbatim>\<open>vm.c\<close> are made of, each with its effect on
  the invariant \<open>vm_ok\<close> and on the address spaces: writing a leaf entry, taking and dropping
  a reference to a page, writing the contents of a page; and from them the mapping and the
  unmapping of one page, in the order in which the code does them.
\<close>

section \<open>Writing a leaf entry\<close>

text \<open>What an entry contributes to the reference count of page \<open>p\<close>.\<close>

definition pte_ind :: "u64 option \<Rightarrow> u64 \<Rightarrow> int" where
  "pte_ind o' p = of_bool (map_option PTE2PA o' = Some p)"

lemma pte_ind_simps [simp]:
  "pte_ind None p = 0" "pte_ind (Some e) p = of_bool (PTE2PA e = p)"
  by (simp_all add: pte_ind_def)

lemma maps_update:
  assumes "finite R" "r \<in> R"
    and "\<And>r' va'. r' \<in> R \<Longrightarrow> lookup m' r' va' =
      (if r' = r \<and> PGROUNDDOWN va' = PGROUNDDOWN va then w else lookup m r' va')"
  shows "int (card (maps R m' p)) = int (card (maps R m p)) - pte_ind (lookup m r va) p + pte_ind w p"
proof -
  let ?x = "(r, PGROUNDDOWN va)"
  have m': "maps R m' p = (maps R m p - {?x}) \<union> (if map_option PTE2PA w = Some p then {?x} else {})"
    using assms(2) by (auto simp: maps_def assms(3) split: if_splits)
  have x: "?x \<in> maps R m p \<longleftrightarrow> map_option PTE2PA (lookup m r va) = Some p"
    using assms(2) by (simp add: maps_def)
  have fin: "finite (maps R m p)" using assms(1) by simp
  have "0 < card (maps R m p)" if "?x \<in> maps R m p" using that fin card_gt_0_iff by blast
  then have "int (card (maps R m p - {?x})) = int (card (maps R m p)) - pte_ind (lookup m r va) p"
    using x by (cases "?x \<in> maps R m p") (simp_all add: pte_ind_def card_Diff_singleton_if of_nat_diff)
  moreover have "card (insert ?x (maps R m p - {?x})) = Suc (card (maps R m p - {?x}))"
    using fin by (intro card_insert_disjoint) auto
  ultimately show ?thesis
    unfolding m' by (simp add: pte_ind_def del: insert_Diff_single)
qed

lemma set_leaf:
  fixes v :: u64
  assumes ok: "vm_ok R ps c s" and r: "r \<in> R" and va: "va < MAXVA" and t: "tbl (mem s) r (vpath va) = Some t"
    and v: "bit v 0 \<Longrightarrow> PTE2PA v \<notin> tabs R (mem s)" "bit v 0 \<Longrightarrow> ram_page s (PTE2PA v) \<Longrightarrow> 0 < refs s (PTE2PA v)"
  defines "w \<equiv> (if bit v 0 then Some v else None)"
  defines "s' \<equiv> s\<lparr>mem := store64 (mem s) (t + 8 * PX 0 va) v\<rparr>"
  shows "vm_ok R ps (\<lambda>p. c p + pte_ind (lookup (mem s) r va) p - pte_ind w p) s'"
    and "r' \<in> R \<Longrightarrow> lookup (mem s') r' va' =
      (if r' = r \<and> PGROUNDDOWN va' = PGROUNDDOWN va then w else lookup (mem s) r' va')"
    and "tabs R (mem s') = tabs R (mem s)"
    and "r' \<in> R \<Longrightarrow> length p \<le> 2 \<Longrightarrow> tbl (mem s') r' p = tbl (mem s) r' p"
    and "PGROUNDDOWN x \<notin> tabs R (mem s) \<Longrightarrow> mem s' x = mem s x"
proof -
  note ok' = vm_okD [OF ok]
  note L = leaf_store [OF ok'(3) r va t [unfolded vpath_def], where v = v]
  show lk: "lookup (mem s') r' va' =
      (if r' = r \<and> PGROUNDDOWN va' = PGROUNDDOWN va then w else lookup (mem s) r' va')"
    if "r' \<in> R" for r' va' using L(4) [OF that] by (simp add: s'_def w_def)
  show tb: "tabs R (mem s') = tabs R (mem s)" using L(3) by (simp add: s'_def)
  show "r' \<in> R \<Longrightarrow> length p \<le> 2 \<Longrightarrow> tbl (mem s') r' p = tbl (mem s) r' p"
    using L(1) by (simp add: s'_def)
  have tt: "t \<in> tabs R (mem s)" using r t by (rule tabsI) (simp add: vpath_def)
  have al: "page_aligned t" using ok'(3) tt by (rule tabs_aligned)
  show out: "mem s' x = mem s x" if "PGROUNDDOWN x \<notin> tabs R (mem s)" for x
    using that tt al unfolding s'_def by (auto intro!: store64_other_page)
  have ram: "ram_page s' = ram_page s" by (rule ram_page_kend) (simp add: s'_def)
  have rc: "reference_counter s' = reference_counter s" by (simp add: s'_def)
  show "vm_ok R ps (\<lambda>p. c p + pte_ind (lookup (mem s) r va) p - pte_ind w p) s'"
  proof (rule vm_okI)
    show "finite R" by (rule ok')
    show "kinv ps s'" unfolding s'_def
      by (rule kinv_mem [OF ok'(2)])
        (use out [unfolded s'_def] free_page_unused(1) [OF ok] in auto)
    show "forest R (mem s')" using L(2) by (simp add: s'_def)
    show "ram_page s' a \<and> 0 < refs s' a" if "a \<in> tabs R (mem s')" for a
      using that ok'(4,5) by (simp add: tb ram rc)
    show "PTE2PA e \<notin> tabs R (mem s') \<and> (ram_page s' (PTE2PA e) \<longrightarrow> 0 < refs s' (PTE2PA e))"
      if "r' \<in> R" "lookup (mem s') r' va' = Some e" for r' va' e
      using that v ok'(6,7) [of r' va' e] lk [OF that(1), of va']
      by (auto simp: tb ram rc w_def split: if_splits)
    show "refs s' p = int (card (maps R (mem s') p)) + of_bool (p \<in> tabs R (mem s')) +
        (c p + pte_ind (lookup (mem s) r va) p - pte_ind w p)" if "ram_page s' p" for p
      using maps_update [OF ok'(1) r lk, of p] ok'(8) [of p] that by (simp add: tb ram rc)
  qed
qed

section \<open>References and contents\<close>

lemma vm_ok_frame:
  assumes ok: "vm_ok R ps c s" and kinv: "kinv ps' s'" and kend: "kend s' = kend s"
    and mem: "\<And>x. PGROUNDDOWN x \<in> tabs R (mem s) \<Longrightarrow> mem s' x = mem s x"
    and used: "\<And>p. ram_page s p \<Longrightarrow> 0 < refs s p \<Longrightarrow> p \<in> tabs R (mem s) \<or> maps R (mem s) p \<noteq> {} \<Longrightarrow> 0 < refs s' p"
    and cnt: "\<And>p. ram_page s p \<Longrightarrow> refs s' p - refs s p = c' p - c p"
  shows "vm_ok R ps' c' s'" "r \<in> R \<Longrightarrow> lookup (mem s') r va = lookup (mem s) r va"
    "tabs R (mem s') = tabs R (mem s)" "r \<in> R \<Longrightarrow> length p \<le> 2 \<Longrightarrow> tbl (mem s') r p = tbl (mem s) r p"
proof -
  note ok' = vm_okD [OF ok]
  note A = agree_tabs [OF ok'(3) _ mem] agree_forest [OF ok'(3) mem]
  show lk: "r \<in> R \<Longrightarrow> lookup (mem s') r va = lookup (mem s) r va" for r va using A(2) .
  then have mp: "maps R (mem s') = maps R (mem s)" by (intro ext maps_cong)
  show tb: "tabs R (mem s') = tabs R (mem s)" using A(4) by simp
  show "r \<in> R \<Longrightarrow> length p \<le> 2 \<Longrightarrow> tbl (mem s') r p = tbl (mem s) r p" using A(1) by blast
  have ram: "ram_page s' = ram_page s" using kend by (rule ram_page_kend)
  have pos: "0 < refs s' (PTE2PA e)" if "r \<in> R" "lookup (mem s) r va = Some e" "ram_page s (PTE2PA e)" for r va e
  proof -
    have "(r, PGROUNDDOWN va) \<in> maps R (mem s) (PTE2PA e)" using that by (simp add: maps_def)
    then show ?thesis using used [OF that(3) ok'(7) [OF that]] by auto
  qed
  show "vm_ok R ps' c' s'"
  proof (rule vm_okI)
    show "finite R" "kinv ps' s'" "forest R (mem s')" using ok'(1) kinv A(3) by auto
    show "ram_page s' a \<and> 0 < refs s' a" if "a \<in> tabs R (mem s')" for a
      using that ok'(4,5) [of a] used [of a] by (simp add: tb ram)
    show "PTE2PA e \<notin> tabs R (mem s') \<and> (ram_page s' (PTE2PA e) \<longrightarrow> 0 < refs s' (PTE2PA e))"
      if "r \<in> R" "lookup (mem s') r va = Some e" for r va e
    proof -
      have l: "lookup (mem s) r va = Some e" using that lk by simp
      show ?thesis using ok'(6) [OF that(1) l] pos [OF that(1) l] by (simp add: tb ram)
    qed
    show "refs s' p = int (card (maps R (mem s') p)) + of_bool (p \<in> tabs R (mem s')) + c' p"
      if "ram_page s' p" for p
      using cnt [of p] ok'(8) [of p] that by (simp add: tb ram mp)
  qed
qed

text \<open>Steps that change no table and no address space.\<close>

definition same_spaces :: "u64 set \<Rightarrow> 'a kmem_scheme \<Rightarrow> 'a kmem_scheme \<Rightarrow> bool" where
  "same_spaces R s s' \<longleftrightarrow> kend s' = kend s \<and> kmem.more s' = kmem.more s \<and>
     tabs R (mem s') = tabs R (mem s) \<and>
     (\<forall>r\<in>R. \<forall>va. lookup (mem s') r va = lookup (mem s) r va) \<and>
     (\<forall>r\<in>R. \<forall>p. length p \<le> 2 \<longrightarrow> tbl (mem s') r p = tbl (mem s) r p)"

lemma same_spacesD:
  assumes "same_spaces R s s'"
  shows "kend s' = kend s" "kmem.more s' = kmem.more s" "tabs R (mem s') = tabs R (mem s)"
    "r \<in> R \<Longrightarrow> lookup (mem s') r va = lookup (mem s) r va"
    "r \<in> R \<Longrightarrow> tbl (mem s') r (vpath va) = tbl (mem s) r (vpath va)"
    "ram_page s' = ram_page s"
  using assms unfolding same_spaces_def by (auto simp: vpath_def intro: ram_page_kend simp del: tbl.simps)

lemma more_frame:
  "t = s\<lparr>mem := m, freelist := f, reference_counter := c\<rparr> \<Longrightarrow> kmem.more t = kmem.more s"
  by simp

lemma vm_ok_step:
  assumes "vm_ok R ps c s" "kinv ps' s'" "kend s' = kend s" "kmem.more s' = kmem.more s"
    and "\<And>x. PGROUNDDOWN x \<in> tabs R (mem s) \<Longrightarrow> mem s' x = mem s x"
    and "\<And>p. ram_page s p \<Longrightarrow> 0 < refs s p \<Longrightarrow> p \<in> tabs R (mem s) \<or> maps R (mem s) p \<noteq> {} \<Longrightarrow> 0 < refs s' p"
    and "\<And>p. ram_page s p \<Longrightarrow> refs s' p - refs s p = c' p - c p"
  shows "vm_ok R ps' c' s' \<and> same_spaces R s s'"
  using vm_ok_frame [OF assms(1,2,3,5,6,7)] assms(3,4) unfolding same_spaces_def by blast

lemma alloc_page:
  assumes ok: "vm_ok R (q # ps) c s"
  obtains s' where "kalloc s = (q, s')" "vm_ok R ps (c(q := 1)) s'" "same_spaces R s s'"
    "\<And>x. mem s' x = (if PGROUNDDOWN x = q then 5 else mem s x)"
    "\<And>p. ram_page s p \<Longrightarrow> refs s' p = (if p = q then 1 else refs s p)"
    "ram_page s q" "q \<noteq> 0" "q \<notin> set ps" "q \<notin> tabs R (mem s)"
proof -
  note inv = vm_okD(2) [OF ok]
  from kalloc_Cons [OF inv] obtain s' where s': "kalloc s = (q, s')" "kinv ps s'"
    "\<And>a. mem s' a = (if PGROUNDDOWN a = q then 5 else mem s a)"
    "reference_counter s' = (reference_counter s)(q div PGSIZE := 1)"
    "s' = s\<lparr>mem := mem s', freelist := freelist s', reference_counter := reference_counter s'\<rparr>"
    by blast
  have q: "ram_page s q" "q \<noteq> 0" "refs s q = 0" "q \<notin> set ps"
    using kalloc.pool_page [OF inv, of q] kinvD(4) [OF inv] by auto
  note free = free_page_unused [OF ok, of q, simplified]
  have rf: "refs s' p = (if p = q then 1 else refs s p)" if "ram_page s p" for p
    using refs_upd [OF q(1) that s'(4)] .
  note kend = kend_frame [OF s'(5)]
  have F: "vm_ok R ps (c(q := 1)) s' \<and> same_spaces R s s'"
    using free q(3) rf s'(3) by (intro vm_ok_step [OF ok s'(2) kend more_frame [OF s'(5)]]) auto
  with s'(1,3) rf q free(1) show ?thesis by (intro that [of s']) auto
qed

lemma free_ref:
  assumes ok: "vm_ok R ps c s" and p: "ram_page s p" "p \<notin> tabs R (mem s)" "0 < c p"
  obtains s' where "kfree p s = Some s'" "same_spaces R s s'"
    "vm_ok R (if refs s p = 1 then p # ps else ps) (c(p := c p - 1)) s'"
    "\<And>x. PGROUNDDOWN x \<noteq> p \<or> refs s p \<noteq> 1 \<Longrightarrow> mem s' x = mem s x"
    "\<And>q. ram_page s q \<Longrightarrow> refs s' q = (if q = p then refs s p - 1 else refs s q)"
proof -
  note ok' = vm_okD [OF ok]
  have cnt: "refs s p = int (card (maps R (mem s) p)) + c p" using ok'(8) [OF p(1)] p(2) by simp
  show ?thesis
  proof (cases "refs s p = 1")
    case True
    with cnt p(3) have "card (maps R (mem s) p) = 0" and no: "c p = 1" by linarith+
    with ok'(1) have no': "maps R (mem s) p = {}" by simp
    from kfree_last [OF ok'(2) p(1) True] obtain s' where s': "kfree p s = Some s'" "kinv (p # ps) s'"
      "\<And>a. PGROUNDDOWN a \<noteq> p \<Longrightarrow> mem s' a = mem s a"
      "reference_counter s' = (reference_counter s)(p div PGSIZE := 0)"
      "s' = s\<lparr>mem := mem s', freelist := freelist s', reference_counter := reference_counter s'\<rparr>"
      by blast
    have rf: "refs s' q = (if q = p then refs s p - 1 else refs s q)" if "ram_page s q" for q
      using refs_upd [OF p(1) that s'(4)] True by simp
    note kend = kend_frame [OF s'(5)]
    have "mem s' x = mem s x" if "PGROUNDDOWN x \<in> tabs R (mem s)" for x
      using s'(3) [of x] p(2) that by blast
    then have "vm_ok R (p # ps) (c(p := c p - 1)) s' \<and> same_spaces R s s'"
      using no no' rf p(2) True by (intro vm_ok_step [OF ok s'(2) kend more_frame [OF s'(5)]]) auto
    with s'(1,3) rf True show ?thesis by (intro that [of s']) auto
  next
    case False
    with cnt p(3) have gt: "1 < refs s p" by simp
    let ?s = "s\<lparr>reference_counter := (reference_counter s)(p div PGSIZE := refs s p - 1)\<rparr>"
    have rf: "refs ?s q = (if q = p then refs s p - 1 else refs s q)" if "ram_page s q" for q
      using refs_upd [OF p(1) that, of ?s] by simp
    have inv: "kinv ps ?s" using ok'(2) p(1) gt by (intro kinv_refs_update) auto
    have "vm_ok R ps (c(p := c p - 1)) ?s \<and> same_spaces R s ?s"
      using gt rf by (intro vm_ok_step [OF ok inv]) auto
    with kfree_shared [OF p(1) gt] rf False show ?thesis by (intro that [of ?s]) auto
  qed
qed

lemma write_page:
  assumes ok: "vm_ok R ps c s" and "p \<notin> tabs R (mem s)" "p \<notin> set ps"
    and m: "\<And>x. PGROUNDDOWN x \<noteq> p \<Longrightarrow> m x = mem s x"
  shows "vm_ok R ps c (s\<lparr>mem := m\<rparr>)" "same_spaces R s (s\<lparr>mem := m\<rparr>)"
proof -
  have inv: "kinv ps (s\<lparr>mem := m\<rparr>)"
    using vm_okD(2) [OF ok] by (rule kinv_mem) (metis m assms(3))
  have "vm_ok R ps c (s\<lparr>mem := m\<rparr>) \<and> same_spaces R s (s\<lparr>mem := m\<rparr>)"
    by (intro vm_ok_step [OF ok inv]) (use m assms(2) in \<open>simp_all, metis\<close>)
  then show "vm_ok R ps c (s\<lparr>mem := m\<rparr>)" "same_spaces R s (s\<lparr>mem := m\<rparr>)" by blast+
qed

section \<open>Mapping one page\<close>

text \<open>One address space changed at one virtual page, no other address space changed.\<close>

definition upd_space :: "u64 set \<Rightarrow> 'a kmem_scheme \<Rightarrow> u64 \<Rightarrow> u64 \<Rightarrow> u64 option \<Rightarrow> 'a kmem_scheme \<Rightarrow> bool" where
  "upd_space R s r va w s' \<longleftrightarrow> kend s' = kend s \<and> kmem.more s' = kmem.more s \<and>
     (\<forall>r'\<in>R. \<forall>va'. lookup (mem s') r' va' =
        (if r' = r \<and> PGROUNDDOWN va' = PGROUNDDOWN va then w else lookup (mem s) r' va'))"

lemma upd_spaceD:
  assumes "upd_space R s r va w s'"
  shows "kend s' = kend s" "kmem.more s' = kmem.more s" "ram_page s' = ram_page s"
    "r' \<in> R \<Longrightarrow> lookup (mem s') r' va' =
        (if r' = r \<and> PGROUNDDOWN va' = PGROUNDDOWN va then w else lookup (mem s) r' va')"
  using assms unfolding upd_space_def by (blast intro: ram_page_kend)+

lemma slot_nonzero:
  assumes "vm_ok R ps c s" "r \<in> R" "tbl (mem s) r (vpath va) = Some t"
  shows "t + 8 * PX 0 va \<noteq> 0" "page_aligned t" "t \<in> tabs R (mem s)"
proof -
  show t: "t \<in> tabs R (mem s)" using assms(2,3) by (rule tabsI) (simp add: vpath_def)
  show al: "page_aligned t" using vm_okD(3) [OF assms(1)] t by (rule tabs_aligned)
  have "t \<noteq> 0"
    using ram_pageD(2) vm_okD(4) [OF assms(1) t] kinvD(1) [OF vm_okD(2) [OF assms(1)]] by blast
  moreover have "PGROUNDDOWN (t + 8 * PX 0 va) = t" using al by simp
  moreover have "PGROUNDDOWN 0 = 0" by (simp add: PGROUNDDOWN_def)
  ultimately show "t + 8 * PX 0 va \<noteq> 0" by auto
qed

lemma lookup_slot:
  assumes "va < MAXVA" "tbl m r (vpath va) = Some t"
  shows "lookup m r va = (if bit (load64 m (t + 8 * PX 0 va)) 0 then Some (load64 m (t + 8 * PX 0 va)) else None)"
  using assms by (simp add: lookup_vpath leaf_def entry_def)

lemma mappages_one_page:
  assumes "page_aligned va"
  shows "mappages r va PGSIZE pa perm s = do {
    (pte, s) \<leftarrow> walk r va True s;
    if pte = 0 then Some (-1, s)
    else if bit (load64 (mem s) pte) 0 then None
    else Some (0, s\<lparr>mem := store64 (mem s) pte (PA2PTE pa OR perm OR PTE_V)\<rparr>) }"
proof -
  have "va + PGSIZE - 1 = va + 4095" "(4095::u64) < 4096" by simp_all
  then have "PGROUNDDOWN (va + PGSIZE - 1) = va"
    using PGROUNDDOWN_offset [OF assms] by metis
  then show ?thesis
    using assms by (simp add: mappages_def mappages_loop.simps [of r va] Let_def and_flag_iff
        cong: if_cong)
qed

lemma new_entry:
  assumes "page_aligned pa" "unat pa < 2 ^ 56" "\<And>n. bit perm n \<Longrightarrow> n < 10"
  shows "bit (PA2PTE pa OR perm OR PTE_V) 0" "PTE2PA (PA2PTE pa OR perm OR PTE_V) = pa"
proof -
  show "bit (PA2PTE pa OR perm OR PTE_V) 0" by (simp add: bit_or_iff bit_PTE)
  have "PTE2PA (PA2PTE pa OR (perm OR PTE_V)) = pa"
    using assms by (intro PTE2PA_PA2PTE) (auto simp: bit_or_iff bit_PTE)
  then show "PTE2PA (PA2PTE pa OR perm OR PTE_V) = pa" by (simp add: or.assoc)
qed

lemma map_page:
  assumes ok: "vm_ok R ps c s" and r: "r \<in> R" and va: "page_aligned va" "va < MAXVA"
    and none: "lookup (mem s) r va = None"
    and pa: "page_aligned pa" "unat pa < 2 ^ 56" "\<And>n. bit perm n \<Longrightarrow> n < 10"
    and free: "pa \<notin> tabs R (mem s)" "pa \<notin> set ps"
  obtains (fail) s' where "mappages r va PGSIZE pa perm s = Some (-1, s')" "grows R ps c s [] s'" "length ps < 2"
  | (succ) s1 ps' s' where "mappages r va PGSIZE pa perm s = Some (0, s')" "grows R ps c s ps' s1"
      "length ps \<le> length ps' + 2"
      "vm_ok R ps' (c(pa := c pa - 1)) s'"
      "upd_space R s r va (Some (PA2PTE pa OR perm OR PTE_V)) s'"
      "tabs R (mem s') = tabs R (mem s1)" "reference_counter s' = reference_counter s1"
      "\<And>x. PGROUNDDOWN x \<notin> tabs R (mem s) \<Longrightarrow> PGROUNDDOWN x \<notin> set ps \<Longrightarrow> mem s' x = mem s x"
proof -
  let ?v = "PA2PTE pa OR perm OR PTE_V"
  have v: "bit ?v 0" "PTE2PA ?v = pa"
    using new_entry [of pa perm] pa by blast+
  from ok r va(2) obtain pte ps' s1 where w: "walk r va True s = Some (pte, s1)"
    "grows R ps c s ps' s1" and len: "length ps \<le> length ps' + 2" and w3:
    "pte = 0 \<and> ps' = [] \<and> length ps < 2 \<or> (\<exists>t. tbl (mem s1) r (vpath va) = Some t \<and> pte = t + 8 * PX 0 va)"
    by (rule walk_True)
  note g = growsD [OF w(2)]
  show ?thesis
  proof (cases "pte = 0")
    case True
    have "ps' = []" "length ps < 2" using w3 True slot_nonzero(1) [OF g(1) r] by auto
    then show ?thesis
      using fail [of s1] w(1,2) True by (simp add: mappages_one_page [OF va(1)])
  next
    case False
    with w3 obtain t where t: "tbl (mem s1) r (vpath va) = Some t" "pte = t + 8 * PX 0 va" by auto
    have "lookup (mem s1) r va = None" using g(5) [OF r] none by simp
    then have inv: "\<not> bit (load64 (mem s1) pte) 0"
      using lookup_slot [OF va(2) t(1)] t(2) by (auto split: if_splits)
    let ?s' = "s1\<lparr>mem := store64 (mem s1) (t + 8 * PX 0 va) ?v\<rparr>"
    have tab: "pa \<notin> tabs R (mem s1)" using g(6) free by blast
    have pos: "0 < refs s1 pa" if "ram_page s1 pa"
    proof -
      have "ram_page s pa" using that g(10) by simp
      then have "0 \<le> refs s pa" "refs s pa \<noteq> 0"
        using kinvD(8,9) [OF vm_okD(2) [OF ok]] free(2) by auto
      moreover have "refs s1 pa = refs s pa" using g(9) [of pa] \<open>ram_page s pa\<close> free(2) by blast
      ultimately show ?thesis by simp
    qed
    have pos': "bit ?v 0 \<Longrightarrow> PTE2PA ?v \<notin> tabs R (mem s1)"
      "bit ?v 0 \<Longrightarrow> ram_page s1 (PTE2PA ?v) \<Longrightarrow> 0 < refs s1 (PTE2PA ?v)"
      using tab pos by (simp_all add: v(2))
    note L = set_leaf [OF g(1) r va(2) t(1) pos']
    have "mappages r va PGSIZE pa perm s = Some (0, ?s')"
      using False w(1) inv by (simp add: mappages_one_page [OF va(1)] t(2))
    moreover have "vm_ok R ps' (c(pa := c pa - 1)) ?s'"
    proof -
      have "(\<lambda>p. c p + pte_ind (lookup (mem s1) r va) p - pte_ind (Some ?v) p) = c(pa := c pa - 1)"
        using \<open>lookup (mem s1) r va = None\<close> v(2) by (simp add: fun_eq_iff)
      then show ?thesis using L(1) v(1) by simp
    qed
    moreover have "upd_space R s r va (Some ?v) ?s'"
      using L(2) g(3,4,5) v(1) by (simp add: upd_space_def)
    moreover have "mem ?s' x = mem s x"
      if "PGROUNDDOWN x \<notin> tabs R (mem s)" "PGROUNDDOWN x \<notin> set ps" for x
    proof -
      have "PGROUNDDOWN x \<notin> tabs R (mem s1)" using that g(6) by blast
      then show ?thesis using L(5) [of x] g(8) [OF that] by simp
    qed
    ultimately show ?thesis using succ [of ?s' ps' s1] w(2) len L(3) by simp
  qed
qed

section \<open>Unmapping one page\<close>

text \<open>
  The code frees the page first and clears the entry afterwards; the two commute, since the
  entry lies in a table page.
\<close>

lemma kfree_store:
  assumes "kfree p s = Some s'" "page_aligned t" "i < 512" "t \<noteq> p"
  shows "kfree p (s\<lparr>mem := store64 (mem s) (t + 8 * i) v\<rparr>) =
    Some (s'\<lparr>mem := store64 (mem s') (t + 8 * i) v\<rparr>)"
proof -
  have p: "page_aligned p" using assms(1) by (auto simp: kfree_def page_aligned_def split: if_splits)
  have "store64 (memset (store64 m (t + 8 * i) v) p 1 4096) p f x =
      store64 (store64 (memset m p 1 4096) p f) (t + 8 * i) v x" for m f x
  proof (cases "PGROUNDDOWN x = p")
    case True
    with assms(4) have "PGROUNDDOWN x \<noteq> t" by simp
    then show ?thesis using True p assms(2,3) by (simp add: store64_apply [of _ p] memset_page)
  next
    case False
    then show ?thesis
      using p store64_other_page [of p 0 x] by (simp add: store64_apply [of _ "t + 8 * i"] memset_page)
  qed
  then have "store64 (memset (store64 m (t + 8 * i) v) p 1 4096) p f =
      store64 (store64 (memset m p 1 4096) p f) (t + 8 * i) v" for m f
    by (rule ext)
  with assms(1) show ?thesis by (auto simp: kfree_def Let_def split: if_splits)
qed

lemma lookup_SomeD:
  assumes "lookup m r va = Some e"
  obtains t where "va < MAXVA" "tbl m r (vpath va) = Some t" "load64 m (t + 8 * PX 0 va) = e" "bit e 0"
  using assms by (auto simp: lookup_vpath leaf_def entry_def split: if_splits)

lemma unmap_step:
  assumes ok: "vm_ok R ps c s" and r: "r \<in> R" and e: "lookup (mem s) r va = Some e" "PTE_FLAGS e \<noteq> PTE_V"
    and pa: "ram_page s (PTE2PA e)" "0 \<le> c (PTE2PA e)" and va: "va < va_end"
  obtains s' where
    "uvmunmap_loop r va va_end True s = uvmunmap_loop r (va + PGSIZE) va_end True s'"
    "vm_ok R (if refs s (PTE2PA e) = 1 then PTE2PA e # ps else ps) c s'"
    "upd_space R s r va None s'"
    "tabs R (mem s') = tabs R (mem s)"
    "\<And>r' va. r' \<in> R \<Longrightarrow> tbl (mem s') r' (vpath va) = tbl (mem s) r' (vpath va)"
    "\<And>q. ram_page s q \<Longrightarrow> refs s' q = (if q = PTE2PA e then refs s q - 1 else refs s q)"
    "\<And>x. PGROUNDDOWN x \<notin> tabs R (mem s) \<Longrightarrow> PGROUNDDOWN x \<noteq> PTE2PA e \<or> refs s (PTE2PA e) \<noteq> 1 \<Longrightarrow>
      mem s' x = mem s x"
proof -
  let ?p = "PTE2PA e"
  from e(1) obtain t where t: "va < MAXVA" "tbl (mem s) r (vpath va) = Some t"
    "load64 (mem s) (t + 8 * PX 0 va) = e" "bit e 0" by (rule lookup_SomeD)
  note slot = slot_nonzero [OF ok r t(2)]
  let ?s1 = "s\<lparr>mem := store64 (mem s) (t + 8 * PX 0 va) 0\<rparr>"
  have "\<not> bit (0::u64) 0" by simp
  then have L: "vm_ok R ps (\<lambda>p. c p + pte_ind (lookup (mem s) r va) p - pte_ind None p) ?s1"
    "\<And>r' va'. r' \<in> R \<Longrightarrow> lookup (mem ?s1) r' va' =
       (if r' = r \<and> PGROUNDDOWN va' = PGROUNDDOWN va then None else lookup (mem s) r' va')"
    "tabs R (mem ?s1) = tabs R (mem s)"
    "\<And>r' p. r' \<in> R \<Longrightarrow> length p \<le> 2 \<Longrightarrow> tbl (mem ?s1) r' p = tbl (mem s) r' p"
    "\<And>x. PGROUNDDOWN x \<notin> tabs R (mem s) \<Longrightarrow> mem ?s1 x = mem s x"
    using set_leaf [OF ok r t(1,2), of 0] by simp_all
  have ram: "ram_page ?s1 = ram_page s" by (rule ram_page_kend) simp
  have nt: "?p \<notin> tabs R (mem s)" using vm_okD(6) [OF ok r e(1)] .
  define c1 where "c1 = (\<lambda>p. c p + pte_ind (lookup (mem s) r va) p - pte_ind None p)"
  have ok1: "vm_ok R ps c1 ?s1" using L(1) by (simp add: c1_def)
  have p1: "ram_page ?s1 ?p" "?p \<notin> tabs R (mem ?s1)" "0 < c1 ?p"
    using pa nt L(3) e(1) by (simp_all add: ram c1_def)
  have cc: "c1(?p := c1 ?p - 1) = c"
    using e(1) by (simp add: fun_eq_iff c1_def)
  have "0 < refs s ?p" using vm_okD(7) [OF ok r e(1) pa(1)] .
  then obtain s0 where s0: "kfree ?p s = Some s0"
    using pa(1) kfree_None_iff [of ?p s] by (cases "kfree ?p s") auto
  have tp: "t \<noteq> ?p" using nt slot(3) by auto
  show ?thesis
  proof (rule free_ref [OF ok1 p1])
    fix s2
    assume s2: "kfree ?p ?s1 = Some s2" "same_spaces R ?s1 s2"
      "vm_ok R (if refs ?s1 ?p = 1 then ?p # ps else ps) (c1(?p := c1 ?p - 1)) s2"
      "\<And>x. PGROUNDDOWN x \<noteq> ?p \<or> refs ?s1 ?p \<noteq> 1 \<Longrightarrow> mem s2 x = mem ?s1 x"
      "\<And>q. ram_page ?s1 q \<Longrightarrow> refs s2 q = (if q = ?p then refs ?s1 ?p - 1 else refs ?s1 q)"
    have s2': "s2 = s0\<lparr>mem := store64 (mem s0) (t + 8 * PX 0 va) 0\<rparr>"
      using kfree_store [OF s0 slot(2) PX_less tp] s2(1) by simp
    note S = same_spacesD [OF s2(2)]
    show ?thesis
    proof (rule that [of s2])
      show "uvmunmap_loop r va va_end True s = uvmunmap_loop r (va + PGSIZE) va_end True s2"
        using t slot(1) e(2) va s0 s2' by (subst uvmunmap_loop.simps) (simp add: walk_False and_flag_iff)
      show "vm_ok R (if refs s ?p = 1 then ?p # ps else ps) c s2" using s2(3) cc by simp
      show "upd_space R s r va None s2"
        unfolding upd_space_def using S(1,2,4) L(2) by simp
      show "tabs R (mem s2) = tabs R (mem s)" using S(3) L(3) by simp
      show "tbl (mem s2) r' (vpath va) = tbl (mem s) r' (vpath va)" if "r' \<in> R" for r' va
        using S(5) [OF that] L(4) [OF that, of "vpath va"] by (simp add: vpath_def del: tbl.simps)
      show "refs s2 q = (if q = ?p then refs s q - 1 else refs s q)" if "ram_page s q" for q
        using s2(5) [of q] that ram by simp
      show "mem s2 x = mem s x" if "PGROUNDDOWN x \<notin> tabs R (mem s)" "PGROUNDDOWN x \<noteq> ?p \<or> refs s ?p \<noteq> 1" for x
        using s2(4) [of x] L(5) [OF that(1)] that(2) by simp
    qed
  qed
qed

end
