(* ===== verification/VmCow.thy ===== *)
theory VmCow
  imports VmOps
begin

text \<open>
  The address-space operations of \<^verbatim>\<open>vm.c\<close> on whole ranges: unmapping and freeing, and the
  copy-on-write copy of an address space that \<^verbatim>\<open>fork\<close> makes, with its two outcomes.
\<close>

section \<open>Unmapping a range\<close>

lemma page_step:
  assumes "page_aligned a" "unat a + 4096 * n \<le> 2 ^ 38"
  shows "unat (a + of_nat n * PGSIZE) = unat a + 4096 * n" "page_aligned (a + of_nat n * PGSIZE)"
proof -
  have n: "unat (of_nat n :: u64) = n" "n * 4096 < 2 ^ 64"
    using assms(2) by (auto simp: unat_of_nat)
  then have "unat (of_nat n * PGSIZE :: u64) = n * 4096"
    by (simp add: unat_word_ariths)
  then show u: "unat (a + of_nat n * PGSIZE) = unat a + 4096 * n"
    using assms(2) by (subst unat_add_no_overflow) simp_all
  show "page_aligned (a + of_nat n * PGSIZE)"
    using assms(1) unfolding page_aligned_unat u by simp
qed

text \<open>A virtual page of the range of \<open>n\<close> pages from \<open>a\<close>.\<close>

definition in_range :: "u64 \<Rightarrow> nat \<Rightarrow> u64 \<Rightarrow> bool" where
  "in_range a n va \<longleftrightarrow> unat a \<le> unat (PGROUNDDOWN va) \<and> unat (PGROUNDDOWN va) < unat a + 4096 * n"

lemma in_range_Suc:
  assumes "page_aligned a" "unat a + 4096 * Suc n \<le> 2 ^ 38"
  shows "in_range a (Suc n) va \<longleftrightarrow> PGROUNDDOWN va = a \<or> in_range (a + PGSIZE) n va"
proof -
  have u: "unat (a + PGSIZE) = unat a + 4096"
    using page_step(1) [OF assms(1), of 1] assms(2) by simp
  obtain i where "unat a = 4096 * i" using assms(1) by (auto simp: page_aligned_unat)
  moreover obtain j where "unat (PGROUNDDOWN va) = 4096 * j"
    using page_aligned_PGROUNDDOWN [of va] by (auto simp: page_aligned_unat)
  ultimately show ?thesis
    by (auto simp: in_range_def u word_unat_eq_iff)
qed

lemma uvmunmap_range:
  assumes "vm_ok R ps c s" "r \<in> R" "\<And>p. 0 \<le> c p" "page_aligned a" "unat a + 4096 * n \<le> 2 ^ 38"
    and "\<And>va. in_range a n va \<Longrightarrow>
      \<exists>e. lookup (mem s) r va = Some e \<and> PTE_FLAGS e \<noteq> PTE_V \<and> ram_page s (PTE2PA e)"
  shows "\<exists>ps' s'. uvmunmap_loop r a (a + of_nat n * PGSIZE) True s = Some s' \<and> vm_ok R ps' c s' \<and>
    suffix ps ps' \<and> kend s' = kend s \<and> kmem.more s' = kmem.more s \<and>
    (\<forall>r'\<in>R. \<forall>va. lookup (mem s') r' va = (if r' = r \<and> in_range a n va then None else lookup (mem s) r' va)) \<and>
    tabs R (mem s') = tabs R (mem s) \<and>
    (\<forall>r'\<in>R. \<forall>va. tbl (mem s') r' (vpath va) = tbl (mem s) r' (vpath va)) \<and>
    (\<forall>q. ram_page s q \<longrightarrow> refs s' q \<le> refs s q) \<and>
    (\<forall>x. PGROUNDDOWN x \<notin> tabs R (mem s) \<longrightarrow> PGROUNDDOWN x \<notin> set ps' \<longrightarrow> mem s' x = mem s x)"
  using assms
proof (induction n arbitrary: a ps s)
  case 0
  have "uvmunmap_loop r a (a + of_nat 0 * PGSIZE) True s = Some s"
    by (subst uvmunmap_loop.simps) simp
  with 0 show ?case by (auto simp: in_range_def)
next
  case (Suc n)
  note u = page_step(1) [OF Suc.prems(4)]
  have u1: "unat (a + PGSIZE) = unat a + 4096" "page_aligned (a + PGSIZE)"
    using page_step [OF Suc.prems(4), of 1] Suc.prems(5) by simp_all
  have a_end: "a + of_nat (Suc n) * PGSIZE = (a + PGSIZE) + of_nat n * PGSIZE"
    by (simp add: algebra_simps)
  have lt: "a < a + of_nat (Suc n) * PGSIZE"
    using u [OF Suc.prems(5)] by (simp add: word_less_nat_alt)
  have "in_range a (Suc n) a" using Suc.prems(4) by (simp add: in_range_def)
  with Suc.prems(6) obtain e where e: "lookup (mem s) r a = Some e" "PTE_FLAGS e \<noteq> PTE_V" "ram_page s (PTE2PA e)"
    by blast
  let ?p = "PTE2PA e"
  let ?ps = "if refs s ?p = 1 then ?p # ps else ps"
  show ?case
  proof (rule unmap_step [OF Suc.prems(1,2) e(1,2,3) Suc.prems(3) lt])
    fix s1
    assume s1: "uvmunmap_loop r a (a + of_nat (Suc n) * PGSIZE) True s =
        uvmunmap_loop r (a + PGSIZE) (a + of_nat (Suc n) * PGSIZE) True s1"
      "vm_ok R ?ps c s1" "upd_space R s r a None s1" "tabs R (mem s1) = tabs R (mem s)"
      "\<And>r' va. r' \<in> R \<Longrightarrow> tbl (mem s1) r' (vpath va) = tbl (mem s) r' (vpath va)"
      "\<And>q. ram_page s q \<Longrightarrow> refs s1 q = (if q = ?p then refs s q - 1 else refs s q)"
      "\<And>x. PGROUNDDOWN x \<notin> tabs R (mem s) \<Longrightarrow> PGROUNDDOWN x \<noteq> ?p \<or> refs s ?p \<noteq> 1 \<Longrightarrow> mem s1 x = mem s x"
    note U = upd_spaceD [OF s1(3)]
    have pg: "PGROUNDDOWN a = a" using Suc.prems(4) by simp
    have rest: "\<exists>e. lookup (mem s1) r va = Some e \<and> PTE_FLAGS e \<noteq> PTE_V \<and> ram_page s1 (PTE2PA e)"
      if "in_range (a + PGSIZE) n va" for va
    proof -
      have "PGROUNDDOWN va \<noteq> a" using that u1(1) by (auto simp: in_range_def)
      then show ?thesis
        using Suc.prems(6) [of va] in_range_Suc [OF Suc.prems(4,5)] that U(3,4) Suc.prems(2) pg by simp
    qed
    from Suc.IH [OF s1(2) Suc.prems(2,3) u1(2) _ rest] Suc.prems(5) obtain ps' s' where
      s': "uvmunmap_loop r (a + PGSIZE) (a + PGSIZE + of_nat n * PGSIZE) True s1 = Some s'" "vm_ok R ps' c s'"
      "suffix ?ps ps'" "kend s' = kend s1" "kmem.more s' = kmem.more s1"
      "\<forall>r'\<in>R. \<forall>va. lookup (mem s') r' va =
         (if r' = r \<and> in_range (a + PGSIZE) n va then None else lookup (mem s1) r' va)"
      "tabs R (mem s') = tabs R (mem s1)"
      "\<forall>r'\<in>R. \<forall>va. tbl (mem s') r' (vpath va) = tbl (mem s1) r' (vpath va)"
      "\<forall>q. ram_page s1 q \<longrightarrow> refs s' q \<le> refs s1 q"
      "\<forall>x. PGROUNDDOWN x \<notin> tabs R (mem s1) \<longrightarrow> PGROUNDDOWN x \<notin> set ps' \<longrightarrow> mem s' x = mem s1 x"
      by (auto simp: u1(1))
    have "suffix ps ps'" using s'(3) by (auto split: if_splits simp: suffix_def)
    moreover have "refs s' q \<le> refs s q" if "ram_page s q" for q
      using s'(9) U(3) s1(6) [OF that] that by (smt (verit))
    moreover have "mem s' x = mem s x" if "PGROUNDDOWN x \<notin> tabs R (mem s)" "PGROUNDDOWN x \<notin> set ps'" for x
    proof -
      have "PGROUNDDOWN x \<noteq> ?p \<or> refs s ?p \<noteq> 1"
        using that(2) s'(3) by (auto dest: set_mono_suffix split: if_splits)
      then show ?thesis using s1(7) [OF that(1)] s'(10) that s1(4) by simp
    qed
    moreover have "lookup (mem s') r' va =
        (if r' = r \<and> in_range a (Suc n) va then None else lookup (mem s) r' va)" if "r' \<in> R" for r' va
      using s'(6) U(4) [OF that, of va] that pg by (auto simp: in_range_Suc [OF Suc.prems(4,5)])
    moreover have "uvmunmap_loop r a (a + of_nat (Suc n) * PGSIZE) True s = Some s'"
      using s1(1) s'(1) unfolding a_end by simp
    ultimately show ?thesis
      using s1(4,5) s'(2,4,5,7,8) U(1,2)
      by (intro exI [of _ ps'] exI [of _ s']) (auto simp del: of_nat_Suc)
  qed
qed

section \<open>Changing the flags of an entry\<close>

lemma flag_change:
  assumes ok: "vm_ok R ps c s" and r: "r \<in> R" and t: "tbl (mem s) r (vpath va) = Some t"
    and e: "lookup (mem s) r va = Some e" and v: "bit v 0" "PTE2PA v = PTE2PA e"
  defines "s' \<equiv> s\<lparr>mem := store64 (mem s) (t + 8 * PX 0 va) v\<rparr>"
  shows "vm_ok R ps c s'" "upd_space R s r va (Some v) s'" "tabs R (mem s') = tabs R (mem s)"
    "r' \<in> R \<Longrightarrow> tbl (mem s') r' (vpath va') = tbl (mem s) r' (vpath va')"
    "PGROUNDDOWN x \<notin> tabs R (mem s) \<Longrightarrow> mem s' x = mem s x"
proof -
  have va: "va < MAXVA" using e by (auto elim: lookup_SomeD)
  have v': "bit v 0 \<Longrightarrow> PTE2PA v \<notin> tabs R (mem s)"
    "bit v 0 \<Longrightarrow> ram_page s (PTE2PA v) \<Longrightarrow> 0 < refs s (PTE2PA v)"
    using vm_okD(6,7) [OF ok r e] by (simp_all add: v)
  note L = set_leaf [OF ok r va t v']
  have "(\<lambda>p. c p + pte_ind (lookup (mem s) r va) p - pte_ind (Some v) p) = c"
    using e v(2) by (simp add: fun_eq_iff)
  then show "vm_ok R ps c s'" using L(1) v(1) by (simp add: s'_def)
  show "upd_space R s r va (Some v) s'" using L(2) v(1) by (simp add: upd_space_def s'_def)
  show "tabs R (mem s') = tabs R (mem s)" using L(3) by (simp add: s'_def)
  show "r' \<in> R \<Longrightarrow> tbl (mem s') r' (vpath va') = tbl (mem s) r' (vpath va')"
    using L(4) [of r' "vpath va'"] by (simp add: s'_def vpath_def del: tbl.simps)
  show "PGROUNDDOWN x \<notin> tabs R (mem s) \<Longrightarrow> mem s' x = mem s x" using L(5) [of x] by (simp add: s'_def)
qed

section \<open>Copying an address space\<close>

text \<open>What \<open>uvmcopy\<close> makes of an entry in the parent, and the entry it gives the child.\<close>

definition cow_parent :: "u64 \<Rightarrow> u64" where
  "cow_parent e = (if e AND PTE_W \<noteq> 0 then (e OR PTE_COW) AND NOT PTE_W else e)"

definition cow_flags :: "u64 \<Rightarrow> u64" where
  "cow_flags e = (if e AND PTE_W \<noteq> 0 then (PTE_FLAGS e OR PTE_COW) AND NOT PTE_W else PTE_FLAGS e)"

definition cow_child :: "u64 \<Rightarrow> u64" where
  "cow_child e = PA2PTE (PTE2PA e) OR cow_flags e OR PTE_V"

definition vpn :: "u64 \<Rightarrow> nat" where
  "vpn va = unat va div 4096"

definition npages :: "u64 \<Rightarrow> nat" where
  "npages sz = (unat sz + 4095) div 4096"

text \<open>
  The address spaces after \<open>n\<close> pages of the parent have been marked and \<open>k\<close> of them mapped
  into the child.
\<close>

definition forked :: "u64 set \<Rightarrow> u64 \<Rightarrow> u64 \<Rightarrow> nat \<Rightarrow> nat \<Rightarrow> memory \<Rightarrow> memory \<Rightarrow> bool" where
  "forked R old new n k m m' \<longleftrightarrow> (\<forall>r\<in>R. \<forall>va. lookup m' r va =
     (if r = old then (if vpn va < n then map_option cow_parent (lookup m old va) else lookup m old va)
      else if r = new then (if vpn va < k then map_option cow_child (lookup m old va) else lookup m new va)
      else lookup m r va))"

definition fork_inv ::
  "u64 set \<Rightarrow> (u64 \<Rightarrow> int) \<Rightarrow> u64 \<Rightarrow> u64 \<Rightarrow> u64 list \<Rightarrow> 'a kmem_scheme \<Rightarrow> nat \<Rightarrow> nat \<Rightarrow> u64 list \<Rightarrow> 'a kmem_scheme \<Rightarrow> bool"
where
  "fork_inv R c old new ps s n k ps' s' \<longleftrightarrow> vm_ok R ps' c s' \<and> set ps' \<subseteq> set ps \<and>
     kend s' = kend s \<and> kmem.more s' = kmem.more s \<and> forked R old new n k (mem s) (mem s') \<and>
     tabs R (mem s) \<subseteq> tabs R (mem s') \<and> tabs R (mem s') \<subseteq> tabs R (mem s) \<union> set ps \<and>
     (\<forall>x. PGROUNDDOWN x \<notin> tabs R (mem s) \<longrightarrow> PGROUNDDOWN x \<notin> set ps \<longrightarrow> mem s' x = mem s x)"

lemma bit_cow_flags: "bit (cow_flags e) n \<longleftrightarrow> n < 10 \<and> (if bit e 2 then n \<noteq> 2 \<and> (bit e n \<or> n = 8) else bit e n)"
  by (auto simp: cow_flags_def and_flag_iff bit_simps bit_PTE bit_PTE_FLAGS dest: bit_imp_le_length)

lemma cow_entries [simp]:
  "bit e 0 \<Longrightarrow> bit (cow_parent e) 0" "PTE2PA (cow_parent e) = PTE2PA e"
  by (auto simp: cow_parent_def bit_simps bit_PTE)

lemma PTE2PA_less: "ram_page s (PTE2PA e) \<Longrightarrow> unat (PTE2PA e) < 2 ^ 56"
  by (simp add: ram_page_def PHYSTOP_val word_less_nat_alt)

lemma cow_child_PTE2PA [simp]:
  assumes "ram_page s (PTE2PA e)"
  shows "PTE2PA (cow_child e) = PTE2PA e"
  unfolding cow_child_def
  by (rule new_entry(2) [OF _ PTE2PA_less [OF assms]]) (auto simp: bit_cow_flags)

lemma bit_cow_child:
  "n < 10 \<Longrightarrow> bit (cow_child e) n \<longleftrightarrow> n = 0 \<or> bit (cow_flags e) n"
  by (auto simp: cow_child_def bit_or_iff bit_PA2PTE bit_PTE)

lemma not_only_V:
  "PTE_FLAGS e \<noteq> PTE_V \<longleftrightarrow> \<not> bit e 0 \<or> (\<exists>n. 0 < n \<and> n < 10 \<and> bit e n)"
proof -
  have "PTE_FLAGS e = PTE_V \<longleftrightarrow> (\<forall>n. bit (PTE_FLAGS e) n = bit PTE_V n)"
    by (metis bit_word_eqI)
  then show ?thesis
    unfolding bit_PTE bit_PTE_FLAGS by (metis bot_nat_0.not_eq_extremum zero_less_numeral)
qed

lemma cow_child_leaf:
  assumes "bit e 0" "PTE_FLAGS e \<noteq> PTE_V"
  shows "PTE_FLAGS (cow_child e) \<noteq> PTE_V"
proof -
  obtain n where n: "0 < n" "n < 10" "bit e n" using assms not_only_V by blast
  let ?k = "if bit e 2 then 8 else n"
  have "0 < ?k" "?k < 10" "bit (cow_child e) ?k"
    using n by (auto simp: bit_cow_child bit_cow_flags)
  then show ?thesis unfolding not_only_V by blast
qed

lemma page_of_vpn:
  assumes "unat i = 4096 * j"
  shows "PGROUNDDOWN va = i \<longleftrightarrow> vpn va = j" "page_aligned i" "PGROUNDDOWN i = i" "vpn i = j"
proof -
  show "PGROUNDDOWN va = i \<longleftrightarrow> vpn va = j"
    using assms by (simp add: word_unat_eq_iff unat_PGROUNDDOWN vpn_def)
  show al: "page_aligned i" using assms by (simp add: page_aligned_unat)
  then show "PGROUNDDOWN i = i" by simp
  show "vpn i = j" using assms by (simp add: vpn_def)
qed

lemma fork_invD:
  assumes "fork_inv R c old new ps s n k ps' s'"
  shows "vm_ok R ps' c s'" "set ps' \<subseteq> set ps" "kend s' = kend s" "kmem.more s' = kmem.more s"
    "tabs R (mem s) \<subseteq> tabs R (mem s')" "tabs R (mem s') \<subseteq> tabs R (mem s) \<union> set ps"
    "PGROUNDDOWN x \<notin> tabs R (mem s) \<Longrightarrow> PGROUNDDOWN x \<notin> set ps \<Longrightarrow> mem s' x = mem s x"
    "ram_page s' = ram_page s"
    "r \<in> R \<Longrightarrow> lookup (mem s') r va =
     (if r = old then (if vpn va < n then map_option cow_parent (lookup (mem s) old va) else lookup (mem s) old va)
      else if r = new then (if vpn va < k then map_option cow_child (lookup (mem s) old va) else lookup (mem s) new va)
      else lookup (mem s) r va)"
proof -
  show "kend s' = kend s" using assms unfolding fork_inv_def by blast
  then show "ram_page s' = ram_page s" by (rule ram_page_kend)
qed (use assms in \<open>unfold fork_inv_def forked_def, blast+\<close>)

text \<open>Marking one page of the parent.\<close>

lemma fork_mark:
  assumes inv: "fork_inv R c old new ps s j k ps1 s1" and "old \<in> R" "old \<noteq> new" "unat i = 4096 * j"
    and e: "lookup (mem s) old i = Some e"
  obtains t where "i < MAXVA" "tbl (mem s1) old (vpath i) = Some t" "load64 (mem s1) (t + 8 * PX 0 i) = e"
    "bit e 0" "t + 8 * PX 0 i \<noteq> 0"
    "fork_inv R c old new ps s (Suc j) k ps1
      (if e AND PTE_W \<noteq> 0 then s1\<lparr>mem := store64 (mem s1) (t + 8 * PX 0 i) (cow_parent e)\<rparr> else s1)"
proof -
  note F = fork_invD [OF inv] and P = page_of_vpn [OF assms(4)]
  have e1: "lookup (mem s1) old i = Some e" using F(9) [OF assms(2), of i] P(4) e by simp
  then obtain t where t: "i < MAXVA" "tbl (mem s1) old (vpath i) = Some t"
    "load64 (mem s1) (t + 8 * PX 0 i) = e" "bit e 0" by (rule lookup_SomeD)
  let ?s2 = "s1\<lparr>mem := store64 (mem s1) (t + 8 * PX 0 i) (cow_parent e)\<rparr>"
  have v: "bit (cow_parent e) 0" "PTE2PA (cow_parent e) = PTE2PA e" using t(4) by simp_all
  note C = flag_change [OF F(1) assms(2) t(2) e1 v]
  have less: "vpn va < Suc j \<longleftrightarrow> vpn va = j \<or> vpn va < j" for va by auto
  have at_j: "lookup (mem s) old va = Some e" if "vpn va = j" for va
    using e P(1) [of va] that by (metis lookup_PGROUNDDOWN)
  have "fork_inv R c old new ps s (Suc j) k ps1 (if e AND PTE_W \<noteq> 0 then ?s2 else s1)"
  proof (cases "e AND PTE_W = 0")
    case True
    then have "cow_parent e = e" by (simp add: cow_parent_def)
    then have "lookup (mem s1) old va = map_option cow_parent (lookup (mem s) old va)" if "vpn va = j" for va
      using F(9) [OF assms(2), of va] that at_j [OF that] by simp
    with True inv show ?thesis
      using F(9) [OF assms(2)] by (auto simp: fork_inv_def forked_def less)
  next
    case False
    note U = upd_spaceD [OF C(2)]
    have "forked R old new (Suc j) k (mem s) (mem ?s2)"
      unfolding forked_def using U(4) F(9) at_j P(1,3) assms(3) by (auto simp: less)
    moreover have "mem ?s2 x = mem s x" if "PGROUNDDOWN x \<notin> tabs R (mem s)" "PGROUNDDOWN x \<notin> set ps" for x
    proof -
      have "PGROUNDDOWN x \<notin> tabs R (mem s1)" using F(6) that by blast
      then show ?thesis using C(5) [of x] F(7) [OF that] by simp
    qed
    ultimately show ?thesis
      using False C(1,3) F(2,3,4,5,6) by (simp add: fork_inv_def)
  qed
  with t slot_nonzero(1) [OF F(1) assms(2) t(2)] that show ?thesis by blast
qed

text \<open>Mapping it into the child.\<close>

lemma fork_map:
  assumes inv: "fork_inv R c old new ps s n j ps1 s1" and roots: "old \<in> R" "new \<in> R" "old \<noteq> new"
    and i: "unat i = 4096 * j" "i < MAXVA"
    and e: "lookup (mem s) old i = Some e" "ram_page s (PTE2PA e)" and none: "lookup (mem s) new i = None"
    and pos: "\<And>p. 0 \<le> c p"
  defines "bump \<equiv> \<lambda>s. s\<lparr>reference_counter := (reference_counter s)(PTE2PA e div PGSIZE := refs s (PTE2PA e) + 1)\<rparr>"
  obtains (fail) s2 where "mappages new i PGSIZE (PTE2PA e) (cow_flags e) s1 = Some (-1, s2)"
      "fork_inv R c old new ps s n j [] s2" "length ps1 < 2"
  | (succ) ps2 s2 where "mappages new i PGSIZE (PTE2PA e) (cow_flags e) s1 = Some (0, s2)"
      "fork_inv R c old new ps s n (Suc j) ps2 (bump s2)" "length ps1 \<le> length ps2 + 2"
proof -
  note F = fork_invD [OF inv] and P = page_of_vpn [OF i(1)]
  let ?p = "PTE2PA e"
  have e1: "\<exists>e'. lookup (mem s1) old i = Some e' \<and> PTE2PA e' = ?p"
    using F(9) [OF roots(1), of i] e(1) by auto
  then obtain e' where e': "lookup (mem s1) old i = Some e'" "PTE2PA e' = ?p" by blast
  have none1: "lookup (mem s1) new i = None"
    using F(9) [OF roots(2), of i] roots(3) P(4) none by simp
  have ram: "ram_page s1 ?p" using e(2) F(8) by simp
  have tab: "?p \<notin> tabs R (mem s1)" using vm_okD(6) [OF F(1) roots(1) e'(1)] e'(2) by simp
  have used: "0 < refs s1 ?p" using vm_okD(7) [OF F(1) roots(1) e'(1)] e'(2) ram by simp
  have nfree: "?p \<notin> set ps1" using kinvD(6) [OF vm_okD(2) [OF F(1)], of ?p] used by auto
  have fl: "bit (cow_flags e) n \<Longrightarrow> n < 10" for n by (simp add: bit_cow_flags)
  show ?thesis
  proof (rule map_page [OF F(1) roots(2) P(2) i(2) none1 page_aligned_PTE2PA PTE2PA_less [OF e(2)] fl tab nfree])
    fix s2
    assume s2: "mappages new i PGSIZE ?p (cow_flags e) s1 = Some (-1, s2)" "grows R ps1 c s1 [] s2" "length ps1 < 2"
    note g = growsD [OF s2(2)]
    have "fork_inv R c old new ps s n j [] s2"
      unfolding fork_inv_def forked_def using g(1,3,4,5,6,7) F(2,3,4,5,6,9) g(8) F(7)
      by (smt (verit) Un_iff empty_iff empty_subsetI list.set(1) subset_iff)
    with s2(1) show ?thesis by (rule fail) (rule s2(3))
  next
    fix sg ps2 s2
    assume s2: "mappages new i PGSIZE ?p (cow_flags e) s1 = Some (0, s2)" "grows R ps1 c s1 ps2 sg"
      and len: "length ps1 \<le> length ps2 + 2" and s3:
      "vm_ok R ps2 (c(?p := c ?p - 1)) s2"
      "upd_space R s1 new i (Some (PA2PTE ?p OR cow_flags e OR PTE_V)) s2"
      "tabs R (mem s2) = tabs R (mem sg)" "reference_counter s2 = reference_counter sg"
      "\<And>x. PGROUNDDOWN x \<notin> tabs R (mem s1) \<Longrightarrow> PGROUNDDOWN x \<notin> set ps1 \<Longrightarrow> mem s2 x = mem s1 x"
    note g = growsD [OF s2(2)] and U = upd_spaceD [OF s3(2)]
    have ram2: "ram_page s2 ?p" using ram U(3) by simp
    have rp: "refs s2 ?p = refs s1 ?p" using g(9) [OF ram] nfree s3(4) by simp
    have rf: "refs (bump s2) q = (if q = ?p then refs s2 ?p + 1 else refs s2 q)" if "ram_page s2 q" for q
      using refs_upd [OF ram2 that, of "bump s2"] by (simp add: bump_def)
    have "kinv ps2 (bump s2)"
      unfolding bump_def using vm_okD(2) [OF s3(1)] ram2 used rp by (intro kinv_refs_update) auto
    then have ok: "vm_ok R ps2 c (bump s2) \<and> same_spaces R s2 (bump s2)"
      using rf used rp by (intro vm_ok_step [OF s3(1)]) (auto simp: bump_def)
    have less: "vpn va < Suc j \<longleftrightarrow> vpn va = j \<or> vpn va < j" for va by auto
    have at_j: "lookup (mem s) old va = Some e" if "vpn va = j" for va
      using e(1) P(1) [of va] that by (metis lookup_PGROUNDDOWN)
    have "forked R old new n (Suc j) (mem s) (mem s2)"
      unfolding forked_def using U(4) F(9) at_j P(1,3) roots(3) by (auto simp: less cow_child_def)
    moreover have "mem s2 x = mem s x" if "PGROUNDDOWN x \<notin> tabs R (mem s)" "PGROUNDDOWN x \<notin> set ps" for x
    proof -
      have "PGROUNDDOWN x \<notin> tabs R (mem s1)" "PGROUNDDOWN x \<notin> set ps1" using F(2,6) that by blast+
      then show ?thesis using s3(5) [of x] F(7) [OF that] by simp
    qed
    moreover have "tabs R (mem s) \<subseteq> tabs R (mem s2)" "tabs R (mem s2) \<subseteq> tabs R (mem s) \<union> set ps"
      "set ps2 \<subseteq> set ps" using s3(3) g(6,7,11) F(2,5,6) by blast+
    ultimately have "fork_inv R c old new ps s n (Suc j) ps2 (bump s2)"
      unfolding fork_inv_def using ok U(1,2) F(3,4) by (simp add: bump_def)
    with s2(1) show ?thesis by (rule succ) (rule len)
  qed
qed

text \<open>
  Undoing: after a failure the child's pages are unmapped again. No page can end on the free
  list that was not there before, since every page keeps the references it had.
\<close>

lemma fork_maps_eq:
  assumes inv: "fork_inv R c old new ps s n k ps1 s1" and "old \<in> R" "new \<in> R" "old \<noteq> new"
    and "\<And>r va. r \<in> R \<Longrightarrow> lookup m r va =
      (if r = new \<and> vpn va < k then None else lookup (mem s1) r va)"
    and "\<And>va. vpn va < k \<Longrightarrow> lookup (mem s) new va = None"
  shows "maps R m p = maps R (mem s) p" "forked R old new n 0 (mem s) m"
proof -
  show f: "forked R old new n 0 (mem s) m"
    unfolding forked_def using assms(3-6) fork_invD(9) [OF inv] by auto
  have "map_option PTE2PA (lookup m r va) = map_option PTE2PA (lookup (mem s) r va)" if "r \<in> R" for r va
    using f that assms(4) by (cases "lookup (mem s) old va") (auto simp: forked_def)
  then show "maps R m p = maps R (mem s) p"
    unfolding maps_def by (intro Collect_cong) (metis (mono_tags, lifting) case_prod_conv surj_pair)
qed

lemma fork_undo:
  assumes inv: "fork_inv R c old new ps s n j ps1 s1" and roots: "old \<in> R" "new \<in> R" "old \<noteq> new"
    and ok: "vm_ok R ps c s" and pos: "\<And>p. 0 \<le> c p" and j: "4096 * j \<le> 2 ^ 38"
    and src: "\<And>va. vpn va < j \<Longrightarrow>
      \<exists>e. lookup (mem s) old va = Some e \<and> ram_page s (PTE2PA e) \<and> PTE_FLAGS e \<noteq> PTE_V"
    and dst: "\<And>va. vpn va < j \<Longrightarrow> lookup (mem s) new va = None"
  shows "\<exists>ps' s'. uvmunmap new 0 (of_nat j) True s1 = Some s' \<and> fork_inv R c old new ps s n 0 ps' s'"
proof -
  note F = fork_invD [OF inv]
  have rng: "in_range 0 j va \<longleftrightarrow> vpn va < j" for va
    by (auto simp: in_range_def unat_PGROUNDDOWN vpn_def)
  have "\<exists>e. lookup (mem s1) new va = Some e \<and> PTE_FLAGS e \<noteq> PTE_V \<and> ram_page s1 (PTE2PA e)"
    if "in_range 0 j va" for va
  proof -
    have "vpn va < j" using that rng by simp
    with src obtain e where e: "lookup (mem s) old va = Some e" "ram_page s (PTE2PA e)" "PTE_FLAGS e \<noteq> PTE_V"
      by blast
    then have "bit e 0" by (auto elim: lookup_SomeD)
    then show ?thesis
      using F(9) [OF roots(2), of va] roots(3) \<open>vpn va < j\<close> e F(8) cow_child_leaf [of e] cow_child_PTE2PA [OF e(2)]
      by simp
  qed
  then obtain ps' s' where s': "uvmunmap_loop new 0 (0 + of_nat j * PGSIZE) True s1 = Some s'" "vm_ok R ps' c s'"
    "kend s' = kend s1" "kmem.more s' = kmem.more s1"
    "\<forall>r'\<in>R. \<forall>va. lookup (mem s') r' va = (if r' = new \<and> in_range 0 j va then None else lookup (mem s1) r' va)"
    "tabs R (mem s') = tabs R (mem s1)"
    "\<forall>x. PGROUNDDOWN x \<notin> tabs R (mem s1) \<longrightarrow> PGROUNDDOWN x \<notin> set ps' \<longrightarrow> mem s' x = mem s1 x"
    using uvmunmap_range [OF F(1) roots(2) pos, of 0 j] j by (auto simp: page_aligned_def)
  have L: "maps R (mem s') p = maps R (mem s) p" "forked R old new n 0 (mem s) (mem s')" for p
    using fork_maps_eq [OF inv roots, of "mem s'"] s'(5) rng dst by auto
  have sub: "set ps' \<subseteq> set ps"
    using ok s'(2) _ L(1) by (rule free_pages_subset) (use s'(3,6) F(3,5) in auto)
  have "mem s' x = mem s x" if "PGROUNDDOWN x \<notin> tabs R (mem s)" "PGROUNDDOWN x \<notin> set ps" for x
  proof -
    have "PGROUNDDOWN x \<notin> tabs R (mem s1)" "PGROUNDDOWN x \<notin> set ps'" using that F(6) sub by blast+
    then show ?thesis using s'(7) F(7) [OF that] by simp
  qed
  then have "fork_inv R c old new ps s n 0 ps' s'"
    unfolding fork_inv_def using s'(2,3,4,6) L(2) sub F(3,4,5,6) by simp
  moreover have "uvmunmap new 0 (of_nat j) True s1 = Some s'" using s'(1) by (simp add: uvmunmap_def)
  ultimately show ?thesis by blast
qed

lemma npages_less: "j < npages sz \<longleftrightarrow> 4096 * j < unat sz"
  by (auto simp: npages_def)

lemma uvmcopy_loop_fork:
  assumes "fork_inv R c old new ps s j j ps1 s1" and roots: "old \<in> R" "new \<in> R" "old \<noteq> new"
    and ok: "vm_ok R ps c s" and pos: "\<And>p. 0 \<le> c p" and sz: "sz \<le> MAXVA"
    and src: "\<And>va. vpn va < npages sz \<Longrightarrow>
      \<exists>e. lookup (mem s) old va = Some e \<and> ram_page s (PTE2PA e) \<and> PTE_FLAGS e \<noteq> PTE_V"
    and dst: "\<And>va. vpn va < npages sz \<Longrightarrow> lookup (mem s) new va = None"
    and "unat i = 4096 * j" "j \<le> npages sz" "length ps \<le> length ps1 + 2 * j"
  shows "\<exists>x ps' s'. uvmcopy_loop old new i sz s1 = Some (x, s') \<and>
    (x = 0 \<and> length ps \<le> length ps' + 2 * npages sz \<and>
       fork_inv R c old new ps s (npages sz) (npages sz) ps' s' \<or>
     x = -1 \<and> length ps < 2 * npages sz \<and> (\<exists>n\<le>npages sz. fork_inv R c old new ps s n 0 ps' s'))"
  using assms(1,10,11,12)
proof (induction "npages sz - j" arbitrary: j i ps1 s1)
  case 0
  then have "j = npages sz" by simp
  moreover from this have "\<not> i < sz"
    using npages_less [of j sz] 0(3) by (simp add: word_less_nat_alt)
  ultimately show ?case
    using 0(2,5) by (subst uvmcopy_loop.simps) auto
next
  case (Suc d)
  have j: "j < npages sz" using Suc.hyps(2) by simp
  then have lt: "i < sz" using npages_less [of j sz] Suc.prems(2) by (simp add: word_less_nat_alt)
  have usz: "unat sz \<le> 2 ^ 38" using sz by (simp add: MAXVA_val word_le_nat_alt)
  have vi: "vpn i = j" using Suc.prems(2) by (simp add: vpn_def)
  obtain e where e: "lookup (mem s) old i = Some e" "ram_page s (PTE2PA e)" "PTE_FLAGS e \<noteq> PTE_V"
    using src [of i] vi j by auto
  let ?s2 = "\<lambda>t. if e AND PTE_W \<noteq> 0 then s1\<lparr>mem := store64 (mem s1) (t + 8 * PX 0 i) (cow_parent e)\<rparr> else s1"
  let ?bump = "\<lambda>s. s\<lparr>reference_counter := (reference_counter s)(PTE2PA e div PGSIZE := refs s (PTE2PA e) + 1)\<rparr>"
  obtain t where t: "i < MAXVA" "tbl (mem s1) old (vpath i) = Some t" "load64 (mem s1) (t + 8 * PX 0 i) = e"
    "bit e 0" "t + 8 * PX 0 i \<noteq> 0" "fork_inv R c old new ps s (Suc j) j ps1 (?s2 t)"
    by (rule fork_mark [OF Suc.prems(1) roots(1,3) Suc.prems(2) e(1)])
  have unfold: "uvmcopy_loop old new i sz s1 =
      do { (x, s3) \<leftarrow> mappages new i PGSIZE (PTE2PA e) (cow_flags e) (?s2 t);
           if x \<noteq> 0 then do { s4 \<leftarrow> uvmunmap new 0 (i div PGSIZE) True s3; Some (-1, s4) }
           else uvmcopy_loop old new (i + PGSIZE) sz (?bump s3) }"
    using lt t(1,2,3,4,5)
    by (subst uvmcopy_loop.simps) (simp add: walk_False and_flag_iff Let_def cow_flags_def cow_parent_def)
  have ui: "unat (i + PGSIZE) = 4096 * Suc j"
    using Suc.prems(2) npages_less [of j sz] j usz by (subst unat_add_no_overflow) auto
  show ?case
  proof (rule fork_map [OF t(6) roots Suc.prems(2) t(1) e(1,2) _ pos])
    show "lookup (mem s) new i = None" using dst [of i] vi j by simp
  next
    fix s3 assume s3: "mappages new i PGSIZE (PTE2PA e) (cow_flags e) (?s2 t) = Some (-1, s3)"
      "fork_inv R c old new ps s (Suc j) j [] s3" "length ps1 < 2"
    have div: "i div PGSIZE = of_nat j"
    proof -
      have "unat (i div PGSIZE) = j" using Suc.prems(2) by (simp add: unat_div_distrib)
      then show ?thesis by auto
    qed
    have "4096 * j \<le> 2 ^ 38" using npages_less [of j sz] j usz by simp
    from fork_undo [OF s3(2) roots ok pos this] src dst j
    obtain ps' s' where "uvmunmap new 0 (of_nat j) True s3 = Some s'" "fork_inv R c old new ps s (Suc j) 0 ps' s'"
      by (meson less_trans)
    moreover have "length ps < 2 * npages sz" using s3(3) Suc.prems(4) j by simp
    ultimately show ?thesis using s3(1) j unfolding unfold div by (auto intro!: exI [of _ ps'] exI [of _ "Suc j"])
  next
    fix ps3 s3 assume s3: "mappages new i PGSIZE (PTE2PA e) (cow_flags e) (?s2 t) = Some (0, s3)"
      "fork_inv R c old new ps s (Suc j) (Suc j) ps3 (?bump s3)" "length ps1 \<le> length ps3 + 2"
    have "length ps \<le> length ps3 + 2 * Suc j" using s3(3) Suc.prems(4) by simp
    moreover have "d = npages sz - Suc j" using Suc.hyps(2) by simp
    ultimately show ?thesis using Suc.hyps(1) [OF _ s3(2) ui] j s3(1) unfolding unfold by auto
  qed
qed

section \<open>Giving a mapping a private copy of its page\<close>

lemma vpath_PGROUNDDOWN [simp]: "vpath (PGROUNDDOWN va) = vpath va"
  by (simp add: vpath_def)

lemma uvmunmap_one:
  assumes ok: "vm_ok R ps c s" and r: "r \<in> R" and e: "lookup (mem s) r va = Some e" "PTE_FLAGS e \<noteq> PTE_V"
    and pa: "ram_page s (PTE2PA e)" "0 \<le> c (PTE2PA e)"
  obtains s' where "uvmunmap r (PGROUNDDOWN va) 1 True s = Some s'"
    "vm_ok R (if refs s (PTE2PA e) = 1 then PTE2PA e # ps else ps) c s'"
    "upd_space R s r va None s'"
    "tabs R (mem s') = tabs R (mem s)"
    "\<And>r' va. r' \<in> R \<Longrightarrow> tbl (mem s') r' (vpath va) = tbl (mem s) r' (vpath va)"
    "\<And>q. ram_page s q \<Longrightarrow> refs s' q = (if q = PTE2PA e then refs s q - 1 else refs s q)"
    "\<And>x. PGROUNDDOWN x \<notin> tabs R (mem s) \<Longrightarrow> PGROUNDDOWN x \<noteq> PTE2PA e \<or> refs s (PTE2PA e) \<noteq> 1 \<Longrightarrow>
      mem s' x = mem s x"
proof -
  have va: "va < MAXVA" using e(1) by (auto elim: lookup_SomeD)
  have e': "lookup (mem s) r (PGROUNDDOWN va) = Some e" using e(1) by simp
  have "PGROUNDDOWN va < MAXVA" using va by simp
  then have "unat (PGROUNDDOWN va) < 2 ^ 38" by (simp add: MAXVA_val word_less_nat_alt del: PGROUNDDOWN_less_MAXVA)
  then have lt: "PGROUNDDOWN va < PGROUNDDOWN va + PGSIZE"
    by (simp add: word_less_nat_alt unat_word_ariths)
  show ?thesis
  proof (rule unmap_step [OF ok r e' e(2) pa lt])
    fix s'
    assume s': "uvmunmap_loop r (PGROUNDDOWN va) (PGROUNDDOWN va + PGSIZE) True s =
        uvmunmap_loop r (PGROUNDDOWN va + PGSIZE) (PGROUNDDOWN va + PGSIZE) True s'"
      "vm_ok R (if refs s (PTE2PA e) = 1 then PTE2PA e # ps else ps) c s'"
      "upd_space R s r (PGROUNDDOWN va) None s'" "tabs R (mem s') = tabs R (mem s)"
      "\<And>r' va. r' \<in> R \<Longrightarrow> tbl (mem s') r' (vpath va) = tbl (mem s) r' (vpath va)"
      "\<And>q. ram_page s q \<Longrightarrow> refs s' q = (if q = PTE2PA e then refs s q - 1 else refs s q)"
      "\<And>x. PGROUNDDOWN x \<notin> tabs R (mem s) \<Longrightarrow> PGROUNDDOWN x \<noteq> PTE2PA e \<or> refs s (PTE2PA e) \<noteq> 1 \<Longrightarrow>
        mem s' x = mem s x"
    have "uvmunmap_loop r (PGROUNDDOWN va + PGSIZE) (PGROUNDDOWN va + PGSIZE) True s' = Some s'"
      by (subst uvmunmap_loop.simps) simp
    then have "uvmunmap r (PGROUNDDOWN va) 1 True s = Some s'"
      using s'(1) page_aligned_PGROUNDDOWN [of va] by (simp add: uvmunmap_def page_aligned_def)
    moreover have "upd_space R s r va None s'" using s'(3) by (simp add: upd_space_def)
    ultimately show ?thesis using that [of s'] s'(2,4-7) by blast
  qed
qed

lemma map_present:
  assumes ok: "vm_ok R ps c s" and r: "r \<in> R" and va: "va < MAXVA" and t: "tbl (mem s) r (vpath va) = Some t"
    and none: "lookup (mem s) r va = None"
    and q: "page_aligned q" "unat q < 2 ^ 56" "q \<notin> tabs R (mem s)" "ram_page s q \<Longrightarrow> 0 < refs s q"
    and f: "\<forall>n. bit f n \<longrightarrow> n < 10"
  defines "s' \<equiv> s\<lparr>mem := store64 (mem s) (t + 8 * PX 0 va) (PA2PTE q OR f OR PTE_V)\<rparr>"
  shows "mappages r (PGROUNDDOWN va) PGSIZE q f s = Some (0, s')" "vm_ok R ps (c(q := c q - 1)) s'"
    "upd_space R s r va (Some (PA2PTE q OR f OR PTE_V)) s'" "tabs R (mem s') = tabs R (mem s)"
    "PGROUNDDOWN x \<notin> tabs R (mem s) \<Longrightarrow> mem s' x = mem s x"
proof -
  let ?v = "PA2PTE q OR f OR PTE_V"
  have v: "bit ?v 0" "PTE2PA ?v = q" using new_entry [of q f] q(1,2) f by blast+
  have v': "bit ?v 0 \<Longrightarrow> PTE2PA ?v \<notin> tabs R (mem s)"
    "bit ?v 0 \<Longrightarrow> ram_page s (PTE2PA ?v) \<Longrightarrow> 0 < refs s (PTE2PA ?v)" using q(3,4) by (simp_all add: v(2))
  note L = set_leaf [OF ok r va t v']
  have "\<not> bit (load64 (mem s) (t + 8 * PX 0 va)) 0"
    using lookup_slot [OF va t] none by (auto split: if_splits)
  moreover have "walk r (PGROUNDDOWN va) True s = Some (t + 8 * PX 0 va, s)"
    using walk_present [of "PGROUNDDOWN va" s r t True] va t by simp
  ultimately show "mappages r (PGROUNDDOWN va) PGSIZE q f s = Some (0, s')"
    using slot_nonzero(1) [OF ok r t] by (simp add: mappages_one_page s'_def)
  have "(\<lambda>p. c p + pte_ind (lookup (mem s) r va) p - pte_ind (Some ?v) p) = c(q := c q - 1)"
    using none v(2) by (simp add: fun_eq_iff)
  then show "vm_ok R ps (c(q := c q - 1)) s'" using L(1) v(1) by (simp add: s'_def)
  show "upd_space R s r va (Some ?v) s'" using L(2) v(1) by (simp add: upd_space_def s'_def)
  show "tabs R (mem s') = tabs R (mem s)" using L(3) by (simp add: s'_def)
  show "PGROUNDDOWN x \<notin> tabs R (mem s) \<Longrightarrow> mem s' x = mem s x" using L(5) by (simp add: s'_def)
qed

text \<open>
  The sequence of calls that the page-fault handler and \<open>copyout\<close> share: allocate, copy the
  page, unmap the old page, map the copy with the flags \<open>f\<close>.
\<close>

lemma cow_copy:
  assumes ok: "vm_ok R (q # ps) c s" and r: "r \<in> R" and e: "lookup (mem s) r va = Some e" "PTE_FLAGS e \<noteq> PTE_V"
    and ram: "ram_page s (PTE2PA e)" "\<And>p. 0 \<le> c p" and f: "\<forall>n. bit f n \<longrightarrow> n < 10"
  obtains s1 s2 s3 where "kalloc s = (q, s1)" "q \<noteq> 0"
    "uvmunmap r (PGROUNDDOWN va) 1 True (s1\<lparr>mem := memmove (mem s1) q (PTE2PA e) 4096\<rparr>) = Some s2"
    "mappages r (PGROUNDDOWN va) PGSIZE q f s2 = Some (0, s3)"
    "vm_ok R (if refs s (PTE2PA e) = 1 then PTE2PA e # ps else ps) c s3"
    "upd_space R s r va (Some (PA2PTE q OR f OR PTE_V)) s3" "PTE2PA (PA2PTE q OR f OR PTE_V) = q"
    "refs s3 q = 1" "q \<noteq> PTE2PA e" "tabs R (mem s3) = tabs R (mem s)"
    "\<And>x. PGROUNDDOWN x \<notin> tabs R (mem s) \<Longrightarrow> PGROUNDDOWN x \<noteq> q \<Longrightarrow>
       PGROUNDDOWN x \<noteq> PTE2PA e \<or> refs s (PTE2PA e) \<noteq> 1 \<Longrightarrow> mem s3 x = mem s x"
    "\<And>off. off < 4096 \<Longrightarrow> mem s3 (q + off) = mem s (PTE2PA e + off)"
proof (rule alloc_page [OF ok])
  fix s1
  assume s1: "kalloc s = (q, s1)" "vm_ok R ps (c(q := 1)) s1" "same_spaces R s s1"
    "\<And>x. mem s1 x = (if PGROUNDDOWN x = q then 5 else mem s x)"
    "\<And>p. ram_page s p \<Longrightarrow> refs s1 p = (if p = q then 1 else refs s p)"
    "ram_page s q" "q \<noteq> 0" "q \<notin> set ps" "q \<notin> tabs R (mem s)"
  let ?pa = "PTE2PA e"
  note S1 = same_spacesD [OF s1(3)]
  from e(1) have va: "va < MAXVA" by (auto elim: lookup_SomeD)
  have q: "page_aligned q" "unat q < 2 ^ 56"
    using ram_pageD [OF s1(6) kinvD(1) [OF vm_okD(2) [OF ok]]] by auto
  have qpa: "q \<noteq> ?pa" using free_page_unused(2) [OF ok _ r e(1)] by auto
  let ?sa = "s1\<lparr>mem := memmove (mem s1) q ?pa 4096\<rparr>"
  have "unat ?pa + 4096 < 2 ^ 64" using PTE2PA_less [OF ram(1)] by simp
  with q(1) have m: "mem ?sa x = (if PGROUNDDOWN x = q then mem s1 (?pa + (x - q)) else mem s1 x)" for x
    by (simp add: memmove_page)
  have W: "vm_ok R ps (c(q := 1)) ?sa" "same_spaces R s1 ?sa"
    using write_page [OF s1(2), of q "mem ?sa"] s1(8,9) S1(3) m by auto
  note S2 = same_spacesD [OF W(2)]
  have lk: "lookup (mem ?sa) r va = Some e" using S1(4) S2(4) r e(1) by simp
  have ra: "ram_page ?sa = ram_page s" using S1(6) S2(6) by simp
  have pa2: "ram_page ?sa ?pa" "0 \<le> (c(q := 1)) ?pa" using ra ram by simp_all
  have rp: "refs ?sa ?pa = refs s ?pa" using s1(5) [OF ram(1)] qpa by simp
  have ta: "tabs R (mem ?sa) = tabs R (mem s)" using S1(3) S2(3) by simp
  show thesis
  proof (rule uvmunmap_one [OF W(1) r lk e(2) pa2])
    fix s2
    assume s2: "uvmunmap r (PGROUNDDOWN va) 1 True ?sa = Some s2"
      "vm_ok R (if refs ?sa ?pa = 1 then ?pa # ps else ps) (c(q := 1)) s2"
      "upd_space R ?sa r va None s2" "tabs R (mem s2) = tabs R (mem ?sa)"
      "\<And>r' va. r' \<in> R \<Longrightarrow> tbl (mem s2) r' (vpath va) = tbl (mem ?sa) r' (vpath va)"
      "\<And>p. ram_page ?sa p \<Longrightarrow> refs s2 p = (if p = ?pa then refs ?sa p - 1 else refs ?sa p)"
      "\<And>x. PGROUNDDOWN x \<notin> tabs R (mem ?sa) \<Longrightarrow> PGROUNDDOWN x \<noteq> ?pa \<or> refs ?sa ?pa \<noteq> 1 \<Longrightarrow> mem s2 x = mem ?sa x"
    note U = upd_spaceD [OF s2(3)]
    obtain t where "tbl (mem ?sa) r (vpath va) = Some t" using lk by (rule lookup_SomeD)
    then have t: "tbl (mem s2) r (vpath va) = Some t" using s2(5) [OF r] by simp
    have none: "lookup (mem s2) r va = None" using U(4) [OF r] by simp
    have rq: "refs s2 q = 1" using s2(6) [of q] ra s1(5,6) qpa by simp
    have q2: "q \<notin> tabs R (mem s2)" "ram_page s2 q \<Longrightarrow> 0 < refs s2 q" using s1(9) s2(4) ta rq by simp_all
    let ?s3 = "s2\<lparr>mem := store64 (mem s2) (t + 8 * PX 0 va) (PA2PTE q OR f OR PTE_V)\<rparr>"
    note M = map_present [OF s2(2) r va t none q q2 f]
    have fin: "mem ?s3 x = mem ?sa x"
      if "PGROUNDDOWN x \<notin> tabs R (mem s)" "PGROUNDDOWN x \<noteq> ?pa \<or> refs s ?pa \<noteq> 1" for x
      using M(5) [of x] s2(4,7) that ta rp by simp
    show thesis
    proof (rule that [OF s1(1,7) s2(1) M(1)])
      have "(c(q := 1))(q := (c(q := 1)) q - 1) = c"
        using free_page_unused(4) [OF ok, of q] by (auto simp: fun_eq_iff)
      then show "vm_ok R (if refs s ?pa = 1 then ?pa # ps else ps) c ?s3" using M(2) rp by simp
      show "upd_space R s r va (Some (PA2PTE q OR f OR PTE_V)) ?s3"
        unfolding upd_space_def using upd_spaceD(1,2,4) [OF M(3)] U(1,2,4) S1(1,2,4) S2(4) by simp
      show "PTE2PA (PA2PTE q OR f OR PTE_V) = q" using new_entry(2) [of q f] q f by blast
      show "refs ?s3 q = 1" "q \<noteq> ?pa" "tabs R (mem ?s3) = tabs R (mem s)"
        using rq qpa M(4) s2(4) ta by simp_all
      show "mem ?s3 x = mem s x" if "PGROUNDDOWN x \<notin> tabs R (mem s)" "PGROUNDDOWN x \<noteq> q"
        "PGROUNDDOWN x \<noteq> ?pa \<or> refs s ?pa \<noteq> 1" for x
        using fin [OF that(1,3)] that(2) m s1(4) by simp
      show "mem ?s3 (q + off) = mem s (?pa + off)" if "off < 4096" for off
      proof -
        have "PGROUNDDOWN (q + off) = q" "PGROUNDDOWN (?pa + off) = ?pa" using that q(1) by simp_all
        then show ?thesis using fin [of "q + off"] s1(9) qpa m [of "q + off"] s1(4) by simp
      qed
    qed
  qed
qed

end
