(* ===== verification/CowFault.thy ===== *)
theory CowFault
  imports VmCow
begin

text \<open>
  The copy-on-write page-fault handler of \<^verbatim>\<open>kernel/trap.c\<close> (\<^verbatim>\<open>iscowpage\<close> and the page-fault
  branch of \<^verbatim>\<open>usertrap\<close>), and what it guarantees to the processes that share pages.
  The result \<open>False\<close> of \<open>cow_fault\<close> stands for \<^verbatim>\<open>p->killed = 1; exit(-1)\<close>.
\<close>

section \<open>The handler\<close>

definition iscowpage :: "u64 \<Rightarrow> u64 \<Rightarrow> u64 \<Rightarrow> 'a kmem_scheme \<Rightarrow> bool option" where
  "iscowpage sz pagetable va s =
     (if va < sz then do {
        (pte, s) \<leftarrow> walk pagetable va False s;
        Some (pte \<noteq> 0 \<and> load64 (mem s) pte AND PTE_V \<noteq> 0 \<and> load64 (mem s) pte AND PTE_COW \<noteq> 0) }
      else Some False)"

definition cow_fault :: "u64 \<Rightarrow> u64 \<Rightarrow> 'a kmem_scheme \<Rightarrow> (bool \<times> 'a kmem_scheme) option" where
  "cow_fault pagetable va s =
     (let page_va = PGROUNDDOWN va in do {
        (req_pte, s) \<leftarrow> walk pagetable va False s;
        if req_pte = 0 \<or> load64 (mem s) req_pte AND PTE_V = 0 then Some (False, s)
        else
          let pa = PTE2PA (load64 (mem s) req_pte) in
          if pa = 0 then Some (False, s)
          else if 1 < reference_counter s (pa div PGSIZE) then
            let flags = (PTE_FLAGS (load64 (mem s) req_pte) OR PTE_W) AND NOT PTE_COW;
                (new_page, s) = kalloc s
            in if new_page = 0 then Some (False, s)
            else
              let s = s\<lparr>mem := memmove (mem s) new_page pa 4096\<rparr> in do {
                s \<leftarrow> uvmunmap pagetable page_va 1 True s;
                (r, s) \<leftarrow> mappages pagetable page_va PGSIZE new_page flags s;
                if r \<noteq> 0 then do { s \<leftarrow> kfree new_page s; Some (False, s) }
                else Some (True, s) }
          else if reference_counter s (pa div PGSIZE) = 1 then
            let s = s\<lparr>mem := store64 (mem s) req_pte (load64 (mem s) req_pte AND NOT PTE_COW)\<rparr>;
                s = s\<lparr>mem := store64 (mem s) req_pte (load64 (mem s) req_pte OR PTE_W)\<rparr>
            in Some (True, s)
          else Some (False, s) })"

section \<open>What a process sees of memory\<close>

text \<open>The byte that a load at \<open>va\<close> reads, and a store of the user program at \<open>va\<close>.\<close>

definition uaddr :: "u64 \<Rightarrow> u64 \<Rightarrow> u64" where
  "uaddr e va = PTE2PA e + (va - PGROUNDDOWN va)"

definition uread :: "memory \<Rightarrow> u64 \<Rightarrow> u64 \<Rightarrow> u8 option" where
  "uread m r va = map_option (\<lambda>e. m (uaddr e va)) (lookup m r va)"

definition ustore :: "u64 \<Rightarrow> u64 \<Rightarrow> u8 \<Rightarrow> 'a kmem_scheme \<Rightarrow> 'a kmem_scheme option" where
  "ustore r va b s =
     do { e \<leftarrow> lookup (mem s) r va;
          if bit e 2 \<and> bit e 4 then Some (s\<lparr>mem := (mem s)(uaddr e va := b)\<rparr>) else None }"

lemma uaddr_page [simp]: "PGROUNDDOWN (uaddr e va) = PTE2PA e"
proof -
  have "va - PGROUNDDOWN va < 4096"
    using PGROUNDDOWN_eq_iff [of "PGROUNDDOWN va" va] by (simp add: word_less_nat_alt)
  then show ?thesis unfolding uaddr_def by simp
qed

lemma uaddr_cong: "PTE2PA e' = PTE2PA e \<Longrightarrow> uaddr e' va = uaddr e va"
  by (simp add: uaddr_def)

lemma uaddr_inj:
  assumes "uaddr e va = uaddr e' va'" "PGROUNDDOWN va = PGROUNDDOWN va'"
  shows "va = va'"
proof -
  have "PTE2PA e = PTE2PA e'" using assms(1) by (metis uaddr_page)
  then show ?thesis using assms by (simp add: uaddr_def)
qed

lemma uread_frame:
  assumes "lookup m' r va = lookup m r va" "\<And>x e. lookup m r va = Some e \<Longrightarrow> PGROUNDDOWN x = PTE2PA e \<Longrightarrow> m' x = m x"
  shows "uread m' r va = uread m r va"
  using assms(2) [OF _ uaddr_page] by (cases "lookup m r va") (auto simp: uread_def assms(1))

text \<open>A page that is referenced once is seen through one mapping only.\<close>

lemma sole_mapping:
  assumes ok: "vm_ok R ps c s" "\<And>p. 0 \<le> c p" and r: "r \<in> R" "lookup (mem s) r va = Some e"
    and one: "ram_page s (PTE2PA e)" "refs s (PTE2PA e) = 1"
    and r': "r' \<in> R" "lookup (mem s) r' va' = Some e'" "PTE2PA e' = PTE2PA e"
  shows "r' = r \<and> PGROUNDDOWN va' = PGROUNDDOWN va"
proof -
  let ?M = "maps R (mem s) (PTE2PA e)"
  have "int (card ?M) \<le> 1"
    using vm_okD(8) [OF ok(1) one(1)] vm_okD(6) [OF ok(1) r] ok(2) [of "PTE2PA e"] one(2) by simp
  moreover have "(r, PGROUNDDOWN va) \<in> ?M" "(r', PGROUNDDOWN va') \<in> ?M"
    using r r' by (simp_all add: maps_def)
  moreover have "finite ?M" using vm_okD(1) [OF ok(1)] by simp
  ultimately show ?thesis using card_le_Suc0_iff_eq [of ?M] by auto
qed

lemma ustore_private:
  assumes ok: "vm_ok R ps c s" "\<And>p. 0 \<le> c p" and r: "r \<in> R" "lookup (mem s) r va = Some e"
    and e: "bit e 2" "bit e 4" and one: "ram_page s (PTE2PA e)" "refs s (PTE2PA e) = 1"
  obtains s' where "ustore r va b s = Some s'" "vm_ok R ps c s'" "same_spaces R s s'"
    "uread (mem s') r va = Some b"
    "\<And>r' va'. r' \<in> R \<Longrightarrow> r' \<noteq> r \<or> va' \<noteq> va \<Longrightarrow> uread (mem s') r' va' = uread (mem s) r' va'"
proof -
  let ?m = "(mem s)(uaddr e va := b)"
  let ?s = "s\<lparr>mem := ?m\<rparr>"
  have tab: "PTE2PA e \<notin> tabs R (mem s)" using vm_okD(6) [OF ok(1) r] .
  have nfree: "PTE2PA e \<notin> set ps" using kinvD(6) [OF vm_okD(2) [OF ok(1)], of "PTE2PA e"] one(2) by auto
  have out: "?m x = mem s x" if "PGROUNDDOWN x \<noteq> PTE2PA e" for x using that by auto
  have W: "vm_ok R ps c ?s" "same_spaces R s ?s"
    using write_page [OF ok(1) tab nfree, of ?m] out by blast+
  note S = same_spacesD [OF W(2)]
  have "uread ?m r' va' = uread (mem s) r' va'" if "r' \<in> R" "r' \<noteq> r \<or> va' \<noteq> va" for r' va'
  proof (cases "lookup (mem s) r' va'")
    case None
    then show ?thesis using S(4) [OF that(1), of va'] by (simp add: uread_def)
  next
    case (Some e')
    have "uaddr e' va' \<noteq> uaddr e va"
    proof
      assume eq: "uaddr e' va' = uaddr e va"
      then have "PTE2PA e' = PTE2PA e" by (metis uaddr_page)
      from sole_mapping [OF ok r one that(1) Some this] uaddr_inj [OF eq] that(2) show False by auto
    qed
    then show ?thesis using S(4) [OF that(1), of va'] Some by (simp add: uread_def)
  qed
  moreover have "uread ?m r va = Some b" using S(4) [OF r(1), of va] r(2) by (simp add: uread_def)
  moreover have "ustore r va b s = Some ?s" using r(2) e by (simp add: ustore_def)
  ultimately show ?thesis using W that [of ?s] by auto
qed

section \<open>Correctness of the handler\<close>

lemma cow_new_flags:
  "bit ((PTE_FLAGS e OR PTE_W) AND NOT PTE_COW) n \<longleftrightarrow> n < 10 \<and> n \<noteq> 8 \<and> (bit e n \<or> n = 2)"
  by (auto simp: bit_simps bit_PTE bit_PTE_FLAGS dest: bit_imp_le_length)

lemma cow_fault_result:
  assumes ok: "vm_ok R ps c s" "\<And>p. 0 \<le> c p" and r: "r \<in> R" "lookup (mem s) r va = Some e"
    and e: "bit e 8" "ram_page s (PTE2PA e)"
  obtains (nomem) "ps = []" "1 < refs s (PTE2PA e)" "cow_fault r va s = Some (False, s)"
  | (priv) ps' s' e' where "cow_fault r va s = Some (True, s')" "vm_ok R ps' c s'"
      "upd_space R s r va (Some e') s'"
      "\<And>n. n < 10 \<Longrightarrow> bit e' n \<longleftrightarrow> n \<noteq> 8 \<and> (bit e n \<or> n = 2)"
      "ram_page s' (PTE2PA e')" "refs s' (PTE2PA e') = 1"
      "\<And>r' va'. r' \<in> R \<Longrightarrow> uread (mem s') r' va' = uread (mem s) r' va'"
proof -
  from r(2) obtain t where t: "va < MAXVA" "tbl (mem s) r (vpath va) = Some t"
    "load64 (mem s) (t + 8 * PX 0 va) = e" "bit e 0" by (rule lookup_SomeD)
  note slot = slot_nonzero [OF ok(1) r(1) t(2)]
  have pos: "0 < refs s (PTE2PA e)" using vm_okD(7) [OF ok(1) r e(2)] .
  have nz: "PTE2PA e \<noteq> 0" using ram_pageD(2) [OF e(2) kinvD(1) [OF vm_okD(2) [OF ok(1)]]] .
  have leaf: "PTE_FLAGS e \<noteq> PTE_V" unfolding not_only_V using e(1) by (intro disjI2 exI [of _ 8]) simp
  let ?f = "(PTE_FLAGS e OR PTE_W) AND NOT PTE_COW"
  show ?thesis
  proof (cases "refs s (PTE2PA e) = 1")
    case True
    let ?v = "(e AND NOT PTE_COW) OR PTE_W"
    let ?s = "s\<lparr>mem := store64 (mem s) (t + 8 * PX 0 va) ?v\<rparr>"
    have st2: "store64 (store64 m a x) a y = store64 m a y" for m a x y
      by (rule ext) (simp add: store64_apply)
    have run: "cow_fault r va s = Some (True, ?s)"
      using t slot(1) True nz by (simp add: cow_fault_def walk_False and_flag_iff Let_def st2)
    have bits: "bit ?v n \<longleftrightarrow> n \<noteq> 8 \<and> (bit e n \<or> n = 2)" if "n < 10" for n
      using that by (auto simp: bit_simps bit_PTE)
    have v: "bit ?v 0" "PTE2PA ?v = PTE2PA e" using bits [of 0] t(4) by auto
    note C = flag_change [OF ok(1) r(1) t(2) r(2) v]
    note U = upd_spaceD [OF C(2)]
    have "uread (mem ?s) r' va' = uread (mem s) r' va'" if "r' \<in> R" for r' va'
    proof -
      have frame: "mem ?s x = mem s x" if "lookup (mem s) r' va' = Some e'" "PGROUNDDOWN x = PTE2PA e'" for x e'
        using C(5) [of x] vm_okD(6) [OF ok(1) \<open>r' \<in> R\<close> that(1)] that(2) by simp
      show ?thesis
      proof (cases "r' = r \<and> PGROUNDDOWN va' = PGROUNDDOWN va")
        case same: True
        then have "lookup (mem s) r' va' = Some e" using r(2) by (metis lookup_PGROUNDDOWN)
        then show ?thesis
          using U(4) [OF that, of va'] same frame [OF _ uaddr_page, of e va'] uaddr_cong [OF v(2), of va']
          by (simp add: uread_def)
      next
        case False
        then show ?thesis using U(4) [OF that, of va'] frame by (intro uread_frame) auto
      qed
    qed
    then show ?thesis
      using priv [OF run C(1,2) bits] e(2) True v(2) ram_page_kend [of ?s s] by simp
  next
    case False
    then have gt: "1 < refs s (PTE2PA e)" using pos by simp
    show ?thesis
    proof (cases ps)
      case Nil
      then have "kalloc s = (0, s)" using ok(1) vm_okD(2) kalloc_empty by blast
      then have "cow_fault r va s = Some (False, s)"
        using t slot(1) gt nz by (simp add: cow_fault_def walk_False and_flag_iff Let_def)
      with Nil gt show ?thesis by (intro nomem)
    next
      case (Cons q qs)
      have fl: "\<forall>n. bit ?f n \<longrightarrow> n < 10" by (simp add: cow_new_flags)
      show ?thesis
      proof (rule cow_copy [OF ok(1) [unfolded Cons] r leaf e(2) ok(2) fl])
        fix s1 s2 s3
        assume *: "kalloc s = (q, s1)" "q \<noteq> 0"
          "uvmunmap r (PGROUNDDOWN va) 1 True (s1\<lparr>mem := memmove (mem s1) q (PTE2PA e) 4096\<rparr>) = Some s2"
          "mappages r (PGROUNDDOWN va) PGSIZE q ?f s2 = Some (0, s3)"
          "vm_ok R (if refs s (PTE2PA e) = 1 then PTE2PA e # qs else qs) c s3"
          "upd_space R s r va (Some (PA2PTE q OR ?f OR PTE_V)) s3" "PTE2PA (PA2PTE q OR ?f OR PTE_V) = q"
          "refs s3 q = 1" "q \<noteq> PTE2PA e" "tabs R (mem s3) = tabs R (mem s)"
          "\<And>x. PGROUNDDOWN x \<notin> tabs R (mem s) \<Longrightarrow> PGROUNDDOWN x \<noteq> q \<Longrightarrow>
             PGROUNDDOWN x \<noteq> PTE2PA e \<or> refs s (PTE2PA e) \<noteq> 1 \<Longrightarrow> mem s3 x = mem s x"
          "\<And>off. off < 4096 \<Longrightarrow> mem s3 (q + off) = mem s (PTE2PA e + off)"
        have run: "cow_fault r va s = Some (True, s3)"
          using t slot(1) gt nz *(1-4) by (simp add: cow_fault_def walk_False and_flag_iff Let_def)
        note U = upd_spaceD [OF *(6)]
        have "uread (mem s3) r' va' = uread (mem s) r' va'" if "r' \<in> R" for r' va'
        proof (cases "r' = r \<and> PGROUNDDOWN va' = PGROUNDDOWN va")
          case same: True
          then have "lookup (mem s) r' va' = Some e" using r(2) by (metis lookup_PGROUNDDOWN)
          moreover have "va' - PGROUNDDOWN va' < 4096"
            using PGROUNDDOWN_eq_iff [of "PGROUNDDOWN va'" va'] by (simp add: word_less_nat_alt)
          ultimately show ?thesis
            using U(4) [OF that, of va'] same *(7) *(12) by (simp add: uread_def uaddr_def)
        next
          case False
          show ?thesis
          proof (rule uread_frame)
            show "lookup (mem s3) r' va' = lookup (mem s) r' va'" using U(4) [OF that, of va'] False by auto
            fix x e' assume x: "lookup (mem s) r' va' = Some e'" "PGROUNDDOWN x = PTE2PA e'"
            show "mem s3 x = mem s x"
              using *(11) [of x] x(2) vm_okD(6) [OF ok(1) that x(1)] gt
                free_page_unused(2) [OF ok(1) _ that x(1), of q] Cons by simp
          qed
        qed
        moreover have "bit (PA2PTE q OR ?f OR PTE_V) n \<longleftrightarrow> n \<noteq> 8 \<and> (bit e n \<or> n = 2)" if "n < 10" for n
          using that t(4) cow_new_flags [of e n] by (auto simp: bit_or_iff bit_PA2PTE bit_PTE)
        moreover have "ram_page s3 q" using U(3) kinvD(5) [OF vm_okD(2) [OF ok(1)], of q] Cons by simp
        ultimately show ?thesis using priv [OF run *(5,6)] *(7,8) by simp
      qed
    qed
  qed
qed

end
