(* ===== verification/VmUser.thy ===== *)
theory VmUser
  imports CowFault
begin

text \<open>
  Creating, growing and shrinking a user address space: \<^verbatim>\<open>uvmcreate\<close>, \<^verbatim>\<open>uvmalloc\<close> and
  \<^verbatim>\<open>uvmdealloc\<close> of \<^verbatim>\<open>vm.c\<close>, with the undo that \<^verbatim>\<open>uvmalloc\<close> does when memory runs out.
\<close>

section \<open>An empty address space\<close>

lemma zero_page_tbl:
  assumes "page_aligned q" "\<And>x. PGROUNDDOWN x = q \<Longrightarrow> m x = 0"
  shows "tbl m q p = (if p = [] then Some q else None)"
proof (cases p)
  case (Cons i p')
  have "entry m q i = 0" if "i < 512"
  proof -
    have "load64 m (q + 8 * i) = load64 (\<lambda>_. 0) (q + 8 * i)"
      using assms that by (intro load64_page_cong) auto
    also have "\<dots> = 0" by (rule bit_word_eqI) (simp add: bit_load64)
    finally show ?thesis by (simp add: entry_def)
  qed
  with Cons show ?thesis by auto
qed simp

lemma uvmcreate_empty:
  assumes ok: "vm_ok R (q # ps) c s"
  obtains s' where "uvmcreate s = (q, s')" "vm_ok (insert q R) ps c s'" "q \<notin> R"
    "\<And>va. lookup (mem s') q va = None"
    "\<And>r va. r \<in> R \<Longrightarrow> lookup (mem s') r va = lookup (mem s) r va"
    "\<And>x. PGROUNDDOWN x \<noteq> q \<Longrightarrow> mem s' x = mem s x" "kend s' = kend s" "kmem.more s' = kmem.more s"
proof (rule alloc_page [OF ok])
  fix s1
  assume s1: "kalloc s = (q, s1)" "vm_ok R ps (c(q := 1)) s1" "same_spaces R s s1"
    "\<And>x. mem s1 x = (if PGROUNDDOWN x = q then 5 else mem s x)"
    "\<And>p. ram_page s p \<Longrightarrow> refs s1 p = (if p = q then 1 else refs s p)"
    "ram_page s q" "q \<noteq> 0" "q \<notin> set ps" "q \<notin> tabs R (mem s)"
  note S1 = same_spacesD [OF s1(3)]
  have al: "page_aligned q" using s1(6) by (rule ram_page_aligned)
  define m0 where "m0 = memset (mem s1) q 0 4096"
  let ?s = "s1\<lparr>mem := m0\<rparr>"
  have m: "m0 x = (if PGROUNDDOWN x = q then 0 else mem s x)" for x
    using al s1(4) by (simp add: memset_page m0_def)
  have W: "vm_ok R ps (c(q := 1)) ?s" "same_spaces R s1 ?s"
    using write_page [OF s1(2), of q m0] s1(4,8,9) S1(3) m by auto
  note S2 = same_spacesD [OF W(2), simplified] and ok2 = vm_okD [OF W(1), simplified]
  have tb: "tabs R m0 = tabs R (mem s)" using S1(3) S2(3) by simp
  have zt: "tbl m0 q p = (if p = [] then Some q else None)" for p
    using al by (rule zero_page_tbl) (use m in simp)
  have qR: "q \<notin> R" using s1(9) root_in_tabs by blast
  have lq: "lookup m0 q va = None" for va
    unfolding lookup_vpath zt by (simp add: vpath_def)
  have tabs': "tabs (insert q R) m0 = insert q (tabs R m0)"
    by (auto simp: tabs_def zt split: if_splits)
  have "maps (insert q R) m0 p = maps R m0 p" for p
    by (auto simp: maps_def lq)
  note mp = this
  have fq: "c q = 0" "maps R m0 q = {}"
  proof -
    show "c q = 0" using free_page_unused(4) [OF ok] by simp
    show "maps R m0 q = {}"
      using free_page_unused(3) [OF ok, of q] maps_cong [of R "m0" "mem s" q] S1(4) S2(4) by simp
  qed
  have "vm_ok (insert q R) ps c ?s"
  proof (rule vm_okI)
    show "finite (insert q R)" "kinv ps ?s" using ok2(1,2) by simp_all
    have "tbl m0 r p \<noteq> Some q" if "r \<in> R" "length p \<le> 2" for r p
      using that s1(9) tb tabsI [of r R m0 p q] by auto
    then show "forest (insert q R) (mem ?s)"
      using forestD [OF ok2(3)] al unfolding forest_def by (auto simp: zt split: if_splits)
    show "ram_page ?s a \<and> 0 < refs ?s a" if "a \<in> tabs (insert q R) (mem ?s)" for a
      using that ok2(4,5) [of a] s1(5) [of q] s1(6) S1(6) S2(6) tabs' by auto
    show "PTE2PA e \<notin> tabs (insert q R) (mem ?s) \<and> (ram_page ?s (PTE2PA e) \<longrightarrow> 0 < refs ?s (PTE2PA e))"
      if "r \<in> insert q R" "lookup (mem ?s) r va = Some e" for r va e
    proof -
      have r: "r \<in> R" using that lq by auto
      have "lookup (mem s) r va = Some e" using S1(4) S2(4) r that(2) by simp
      then have "PTE2PA e \<noteq> q" using free_page_unused(2) [OF ok _ r] by auto
      then show ?thesis using ok2(6,7) [OF r, of va e] that(2) tabs' by simp
    qed
    show "refs ?s p = int (card (maps (insert q R) (mem ?s) p)) + of_bool (p \<in> tabs (insert q R) (mem ?s)) + c p"
      if "ram_page ?s p" for p
      using ok2(8) [of p] that fq s1(9) by (cases "p = q") (simp_all add: mp tabs' tb)
  qed
  moreover have "uvmcreate s = (q, ?s)" using s1(1,7) by (simp add: uvmcreate_def m0_def)
  ultimately show thesis
    using that [of ?s] qR lq m S1(1,2,4) S2(4) by simp
qed

section \<open>Shrinking\<close>

lemma unat_PGROUNDUP:
  assumes "sz \<le> MAXVA"
  shows "unat (PGROUNDUP sz) = 4096 * npages sz" "4096 * npages sz \<le> 2 ^ 38"
proof -
  have sz: "unat sz \<le> 2 ^ 38" using assms by (simp add: MAXVA_val word_le_nat_alt)
  then have "unat (sz + 4095) = unat sz + 4095" by (subst unat_add_no_overflow) simp_all
  then show "unat (PGROUNDUP sz) = 4096 * npages sz"
    by (simp add: PGROUNDUP_alt unat_PGROUNDDOWN npages_def)
  show "4096 * npages sz \<le> 2 ^ 38" using sz by (simp add: npages_def)
qed

lemma page_diff:
  assumes "oldsz \<le> MAXVA" "newsz \<le> MAXVA" "PGROUNDUP newsz < PGROUNDUP oldsz"
  shows "scast (ucast ((PGROUNDUP oldsz - PGROUNDUP newsz) div PGSIZE) :: u32) =
    (of_nat (npages oldsz - npages newsz) :: u64)" "npages newsz < npages oldsz"
proof -
  note o = unat_PGROUNDUP [OF assms(1)] and n = unat_PGROUNDUP [OF assms(2)]
  let ?d = "npages oldsz - npages newsz"
  show lt: "npages newsz < npages oldsz" using assms(3) o(1) n(1) by (simp add: word_less_nat_alt)
  have "unat (PGROUNDUP oldsz - PGROUNDUP newsz) = 4096 * ?d"
    using assms(3) by (subst unat_sub_le) (simp_all add: o(1) n(1) algebra_simps diff_mult_distrib2)
  then have "unat ((PGROUNDUP oldsz - PGROUNDUP newsz) div PGSIZE) = ?d"
    by (simp add: unat_div_distrib)
  then have "(PGROUNDUP oldsz - PGROUNDUP newsz) div PGSIZE = of_nat ?d" by (metis of_nat_unat_word)
  moreover have "?d < 2 ^ 31" using o(2) by simp
  ultimately show "scast (ucast ((PGROUNDUP oldsz - PGROUNDUP newsz) div PGSIZE) :: u32) = (of_nat ?d :: u64)"
    using int_of_page_count by simp
qed

text \<open>The pages of \<open>r\<close> that satisfy \<open>P\<close> are unmapped, and freed where they were last used.\<close>

definition unmapped ::
  "u64 set \<Rightarrow> (u64 \<Rightarrow> int) \<Rightarrow> u64 \<Rightarrow> (u64 \<Rightarrow> bool) \<Rightarrow> u64 list \<Rightarrow> 'a kmem_scheme \<Rightarrow> u64 list \<Rightarrow> 'a kmem_scheme \<Rightarrow> bool"
where
  "unmapped R c r P ps s ps' s' \<longleftrightarrow> vm_ok R ps' c s' \<and> suffix ps ps' \<and>
     kend s' = kend s \<and> kmem.more s' = kmem.more s \<and>
     (\<forall>r'\<in>R. \<forall>va. lookup (mem s') r' va = (if r' = r \<and> P va then None else lookup (mem s) r' va)) \<and>
     tabs R (mem s') = tabs R (mem s) \<and>
     (\<forall>q. ram_page s q \<longrightarrow> refs s' q \<le> refs s q) \<and>
     (\<forall>x. PGROUNDDOWN x \<notin> tabs R (mem s) \<longrightarrow> PGROUNDDOWN x \<notin> set ps' \<longrightarrow> mem s' x = mem s x)"

definition freeable :: "'a kmem_scheme \<Rightarrow> u64 \<Rightarrow> u64 \<Rightarrow> bool" where
  "freeable s r va \<longleftrightarrow> (\<exists>e. lookup (mem s) r va = Some e \<and> PTE_FLAGS e \<noteq> PTE_V \<and> ram_page s (PTE2PA e))"

lemma uvmunmap_pages:
  assumes ok: "vm_ok R ps c s" "r \<in> R" "\<And>p. 0 \<le> c p" and a: "unat a = 4096 * n" "4096 * (n + k) \<le> 2 ^ 38"
    and map: "\<And>va. n \<le> vpn va \<Longrightarrow> vpn va < n + k \<Longrightarrow> freeable s r va"
  shows "\<exists>ps' s'. uvmunmap r a (of_nat k) True s = Some s' \<and>
    unmapped R c r (\<lambda>va. n \<le> vpn va \<and> vpn va < n + k) ps s ps' s'"
proof -
  note P = page_of_vpn [OF a(1)]
  have rng: "in_range a k va \<longleftrightarrow> n \<le> vpn va \<and> vpn va < n + k" for va
    unfolding in_range_def a(1) unat_PGROUNDDOWN vpn_def by auto
  have "unat a + 4096 * k \<le> 2 ^ 38" using a by simp
  from uvmunmap_range [OF ok P(2) this] map
  have "\<exists>ps' s'. uvmunmap_loop r a (a + of_nat k * PGSIZE) True s = Some s' \<and>
    unmapped R c r (\<lambda>va. n \<le> vpn va \<and> vpn va < n + k) ps s ps' s'"
    unfolding rng unmapped_def freeable_def by blast
  then show ?thesis using P(2) by (simp add: uvmunmap_def page_aligned_def)
qed

lemma npages_mono: "a \<le> b \<Longrightarrow> npages a \<le> npages b"
  by (simp add: npages_def word_le_nat_alt div_le_mono)

lemma uvmdealloc_shrinks:
  assumes ok: "vm_ok R ps c s" "r \<in> R" "\<And>p. 0 \<le> c p" and sz: "oldsz \<le> MAXVA"
    and map: "\<And>va. npages newsz \<le> vpn va \<Longrightarrow> vpn va < npages oldsz \<Longrightarrow> freeable s r va"
  shows "\<exists>ps' s'. uvmdealloc r oldsz newsz s = Some (min oldsz newsz, s') \<and>
    unmapped R c r (\<lambda>va. npages newsz \<le> vpn va \<and> vpn va < npages oldsz) ps s ps' s'"
proof -
  have refl: "unmapped R c r (\<lambda>va. npages newsz \<le> vpn va \<and> vpn va < npages oldsz) ps s ps s"
    if "npages oldsz \<le> npages newsz" using ok(1) that by (auto simp: unmapped_def)
  show ?thesis
  proof (cases "newsz < oldsz")
    case False
    then show ?thesis
      using refl npages_mono [of oldsz newsz] by (auto simp: uvmdealloc_def min_def not_less)
  next
    case lt: True
    then have nsz: "newsz \<le> MAXVA" using sz by auto
    note o = unat_PGROUNDUP [OF sz] and n = unat_PGROUNDUP [OF nsz]
    show ?thesis
    proof (cases "PGROUNDUP newsz < PGROUNDUP oldsz")
      case True
      note d = page_diff [OF sz nsz True]
      have "4096 * (npages newsz + (npages oldsz - npages newsz)) \<le> 2 ^ 38" using d(2) o(2) by simp
      from uvmunmap_pages [OF ok n(1) this] map d(2) obtain ps' s' where
        "uvmunmap r (PGROUNDUP newsz) (of_nat (npages oldsz - npages newsz)) True s = Some s'"
        "unmapped R c r (\<lambda>va. npages newsz \<le> vpn va \<and> vpn va < npages oldsz) ps s ps' s'" by auto
      with lt True d show ?thesis by (auto simp: uvmdealloc_def min_def Let_def)
    next
      case False
      then have "npages oldsz \<le> npages newsz" using o(1) n(1) by (simp add: word_less_nat_alt not_less)
      with False lt refl show ?thesis by (auto simp: uvmdealloc_def min_def)
    qed
  qed
qed

section \<open>Growing\<close>

text \<open>The pages \<open>n\<close> to \<open>k - 1\<close> of \<open>r\<close> are fresh, private and zero-filled, with the flags \<open>f\<close>.\<close>

definition fresh_page :: "u64 set \<Rightarrow> u64 \<Rightarrow> u64 \<Rightarrow> u64 list \<Rightarrow> u64 list \<Rightarrow> 'a kmem_scheme \<Rightarrow> u64 \<Rightarrow> bool" where
  "fresh_page R r f ps ps' s' va \<longleftrightarrow> (\<exists>q\<in>set ps. lookup (mem s') r va = Some (PA2PTE q OR f OR PTE_V) \<and>
     PTE2PA (PA2PTE q OR f OR PTE_V) = q \<and> ram_page s' q \<and>
     refs s' q = 1 \<and> q \<notin> set ps' \<and> q \<notin> tabs R (mem s') \<and> (\<forall>x. PGROUNDDOWN x = q \<longrightarrow> mem s' x = 0))"

definition grown ::
  "u64 set \<Rightarrow> (u64 \<Rightarrow> int) \<Rightarrow> u64 \<Rightarrow> u64 \<Rightarrow> nat \<Rightarrow> nat \<Rightarrow> u64 list \<Rightarrow> 'a kmem_scheme \<Rightarrow> u64 list \<Rightarrow> 'a kmem_scheme \<Rightarrow> bool"
where
  "grown R c r f n k ps s ps' s' \<longleftrightarrow> vm_ok R ps' c s' \<and> set ps' \<subseteq> set ps \<and>
     kend s' = kend s \<and> kmem.more s' = kmem.more s \<and>
     (\<forall>r'\<in>R. \<forall>va. \<not> (r' = r \<and> n \<le> vpn va \<and> vpn va < k) \<longrightarrow> lookup (mem s') r' va = lookup (mem s) r' va) \<and>
     (\<forall>va. n \<le> vpn va \<longrightarrow> vpn va < k \<longrightarrow> fresh_page R r f ps ps' s' va) \<and>
     tabs R (mem s) \<subseteq> tabs R (mem s') \<and> tabs R (mem s') \<subseteq> tabs R (mem s) \<union> set ps \<and>
     (\<forall>x. PGROUNDDOWN x \<notin> tabs R (mem s) \<longrightarrow> PGROUNDDOWN x \<notin> set ps \<longrightarrow> mem s' x = mem s x)"

lemma grownD:
  assumes "grown R c r f n k ps s ps' s'"
  shows "vm_ok R ps' c s'" "set ps' \<subseteq> set ps" "kend s' = kend s" "kmem.more s' = kmem.more s"
    "r' \<in> R \<Longrightarrow> \<not> (r' = r \<and> n \<le> vpn va \<and> vpn va < k) \<Longrightarrow> lookup (mem s') r' va = lookup (mem s) r' va"
    "n \<le> vpn va \<Longrightarrow> vpn va < k \<Longrightarrow> fresh_page R r f ps ps' s' va"
    "tabs R (mem s) \<subseteq> tabs R (mem s')" "tabs R (mem s') \<subseteq> tabs R (mem s) \<union> set ps"
    "PGROUNDDOWN x \<notin> tabs R (mem s) \<Longrightarrow> PGROUNDDOWN x \<notin> set ps \<Longrightarrow> mem s' x = mem s x"
    "ram_page s' = ram_page s"
proof -
  show "kend s' = kend s" using assms unfolding grown_def by blast
  then show "ram_page s' = ram_page s" by (rule ram_page_kend)
qed (use assms in \<open>unfold grown_def, blast+\<close>)

lemma grown_keep:
  assumes G: "grown R c r f n k ps s psA sA" and r: "r \<in> R" and nk: "n \<le> k" "k \<le> k'"
    and B: "vm_ok R psB c sB" "set psB \<subseteq> set psA" "kend sB = kend sA" "kmem.more sB = kmem.more sA"
      "tabs R (mem sA) \<subseteq> tabs R (mem sB)" "tabs R (mem sB) \<subseteq> tabs R (mem sA) \<union> set psA"
    and rf: "\<And>p. ram_page sA p \<Longrightarrow> p \<notin> set psA \<Longrightarrow> p \<notin> tabs R (mem sA) \<Longrightarrow> refs sB p = refs sA p"
    and mm: "\<And>x. PGROUNDDOWN x \<notin> tabs R (mem sA) \<Longrightarrow> PGROUNDDOWN x \<notin> set psA \<Longrightarrow> mem sB x = mem sA x"
    and lk: "\<And>r' va. r' \<in> R \<Longrightarrow> \<not> (r' = r \<and> k \<le> vpn va \<and> vpn va < k') \<Longrightarrow> lookup (mem sB) r' va = lookup (mem sA) r' va"
    and new: "\<And>va. k \<le> vpn va \<Longrightarrow> vpn va < k' \<Longrightarrow> fresh_page R r f ps psB sB va"
  shows "grown R c r f n k' ps s psB sB"
proof -
  note g = grownD [OF G]
  have ram: "ram_page sB = ram_page sA" using B(3) by (rule ram_page_kend)
  have "fresh_page R r f ps psB sB va" if "n \<le> vpn va" "vpn va < k'" for va
  proof (cases "vpn va < k")
    case True
    with g(6) that(1) obtain q where q: "q \<in> set ps" "lookup (mem sA) r va = Some (PA2PTE q OR f OR PTE_V)"
      "PTE2PA (PA2PTE q OR f OR PTE_V) = q" "ram_page sA q" "refs sA q = 1" "q \<notin> set psA"
      "q \<notin> tabs R (mem sA)" "\<forall>x. PGROUNDDOWN x = q \<longrightarrow> mem sA x = 0"
      unfolding fresh_page_def by blast
    moreover have "lookup (mem sB) r va = lookup (mem sA) r va" using lk [OF r, of va] True by simp
    moreover have "refs sB q = 1" using rf q by simp
    moreover have "q \<notin> set psB" "q \<notin> tabs R (mem sB)" using q B(2,6) by blast+
    moreover have "mem sB x = 0" if "PGROUNDDOWN x = q" for x using mm [of x] q that by simp
    ultimately show ?thesis unfolding fresh_page_def ram by auto
  qed (use new that in simp)
  moreover have "mem sB x = mem s x" if "PGROUNDDOWN x \<notin> tabs R (mem s)" "PGROUNDDOWN x \<notin> set ps" for x
  proof -
    have "PGROUNDDOWN x \<notin> tabs R (mem sA)" "PGROUNDDOWN x \<notin> set psA" using that g(2,8) by blast+
    then show ?thesis using mm [of x] g(9) [OF that] by simp
  qed
  moreover have "lookup (mem sB) r' va = lookup (mem s) r' va"
    if "r' \<in> R" "\<not> (r' = r \<and> n \<le> vpn va \<and> vpn va < k')" for r' va
    using lk [OF that(1), of va] g(5) [OF that(1), of va] that(2) nk by auto
  moreover have "set psB \<subseteq> set ps" "tabs R (mem s) \<subseteq> tabs R (mem sB)"
    "tabs R (mem sB) \<subseteq> tabs R (mem s) \<union> set ps"
    using B(2,5,6) g(2,7,8) by blast+
  ultimately show ?thesis
    unfolding grown_def using B(1,3,4) g(3,4) by simp
qed

lemma grow_page:
  assumes G: "grown R c r f n k ps s (q # qs) s1" and r: "r \<in> R" and a: "unat a = 4096 * k" "a < MAXVA" "n \<le> k"
    and none: "lookup (mem s) r a = None" and f: "\<forall>n. bit f n \<longrightarrow> n < 10"
  obtains (fail) s2 s3 s4 ps4 where "kalloc s1 = (q, s2)" "q \<noteq> 0"
      "mappages r a PGSIZE q f (s2\<lparr>mem := memset (mem s2) q 0 4096\<rparr>) = Some (-1, s3)"
      "kfree q s3 = Some s4" "grown R c r f n k ps s ps4 s4" "length qs < 2"
  | (succ) s2 s3 ps3 where "kalloc s1 = (q, s2)" "q \<noteq> 0"
      "mappages r a PGSIZE q f (s2\<lparr>mem := memset (mem s2) q 0 4096\<rparr>) = Some (0, s3)"
      "grown R c r f n (Suc k) ps s ps3 s3" "length qs \<le> length ps3 + 2"
proof (rule alloc_page [OF grownD(1) [OF G]])
  fix s2
  assume s2: "kalloc s1 = (q, s2)" "vm_ok R qs (c(q := 1)) s2" "same_spaces R s1 s2"
    "\<And>x. mem s2 x = (if PGROUNDDOWN x = q then 5 else mem s1 x)"
    "\<And>p. ram_page s1 p \<Longrightarrow> refs s2 p = (if p = q then 1 else refs s1 p)"
    "ram_page s1 q" "q \<noteq> 0" "q \<notin> set qs" "q \<notin> tabs R (mem s1)"
  note g = grownD [OF G] and S1 = same_spacesD [OF s2(3)] and P = page_of_vpn [OF a(1)]
  have q: "page_aligned q" "unat q < 2 ^ 56"
    using ram_pageD [OF s2(6) kinvD(1) [OF vm_okD(2) [OF g(1)]]] by auto
  define m0 where "m0 = memset (mem s2) q 0 4096"
  let ?sa = "s2\<lparr>mem := m0\<rparr>"
  have m: "m0 x = (if PGROUNDDOWN x = q then 0 else mem s1 x)" for x
    using q(1) s2(4) by (simp add: memset_page m0_def)
  have W: "vm_ok R qs (c(q := 1)) ?sa" "same_spaces R s2 ?sa"
    using write_page [OF s2(2), of q m0] s2(4,8,9) S1(3) m by auto
  note S2 = same_spacesD [OF W(2)]
  have ta: "tabs R (mem ?sa) = tabs R (mem s1)" using S1(3) S2(3) by simp
  have la: "lookup (mem ?sa) r' va = lookup (mem s1) r' va" if "r' \<in> R" for r' va using S1(4) S2(4) that by simp
  have ra: "ram_page ?sa = ram_page s1" using S1(6) S2(6) by simp
  have na: "lookup (mem ?sa) r a = None" using la [OF r] g(5) [OF r, of a] P(4) none by simp
  have qt: "q \<notin> tabs R (mem ?sa)" using s2(9) ta by simp
  have c0: "c q = 0" using free_page_unused(4) [OF g(1), of q] by simp
  have rfa: "refs ?sa p = refs s1 p" if "ram_page s1 p" "p \<notin> set (q # qs)" for p using s2(5) [OF that(1)] that(2) by simp
  have fl: "bit f n \<Longrightarrow> n < 10" for n using f by blast
  show thesis
  proof (rule map_page [OF W(1) r P(2) a(2) na q fl qt s2(8)])
    fix s3
    assume s3: "mappages r a PGSIZE q f ?sa = Some (-1, s3)" "grows R qs (c(q := 1)) ?sa [] s3" "length qs < 2"
    note h = growsD [OF s3(2)]
    have q3: "ram_page s3 q" "q \<notin> tabs R (mem s3)" "0 < (c(q := 1)) q" "refs s3 q = 1"
      using h(6,9,10) ra s2(5,6,8) qt by auto
    show thesis
    proof (rule free_ref [OF h(1) q3(1,2,3)])
      fix s4
      assume s4: "kfree q s3 = Some s4" "same_spaces R s3 s4"
        "vm_ok R (if refs s3 q = 1 then q # [] else []) ((c(q := 1))(q := (c(q := 1)) q - 1)) s4"
        "\<And>x. PGROUNDDOWN x \<noteq> q \<or> refs s3 q \<noteq> 1 \<Longrightarrow> mem s4 x = mem s3 x"
        "\<And>p. ram_page s3 p \<Longrightarrow> refs s4 p = (if p = q then refs s3 q - 1 else refs s3 p)"
      note S4 = same_spacesD [OF s4(2)]
      have c4: "(c(q := 1))(q := (c(q := 1)) q - 1) = c" using c0 by (auto simp: fun_eq_iff)
      have "grown R c r f n k ps s [q] s4"
      proof (rule grown_keep [OF G r a(3) order_refl])
        show "vm_ok R [q] c s4" using s4(3) q3(4) c4 by simp
        show "set [q] \<subseteq> set (q # qs)" by simp
        show "kend s4 = kend s1" "kmem.more s4 = kmem.more s1" using S4(1,2) h(3,4) S1(1,2) by simp_all
        show "tabs R (mem s1) \<subseteq> tabs R (mem s4)" "tabs R (mem s4) \<subseteq> tabs R (mem s1) \<union> set (q # qs)"
          using S4(3) h(6,7) ta by auto
        show "refs s4 p = refs s1 p" if "ram_page s1 p" "p \<notin> set (q # qs)" "p \<notin> tabs R (mem s1)" for p
          using s4(5) [of p] h(9) [of p] h(10) ra rfa that by simp
        show "mem s4 x = mem s1 x" if "PGROUNDDOWN x \<notin> tabs R (mem s1)" "PGROUNDDOWN x \<notin> set (q # qs)" for x
          using s4(4) [of x] h(8) [of x] ta m that by simp
        show "lookup (mem s4) r' va = lookup (mem s1) r' va" if "r' \<in> R" for r' va
          using S4(4) [OF that] h(5) [OF that] la [OF that] by simp
      qed simp
      with s2(1,7) s3(1) s4(1) show thesis unfolding m0_def by (rule fail) (rule s3(3))
    qed
  next
    fix sg ps3 s3
    assume s3: "mappages r a PGSIZE q f ?sa = Some (0, s3)" "grows R qs (c(q := 1)) ?sa ps3 sg"
      and len: "length qs \<le> length ps3 + 2" and s4:
      "vm_ok R ps3 ((c(q := 1))(q := (c(q := 1)) q - 1)) s3"
      "upd_space R ?sa r a (Some (PA2PTE q OR f OR PTE_V)) s3"
      "tabs R (mem s3) = tabs R (mem sg)" "reference_counter s3 = reference_counter sg"
      "\<And>x. PGROUNDDOWN x \<notin> tabs R (mem ?sa) \<Longrightarrow> PGROUNDDOWN x \<notin> set qs \<Longrightarrow> mem s3 x = mem ?sa x"
    note h = growsD [OF s3(2)] and U = upd_spaceD [OF s4(2)]
    have c3: "(c(q := 1))(q := (c(q := 1)) q - 1) = c" using c0 by (auto simp: fun_eq_iff)
    have q3: "q \<notin> tabs R (mem s3)" "refs s3 q = 1" "q \<notin> set ps3"
      using s4(3,4) h(6,9,11) ra s2(5,6,8) qt by auto
    have "grown R c r f n (Suc k) ps s ps3 s3"
    proof (rule grown_keep [OF G r a(3) le_SucI [OF order_refl]])
      show "vm_ok R ps3 c s3" using s4(1) c3 by simp
      show "set ps3 \<subseteq> set (q # qs)" using h(11) by auto
      show "kend s3 = kend s1" "kmem.more s3 = kmem.more s1" using U(1,2) S1(1,2) by simp_all
      show "tabs R (mem s1) \<subseteq> tabs R (mem s3)" "tabs R (mem s3) \<subseteq> tabs R (mem s1) \<union> set (q # qs)"
        using s4(3) h(6,7) ta by auto
      show "refs s3 p = refs s1 p" if "ram_page s1 p" "p \<notin> set (q # qs)" "p \<notin> tabs R (mem s1)" for p
        using s4(4) h(9) [of p] ra rfa that by simp
      show "mem s3 x = mem s1 x" if "PGROUNDDOWN x \<notin> tabs R (mem s1)" "PGROUNDDOWN x \<notin> set (q # qs)" for x
        using s4(5) [of x] ta m that by simp
      show "lookup (mem s3) r' va = lookup (mem s1) r' va" if "r' \<in> R" "\<not> (r' = r \<and> k \<le> vpn va \<and> vpn va < Suc k)" for r' va
        using U(4) [OF that(1), of va] la [OF that(1)] that(2) P(1,3) by auto
      show "fresh_page R r f ps ps3 s3 va" if "k \<le> vpn va" "vpn va < Suc k" for va
      proof -
        have "vpn va = k" using that by simp
        then have "lookup (mem s3) r va = Some (PA2PTE q OR f OR PTE_V)" using U(4) [OF r, of va] P(1,3) by simp
        moreover have "mem s3 x = 0" if "PGROUNDDOWN x = q" for x using s4(5) [of x] qt s2(8) m that by simp
        moreover have "PTE2PA (PA2PTE q OR f OR PTE_V) = q" using new_entry(2) [of q f] q fl by blast
        ultimately show ?thesis
          unfolding fresh_page_def using q3 g(2) U(3) ra s2(6) by (intro bexI [of _ q]) auto
      qed
    qed
    with s2(1,7) s3(1) show thesis unfolding m0_def by (rule succ) (rule len)
  qed
qed

text \<open>Running out of memory: the pages mapped so far are unmapped and freed again.\<close>

lemma grown_undo:
  assumes G: "grown R c r f n k ps s ps1 s1" and ok: "vm_ok R ps c s" and r: "r \<in> R" and pos: "\<And>p. 0 \<le> c p"
    and f: "\<forall>n. bit f n \<longrightarrow> n < 10" "bit f 1" and nk: "n \<le> k" "4096 * k \<le> 2 ^ 38"
    and a: "unat a = 4096 * k" "unat oldsz = 4096 * n"
    and none: "\<And>va. n \<le> vpn va \<Longrightarrow> vpn va < k \<Longrightarrow> lookup (mem s) r va = None"
  shows "\<exists>x ps' s'. uvmdealloc r a oldsz s1 = Some (x, s') \<and> grown R c r f n n ps s ps' s'"
proof -
  note g = grownD [OF G]
  have np: "npages a = k" "npages oldsz = n" using a by (simp_all add: npages_def)
  have "a \<le> MAXVA" using a(1) nk(2) by (simp add: MAXVA_val word_le_nat_alt)
  moreover have "freeable s1 r va" if rng: "n \<le> vpn va" "vpn va < k" for va
  proof -
    obtain q where q: "lookup (mem s1) r va = Some (PA2PTE q OR f OR PTE_V)"
      "PTE2PA (PA2PTE q OR f OR PTE_V) = q" "ram_page s1 q" using g(6) [OF rng] by (auto simp: fresh_page_def)
    have "bit (PA2PTE q OR f OR PTE_V) 1" using f(2) by (simp add: bit_or_iff)
    then have "PTE_FLAGS (PA2PTE q OR f OR PTE_V) \<noteq> PTE_V"
      unfolding not_only_V by (intro disjI2 exI [of _ 1]) simp
    with q show ?thesis by (simp add: freeable_def)
  qed
  ultimately obtain x ps' s' where s': "uvmdealloc r a oldsz s1 = Some (x, s')"
    "unmapped R c r (\<lambda>va. n \<le> vpn va \<and> vpn va < k) ps1 s1 ps' s'"
    using uvmdealloc_shrinks [OF g(1) r pos, of a oldsz] by (auto simp: np)
  then have u: "vm_ok R ps' c s'" "kend s' = kend s1" "kmem.more s' = kmem.more s1"
    "\<And>r' va. r' \<in> R \<Longrightarrow> lookup (mem s') r' va = (if r' = r \<and> n \<le> vpn va \<and> vpn va < k then None else lookup (mem s1) r' va)"
    "tabs R (mem s') = tabs R (mem s1)"
    "\<And>x. PGROUNDDOWN x \<notin> tabs R (mem s1) \<Longrightarrow> PGROUNDDOWN x \<notin> set ps' \<Longrightarrow> mem s' x = mem s1 x"
    by (auto simp: unmapped_def)
  have lk: "lookup (mem s') r' va = lookup (mem s) r' va" if "r' \<in> R" for r' va
    using u(4) [OF that, of va] g(5) [OF that, of va] none [of va] by auto
  have sub: "set ps' \<subseteq> set ps"
  proof (rule free_pages_subset [OF ok u(1)])
    show "kend s' = kend s" "tabs R (mem s) \<subseteq> tabs R (mem s')" using u(2,5) g(3,7) by simp_all
    show "maps R (mem s') p = maps R (mem s) p" for p using lk by (rule maps_cong)
  qed
  have "mem s' x = mem s x" if "PGROUNDDOWN x \<notin> tabs R (mem s)" "PGROUNDDOWN x \<notin> set ps" for x
  proof -
    have "PGROUNDDOWN x \<notin> tabs R (mem s1)" "PGROUNDDOWN x \<notin> set ps'" using that g(8) sub by blast+
    then show ?thesis using u(6) [of x] g(9) [OF that] by simp
  qed
  then have "grown R c r f n n ps s ps' s'"
    unfolding grown_def using u(1,2,3,5) g(3,4,7,8) lk sub by auto
  with s'(1) show ?thesis by blast
qed

lemma uvmalloc_loop_grows:
  assumes "grown R c r (PTE_R OR PTE_U OR xperm) n k ps s ps1 s1" and ok: "vm_ok R ps c s" and r: "r \<in> R"
    and pos: "\<And>p. 0 \<le> c p" and x: "\<forall>n. bit xperm n \<longrightarrow> n < 10"
    and "unat a = 4096 * k" and oldsz: "unat oldsz = 4096 * n" and newsz: "newsz \<le> MAXVA"
    and none: "\<And>va. n \<le> vpn va \<Longrightarrow> vpn va < npages newsz \<Longrightarrow> lookup (mem s) r va = None"
    and "n \<le> k" "k \<le> max n (npages newsz)"
  shows "\<exists>x ps' s'. uvmalloc_loop r oldsz a newsz xperm s1 = Some (x, s') \<and>
    (x = newsz \<and> grown R c r (PTE_R OR PTE_U OR xperm) n (max n (npages newsz)) ps s ps' s' \<or>
     x = 0 \<and> grown R c r (PTE_R OR PTE_U OR xperm) n n ps s ps' s')"
  using assms(1,6,10,11)
proof (induction "max n (npages newsz) - k" arbitrary: k a ps1 s1)
  case 0
  then have k: "k = max n (npages newsz)" by simp
  then have "\<not> a < newsz"
    using npages_less [of k newsz] 0(3) by (auto simp: word_less_nat_alt)
  with 0(2) k show ?case by (subst uvmalloc_loop.simps) auto
next
  case (Suc d)
  let ?f = "PTE_R OR PTE_U OR xperm"
  have k: "k < npages newsz" using Suc.hyps(2) Suc.prems(3) by auto
  then have lt: "a < newsz" using npages_less [of k newsz] Suc.prems(2) by (simp add: word_less_nat_alt)
  then have am: "a < MAXVA" using newsz by auto
  have f: "\<forall>n. bit ?f n \<longrightarrow> n < 10" "bit ?f 1" using x by (auto simp: bit_or_iff bit_PTE)
  have none': "lookup (mem s) r va = None" if "n \<le> vpn va" "vpn va < k" for va using none that k by simp
  have usz: "4096 * k \<le> 2 ^ 38" using unat_PGROUNDUP(2) [OF newsz] k by simp
  note undo = grown_undo [OF _ ok r pos f Suc.prems(3) usz Suc.prems(2) oldsz none']
  show ?case
  proof (cases ps1)
    case Nil
    then have "kalloc s1 = (0, s1)" using vm_okD(2) [OF grownD(1) [OF Suc.prems(1)]] kalloc_empty by blast
    with undo [OF Suc.prems(1)] lt show ?thesis
      by (subst uvmalloc_loop.simps) (auto simp: Let_def)
  next
    case (Cons q qs)
    have na: "lookup (mem s) r a = None" using none [of a] page_of_vpn(4) [OF Suc.prems(2)] Suc.prems(3) k by simp
    show ?thesis
    proof (rule grow_page [OF Suc.prems(1) [unfolded Cons] r Suc.prems(2) am Suc.prems(3) na f(1)])
      fix s2 s3 s4 ps4
      assume h: "kalloc s1 = (q, s2)" "q \<noteq> 0"
        "mappages r a PGSIZE q ?f (s2\<lparr>mem := memset (mem s2) q 0 4096\<rparr>) = Some (-1, s3)"
        "kfree q s3 = Some s4" "grown R c r ?f n k ps s ps4 s4" "length qs < 2"
      with undo [OF h(5)] lt show ?thesis
        by (subst uvmalloc_loop.simps) (auto simp: Let_def)
    next
      fix s2 s3 ps3
      assume h: "kalloc s1 = (q, s2)" "q \<noteq> 0"
        "mappages r a PGSIZE q ?f (s2\<lparr>mem := memset (mem s2) q 0 4096\<rparr>) = Some (0, s3)"
        "grown R c r ?f n (Suc k) ps s ps3 s3" "length qs \<le> length ps3 + 2"
      have ua: "unat (a + PGSIZE) = 4096 * Suc k"
        using Suc.prems(2) usz by (subst unat_add_no_overflow) auto
      have "d = max n (npages newsz) - Suc k" using Suc.hyps(2) by simp
      from Suc.hyps(1) [OF this h(4) ua] k Suc.prems(3) h(1,2,3) lt show ?thesis
        by (subst uvmalloc_loop.simps) (auto simp: Let_def)
    qed
  qed
qed

end
