(* ===== verification/VmProps.thy ===== *)
theory VmProps
  imports VmUser
begin

text \<open>
  The main properties of the virtual-memory code: copy-on-write fork, the page-fault
  handler, isolation of a write after the fault, and growth of an address space, each with
  a concrete machine on which its hypotheses hold.
\<close>

section \<open>A concrete machine\<close>

text \<open>
  A machine with eight free pages of RAM on which the kernel creates two page tables and
  gives the first a user page at address 0, writable in \<open>demo\<close>.
\<close>

definition boot8 :: kmem where
  "boot8 = \<lparr>mem = \<lambda>_. 0, freelist = 0, reference_counter = \<lambda>_. 0, kend = 0x87FF8000\<rparr>"

definition demo_with :: "u64 \<Rightarrow> (u64 \<times> u64 \<times> kmem) option" where
  "demo_with xperm = do {
     s \<leftarrow> kinit boot8;
     let (old, s) = uvmcreate s;
     let (new, s) = uvmcreate s;
     (x, s) \<leftarrow> uvmalloc old 0 4096 xperm s;
     Some (old, new, s) }"

definition demo :: "(u64 \<times> u64 \<times> kmem) option" where
  "demo = demo_with PTE_W"

text \<open>The same machine after the first address space has been copied into the second.\<close>

definition demo_fork :: "(u64 \<times> u64 \<times> kmem) option" where
  "demo_fork = do {
     (old, new, s) \<leftarrow> demo;
     (x, s) \<leftarrow> uvmcopy old new 4096 s;
     Some (old, new, s) }"

lemma boot8_pages: "card {p. ram_page boot8 p} = 8"
proof -
  have "{p. ram_page boot8 p} = (\<lambda>i. 0x87FF8000 + of_nat i * PGSIZE) ` {..<8}"
  proof (intro set_eqI iffI)
    fix p assume "p \<in> {p. ram_page boot8 p}"
    then have "4096 dvd unat p" "0x87FF8000 \<le> unat p" "unat p < 0x88000000"
      by (simp_all add: boot8_def ram_page_def page_aligned_unat PHYSTOP_val word_le_nat_alt word_less_nat_alt)
    then obtain k where k: "unat p = 4096 * k" "0x87FF8 \<le> k" "k < 0x88000" by auto
    define i where "i = k - 0x87FF8"
    have "i < 8" "unat p = 0x87FF8000 + 4096 * i" using k by (simp_all add: i_def)
    moreover have "unat (0x87FF8000 + of_nat i * PGSIZE :: u64) = 0x87FF8000 + 4096 * i"
      using page_step(1) [of "0x87FF8000" i] \<open>i < 8\<close> by (simp add: page_aligned_def)
    ultimately have "p = 0x87FF8000 + of_nat i * PGSIZE" by (simp only: word_unat_eq_iff)
    then show "p \<in> (\<lambda>i. 0x87FF8000 + of_nat i * PGSIZE) ` {..<8}" using \<open>i < 8\<close> by blast
  next
    fix p :: u64 assume "p \<in> (\<lambda>i. 0x87FF8000 + of_nat i * PGSIZE) ` {..<8}"
    then obtain i where i: "i < 8" "p = 0x87FF8000 + of_nat i * PGSIZE" by auto
    then have "unat p = 0x87FF8000 + 4096 * i" "page_aligned p"
      using page_step [of "0x87FF8000" i] by (simp_all add: page_aligned_def)
    then show "p \<in> {p. ram_page boot8 p}"
      using i(1) by (simp add: boot8_def ram_page_def PHYSTOP_val word_le_nat_alt word_less_nat_alt)
  qed
  moreover have "inj_on (\<lambda>i. 0x87FF8000 + of_nat i * PGSIZE :: u64) {..<8}"
  proof (rule inj_onI)
    fix i j :: nat assume "i \<in> {..<8}" "j \<in> {..<8}" "0x87FF8000 + of_nat i * PGSIZE = (0x87FF8000 + of_nat j * PGSIZE :: u64)"
    then have "unat (0x87FF8000 + of_nat i * PGSIZE :: u64) = unat (0x87FF8000 + of_nat j * PGSIZE :: u64)" by simp
    with \<open>i \<in> {..<8}\<close> \<open>j \<in> {..<8}\<close> show "i = j"
      using page_step(1) [of "0x87FF8000" i] page_step(1) [of "0x87FF8000" j] by (simp add: page_aligned_def)
  qed
  ultimately show ?thesis by (simp add: card_image)
qed

lemma boot8_ready:
  obtains ps s where "kinit boot8 = Some s" "vm_ok {} ps (\<lambda>_. 0) s" "length ps = 8"
proof -
  obtain ps s where s: "kinit boot8 = Some s" "kinv ps s" "set ps = {p. ram_page boot8 p}" "kend s = kend boot8"
    using kinit_kinv [of boot8] by (auto simp: boot8_def KERNBASE_def PHYSTOP_val)
  have len: "length ps = 8" using kinvD(4) [OF s(2)] s(3) boot8_pages distinct_card by fastforce
  have "vm_ok {} ps (\<lambda>_. 0) s"
    unfolding vm_ok_def using s(2,3) kinvD(6) [OF s(2)] ram_page_kend [OF s(4)]
    by (auto simp: forest_def tabs_def maps_def)
  with s(1) len that show thesis by blast
qed

lemma grown_refl: "vm_ok R ps c s \<Longrightarrow> grown R c r f n n ps s ps s"
  by (simp add: grown_def)

lemma demo_with_ready:
  assumes x: "\<forall>n. bit x n \<longrightarrow> n < 10"
  obtains old new s ps where "demo_with x = Some (old, new, s)" "vm_ok {old, new} ps (\<lambda>_. 0) s" "old \<noteq> new" "3 \<le> length ps"
    "\<And>va. vpn va < 1 \<Longrightarrow> \<exists>e. lookup (mem s) old va = Some e \<and> ram_page s (PTE2PA e) \<and> PTE_FLAGS e \<noteq> PTE_V \<and>
       bit e 1 \<and> (bit e 2 \<longleftrightarrow> bit x 2) \<and> bit e 4 \<and> (bit e 8 \<longleftrightarrow> bit x 8)"
    "\<And>va. lookup (mem s) new va = None"
proof (rule boot8_ready)
  fix ps s0 assume s0: "kinit boot8 = Some s0" "vm_ok {} ps (\<lambda>_. 0) s0" "length ps = 8"
  then obtain p1 p2 p3 qs where ps: "ps = p1 # p2 # p3 # qs" "5 = length qs"
    by (auto simp: length_Suc_conv eval_nat_numeral)
  obtain s1 where s1: "uvmcreate s0 = (p1, s1)" "vm_ok {p1} (p2 # p3 # qs) (\<lambda>_. 0) s1"
    "\<And>va. lookup (mem s1) p1 va = None"
    by (rule uvmcreate_empty [OF s0(2) [unfolded ps(1)]]) auto
  obtain s2 where s2: "uvmcreate s1 = (p2, s2)" "vm_ok {p2, p1} (p3 # qs) (\<lambda>_. 0) s2" "p2 \<notin> {p1}"
    "\<And>va. lookup (mem s2) p2 va = None" "\<And>va. lookup (mem s2) p1 va = lookup (mem s1) p1 va"
    by (rule uvmcreate_empty [OF s1(2)]) auto
  let ?f = "PTE_R OR PTE_U OR x"
  have f: "\<forall>n. bit ?f n \<longrightarrow> n < 10" "bit ?f 1" "bit ?f 2 \<longleftrightarrow> bit x 2" "bit ?f 4" "bit ?f 8 \<longleftrightarrow> bit x 8"
    using x by (auto simp: bit_or_iff bit_PTE)
  have z: "unat (0::u64) = 4096 * 0" "0 < MAXVA" "p1 \<in> {p2, p1}" "(0::nat) \<le> 0" "lookup (mem s2) p1 0 = None"
    using s2(5) s1(3) by (simp_all add: MAXVA_val)
  show thesis
  proof (rule grow_page [OF grown_refl [OF s2(2)] z(3,1,2,4,5) f(1)])
    fix s3 s4 ps4
    assume h: "kalloc s2 = (p3, s3)" "p3 \<noteq> 0"
      "mappages p1 0 PGSIZE p3 ?f (s3\<lparr>mem := memset (mem s3) p3 0 4096\<rparr>) = Some (0, s4)"
      "grown {p2, p1} (\<lambda>_. 0) p1 ?f 0 (Suc 0) (p3 # qs) s2 ps4 s4" "length qs \<le> length ps4 + 2"
    note g = grownD [OF h(4)]
    have "uvmalloc_loop p1 0 0 4096 x s2 = Some (4096, s4)"
      using h(1,2,3) by (subst uvmalloc_loop.simps) (simp add: Let_def, subst uvmalloc_loop.simps, simp)
    then have run: "demo_with x = Some (p1, p2, s4)"
      using s0(1) s1(1) s2(1) by (simp add: demo_with_def uvmalloc_def PGROUNDUP_def Let_def)
    have "\<exists>e. lookup (mem s4) p1 va = Some e \<and> ram_page s4 (PTE2PA e) \<and> PTE_FLAGS e \<noteq> PTE_V \<and>
        bit e 1 \<and> (bit e 2 \<longleftrightarrow> bit x 2) \<and> bit e 4 \<and> (bit e 8 \<longleftrightarrow> bit x 8)" if va: "vpn va < 1" for va
    proof -
      obtain q where q: "lookup (mem s4) p1 va = Some (PA2PTE q OR ?f OR PTE_V)"
        "PTE2PA (PA2PTE q OR ?f OR PTE_V) = q" "ram_page s4 q"
        using g(6) [of va] va by (auto simp: fresh_page_def)
      have b: "bit (PA2PTE q OR ?f OR PTE_V) 1" "bit (PA2PTE q OR ?f OR PTE_V) 2 \<longleftrightarrow> bit x 2"
        "bit (PA2PTE q OR ?f OR PTE_V) 4" "bit (PA2PTE q OR ?f OR PTE_V) 8 \<longleftrightarrow> bit x 8"
        using f by (simp_all add: bit_or_iff bit_PTE bit_PA2PTE)
      then have "PTE_FLAGS (PA2PTE q OR ?f OR PTE_V) \<noteq> PTE_V"
        unfolding not_only_V by (intro disjI2 exI [of _ 1]) simp
      with q b show ?thesis by simp
    qed
    moreover have "lookup (mem s4) p2 va = None" for va using g(5) [of p2 va] s2(3,4) by simp
    moreover have "vm_ok {p1, p2} ps4 (\<lambda>_. 0) s4" using g(1) by (simp add: insert_commute)
    moreover have "3 \<le> length ps4" using h(5) ps(2) by simp
    ultimately show thesis using that run s2(3) by auto
  qed (use ps(2) in simp)
qed

lemma demo_ready:
  obtains old new s ps where "demo = Some (old, new, s)" "vm_ok {old, new} ps (\<lambda>_. 0) s" "old \<noteq> new" "3 \<le> length ps"
    "\<And>va. vpn va < 1 \<Longrightarrow> \<exists>e. lookup (mem s) old va = Some e \<and> ram_page s (PTE2PA e) \<and> PTE_FLAGS e \<noteq> PTE_V \<and>
       bit e 1 \<and> bit e 2 \<and> bit e 4"
    "\<And>va. lookup (mem s) new va = None"
proof -
  have x: "\<forall>n. bit PTE_W n \<longrightarrow> n < 10" "bit PTE_W 2" by (simp_all add: bit_PTE)
  show thesis
  proof (rule demo_with_ready [OF x(1)])
    fix old new s ps
    assume d: "demo_with PTE_W = Some (old, new, s)" "vm_ok {old, new} ps (\<lambda>_. 0) s" "old \<noteq> new" "3 \<le> length ps"
      "\<And>va. vpn va < 1 \<Longrightarrow> \<exists>e. lookup (mem s) old va = Some e \<and> ram_page s (PTE2PA e) \<and> PTE_FLAGS e \<noteq> PTE_V \<and>
         bit e 1 \<and> (bit e 2 \<longleftrightarrow> bit PTE_W 2) \<and> bit e 4 \<and> (bit e 8 \<longleftrightarrow> bit PTE_W 8)"
      "\<And>va. lookup (mem s) new va = None"
    show thesis
    proof (rule that [OF _ d(2-4) _ d(6)])
      show "demo = Some (old, new, s)" using d(1) by (simp add: demo_def)
      show "\<exists>e. lookup (mem s) old va = Some e \<and> ram_page s (PTE2PA e) \<and> PTE_FLAGS e \<noteq> PTE_V \<and>
          bit e 1 \<and> bit e 2 \<and> bit e 4" if "vpn va < 1" for va
        using d(5) [OF that] x(2) by auto
    qed
  qed
qed

section \<open>Copy-on-write fork\<close>

text \<open>
  C1. \<open>uvmcopy\<close> always returns on a well-formed parent and an empty child. Either it returns 0
  and every page below \<open>sz\<close> is mapped in both address spaces to the same physical page, with
  write permission replaced by the copy-on-write mark; or it returns -1, which happens only
  when fewer than two free pages per copied page were left, and the child is empty again.
  In both cases every other address space, the contents of every page in use and, through
  \<open>vm_ok\<close>, the exactness of every reference count are kept.
\<close>

theorem uvmcopy_outcome:
  assumes "vm_ok R ps c s" "\<forall>p. 0 \<le> c p" "old \<in> R" "new \<in> R" "old \<noteq> new" "sz \<le> MAXVA"
    and "\<forall>va. vpn va < npages sz \<longrightarrow>
      (\<exists>e. lookup (mem s) old va = Some e \<and> ram_page s (PTE2PA e) \<and> PTE_FLAGS e \<noteq> PTE_V)"
    and "\<forall>va. vpn va < npages sz \<longrightarrow> lookup (mem s) new va = None"
  shows "\<exists>x ps' s'. uvmcopy old new sz s = Some (x, s') \<and>
    (x = 0 \<and> length ps \<le> length ps' + 2 * npages sz \<and>
       fork_inv R c old new ps s (npages sz) (npages sz) ps' s' \<or>
     x = -1 \<and> length ps < 2 * npages sz \<and> (\<exists>n\<le>npages sz. fork_inv R c old new ps s n 0 ps' s'))"
proof -
  have "fork_inv R c old new ps s 0 0 ps s" using assms(1) by (simp add: fork_inv_def forked_def)
  then show ?thesis
    unfolding uvmcopy_def using assms by (intro uvmcopy_loop_fork) auto
qed

theorem uvmcopy_outcome_witness:
  "\<exists>old new s ps ps' s'. demo = Some (old, new, s) \<and> uvmcopy old new 4096 s = Some (0, s') \<and>
     fork_inv {old, new} (\<lambda>_. 0) old new ps s 1 1 ps' s'"
proof (rule demo_ready)
  fix old new s ps
  assume d: "demo = Some (old, new, s)" "vm_ok {old, new} ps (\<lambda>_. 0) s" "old \<noteq> new" "3 \<le> length ps"
    "\<And>va. vpn va < 1 \<Longrightarrow> \<exists>e. lookup (mem s) old va = Some e \<and> ram_page s (PTE2PA e) \<and> PTE_FLAGS e \<noteq> PTE_V \<and>
       bit e 1 \<and> bit e 2 \<and> bit e 4"
    "\<And>va. lookup (mem s) new va = None"
  have "npages 4096 = 1" by (simp add: npages_def)
  with uvmcopy_outcome [OF d(2), of old new 4096] d show ?thesis
    by (fastforce simp: MAXVA_val)
qed

lemma demo_forked:
  assumes "demo = Some (old, new, s)" "vm_ok {old, new} ps (\<lambda>_. 0) s" "old \<noteq> new" "3 \<le> length ps"
    "\<And>va. vpn va < 1 \<Longrightarrow> \<exists>e. lookup (mem s) old va = Some e \<and> ram_page s (PTE2PA e) \<and> PTE_FLAGS e \<noteq> PTE_V \<and>
       bit e 1 \<and> bit e 2 \<and> bit e 4"
    "\<And>va. lookup (mem s) new va = None"
  shows "\<exists>ps' s'. uvmcopy old new 4096 s = Some (0, s') \<and> ps' \<noteq> [] \<and>
    fork_inv {old, new} (\<lambda>_. 0) old new ps s 1 1 ps' s'"
proof -
  have n: "npages 4096 = 1" by (simp add: npages_def)
  have src: "\<exists>e. lookup (mem s) old va = Some e \<and> ram_page s (PTE2PA e) \<and> PTE_FLAGS e \<noteq> PTE_V" if "vpn va < 1" for va
    using assms(5) [OF that] by blast
  have "fork_inv {old, new} (\<lambda>_. 0) old new ps s 0 0 ps s"
    using assms(2) by (simp add: fork_inv_def forked_def)
  then obtain x ps' s' where "uvmcopy old new 4096 s = Some (x, s')"
    "x = 0 \<and> length ps \<le> length ps' + 2 \<and> fork_inv {old, new} (\<lambda>_. 0) old new ps s 1 1 ps' s' \<or> length ps < 2"
    using uvmcopy_loop_fork [of "{old, new}" "\<lambda>_. 0" old new ps s 0 ps s 4096 0, unfolded n] assms(2,3,6) src
    by (auto simp: MAXVA_val uvmcopy_def)
  moreover have "ps' \<noteq> []" if "length ps \<le> length ps' + 2" using that assms(4) by auto
  ultimately show ?thesis using assms(4) by auto
qed

text \<open>
  C4. After a successful \<open>uvmcopy\<close> parent and child read, at every address below \<open>sz\<close>, the byte
  the parent read before, and neither can store there without a fault; every other process
  reads what it read before.
\<close>

theorem uvmcopy_same_bytes:
  assumes "vm_ok R ps c s" "\<forall>p. 0 \<le> c p" "old \<in> R" "new \<in> R" "old \<noteq> new" "sz \<le> MAXVA"
    and "\<forall>va. vpn va < npages sz \<longrightarrow>
      (\<exists>e. lookup (mem s) old va = Some e \<and> ram_page s (PTE2PA e) \<and> PTE_FLAGS e \<noteq> PTE_V)"
    and "\<forall>va. vpn va < npages sz \<longrightarrow> lookup (mem s) new va = None"
    and "uvmcopy old new sz s = Some (0, s')"
  shows "(\<forall>va. vpn va < npages sz \<longrightarrow> uread (mem s') new va = uread (mem s) old va \<and>
      uread (mem s') old va = uread (mem s) old va \<and> ustore new va b s' = None \<and> ustore old va b s' = None) \<and>
    (\<forall>r\<in>R - {old, new}. \<forall>va. uread (mem s') r va = uread (mem s) r va)"
proof -
  have "fork_inv R c old new ps s 0 0 ps s" using assms(1) by (simp add: fork_inv_def forked_def)
  then obtain ps' where inv: "fork_inv R c old new ps s (npages sz) (npages sz) ps' s'"
    using uvmcopy_loop_fork [of R c old new ps s 0 ps s sz 0] assms by (auto simp: uvmcopy_def)
  note F = fork_invD [OF inv]
  have frame: "mem s' (uaddr e va) = mem s (uaddr e va)" if "r \<in> R" "lookup (mem s) r va = Some e" for r e va
    using F(7) [of "uaddr e va"] vm_okD(6) [OF assms(1) that] free_page_unused(2) [OF assms(1) _ that]
    by auto
  have "uread (mem s') r va = uread (mem s) r va" if "r \<in> R - {old, new}" for r va
    using that F(9) [of r va] frame [of r] by (cases "lookup (mem s) r va") (auto simp: uread_def)
  moreover have "uread (mem s') new va = uread (mem s) old va \<and> uread (mem s') old va = uread (mem s) old va \<and>
      ustore new va b s' = None \<and> ustore old va b s' = None" if va: "vpn va < npages sz" for va
  proof -
    obtain e where e: "lookup (mem s) old va = Some e" "ram_page s (PTE2PA e)" using assms(7) va by blast
    have l: "lookup (mem s') old va = Some (cow_parent e)" "lookup (mem s') new va = Some (cow_child e)"
      using F(9) [OF assms(3), of va] F(9) [OF assms(4), of va] assms(5) va e(1) by simp_all
    have "uaddr (cow_parent e) va = uaddr e va" "uaddr (cow_child e) va = uaddr e va"
      using e(2) by (simp_all add: uaddr_def)
    moreover have "\<not> bit (cow_parent e) 2" "\<not> bit (cow_child e) 2"
      by (auto simp: cow_parent_def and_flag_iff bit_simps bit_PTE bit_cow_child bit_cow_flags)
    ultimately show ?thesis
      using l e(1) frame [OF assms(3) e(1)] by (simp add: uread_def ustore_def)
  qed
  ultimately show ?thesis by blast
qed

theorem uvmcopy_same_bytes_witness:
  "\<exists>old new s s'. demo = Some (old, new, s) \<and> uvmcopy old new 4096 s = Some (0, s') \<and>
     uread (mem s') new 17 = uread (mem s) old 17 \<and> ustore new 17 42 s' = None"
proof (rule demo_ready)
  fix old new s ps
  assume d: "demo = Some (old, new, s)" "vm_ok {old, new} ps (\<lambda>_. 0) s" "old \<noteq> new" "3 \<le> length ps"
    "\<And>va. vpn va < 1 \<Longrightarrow> \<exists>e. lookup (mem s) old va = Some e \<and> ram_page s (PTE2PA e) \<and> PTE_FLAGS e \<noteq> PTE_V \<and>
       bit e 1 \<and> bit e 2 \<and> bit e 4"
    "\<And>va. lookup (mem s) new va = None"
  obtain s' where s': "uvmcopy old new 4096 s = Some (0, s')" using demo_forked [OF d] by blast
  have "npages 4096 = 1" "vpn 17 = 0" by (simp_all add: npages_def vpn_def)
  moreover have "\<forall>va. vpn va < 1 \<longrightarrow>
      (\<exists>e. lookup (mem s) old va = Some e \<and> ram_page s (PTE2PA e) \<and> PTE_FLAGS e \<noteq> PTE_V)" using d(5) by blast
  ultimately have "uread (mem s') new 17 = uread (mem s) old 17 \<and> ustore new 17 42 s' = None"
    using uvmcopy_same_bytes [OF d(2) _ _ _ d(3), of 4096 s' 42] s' d(6) by (simp add: MAXVA_val)
  with d(1) s' show ?thesis by blast
qed

section \<open>The copy-on-write fault\<close>

text \<open>
  C3. On a fault at a copy-on-write page the handler either kills the process, which happens
  only when the page is shared and no page is free, or leaves the address mapped writable
  and unmarked, the other flags unchanged, to a page with exactly one reference. The
  invariant is kept, and no process, the faulting one included, reads a different byte
  anywhere afterwards.
\<close>

theorem cow_fault_private_copy:
  assumes "vm_ok R ps c s" "\<forall>p. 0 \<le> c p" "r \<in> R" "lookup (mem s) r va = Some e"
    and "bit e 8" "ram_page s (PTE2PA e)"
  shows "(ps = [] \<and> 1 < refs s (PTE2PA e) \<and> cow_fault r va s = Some (False, s)) \<or>
    (\<exists>ps' s' e'. cow_fault r va s = Some (True, s') \<and> vm_ok R ps' c s' \<and>
      lookup (mem s') r va = Some e' \<and> (\<forall>n<10. bit e' n \<longleftrightarrow> n \<noteq> 8 \<and> (bit e n \<or> n = 2)) \<and>
      refs s' (PTE2PA e') = 1 \<and> (\<forall>r'\<in>R. \<forall>va'. uread (mem s') r' va' = uread (mem s) r' va'))"
proof (rule cow_fault_result [OF assms(1) _ assms(3,4,5,6)])
  fix ps' s' e'
  assume h: "cow_fault r va s = Some (True, s')" "vm_ok R ps' c s'" "upd_space R s r va (Some e') s'"
    "\<And>n. n < 10 \<Longrightarrow> bit e' n \<longleftrightarrow> n \<noteq> 8 \<and> (bit e n \<or> n = 2)" "refs s' (PTE2PA e') = 1"
    "\<And>r' va'. r' \<in> R \<Longrightarrow> uread (mem s') r' va' = uread (mem s) r' va'"
  have "lookup (mem s') r va = Some e'" using upd_spaceD(4) [OF h(3) assms(3), of va] by simp
  with h show ?thesis by blast
qed (use assms(2) in auto)

lemma demo_shared:
  obtains old new s ps e where "demo_fork = Some (old, new, s)" "ps \<noteq> []"
    "vm_ok {old, new} ps (\<lambda>_. 0) s" "old \<noteq> new" "lookup (mem s) new 17 = Some e" "bit e 8" "bit e 4"
    "ram_page s (PTE2PA e)"
proof (rule demo_ready)
  fix old new s ps
  assume d: "demo = Some (old, new, s)" "vm_ok {old, new} ps (\<lambda>_. 0) s" "old \<noteq> new" "3 \<le> length ps"
    "\<And>va. vpn va < 1 \<Longrightarrow> \<exists>e. lookup (mem s) old va = Some e \<and> ram_page s (PTE2PA e) \<and> PTE_FLAGS e \<noteq> PTE_V \<and>
       bit e 1 \<and> bit e 2 \<and> bit e 4"
    "\<And>va. lookup (mem s) new va = None"
  obtain ps' s' where s': "uvmcopy old new 4096 s = Some (0, s')" "ps' \<noteq> []" "fork_inv {old, new} (\<lambda>_. 0) old new ps s 1 1 ps' s'"
    using demo_forked [OF d] by blast
  note F = fork_invD [OF s'(3)]
  have v: "vpn 17 = 0" by (simp add: vpn_def)
  then obtain e where e: "lookup (mem s) old 17 = Some e" "ram_page s (PTE2PA e)" "bit e 2" "bit e 4"
    using d(5) [of 17] by auto
  have "lookup (mem s') new 17 = Some (cow_child e)" using F(9) [of new 17] d(3) e(1) v by simp
  moreover have "bit (cow_child e) 8" "bit (cow_child e) 4" using e by (simp_all add: bit_cow_child bit_cow_flags)
  moreover have "ram_page s' (PTE2PA (cow_child e))" using e(2) F(8) by simp
  moreover have "demo_fork = Some (old, new, s')" using d(1) s'(1) by (auto simp: demo_fork_def)
  ultimately show thesis using that [of old new s' ps' "cow_child e"] d(3) s'(2) F(1) by simp
qed

theorem cow_fault_private_copy_witness:
  "\<exists>old new s s' e'. demo_fork = Some (old, new, s) \<and> cow_fault new 17 s = Some (True, s') \<and>
     lookup (mem s') new 17 = Some e' \<and> bit e' 2 \<and> refs s' (PTE2PA e') = 1"
proof (rule demo_shared)
  fix old new s ps e
  assume d: "demo_fork = Some (old, new, s)" "ps \<noteq> []" "vm_ok {old, new} ps (\<lambda>_. 0) s"
    "lookup (mem s) new 17 = Some e" "bit e 8" "ram_page s (PTE2PA e)"
  from cow_fault_private_copy [OF d(3) _ _ d(4,5,6)] d(2)
  have "\<exists>s' e'. cow_fault new 17 s = Some (True, s') \<and> lookup (mem s') new 17 = Some e' \<and> bit e' 2 \<and>
      refs s' (PTE2PA e') = 1" by fastforce
  with d(1) show ?thesis by blast
qed

text \<open>
  C2. Isolation: once the fault has been handled, the store that faulted goes through, the
  process then reads the byte it wrote, and every other address of every process, the other
  sharers of the page included, still reads the byte it read before the fault.
\<close>

theorem cow_write_isolated:
  assumes "vm_ok R ps c s" "\<forall>p. 0 \<le> c p" "r \<in> R" "lookup (mem s) r va = Some e"
    and "bit e 8" "bit e 4" "ram_page s (PTE2PA e)" "cow_fault r va s = Some (True, s1)"
  shows "\<exists>s2. ustore r va b s1 = Some s2 \<and> uread (mem s2) r va = Some b \<and>
    (\<forall>r'\<in>R. \<forall>va'. r' \<noteq> r \<or> va' \<noteq> va \<longrightarrow> uread (mem s2) r' va' = uread (mem s) r' va')"
proof (rule cow_fault_result [OF assms(1) _ assms(3,4,5,7)])
  fix ps' s' e'
  assume h: "cow_fault r va s = Some (True, s')" "vm_ok R ps' c s'" "upd_space R s r va (Some e') s'"
    "\<And>n. n < 10 \<Longrightarrow> bit e' n \<longleftrightarrow> n \<noteq> 8 \<and> (bit e n \<or> n = 2)" "ram_page s' (PTE2PA e')" "refs s' (PTE2PA e') = 1"
    "\<And>r' va'. r' \<in> R \<Longrightarrow> uread (mem s') r' va' = uread (mem s) r' va'"
  have s1: "s' = s1" using h(1) assms(8) by simp
  have l: "lookup (mem s1) r va = Some e'" using upd_spaceD(4) [OF h(3) assms(3), of va] s1 by simp
  have bits: "bit e' 2" "bit e' 4" using h(4) assms(6) by simp_all
  have c: "\<And>p. 0 \<le> c p" using assms(2) by blast
  show ?thesis
  proof (rule ustore_private [OF h(2) [unfolded s1] c assms(3) l bits h(5,6) [unfolded s1], of b])
    fix s2
    assume "ustore r va b s1 = Some s2" "uread (mem s2) r va = Some b"
      "\<And>r' va'. r' \<in> R \<Longrightarrow> r' \<noteq> r \<or> va' \<noteq> va \<Longrightarrow> uread (mem s2) r' va' = uread (mem s1) r' va'"
    with h(7) s1 show ?thesis by auto
  qed
qed (use assms(2,8) in auto)

theorem cow_write_isolated_witness:
  "\<exists>old new s s1 s2. demo_fork = Some (old, new, s) \<and> cow_fault new 17 s = Some (True, s1) \<and>
     ustore new 17 42 s1 = Some s2 \<and> uread (mem s2) new 17 = Some 42 \<and>
     uread (mem s2) old 17 = uread (mem s) old 17"
proof (rule demo_shared)
  fix old new s ps e
  assume d: "demo_fork = Some (old, new, s)" "ps \<noteq> []" "vm_ok {old, new} ps (\<lambda>_. 0) s" "old \<noteq> new"
    "lookup (mem s) new 17 = Some e" "bit e 8" "bit e 4" "ram_page s (PTE2PA e)"
  have new: "new \<in> {old, new}" by simp
  obtain s1 where s1: "cow_fault new 17 s = Some (True, s1)"
    by (rule cow_fault_result [OF d(3) _ new d(5,6,8)]) (use d(2) in auto)
  have "\<exists>s2. ustore new 17 42 s1 = Some s2 \<and> uread (mem s2) new 17 = Some 42 \<and>
      uread (mem s2) old 17 = uread (mem s) old 17"
    using cow_write_isolated [OF d(3) _ new d(5-8) s1, of 42] d(4) by auto
  with d(1) s1 show ?thesis by blast
qed

section \<open>Growing and shrinking\<close>

text \<open>
  C5. \<open>uvmalloc\<close> is all or nothing: it returns the new size with every page between the old
  and the new size mapped, readable and user-accessible, to a fresh private page full of
  zeroes; or it returns 0 with every address space exactly as before and no page lost from
  the accounting. The rest of memory and all other processes are unchanged either way.
\<close>

theorem uvmalloc_all_or_nothing:
  assumes "vm_ok R ps c s" "\<forall>p. 0 \<le> c p" "r \<in> R" "\<forall>n. bit xperm n \<longrightarrow> n < 10" "oldsz \<le> newsz" "newsz \<le> MAXVA"
    and "\<forall>va. npages oldsz \<le> vpn va \<longrightarrow> vpn va < npages newsz \<longrightarrow> lookup (mem s) r va = None"
  shows "\<exists>x ps' s'. uvmalloc r oldsz newsz xperm s = Some (x, s') \<and>
    (x = newsz \<and> grown R c r (PTE_R OR PTE_U OR xperm) (npages oldsz) (npages newsz) ps s ps' s' \<or>
     x = 0 \<and> grown R c r (PTE_R OR PTE_U OR xperm) (npages oldsz) (npages oldsz) ps s ps' s')"
proof -
  have g: "grown R c r (PTE_R OR PTE_U OR xperm) (npages oldsz) (npages oldsz) ps s ps s"
    using assms(1) by (rule grown_refl)
  have "oldsz \<le> MAXVA" using assms(5,6) by (rule order_trans)
  then have "unat (PGROUNDUP oldsz) = 4096 * npages oldsz" by (rule unat_PGROUNDUP)
  moreover have "max (npages oldsz) (npages newsz) = npages newsz" using npages_mono [OF assms(5)] by simp
  ultimately have "\<exists>x ps' s'. uvmalloc_loop r (PGROUNDUP oldsz) (PGROUNDUP oldsz) newsz xperm s = Some (x, s') \<and>
    (x = newsz \<and> grown R c r (PTE_R OR PTE_U OR xperm) (npages oldsz) (npages newsz) ps s ps' s' \<or>
     x = 0 \<and> grown R c r (PTE_R OR PTE_U OR xperm) (npages oldsz) (npages oldsz) ps s ps' s')"
    using uvmalloc_loop_grows [OF g assms(1,3) _ assms(4), of "PGROUNDUP oldsz" "PGROUNDUP oldsz" newsz]
      assms(2,6,7) npages_mono [OF assms(5)] by simp
  moreover have "\<not> newsz < oldsz" using assms(5) by (simp add: not_less)
  ultimately show ?thesis by (simp add: uvmalloc_def Let_def)
qed

theorem uvmalloc_all_or_nothing_witness:
  "\<exists>old new s ps x ps' s'. demo = Some (old, new, s) \<and> uvmalloc new 0 8192 PTE_W s = Some (x, s') \<and>
     (x = 8192 \<and> grown {old, new} (\<lambda>_. 0) new (PTE_R OR PTE_U OR PTE_W) 0 2 ps s ps' s' \<or>
      x = 0 \<and> grown {old, new} (\<lambda>_. 0) new (PTE_R OR PTE_U OR PTE_W) 0 0 ps s ps' s')"
proof (rule demo_ready)
  fix old new s ps
  assume d: "demo = Some (old, new, s)" "vm_ok {old, new} ps (\<lambda>_. 0) s" "\<And>va. lookup (mem s) new va = None"
  have "npages 0 = 0" "npages 8192 = 2" by (simp_all add: npages_def)
  with uvmalloc_all_or_nothing [OF d(2), of new PTE_W 0 8192] d(1,3) show ?thesis
    by (fastforce simp: bit_PTE MAXVA_val)
qed

text \<open>
  C6. \<open>uvmdealloc\<close> on mapped pages never panics, returns the smaller of the two sizes, unmaps
  exactly the pages above the new size, and frees exactly the pages that thereby lose their
  last reference; bytes of pages that are still in use do not change.
\<close>

theorem uvmdealloc_frees_tail:
  assumes "vm_ok R ps c s" "\<forall>p. 0 \<le> c p" "r \<in> R" "oldsz \<le> MAXVA"
    and "\<forall>va. npages newsz \<le> vpn va \<longrightarrow> vpn va < npages oldsz \<longrightarrow> freeable s r va"
  shows "\<exists>ps' s'. uvmdealloc r oldsz newsz s = Some (min oldsz newsz, s') \<and>
    unmapped R c r (\<lambda>va. npages newsz \<le> vpn va \<and> vpn va < npages oldsz) ps s ps' s'"
  using uvmdealloc_shrinks [OF assms(1,3) _ assms(4)] assms(2,5) by blast

theorem uvmdealloc_frees_tail_witness:
  "\<exists>old new s ps ps' s'. demo = Some (old, new, s) \<and> uvmdealloc old 4096 0 s = Some (0, s') \<and>
     unmapped {old, new} (\<lambda>_. 0) old (\<lambda>va. npages 0 \<le> vpn va \<and> vpn va < npages 4096) ps s ps' s'"
proof (rule demo_ready)
  fix old new s ps
  assume d: "demo = Some (old, new, s)" "vm_ok {old, new} ps (\<lambda>_. 0) s"
    "\<And>va. vpn va < 1 \<Longrightarrow> \<exists>e. lookup (mem s) old va = Some e \<and> ram_page s (PTE2PA e) \<and> PTE_FLAGS e \<noteq> PTE_V \<and>
       bit e 1 \<and> bit e 2 \<and> bit e 4"
  have n: "npages 0 = 0" "npages 4096 = 1" by (simp_all add: npages_def)
  moreover have "freeable s old va" if "vpn va < 1" for va using d(3) [OF that] by (auto simp: freeable_def)
  ultimately have "\<forall>va. npages 0 \<le> vpn va \<longrightarrow> vpn va < npages 4096 \<longrightarrow> freeable s old va" by simp
  moreover have "(4096::u64) \<le> MAXVA" "min 4096 0 = (0::u64)" by (simp_all add: MAXVA_val)
  ultimately have "\<exists>ps' s'. uvmdealloc old 4096 0 s = Some (0, s') \<and>
      unmapped {old, new} (\<lambda>_. 0) old (\<lambda>va. npages 0 \<le> vpn va \<and> vpn va < npages 4096) ps s ps' s'"
    using uvmdealloc_frees_tail [OF d(2), of old 4096 0] by simp
  with d(1) show ?thesis by blast
qed

end
