(* ===== verification/VmCopy.thy ===== *)
theory VmCopy
  imports CowFault
begin

text \<open>
  \<^verbatim>\<open>copyout\<close> and \<^verbatim>\<open>copyin\<close> of \<^verbatim>\<open>vm.c\<close> against what user programs see: \<open>copyout\<close> delivers its bytes
  to the addresses of one process and changes nothing that any process reads elsewhere, giving shared
  copy-on-write pages a private copy first; \<open>copyin\<close> fetches exactly what the process would read.
\<close>

section \<open>Writing into a private page\<close>

definition in_chunk :: "u64 \<Rightarrow> nat \<Rightarrow> u64 \<Rightarrow> bool" where
  "in_chunk va n va' \<longleftrightarrow> unat (va' - va) < n"

lemma page_offset: "unat (va - PGROUNDDOWN va) < 4096"
  by (simp add: PGROUNDDOWN_eq_iff [symmetric])

lemma unat_plus_le: "unat (a + b) \<le> unat a + unat (b::u64)"
  by (simp add: unat_word_ariths)

lemma chunk_page:
  assumes "in_chunk va n va'" "unat (va - PGROUNDDOWN va) + n \<le> 4096"
  shows "PGROUNDDOWN va' = PGROUNDDOWN va"
proof -
  have d: "va' - PGROUNDDOWN va = (va' - va) + (va - PGROUNDDOWN va)" by simp
  have "unat ((va' - va) + (va - PGROUNDDOWN va)) \<le> unat (va' - va) + unat (va - PGROUNDDOWN va)"
    by (rule unat_plus_le)
  then have "unat (va' - PGROUNDDOWN va) < 4096"
    unfolding d using assms by (simp add: in_chunk_def)
  then show ?thesis using PGROUNDDOWN_eq_iff [of "PGROUNDDOWN va" va'] by simp
qed

lemma uaddr_diff: "PGROUNDDOWN va' = PGROUNDDOWN va \<Longrightarrow> uaddr e va' - uaddr e va = va' - va"
  by (simp add: uaddr_def)

lemma lookup_page_cong: "PGROUNDDOWN va' = PGROUNDDOWN va \<Longrightarrow> lookup m r va' = lookup m r va"
  by (metis lookup_PGROUNDDOWN)

lemma put_private:
  assumes ok: "vm_ok R ps c s" "\<And>p. 0 \<le> c p" and r: "r \<in> R" "lookup (mem s) r va = Some e"
    and one: "ram_page s (PTE2PA e)" "refs s (PTE2PA e) = 1"
    and len: "unat (va - PGROUNDDOWN va) + length bs \<le> 4096"
  defines "s' \<equiv> s\<lparr>mem := put_bytes (mem s) (uaddr e va) bs\<rparr>"
  shows "vm_ok R ps c s'" "same_spaces R s s'"
    "in_chunk va (length bs) va' \<Longrightarrow> uread (mem s') r va' = Some (bs ! unat (va' - va))"
    "r' \<in> R \<Longrightarrow> r' \<noteq> r \<or> \<not> in_chunk va (length bs) va' \<Longrightarrow> uread (mem s') r' va' = uread (mem s) r' va'"
proof -
  let ?m = "put_bytes (mem s) (uaddr e va) bs"
  have tab: "PTE2PA e \<notin> tabs R (mem s)" using vm_okD(6) [OF ok(1) r] .
  have nfree: "PTE2PA e \<notin> set ps" using kinvD(6) [OF vm_okD(2) [OF ok(1)], of "PTE2PA e"] one(2) by auto
  have page: "PGROUNDDOWN x = PTE2PA e" if "unat (x - uaddr e va) < length bs" for x
  proof -
    have "unat (uaddr e va - PGROUNDDOWN (uaddr e va)) = unat (va - PGROUNDDOWN va)"
      by (simp only: uaddr_page) (simp add: uaddr_def)
    then show ?thesis
      using chunk_page [of "uaddr e va" "length bs" x] that len by (simp add: in_chunk_def)
  qed
  have out: "?m x = mem s x" if "PGROUNDDOWN x \<noteq> PTE2PA e" for x
    using page [of x] that by (auto simp: put_bytes_def)
  show W: "vm_ok R ps c s'" "same_spaces R s s'"
    unfolding s'_def using write_page [OF ok(1) tab nfree, of ?m] out by blast+
  note S = same_spacesD [OF W(2)]
  show "uread (mem s') r va' = Some (bs ! unat (va' - va))" if "in_chunk va (length bs) va'" for va'
  proof -
    note pg = chunk_page [OF that len]
    have "lookup (mem s') r va' = Some e" using S(4) [OF r(1), of va'] r(2) lookup_page_cong [OF pg] by simp
    then show ?thesis
      using that uaddr_diff [OF pg, of e] by (simp add: uread_def s'_def put_bytes_def in_chunk_def)
  qed
  show "uread (mem s') r' va' = uread (mem s) r' va'" if r': "r' \<in> R" "r' \<noteq> r \<or> \<not> in_chunk va (length bs) va'" for r' va'
  proof (cases "lookup (mem s) r' va'")
    case None
    then show ?thesis using S(4) [OF r'(1), of va'] by (simp add: uread_def)
  next
    case (Some e')
    have "\<not> unat (uaddr e' va' - uaddr e va) < length bs"
    proof
      assume in_bs: "unat (uaddr e' va' - uaddr e va) < length bs"
      then have pa: "PTE2PA e' = PTE2PA e" using page [OF in_bs] by simp
      from sole_mapping [OF ok r one r'(1) Some pa] have "r' = r" "PGROUNDDOWN va' = PGROUNDDOWN va" by auto
      with in_bs uaddr_diff [of va' va e] uaddr_cong [OF pa, of va'] r'(2) show False by (simp add: in_chunk_def)
    qed
    then show ?thesis using S(4) [OF r'(1), of va'] Some by (simp add: uread_def s'_def put_bytes_def)
  qed
qed

section \<open>A page of copyout\<close>

text \<open>
  An address whose page is the process's own, or copy-on-write: what \<open>fork\<close> and \<open>uvmalloc\<close> make of
  writable memory.
\<close>

definition own_page :: "'a kmem_scheme \<Rightarrow> u64 \<Rightarrow> u64 \<Rightarrow> bool" where
  "own_page s r va \<longleftrightarrow> (case lookup (mem s) r va of None \<Rightarrow> False
     | Some e \<Rightarrow> bit e 4 \<and> ram_page s (PTE2PA e) \<and> (bit e 8 \<or> refs s (PTE2PA e) = 1))"

lemma own_page_mem:
  assumes "same_spaces R s (s\<lparr>mem := m\<rparr>)" "r \<in> R"
  shows "own_page (s\<lparr>mem := m\<rparr>) r va = own_page s r va"
  using same_spacesD(4) [OF assms, of va] same_spacesD(6) [OF assms(1)]
  by (cases "lookup (mem s) r va") (simp_all add: own_page_def)

lemma PGROUNDUP_aligned: "page_aligned a \<Longrightarrow> PGROUNDUP a = a"
  using PGROUNDDOWN_offset [of a 4095] by (simp add: PGROUNDUP_alt)

text \<open>The copy-on-write branch: a private copy of the page, every process still reading the same bytes.\<close>

lemma copyout_cow_result:
  assumes ok: "vm_ok R ps c s" "\<And>p. 0 \<le> c p" and r: "r \<in> R" "lookup (mem s) r va = Some e"
    and e: "bit e 8" "ram_page s (PTE2PA e)"
  obtains (nomem) "ps = []" "copyout_cow r (PGROUNDDOWN va) e s = Some (False, s)"
  | (priv) q ps' s' e' where "copyout_cow r (PGROUNDDOWN va) e s = Some (True, s')" "vm_ok R ps' c s'"
      "upd_space R s r va (Some e') s'" "tabs R (mem s') = tabs R (mem s)"
      "\<And>n. n < 10 \<Longrightarrow> bit e' n \<longleftrightarrow> n \<noteq> 8 \<and> (bit e n \<or> n = 2)"
      "PTE2PA e' = q" "q \<in> set ps" "ram_page s' q" "refs s' q = 1"
      "\<And>r' va'. r' \<in> R \<Longrightarrow> uread (mem s') r' va' = uread (mem s) r' va'"
proof -
  have pos: "\<not> reference_counter s (PTE2PA e div PGSIZE) \<le> 0"
    using vm_okD(7) [OF ok(1) r e(2)] by simp
  have leaf: "PTE_FLAGS e \<noteq> PTE_V" unfolding not_only_V using e(1) by (intro disjI2 exI [of _ 8]) simp
  have up: "PGROUNDUP (PGROUNDDOWN va) = PGROUNDDOWN va" by (rule PGROUNDUP_aligned) simp
  from r(2) have v: "bit e 0" by (rule lookup_SomeD)
  let ?f = "(PTE_FLAGS e OR PTE_W) AND NOT PTE_COW"
  let ?e = "\<lambda>q. PA2PTE q OR ?f OR PTE_V"
  have fl: "\<forall>n. bit ?f n \<longrightarrow> n < 10" by (simp add: cow_new_flags)
  show ?thesis
  proof (cases ps)
    case Nil
    then have "kalloc s = (0, s)" using ok(1) vm_okD(2) kalloc_empty by blast
    then show ?thesis using Nil pos by (intro nomem) (simp_all add: copyout_cow_def Let_def)
  next
    case (Cons q qs)
    show ?thesis
    proof (rule cow_copy [OF ok(1) [unfolded Cons] r leaf e(2) ok(2) fl])
      fix s1 s2 s3
      assume *: "kalloc s = (q, s1)" "q \<noteq> 0"
        "uvmunmap r (PGROUNDDOWN va) 1 True (s1\<lparr>mem := memmove (mem s1) q (PTE2PA e) 4096\<rparr>) = Some s2"
        "mappages r (PGROUNDDOWN va) PGSIZE q ?f s2 = Some (0, s3)"
        "vm_ok R (if refs s (PTE2PA e) = 1 then PTE2PA e # qs else qs) c s3"
        "upd_space R s r va (Some (?e q)) s3" "PTE2PA (?e q) = q"
        "refs s3 q = 1" "q \<noteq> PTE2PA e" "tabs R (mem s3) = tabs R (mem s)"
        "\<And>x. PGROUNDDOWN x \<notin> tabs R (mem s) \<Longrightarrow> PGROUNDDOWN x \<noteq> q \<Longrightarrow>
           PGROUNDDOWN x \<noteq> PTE2PA e \<or> refs s (PTE2PA e) \<noteq> 1 \<Longrightarrow> mem s3 x = mem s x"
        "\<And>off. off < 4096 \<Longrightarrow> mem s3 (q + off) = mem s (PTE2PA e + off)"
      note U = upd_spaceD [OF *(6)]
      have run: "copyout_cow r (PGROUNDDOWN va) e s = Some (True, s3)"
        using pos up *(1-4) by (simp add: copyout_cow_def Let_def)
      have bits: "bit (?e q) n \<longleftrightarrow> n \<noteq> 8 \<and> (bit e n \<or> n = 2)" if "n < 10" for n
        using that v cow_new_flags [of e n] by (auto simp: bit_or_iff bit_PA2PTE bit_PTE)
      have reads: "uread (mem s3) r' va' = uread (mem s) r' va'" if "r' \<in> R" for r' va'
      proof (cases "r' = r \<and> PGROUNDDOWN va' = PGROUNDDOWN va")
        case True
        then have "lookup (mem s) r' va' = Some e" using r(2) by (metis lookup_PGROUNDDOWN)
        then show ?thesis
          using U(4) [OF that, of va'] True *(7) *(12) [of "va' - PGROUNDDOWN va'"] page_offset [of va']
          by (simp add: uread_def uaddr_def word_less_nat_alt)
      next
        case False
        show ?thesis
        proof (rule uread_frame)
          show "lookup (mem s3) r' va' = lookup (mem s) r' va'" using U(4) [OF that, of va'] False by auto
          fix x e' assume x: "lookup (mem s) r' va' = Some e'" "PGROUNDDOWN x = PTE2PA e'"
          have "PTE2PA e' \<noteq> PTE2PA e \<or> refs s (PTE2PA e) \<noteq> 1"
            using sole_mapping [OF ok r e(2) _ that x(1)] False by auto
          then show "mem s3 x = mem s x"
            using *(11) [of x] x(2) vm_okD(6) [OF ok(1) that x(1)]
              free_page_unused(2) [OF ok(1) _ that x(1), of q] Cons by simp
        qed
      qed
      have "ram_page s3 q" using U(3) kinvD(5) [OF vm_okD(2) [OF ok(1)], of q] Cons by simp
      then show ?thesis
        using Cons by (intro priv [OF run *(5,6,10) bits *(7) _ _ *(8) reads]) simp_all
    qed
  qed
qed

lemma own_page_cow:
  assumes ok: "vm_ok R ps c s" "\<And>p. 0 \<le> c p" and r: "r \<in> R" "lookup (mem s) r va = Some e" "bit e 4"
    and ok': "vm_ok R ps' c s'" and upd: "upd_space R s r va (Some e') s'" "tabs R (mem s') = tabs R (mem s)"
    and q: "PTE2PA e' \<in> set ps" "bit e' 4" "refs s' (PTE2PA e') = 1" and own: "own_page s r va'"
  shows "own_page s' r va'"
proof -
  note U = upd_spaceD [OF upd(1)]
  have ramq: "ram_page s (PTE2PA e')" using kinvD(5) [OF vm_okD(2) [OF ok(1)] q(1)] .
  show ?thesis
  proof (cases "PGROUNDDOWN va' = PGROUNDDOWN va")
    case True
    then have "lookup (mem s') r va' = Some e'" using U(4) [OF r(1), of va'] by simp
    then show ?thesis using q ramq U(3) by (simp add: own_page_def)
  next
    case False
    from own obtain e2 where e2: "lookup (mem s) r va' = Some e2" "bit e2 4" "ram_page s (PTE2PA e2)"
      "bit e2 8 \<or> refs s (PTE2PA e2) = 1"
      by (auto simp: own_page_def split: option.splits)
    let ?p = "PTE2PA e2"
    have "refs s' ?p = 1" if one: "refs s ?p = 1"
    proof -
      have "?p \<noteq> PTE2PA e" using sole_mapping [OF ok r(1) e2(1,3) one r(1,2)] False by auto
      moreover have "?p \<noteq> PTE2PA e'" using free_page_unused(2) [OF ok(1) q(1) r(1) e2(1)] by auto
      ultimately have "map_option PTE2PA (lookup (mem s') r' v) = Some ?p \<longleftrightarrow>
          map_option PTE2PA (lookup (mem s) r' v) = Some ?p" if "r' \<in> R" for r' v
        using U(4) [OF that, of v] r(2) lookup_page_cong [of v va "mem s" r] by auto
      then have "maps R (mem s') ?p = maps R (mem s) ?p" by (auto simp: maps_def)
      then show ?thesis
        using vm_okD(8) [OF ok(1) e2(3)] vm_okD(8) [OF ok', of ?p] e2(3) U(3) upd(2) one by simp
    qed
    then show ?thesis using e2 U(3) U(4) [OF r(1), of va'] False by (auto simp: own_page_def)
  qed
qed

lemma walkaddr_lookup:
  assumes "vm_ok R ps c s" "r \<in> R" "lookup (mem s) r va = Some e" "bit e 4"
  shows "walkaddr r va s = Some (PTE2PA e)"
proof -
  from assms(3) obtain t where t: "va < MAXVA" "tbl (mem s) r (vpath va) = Some t"
    "load64 (mem s) (t + 8 * PX 0 va) = e" "bit e 0" by (rule lookup_SomeD)
  then have "\<not> MAXVA \<le> va" by simp
  then show ?thesis
    using slot_nonzero(1) [OF assms(1,2) t(2)] assms(4) t
    by (simp add: walkaddr_def walk_False and_flag_iff)
qed

text \<open>How much of the source goes into the first page.\<close>

definition first_chunk :: "u64 \<Rightarrow> 'b list \<Rightarrow> nat" where
  "first_chunk va src =
     (let n = unat (PGSIZE - (va - PGROUNDDOWN va)) in if length src < n then length src else n)"

lemma first_chunk:
  shows "unat (va - PGROUNDDOWN va) + first_chunk va src \<le> 4096" "first_chunk va src \<le> length src"
    "src \<noteq> [] \<Longrightarrow> 0 < first_chunk va src"
    "first_chunk va src < length src \<Longrightarrow> PGROUNDDOWN va + PGSIZE = va + of_nat (first_chunk va src)"
proof -
  let ?n = "unat (PGSIZE - (va - PGROUNDDOWN va))"
  have n: "?n = 4096 - unat (va - PGROUNDDOWN va)"
    using page_offset [of va] by (subst unat_sub_le) (simp_all add: word_le_nat_alt)
  show "unat (va - PGROUNDDOWN va) + first_chunk va src \<le> 4096" "first_chunk va src \<le> length src"
    "src \<noteq> [] \<Longrightarrow> 0 < first_chunk va src"
    using n page_offset [of va] by (auto simp: first_chunk_def Let_def)
  assume "first_chunk va src < length src"
  then have "first_chunk va src = ?n" by (simp add: first_chunk_def Let_def split: if_splits)
  then show "PGROUNDDOWN va + PGSIZE = va + of_nat (first_chunk va src)" by (simp add: algebra_simps)
qed

lemma copyout_step:
  assumes ok: "vm_ok R ps c s" and r: "r \<in> R" and src: "src \<noteq> []" and e: "lookup (mem s) r va = Some e" "bit e 4"
  shows "(if bit e 8 then copyout_cow r (PGROUNDDOWN va) e s else Some (True, s)) = Some (True, s1) \<Longrightarrow>
      vm_ok R ps1 c s1 \<Longrightarrow> lookup (mem s1) r va = Some e1 \<Longrightarrow> bit e1 4 \<Longrightarrow> ram_page s1 (PTE2PA e1) \<Longrightarrow>
      copyout r va src s = copyout r (PGROUNDDOWN va + PGSIZE) (drop (first_chunk va src) src)
        (s1\<lparr>mem := put_bytes (mem s1) (uaddr e1 va) (take (first_chunk va src) src)\<rparr>)"
    and "bit e 8 \<Longrightarrow> copyout_cow r (PGROUNDDOWN va) e s = Some (False, s) \<Longrightarrow> copyout r va src s = Some (-1, s)"
proof -
  from e(1) obtain t where t: "va < MAXVA" "tbl (mem s) r (vpath va) = Some t"
    "load64 (mem s) (t + 8 * PX 0 va) = e" "bit e 0" by (rule lookup_SomeD)
  have va0: "PGROUNDDOWN va < MAXVA" "\<not> MAXVA \<le> PGROUNDDOWN va" "PGROUNDDOWN va mod PGSIZE = 0"
    using t(1) page_aligned_PGROUNDDOWN [of va] by (simp_all add: page_aligned_def not_le)
  have w: "walk r (PGROUNDDOWN va) False s = Some (t + 8 * PX 0 va, s)"
    using walk_present [of "PGROUNDDOWN va" s r t] va0(1) t(2) by simp
  show "copyout r va src s = copyout r (PGROUNDDOWN va + PGSIZE) (drop (first_chunk va src) src)
        (s1\<lparr>mem := put_bytes (mem s1) (uaddr e1 va) (take (first_chunk va src) src)\<rparr>)"
    if "(if bit e 8 then copyout_cow r (PGROUNDDOWN va) e s else Some (True, s)) = Some (True, s1)"
      "vm_ok R ps1 c s1" "lookup (mem s1) r va = Some e1" "bit e1 4" "ram_page s1 (PTE2PA e1)"
    using that src va0 t(3,4) e(2) w slot_nonzero(1) [OF ok r t(2)]
      walkaddr_lookup [OF that(2) r, of "PGROUNDDOWN va" e1]
      ram_pageD(2) [OF that(5) kinvD(1) [OF vm_okD(2) [OF that(2)]]]
    by (subst copyout.simps, cases "bit e 8")
      (simp_all add: and_flag_iff and.commute [of PTE_COW] Let_def first_chunk_def uaddr_def split del: if_split)
  show "copyout r va src s = Some (-1, s)" if "bit e 8" "copyout_cow r (PGROUNDDOWN va) e s = Some (False, s)"
    using that src va0 t(3,4) e(2) w slot_nonzero(1) [OF ok r t(2)]
    by (subst copyout.simps) (simp add: and_flag_iff and.commute [of PTE_COW] Let_def)
qed

lemma copyout_page:
  assumes ok: "vm_ok R ps c s" "\<And>p. 0 \<le> c p" and r: "r \<in> R" and own: "own_page s r va" and src: "src \<noteq> []"
  obtains (nomem) "ps = []" "copyout r va src s = Some (-1, s)"
  | (page) ps' s' where
      "copyout r va src s = copyout r (PGROUNDDOWN va + PGSIZE) (drop (first_chunk va src) src) s'"
      "vm_ok R ps' c s'" "kend s' = kend s" "kmem.more s' = kmem.more s"
      "\<And>va'. own_page s r va' \<Longrightarrow> own_page s' r va'"
      "\<And>va'. in_chunk va (first_chunk va src) va' \<Longrightarrow> uread (mem s') r va' = Some (src ! unat (va' - va))"
      "\<And>r' va'. r' \<in> R \<Longrightarrow> r' \<noteq> r \<or> \<not> in_chunk va (first_chunk va src) va' \<Longrightarrow>
         uread (mem s') r' va' = uread (mem s) r' va'"
proof -
  let ?n = "first_chunk va src"
  note n = first_chunk(1,2) [of va src]
  from own obtain e where e: "lookup (mem s) r va = Some e" "bit e 4" "ram_page s (PTE2PA e)"
    "bit e 8 \<or> refs s (PTE2PA e) = 1"
    by (auto simp: own_page_def split: option.splits)
  note step = copyout_step [OF ok(1) r src e(1,2)]
  have len: "unat (va - PGROUNDDOWN va) + length (take ?n src) \<le> 4096" "length (take ?n src) = ?n" using n by auto
  show ?thesis
  proof (cases "bit e 8")
    case False
    have one: "refs s (PTE2PA e) = 1" using e(4) False by simp
    note P = put_private [OF ok r e(1,3) one len(1)]
    let ?s = "s\<lparr>mem := put_bytes (mem s) (uaddr e va) (take ?n src)\<rparr>"
    show ?thesis
    proof (rule page [of ?s ps])
      show "copyout r va src s = copyout r (PGROUNDDOWN va + PGSIZE) (drop ?n src) ?s"
        using step(1) [of s ps e] False ok(1) e by simp
      show "own_page ?s r va'" if "own_page s r va'" for va'
        using that own_page_mem [OF P(2) r] by simp
      show "uread (mem ?s) r va' = Some (src ! unat (va' - va))" if "in_chunk va ?n va'" for va'
        using P(3) [of va'] that len(2) by (simp add: in_chunk_def)
      show "uread (mem ?s) r' va' = uread (mem s) r' va'" if "r' \<in> R" "r' \<noteq> r \<or> \<not> in_chunk va ?n va'" for r' va'
        using P(4) [OF that(1), of va'] that(2) len(2) by simp
    qed (use P(1) in simp_all)
  next
    case True
    show ?thesis
    proof (cases rule: copyout_cow_result [OF ok r e(1) True e(3)])
      case 1
      have "copyout r va src s = Some (-1, s)" using True 1(2) by (rule step(2))
      with 1(1) show ?thesis by (rule nomem)
    next
      case (2 q ps1 s1 e1)
      note U = upd_spaceD [OF 2(3)]
      have l1: "lookup (mem s1) r va = Some e1" using U(4) [OF r] by simp
      have b1: "bit e1 4" using 2(5) [of 4] e(2) by simp
      have ram1: "ram_page s1 (PTE2PA e1)" "refs s1 (PTE2PA e1) = 1" using 2(6,8,9) by simp_all
      note P = put_private [OF 2(2) ok(2) r l1 ram1 len(1)]
      let ?s = "s1\<lparr>mem := put_bytes (mem s1) (uaddr e1 va) (take ?n src)\<rparr>"
      show ?thesis
      proof (rule page [of ?s ps1])
        show "copyout r va src s = copyout r (PGROUNDDOWN va + PGSIZE) (drop ?n src) ?s"
          using step(1) [of s1 ps1 e1] True 2(1,2) l1 b1 ram1(1) by simp
        have q: "PTE2PA e1 \<in> set ps" using 2(6,7) by simp
        show "own_page ?s r va'" if "own_page s r va'" for va'
          using own_page_cow [OF ok r e(1,2) 2(2,3,4) q b1 ram1(2) that] own_page_mem [OF P(2) r] by simp
        show "uread (mem ?s) r va' = Some (src ! unat (va' - va))" if "in_chunk va ?n va'" for va'
          using P(3) [of va'] that len(2) by (simp add: in_chunk_def)
        show "uread (mem ?s) r' va' = uread (mem s) r' va'" if "r' \<in> R" "r' \<noteq> r \<or> \<not> in_chunk va ?n va'" for r' va'
          using P(4) [OF that(1), of va'] 2(10) [OF that(1), of va'] that(2) len(2) by simp
      qed (use P(1) U in simp_all)
    qed
  qed
qed

section \<open>copyout\<close>

lemma in_chunk_iff:
  assumes "unat va + n \<le> 2 ^ 38"
  shows "in_chunk va n va' \<longleftrightarrow> unat va \<le> unat va' \<and> unat va' < unat va + n"
  using assms by (auto simp: in_chunk_def unat_sub_if')

lemma unat_chunk: "unat (va::u64) + n \<le> 2 ^ 38 \<Longrightarrow> i \<le> n \<Longrightarrow> unat (va + of_nat i) = unat va + i"
  by (subst unat_add_no_overflow) (simp_all add: unat_of_nat)

text \<open>
  All the bytes are delivered, or memory ran out; either way nothing else that any process reads has
  changed.
\<close>

lemma copyout_delivers:
  assumes "vm_ok R ps c s" "\<And>p. 0 \<le> c p" "r \<in> R" "unat va + length src \<le> 2 ^ 38"
    and "\<And>i. i < length src \<Longrightarrow> own_page s r (va + of_nat i)"
  obtains x ps' s' where "copyout r va src s = Some (x, s')" "vm_ok R ps' c s'" "kend s' = kend s"
    "kmem.more s' = kmem.more s" "\<And>va'. own_page s r va' \<Longrightarrow> own_page s' r va'"
    "x = 0 \<and> (\<forall>i<length src. uread (mem s') r (va + of_nat i) = Some (src ! i)) \<or> x = -1 \<and> ps' = []"
    "\<And>r' va'. r' \<in> R \<Longrightarrow> r' \<noteq> r \<or> \<not> in_chunk va (length src) va' \<Longrightarrow>
       uread (mem s') r' va' = uread (mem s) r' va'"
  using assms
proof (induction src arbitrary: va s ps thesis rule: measure_induct_rule [of length])
  case (less src)
  note ok = less.prems(2,3) and r = less.prems(4) and bound = less.prems(5) and own = less.prems(6)
  show ?case
  proof (cases "src = []")
    case True
    then have "copyout r va src s = Some (0, s)" by (simp add: copyout.simps)
    then show ?thesis using True ok(1) by (intro less.prems(1) [of 0 s ps]) auto
  next
    case False
    then have own0: "own_page s r va" using own [of 0] by simp
    let ?n = "first_chunk va src" and ?m = "length src"
    note n = first_chunk(2) [of va src] first_chunk(3) [OF False, of va]
    show ?thesis
    proof (cases rule: copyout_page [OF ok r own0 False])
      case 1
      then show ?thesis using ok(1) by (intro less.prems(1) [of "-1" s ps]) auto
    next
      case (2 ps1 s1)
      let ?va = "va + of_nat ?n"
      have next_va: "copyout r va src s = copyout r ?va (drop ?n src) s1"
        using 2(1) first_chunk(4) [of va src] n(1) by (cases "?n < ?m") (simp_all add: copyout.simps)
      have uv: "unat ?va = unat va + ?n" using bound n(1) by (rule unat_chunk)
      have own1: "own_page s1 r (?va + of_nat i)" if "i < length (drop ?n src)" for i
        using 2(5) [OF own [of "?n + i"]] that by (simp add: add.assoc)
      have len: "length (drop ?n src) < ?m" "unat ?va + length (drop ?n src) \<le> 2 ^ 38"
        using n uv bound by auto
      show ?thesis
      proof (rule less.IH [OF len(1) _ 2(2) ok(2) r len(2) own1])
        fix x ps' s'
        assume *: "copyout r ?va (drop ?n src) s1 = Some (x, s')" "vm_ok R ps' c s'" "kend s' = kend s1"
          "kmem.more s' = kmem.more s1" "\<And>va'. own_page s1 r va' \<Longrightarrow> own_page s' r va'"
          "x = 0 \<and> (\<forall>i<length (drop ?n src). uread (mem s') r (?va + of_nat i) = Some (drop ?n src ! i))
             \<or> x = -1 \<and> ps' = []"
          "\<And>r' va'. r' \<in> R \<Longrightarrow> r' \<noteq> r \<or> \<not> in_chunk ?va (length (drop ?n src)) va' \<Longrightarrow>
             uread (mem s') r' va' = uread (mem s1) r' va'"
        have chunk1: "in_chunk va ?n va' \<longleftrightarrow> unat va \<le> unat va' \<and> unat va' < unat va + ?n"
          and chunk2: "in_chunk ?va (length (drop ?n src)) va' \<longleftrightarrow> unat va + ?n \<le> unat va' \<and> unat va' < unat va + ?m"
          and chunk: "in_chunk va ?m va' \<longleftrightarrow> unat va \<le> unat va' \<and> unat va' < unat va + ?m" for va'
          using in_chunk_iff [of va ?n va'] in_chunk_iff [OF len(2), of va'] in_chunk_iff [OF bound, of va'] bound n(1) uv
          by auto
        have reads: "uread (mem s') r (va + of_nat i) = Some (src ! i)"
          if "x = 0" "i < ?m" for i
        proof (cases "i < ?n")
          case True
          have u: "unat (va + of_nat i) = unat va + i" using bound that(2) by (intro unat_chunk) auto
          have d: "unat (va + of_nat i - va) = i" using that(2) bound by (simp add: unat_of_nat)
          from True u have "in_chunk va ?n (va + of_nat i)" "\<not> in_chunk ?va (length (drop ?n src)) (va + of_nat i)"
            by (simp_all only: chunk1 chunk2) simp_all
          then show ?thesis using *(7) [OF r, of "va + of_nat i"] 2(6) [of "va + of_nat i"] d by simp
        next
          case False
          then have "?va + of_nat (i - ?n) = va + of_nat i" by (simp add: of_nat_diff)
          moreover have "uread (mem s') r (?va + of_nat (i - ?n)) = Some (drop ?n src ! (i - ?n))"
            using *(6) that False by (metis diff_less_mono length_drop not_less zero_neq_neg_one)
          ultimately show ?thesis using False that(2) by simp
        qed
        show ?thesis
        proof (rule less.prems(1) [of x s' ps'])
          show "uread (mem s') r' va' = uread (mem s) r' va'" if "r' \<in> R" "r' \<noteq> r \<or> \<not> in_chunk va ?m va'" for r' va'
            using *(7) [OF that(1), of va'] 2(7) [OF that(1), of va'] that(2) n(1)
            unfolding chunk chunk1 chunk2 by auto
        qed (use * 2(3-5) next_va reads in auto)
      qed
    qed
  qed
qed

text \<open>A page without the copy-on-write mark is written in place, whatever its other flags.\<close>

lemma copyout_in_place:
  assumes "vm_ok R ps c s" "r \<in> R" "lookup (mem s) r va = Some e" "bit e 4" "\<not> bit e 8" "ram_page s (PTE2PA e)"
    and "r' \<in> R" "lookup (mem s) r' va' = Some e'" "uaddr e' va' = uaddr e va"
  obtains s' where "copyout r va [b] s = Some (0, s')" "uread (mem s') r' va' = Some b"
proof -
  have n: "first_chunk va [b] = 1"
    using first_chunk(2) [of va "[b]"] first_chunk(3) [of "[b]" va] by simp
  let ?m = "put_bytes (mem s) (uaddr e va) [b]"
  have "copyout r va [b] s = Some (0, s\<lparr>mem := ?m\<rparr>)"
    using copyout_step(1) [OF assms(1,2) _ assms(3,4), of "[b]" s ps e] assms by (simp add: n copyout.simps)
  moreover have "same_spaces R s (s\<lparr>mem := ?m\<rparr>)"
  proof (rule write_page(2) [OF assms(1)])
    show "PTE2PA e \<notin> tabs R (mem s)" using vm_okD(6) [OF assms(1-3)] .
    show "PTE2PA e \<notin> set ps" using free_page_unused(2) [OF assms(1) _ assms(2,3)] by auto
    show "?m x = mem s x" if "PGROUNDDOWN x \<noteq> PTE2PA e" for x
      using that by (auto simp: put_bytes_def unat_eq_0)
  qed
  then have "uread ?m r' va' = Some b"
    using same_spacesD(4) [OF _ assms(7), of s "s\<lparr>mem := ?m\<rparr>" va'] assms(8,9) by (simp add: uread_def put_bytes_def)
  ultimately show thesis using that [of "s\<lparr>mem := ?m\<rparr>"] by simp
qed

section \<open>copyin\<close>

text \<open>An address that the process may read.\<close>

definition user_page :: "'a kmem_scheme \<Rightarrow> u64 \<Rightarrow> u64 \<Rightarrow> bool" where
  "user_page s r va \<longleftrightarrow> (case lookup (mem s) r va of None \<Rightarrow> False
     | Some e \<Rightarrow> bit e 4 \<and> ram_page s (PTE2PA e))"

lemma own_user_page: "own_page s r va \<Longrightarrow> user_page s r va"
  by (auto simp: own_page_def user_page_def split: option.splits)

definition fetched :: "'a kmem_scheme \<Rightarrow> u64 \<Rightarrow> u64 \<Rightarrow> nat \<Rightarrow> u8 list" where
  "fetched s r va n = map (\<lambda>i. the (uread (mem s) r (va + of_nat i))) [0..<n]"

lemma fetched_split: "k \<le> n \<Longrightarrow> fetched s r va n = fetched s r va k @ fetched s r (va + of_nat k) (n - k)"
  by (intro nth_equalityI) (auto simp: fetched_def nth_append of_nat_diff)

lemma fetched_page:
  assumes "lookup (mem s) r va = Some e" "unat (va - PGROUNDDOWN va) + n \<le> 4096"
  shows "fetched s r va n = bytes_at (mem s) (PTE2PA e + (va - PGROUNDDOWN va)) n"
proof -
  have "uread (mem s) r (va + of_nat i) = Some (mem s (PTE2PA e + (va - PGROUNDDOWN va) + of_nat i))" if "i < n" for i
  proof -
    have "in_chunk va n (va + of_nat i)"
      using that assms(2) by (simp add: in_chunk_def unat_of_nat)
    note pg = chunk_page [OF this assms(2)]
    have "lookup (mem s) r (va + of_nat i) = Some e" using lookup_page_cong [OF pg] assms(1) by simp
    then show ?thesis using pg by (simp add: uread_def uaddr_def algebra_simps)
  qed
  then show ?thesis by (simp add: fetched_def bytes_at_def)
qed

lemma copyin_fetches:
  assumes "vm_ok R ps c s" "r \<in> R" "unat va + unat len \<le> 2 ^ 38"
    and "\<And>i. i < unat len \<Longrightarrow> user_page s r (va + of_nat i)"
  shows "copyin r va len s = Some (0, fetched s r va (unat len))"
  using assms(3,4)
proof (induction "unat len" arbitrary: va len rule: less_induct)
  case less
  show ?case
  proof (cases "len = 0")
    case True
    then show ?thesis by (simp add: copyin.simps fetched_def)
  next
    case False
    then have pos: "0 < len" "0 < unat len" by (simp_all add: word_neq_0_conv unat_gt_0)
    define k where "k = PGSIZE - (va - PGROUNDDOWN va)"
    define n where "n = (if len < k then len else k)"
    note ch = chunk_pos [OF pos(1) k_def n_def]
    have k: "unat k = 4096 - unat (va - PGROUNDDOWN va)"
      unfolding k_def using page_offset [of va] by (subst unat_sub_le) (simp_all add: word_le_nat_alt)
    have n: "unat n \<le> unat len" "unat (va - PGROUNDDOWN va) + unat n \<le> 4096" "unat (len - n) = unat len - unat n"
      using ch(2) k page_offset [of va] by (auto simp: n_def word_le_nat_alt word_less_nat_alt unat_sub_le split: if_splits)
    obtain e where e: "lookup (mem s) r va = Some e" "bit e 4" "ram_page s (PTE2PA e)"
      using less.prems(2) [of 0] pos(2) by (auto simp: user_page_def split: option.splits)
    have w: "walkaddr r (PGROUNDDOWN va) s = Some (PTE2PA e)" "PTE2PA e \<noteq> 0"
      using walkaddr_lookup [OF assms(1,2), of "PGROUNDDOWN va" e] e
        ram_pageD(2) [OF e(3) kinvD(1) [OF vm_okD(2) [OF assms(1)]]] by auto
    have next_va: "copyin r (PGROUNDDOWN va + PGSIZE) (len - n) s = Some (0, fetched s r (va + of_nat (unat n)) (unat len - unat n))"
    proof (cases "n < len")
      case True
      then have "n = k" by (simp add: n_def split: if_splits)
      then have eq: "PGROUNDDOWN va + PGSIZE = va + n" by (simp add: k_def)
      have u: "unat (va + n) = unat va + unat n"
        using unat_chunk [OF less.prems(1) n(1)] by simp
      show ?thesis
        using less.hyps [of "len - n" "va + n"] ch(4) less.prems(2) [of "unat n + _"] less.prems(1) n u
        unfolding eq by (simp add: n(3) add.assoc [symmetric])
    next
      case False
      then have "n = len" using ch(2) by simp
      then show ?thesis by (simp add: copyin.simps fetched_def)
    qed
    show ?thesis
      using pos(1) w next_va fetched_split [OF n(1), of s r va] fetched_page [OF e(1) n(2)]
      by (subst copyin.simps) (simp add: Let_def k_def [symmetric] n_def [symmetric])
  qed
qed

end
