(* ===== verification/CopyProps.thy ===== *)
theory CopyProps
  imports VmProps VmCopy
begin

text \<open>
  Properties of the copies between kernel and user memory (\<^verbatim>\<open>copyout\<close> and \<^verbatim>\<open>copyin\<close> of
  \<^verbatim>\<open>kernel/vm.c\<close>): delivery and isolation, the round trip, and the missing check of write permission.
\<close>

section \<open>Delivery and isolation\<close>

text \<open>
  C29. \<open>copyout\<close> to addresses whose pages are the process's own or copy-on-write always returns: with 0
  and every byte delivered, or with -1, and then no page is free. Shared pages are copied first: no
  address outside the destination, and no address of any other process, reads a different byte
  afterwards, and the reference counts stay exact.
\<close>

theorem copyout_isolated:
  assumes "vm_ok R ps c s" "\<forall>p. 0 \<le> c p" "r \<in> R" "unat dstva + length src \<le> 2 ^ 38"
    and "\<forall>i<length src. own_page s r (dstva + of_nat i)"
  shows "\<exists>x ps' s'. copyout r dstva src s = Some (x, s') \<and> vm_ok R ps' c s' \<and>
    (x = 0 \<and> (\<forall>i<length src. uread (mem s') r (dstva + of_nat i) = Some (src ! i)) \<or> x = -1 \<and> ps' = []) \<and>
    (\<forall>r'\<in>R. \<forall>va. r' \<noteq> r \<or> \<not> in_chunk dstva (length src) va \<longrightarrow> uread (mem s') r' va = uread (mem s) r' va)"
proof (rule copyout_delivers [OF assms(1) _ assms(3,4)])
  fix x ps' s'
  assume "copyout r dstva src s = Some (x, s')" "vm_ok R ps' c s'"
    "x = 0 \<and> (\<forall>i<length src. uread (mem s') r (dstva + of_nat i) = Some (src ! i)) \<or> x = -1 \<and> ps' = []"
    "\<And>r' va'. r' \<in> R \<Longrightarrow> r' \<noteq> r \<or> \<not> in_chunk dstva (length src) va' \<Longrightarrow> uread (mem s') r' va' = uread (mem s) r' va'"
  then show ?thesis by blast
qed (use assms(2,5) in auto)

theorem copyout_isolated_witness:
  "\<exists>old new s x s'. demo_fork = Some (old, new, s) \<and> copyout new 17 [42] s = Some (x, s') \<and>
     uread (mem s') old 17 = uread (mem s) old 17"
proof (rule demo_shared)
  fix old new s ps e
  assume d: "demo_fork = Some (old, new, s)" "vm_ok {old, new} ps (\<lambda>_. 0) s" "old \<noteq> new"
    "lookup (mem s) new 17 = Some e" "bit e 8" "bit e 4" "ram_page s (PTE2PA e)"
  have own: "\<forall>i<length [42::u8]. own_page s new (17 + of_nat i)" using d by (simp add: own_page_def)
  obtain x s' where "copyout new 17 [42] s = Some (x, s')" "uread (mem s') old 17 = uread (mem s) old 17"
    using copyout_isolated [OF d(2) _ _ _ own] d(3) by auto
  with d(1) show ?thesis by blast
qed

text \<open>
  C30. What \<open>copyout\<close> has written to a process's memory with result 0, \<open>copyin\<close> of the same range reads
  back.
\<close>

theorem copyout_copyin:
  assumes "vm_ok R ps c s" "\<forall>p. 0 \<le> c p" "r \<in> R" "unat va + length src \<le> 2 ^ 38"
    and "\<forall>i<length src. own_page s r (va + of_nat i)" "copyout r va src s = Some (0, s')"
  shows "copyin r va (of_nat (length src)) s' = Some (0, src)"
proof (rule copyout_delivers [OF assms(1) _ assms(3,4)])
  fix x ps' s1
  assume *: "copyout r va src s = Some (x, s1)" "vm_ok R ps' c s1" "\<And>va'. own_page s r va' \<Longrightarrow> own_page s1 r va'"
    "x = 0 \<and> (\<forall>i<length src. uread (mem s1) r (va + of_nat i) = Some (src ! i)) \<or> x = -1 \<and> ps' = []"
  have s1: "s1 = s'" "x = 0" using *(1) assms(6) by simp_all
  have len: "unat (of_nat (length src) :: u64) = length src" using assms(4) by (simp add: unat_of_nat)
  have "copyin r va (of_nat (length src)) s1 = Some (0, fetched s1 r va (length src))"
    using copyin_fetches [OF *(2) assms(3), of va "of_nat (length src)"] assms(4,5) *(3) len by (simp add: own_user_page)
  moreover have "fetched s1 r va (length src) = src"
    using *(4) s1(2) by (intro nth_equalityI) (simp_all add: fetched_def)
  ultimately show ?thesis by (simp add: s1(1))
qed (use assms(2,5) in auto)

lemma demo_copyout:
  obtains old new s ps s' where "demo_fork = Some (old, new, s)" "vm_ok {old, new} ps (\<lambda>_. 0) s"
    "\<forall>i<length [42::u8]. own_page s new (17 + of_nat i)" "copyout new 17 [42] s = Some (0, s')"
proof (rule demo_shared)
  fix old new s ps e
  assume d: "demo_fork = Some (old, new, s)" "ps \<noteq> []" "vm_ok {old, new} ps (\<lambda>_. 0) s"
    "lookup (mem s) new 17 = Some e" "bit e 8" "bit e 4" "ram_page s (PTE2PA e)"
  have own: "own_page s new 17" using d by (simp add: own_page_def)
  show thesis
  proof (cases rule: copyout_page [OF d(3) _ _ own, of "[42]"])
    case (5 ps' s')
    have "first_chunk 17 [42::u8] = 1" by (simp add: first_chunk_def PGROUNDDOWN_def)
    with 5(1) have "copyout new 17 [42] s = Some (0, s')" by (simp add: copyout.simps [of new "PGROUNDDOWN 17 + PGSIZE"])
    then show thesis using that d(1,3) own by simp
  qed (use d(2) in simp_all)
qed

theorem copyout_copyin_witness:
  "\<exists>old new s s'. demo_fork = Some (old, new, s) \<and> copyout new 17 [42] s = Some (0, s') \<and>
     copyin new 17 1 s' = Some (0, [42])"
proof (rule demo_copyout)
  fix old new s ps s'
  assume d: "demo_fork = Some (old, new, s)" "vm_ok {old, new} ps (\<lambda>_. 0) s"
    "\<forall>i<length [42::u8]. own_page s new (17 + of_nat i)" "copyout new 17 [42] s = Some (0, s')"
  have "copyin new 17 1 s' = Some (0, [42])"
    using copyout_copyin [OF d(2) _ _ _ d(3,4)] by simp
  with d show ?thesis by blast
qed

section \<open>Write permission\<close>

text \<open>
  C31. \<open>copyout\<close> does not look at the write permission of a page. After \<open>uvmcopy\<close> a page that the parent
  may only read is shared without a copy-on-write mark; a \<open>copyout\<close> to it in the parent succeeds and
  changes the byte that the child reads there.
\<close>

theorem copyout_ignores_write_permission:
  assumes "vm_ok R ps c s" "\<forall>p. 0 \<le> c p" "old \<in> R" "new \<in> R" "old \<noteq> new" "sz \<le> MAXVA"
    and "\<forall>va. vpn va < npages sz \<longrightarrow>
      (\<exists>e. lookup (mem s) old va = Some e \<and> ram_page s (PTE2PA e) \<and> PTE_FLAGS e \<noteq> PTE_V)"
    and "\<forall>va. vpn va < npages sz \<longrightarrow> lookup (mem s) new va = None"
    and "uvmcopy old new sz s = Some (0, s1)"
    and "vpn va < npages sz" "lookup (mem s) old va = Some e" "bit e 4" "\<not> bit e 2" "\<not> bit e 8"
  shows "\<exists>s2. copyout old va [b] s1 = Some (0, s2) \<and> uread (mem s2) new va = Some b"
proof -
  have "fork_inv R c old new ps s 0 0 ps s" using assms(1) by (simp add: fork_inv_def forked_def)
  then obtain ps' where inv: "fork_inv R c old new ps s (npages sz) (npages sz) ps' s1"
    using uvmcopy_loop_fork [of R c old new ps s 0 ps s sz 0] assms by (auto simp: uvmcopy_def)
  note F = fork_invD [OF inv]
  have ram: "ram_page s (PTE2PA e)" using assms(7,10,11) by fastforce
  have l: "lookup (mem s1) old va = Some (cow_parent e)" "lookup (mem s1) new va = Some (cow_child e)"
    using F(9) [OF assms(3), of va] F(9) [OF assms(4), of va] assms(5,10,11) by simp_all
  have pa: "PTE2PA (cow_parent e) = PTE2PA e" "PTE2PA (cow_child e) = PTE2PA e" using ram by simp_all
  have b: "bit (cow_parent e) 4" "\<not> bit (cow_parent e) 8"
    using assms(12-14) by (auto simp: cow_parent_def and_flag_iff)
  have "ram_page s1 (PTE2PA (cow_parent e))" using ram pa(1) F(8) by simp
  then show ?thesis
    using copyout_in_place [OF F(1) assms(3) l(1) b _ assms(4) l(2), of b] pa by (auto simp: uaddr_def)
qed

theorem copyout_ignores_write_permission_witness:
  "\<exists>old new s s1 s2. demo_with 0 = Some (old, new, s) \<and> uvmcopy old new 4096 s = Some (0, s1) \<and>
     copyout old 17 [42] s1 = Some (0, s2) \<and> uread (mem s2) new 17 = Some 42"
proof (rule demo_with_ready [of 0])
  fix old new s ps
  assume d: "demo_with 0 = Some (old, new, s)" "vm_ok {old, new} ps (\<lambda>_. 0) s" "old \<noteq> new" "3 \<le> length ps"
    "\<And>va. vpn va < 1 \<Longrightarrow> \<exists>e. lookup (mem s) old va = Some e \<and> ram_page s (PTE2PA e) \<and> PTE_FLAGS e \<noteq> PTE_V \<and>
       bit e 1 \<and> (bit e 2 \<longleftrightarrow> bit (0::u64) 2) \<and> bit e 4 \<and> (bit e 8 \<longleftrightarrow> bit (0::u64) 8)"
    "\<And>va. lookup (mem s) new va = None"
  have n: "npages 4096 = 1" "vpn 17 < 1" by (simp_all add: npages_def vpn_def)
  have src: "\<forall>va. vpn va < 1 \<longrightarrow>
      (\<exists>e. lookup (mem s) old va = Some e \<and> ram_page s (PTE2PA e) \<and> PTE_FLAGS e \<noteq> PTE_V)" using d(5) by blast
  have "fork_inv {old, new} (\<lambda>_. 0) old new ps s 0 0 ps s" using d(2) by (simp add: fork_inv_def forked_def)
  then obtain s1 where s1: "uvmcopy old new 4096 s = Some (0, s1)"
    using uvmcopy_loop_fork [of "{old, new}" "\<lambda>_. 0" old new ps s 0 ps s 4096 0, unfolded n] d(2,3,4,6) src
    by (auto simp: MAXVA_val uvmcopy_def)
  obtain e where e: "lookup (mem s) old 17 = Some e" "bit e 4" "\<not> bit e 2" "\<not> bit e 8" using d(5) [OF n(2)] by auto
  have "\<exists>s2. copyout old 17 [42] s1 = Some (0, s2) \<and> uread (mem s2) new 17 = Some 42"
    using copyout_ignores_write_permission [OF d(2) _ _ _ d(3), of 4096 s1 17 e 42] s1 src d(6) e n
    by (simp add: MAXVA_val)
  with d(1) s1 show ?thesis by blast
qed simp

end
