(* ===== verification/PartB.thy ===== *)
theory PartB
  imports Prelude "HOL-Library.List_Lexorder"
begin

text \<open>
  The file sorter of \<^verbatim>\<open>concurrency/partB.c\<close>: the \<open>File\<close> records, the
  comparison functions, and the merge sort that large inputs take. The array
  \<open>files\<close> is a list; an access outside it is \<open>None\<close>, as is a loop that never ends.
  The two threads of \<open>merge_sort\<close> work on disjoint ranges of the array: the model runs
  them one after the other in an order that a parameter chooses freely, and the theorems
  hold for every choice.

  \<open>qsort\<close> is the C library's: a parameter, whose documented contract is
  \<open>qsort_contract\<close>.
\<close>

section \<open>Data\<close>

record File =
  name :: string
  file_id :: int
  timestamp :: string

definition LAZY_THRESHOLD :: nat where
  "LAZY_THRESHOLD = 42"

definition NUM_PROCESSES :: nat where
  "NUM_PROCESSES = 8"

definition MAX_LEVEL_MERGE_SORT :: nat where
  "MAX_LEVEL_MERGE_SORT = 5"

definition MAX_FILES :: int where
  "MAX_FILES = 100000000"

text \<open>C's 32-bit signed arithmetic, with the wrap-around written out.\<close>

definition wrap32 :: "int \<Rightarrow> int" where
  "wrap32 i = (i + 2 ^ 31) mod 2 ^ 32 - 2 ^ 31"

text \<open>A value that a C int can have; an addition or subtraction with another result is undefined.\<close>

definition int_fits :: "int \<Rightarrow> bool" where
  "int_fits i \<longleftrightarrow> - (2 ^ 31) \<le> i \<and> i < 2 ^ 31"

text \<open>\<open>strcmp\<close> of the C library: the difference of the first bytes that differ, as
  unsigned characters; a string ends at its first NUL.\<close>

fun libc_strcmp :: "string \<Rightarrow> string \<Rightarrow> int" where
  "libc_strcmp [] [] = 0"
| "libc_strcmp [] (d # ds) = - of_char d"
| "libc_strcmp (c # cs) [] = of_char c"
| "libc_strcmp (c # cs) (d # ds) =
     (if c = d \<and> c \<noteq> CHR 0x00 then libc_strcmp cs ds else of_char c - of_char d)"

section \<open>Comparison functions\<close>

definition compare_by_name :: "File \<Rightarrow> File \<Rightarrow> int" where
  "compare_by_name a b = libc_strcmp (name a) (name b)"

definition compare_by_id :: "File \<Rightarrow> File \<Rightarrow> int" where
  "compare_by_id a b = wrap32 (file_id a - file_id b)"

definition compare_by_timestamp :: "File \<Rightarrow> File \<Rightarrow> int" where
  "compare_by_timestamp a b = libc_strcmp (timestamp a) (timestamp b)"

text \<open>A null comparison function is \<open>None\<close>.\<close>

definition get_comparison_function :: "int \<Rightarrow> (File \<Rightarrow> File \<Rightarrow> int) option" where
  "get_comparison_function sort_column_flag =
     (if sort_column_flag = 0 then Some compare_by_name
      else if sort_column_flag = 1 then Some compare_by_id
      else if sort_column_flag = 2 then Some compare_by_timestamp
      else None)"

section \<open>Merge\<close>

definition rd :: "'a list \<Rightarrow> nat \<Rightarrow> 'a option" where
  "rd xs i = (if i < length xs then Some (xs ! i) else None)"

text \<open>The first loop of \<open>merge\<close>; with a \<open>sort_way\<close> outside 0..2 it makes no progress.\<close>

partial_function (option) merge_loop ::
  "int \<Rightarrow> File list \<Rightarrow> nat \<Rightarrow> nat \<Rightarrow> nat \<Rightarrow> nat \<Rightarrow> File list \<Rightarrow> (nat \<times> nat \<times> File list) option"
where
  "merge_loop sort_way fs s1 e1 s2 e2 tmp =
     (if s1 \<le> e1 \<and> s2 \<le> e2 then
        if sort_way = 0 then do {
          a \<leftarrow> rd fs s1;
          b \<leftarrow> rd fs s2;
          if libc_strcmp (name a) (name b) \<le> 0
          then merge_loop sort_way fs (s1 + 1) e1 s2 e2 (tmp @ [a])
          else merge_loop sort_way fs s1 e1 (s2 + 1) e2 (tmp @ [b])
        } else if sort_way = 1 then do {
          a \<leftarrow> rd fs s1;
          b \<leftarrow> rd fs s2;
          if file_id a \<le> file_id b
          then merge_loop sort_way fs (s1 + 1) e1 s2 e2 (tmp @ [a])
          else merge_loop sort_way fs s1 e1 (s2 + 1) e2 (tmp @ [b])
        } else if sort_way = 2 then do {
          a \<leftarrow> rd fs s1;
          b \<leftarrow> rd fs s2;
          if libc_strcmp (timestamp a) (timestamp b) \<le> 0
          then merge_loop sort_way fs (s1 + 1) e1 s2 e2 (tmp @ [a])
          else merge_loop sort_way fs s1 e1 (s2 + 1) e2 (tmp @ [b])
        } else merge_loop sort_way fs s1 e1 s2 e2 tmp
      else Some (s1, s2, tmp))"

text \<open>The loops that copy what is left of one half, and the one that copies back.\<close>

function copy_rest :: "File list \<Rightarrow> nat \<Rightarrow> nat \<Rightarrow> File list \<Rightarrow> File list option" where
  "copy_rest fs s e tmp =
     (if s \<le> e then do {
        a \<leftarrow> rd fs s;
        copy_rest fs (s + 1) e (tmp @ [a])
      } else Some tmp)"
  by pat_completeness auto
termination by (relation "measure (\<lambda>(fs, s, e, tmp). Suc e - s)") auto

function copy_back :: "File list \<Rightarrow> File list \<Rightarrow> nat \<Rightarrow> nat \<Rightarrow> nat \<Rightarrow> File list option" where
  "copy_back fs tmp s i e =
     (if i \<le> e then do {
        a \<leftarrow> rd tmp (i - s);
        b \<leftarrow> rd fs i;
        copy_back (fs[i := a]) tmp s (i + 1) e
      } else Some fs)"
  by pat_completeness auto
termination by (relation "measure (\<lambda>(fs, tmp, s, i, e). Suc e - i)") auto

declare copy_rest.simps [simp del] copy_back.simps [simp del]

definition merge :: "nat \<Rightarrow> nat \<Rightarrow> int \<Rightarrow> File list \<Rightarrow> File list option" where
  "merge s e sort_way fs = do {
     (s1, s2, tmp) \<leftarrow> merge_loop sort_way fs s ((s + e) div 2) ((s + e) div 2 + 1) e [];
     tmp1 \<leftarrow> copy_rest fs s1 ((s + e) div 2) tmp;
     tmp2 \<leftarrow> copy_rest fs s2 e tmp1;
     copy_back fs tmp2 s s e
   }"

section \<open>Merge sort\<close>

partial_function (option) merge_sort_non_distributed ::
  "nat \<Rightarrow> nat \<Rightarrow> int \<Rightarrow> File list \<Rightarrow> File list option"
where
  "merge_sort_non_distributed s e sort_way fs =
     (if s = e then Some fs
      else do {
        fs1 \<leftarrow> merge_sort_non_distributed s ((s + e) div 2) sort_way fs;
        fs2 \<leftarrow> merge_sort_non_distributed ((s + e) div 2 + 1) e sort_way fs1;
        merge s e sort_way fs2
      })"

type_synonym qsort_fun = "(File \<Rightarrow> File \<Rightarrow> int) \<Rightarrow> File list \<Rightarrow> File list"

text \<open>\<open>qsort(files + s, e - s + 1, ...)\<close> on the part \<open>s..e\<close> of the array.\<close>

definition qsort_range ::
  "qsort_fun \<Rightarrow> int \<Rightarrow> nat \<Rightarrow> nat \<Rightarrow> File list \<Rightarrow> File list option"
where
  "qsort_range qsort sort_column_flag s e fs =
     (if s \<le> e \<and> e < length fs then do {
        cmp \<leftarrow> get_comparison_function sort_column_flag;
        Some (take s fs @ qsort cmp (take (Suc e - s) (drop s fs)) @ drop (Suc e) fs)
      } else None)"

text \<open>
  \<open>left_first s e\<close> says which of the two threads started for the range \<open>s..e\<close> runs
  first; the source leaves it to the scheduler.
\<close>

function merge_sort ::
  "qsort_fun \<Rightarrow> (nat \<Rightarrow> nat \<Rightarrow> bool) \<Rightarrow> int \<Rightarrow> nat \<Rightarrow> nat \<Rightarrow> nat \<Rightarrow> nat \<Rightarrow> int \<Rightarrow> File list \<Rightarrow> File list option"
where
  "merge_sort qsort left_first sort_column_flag s e level max_level sort_way fs =
     (if s = e then Some fs
      else if level < max_level then do {
        fs2 \<leftarrow>
          (if left_first s e then do {
             fs1 \<leftarrow> merge_sort qsort left_first sort_column_flag s ((s + e) div 2) (level + 1) max_level sort_way fs;
             merge_sort qsort left_first sort_column_flag ((s + e) div 2 + 1) e (level + 1) max_level sort_way fs1
           } else do {
             fs1 \<leftarrow> merge_sort qsort left_first sort_column_flag ((s + e) div 2 + 1) e (level + 1) max_level sort_way fs;
             merge_sort qsort left_first sort_column_flag s ((s + e) div 2) (level + 1) max_level sort_way fs1
           });
        merge s e sort_way fs2
      } else qsort_range qsort sort_column_flag s e fs)"
  by pat_completeness auto
termination
  by (relation "measure (\<lambda>(q, l, c, s, e, level, max_level, w, fs). max_level - level)") auto

declare merge_sort.simps [simp del]

lemma merge_sort_leaf:
  "s = e \<Longrightarrow> merge_sort qsort lf c s e level ml w fs = Some fs"
  "s \<noteq> e \<Longrightarrow> \<not> level < ml \<Longrightarrow> merge_sort qsort lf c s e level ml w fs = qsort_range qsort c s e fs"
  by (subst merge_sort.simps, simp)+

section \<open>The orders of the three columns\<close>

text \<open>The specification's view of a column: a key that the comparisons order.\<close>

definition strkey :: "string \<Rightarrow> int list" where
  "strkey xs = map of_char (takeWhile (\<lambda>c. c \<noteq> CHR 0x00) xs)"

definition column :: "int \<Rightarrow> File \<Rightarrow> int list" where
  "column sort_way f =
     (if sort_way = 0 then strkey (name f)
      else if sort_way = 1 then [file_id f]
      else strkey (timestamp f))"

lemma of_char_pos: "c \<noteq> CHR 0x00 \<Longrightarrow> 0 < (of_char c :: int)"
proof -
  assume "c \<noteq> CHR 0x00"
  then have "(of_char c :: nat) \<noteq> of_char (CHR 0x00)"
    by (metis char_of_char)
  then have "(of_char c :: nat) > 0" by simp
  then have "0 < int (of_char c)" by linarith
  then show ?thesis by (metis of_nat_of_char)
qed

lemma of_char_nonneg [simp]: "0 \<le> (of_char c :: int)"
  by (metis of_nat_of_char of_nat_0_le_iff)

lemma of_char_int_inj [simp]: "(of_char c :: int) = of_char d \<longleftrightarrow> c = d"
  by (metis char_of_char)

lemma strkey_simps [simp]:
  "strkey [] = []"
  "strkey (c # cs) = (if c = CHR 0x00 then [] else of_char c # strkey cs)"
  by (simp_all add: strkey_def)

lemma libc_strcmp_le_iff: "libc_strcmp xs ys \<le> 0 \<longleftrightarrow> strkey xs \<le> strkey ys"
proof (induction xs ys rule: libc_strcmp.induct)
  case (4 c cs d ds)
  show ?case
  proof (cases "c = d")
    case False
    then have ne: "(of_char c :: int) \<noteq> of_char d" by simp
    then show ?thesis
      using of_char_pos [of c] of_char_pos [of d] False
      by (auto simp: le_less)
  qed (use 4 in auto)
qed (auto dest: of_char_pos)

section \<open>The reference merge\<close>

fun merge2 :: "('a \<Rightarrow> 'k::linorder) \<Rightarrow> 'a list \<Rightarrow> 'a list \<Rightarrow> 'a list" where
  "merge2 k [] ys = ys"
| "merge2 k xs [] = xs"
| "merge2 k (x # xs) (y # ys) =
     (if k x \<le> k y then x # merge2 k xs (y # ys) else y # merge2 k (x # xs) ys)"

lemma merge2_Nil2 [simp]: "merge2 k xs [] = xs"
  by (cases xs) auto

lemma mset_merge2 [simp]: "mset (merge2 k xs ys) = mset xs + mset ys"
  by (induction k xs ys rule: merge2.induct) auto

lemma length_merge2 [simp]: "length (merge2 k xs ys) = length xs + length ys"
  by (induction k xs ys rule: merge2.induct) auto

lemma set_merge2 [simp]: "set (merge2 k xs ys) = set xs \<union> set ys"
  by (induction k xs ys rule: merge2.induct) auto

lemma sorted_merge2:
  "sorted (map k xs) \<Longrightarrow> sorted (map k ys) \<Longrightarrow> sorted (map k (merge2 k xs ys))"
  by (induction k xs ys rule: merge2.induct) auto

lemma filter_merge2:
  "sorted (map k xs) \<Longrightarrow>
   filter (\<lambda>x. k a = k x) (merge2 k xs ys) = filter (\<lambda>x. k a = k x) xs @ filter (\<lambda>x. k a = k x) ys"
proof (induction k xs ys rule: merge2.induct)
  case (3 k x xs y ys)
  show ?case
  proof (cases "k x \<le> k y")
    case False
    then have "filter (\<lambda>x. k y = k x) (x # xs) = []"
      using 3(3) by (auto simp: filter_empty_conv)
    then show ?thesis using 3 False by auto
  qed (use 3 in auto)
qed auto

lemma filter_sort_key:
  "filter (\<lambda>x. k a = k x) (sort_key k xs) = filter (\<lambda>x. k a = k x) xs"
  using sort_key_stable [of k "k a" xs] by (simp add: eq_commute)

lemma merge2_sort_key: "merge2 k (sort_key k xs) (sort_key k ys) = sort_key k (xs @ ys)"
  by (rule properties_for_sort_key [symmetric])
     (simp_all add: sorted_merge2 filter_merge2 filter_sort_key)

section \<open>Slices of the array\<close>

definition slice :: "'a list \<Rightarrow> nat \<Rightarrow> nat \<Rightarrow> 'a list" where
  "slice fs s e = take (Suc e - s) (drop s fs)"

lemma slice_empty [simp]: "e < s \<Longrightarrow> slice fs s e = []"
  by (simp add: slice_def)

lemma slice_Cons: "s \<le> e \<Longrightarrow> e < length fs \<Longrightarrow> slice fs s e = fs ! s # slice fs (Suc s) e"
  by (simp add: slice_def Suc_diff_le Cons_nth_drop_Suc [symmetric])

lemma length_slice [simp]: "e < length fs \<Longrightarrow> length (slice fs s e) = Suc e - s"
  by (simp add: slice_def)

lemma slice_split:
  "s \<le> m \<Longrightarrow> m < e \<Longrightarrow> e < length fs \<Longrightarrow> slice fs s e = slice fs s m @ slice fs (Suc m) e"
proof -
  assume a: "s \<le> m" "m < e" "e < length fs"
  have "Suc e - s = (Suc m - s) + (Suc e - Suc m)" using a by simp
  then have "slice fs s e
      = take (Suc m - s) (drop s fs) @ take (Suc e - Suc m) (drop (Suc m - s) (drop s fs))"
    unfolding slice_def by (metis take_add)
  then show ?thesis using a by (simp add: slice_def)
qed

text \<open>The array with the part \<open>s..e\<close> replaced.\<close>

definition put_slice :: "'a list \<Rightarrow> nat \<Rightarrow> nat \<Rightarrow> 'a list \<Rightarrow> 'a list" where
  "put_slice fs s e zs = take s fs @ zs @ drop (Suc e) fs"

lemma length_put_slice [simp]:
  "s \<le> Suc e \<Longrightarrow> e < length fs \<Longrightarrow> length zs = Suc e - s \<Longrightarrow> length (put_slice fs s e zs) = length fs"
  by (simp add: put_slice_def)

lemma slice_put_slice [simp]:
  "s \<le> Suc e \<Longrightarrow> e < length fs \<Longrightarrow> length zs = Suc e - s \<Longrightarrow> slice (put_slice fs s e zs) s e = zs"
  by (simp add: put_slice_def slice_def)

lemma put_slice_put_slice [simp]:
  "s \<le> Suc e \<Longrightarrow> e < length fs \<Longrightarrow> length zs = Suc e - s \<Longrightarrow>
   put_slice (put_slice fs s e zs) s e ws = put_slice fs s e ws"
  by (simp add: put_slice_def)

lemma put_slice_slice [simp]: "s \<le> Suc e \<Longrightarrow> e < length fs \<Longrightarrow> put_slice fs s e (slice fs s e) = fs"
proof -
  assume "s \<le> Suc e" "e < length fs"
  then have "drop (Suc e) fs = drop (Suc e - s) (drop s fs)" by simp
  then show ?thesis
    by (simp add: put_slice_def slice_def del: drop_drop)
qed

text \<open>Replacing the two halves, in either order, is replacing the whole.\<close>

lemma put_slice_halves:
  assumes "s \<le> m" "m < e" "e < length fs" "length xs = Suc m - s" "length ys = e - m"
  shows "put_slice (put_slice fs s m xs) (Suc m) e ys = put_slice fs s e (xs @ ys)"
    and "put_slice (put_slice fs (Suc m) e ys) s m xs = put_slice fs s e (xs @ ys)"
  using assms by (auto simp: put_slice_def slice_def min_def drop_take)

lemma slice_other_half:
  "s \<le> m \<Longrightarrow> m < e \<Longrightarrow> e < length fs \<Longrightarrow> length xs = Suc m - s \<Longrightarrow>
     slice (put_slice fs s m xs) (Suc m) e = slice fs (Suc m) e"
  "s \<le> m \<Longrightarrow> m < e \<Longrightarrow> e < length fs \<Longrightarrow> slice (put_slice fs (Suc m) e ys) s m = slice fs s m"
  by (auto simp: put_slice_def slice_def min_def drop_take)

section \<open>Merge is the reference merge\<close>

definition is_way :: "int \<Rightarrow> bool" where
  "is_way sort_way \<longleftrightarrow> sort_way = 0 \<or> sort_way = 1 \<or> sort_way = 2"

lemma merge_loop_step:
  assumes "is_way w" "s1 \<le> e1" "s2 \<le> e2" "s1 < length fs" "s2 < length fs"
  shows "merge_loop w fs s1 e1 s2 e2 tmp =
    (if column w (fs ! s1) \<le> column w (fs ! s2)
     then merge_loop w fs (s1 + 1) e1 s2 e2 (tmp @ [fs ! s1])
     else merge_loop w fs s1 e1 (s2 + 1) e2 (tmp @ [fs ! s2]))"
  using assms unfolding is_way_def
  by (subst merge_loop.simps) (auto simp: rd_def column_def libc_strcmp_le_iff)

lemma merge_loop_result:
  assumes "is_way w" "e1 < length fs" "e2 < length fs"
  shows "\<exists>s1' s2' tmp'. merge_loop w fs s1 e1 s2 e2 tmp = Some (s1', s2', tmp') \<and>
    tmp' @ slice fs s1' e1 @ slice fs s2' e2
      = tmp @ merge2 (column w) (slice fs s1 e1) (slice fs s2 e2)"
proof (induction "(Suc e1 - s1) + (Suc e2 - s2)" arbitrary: s1 s2 tmp rule: less_induct)
  case less
  show ?case
  proof (cases "s1 \<le> e1 \<and> s2 \<le> e2")
    case False
    then have "merge_loop w fs s1 e1 s2 e2 tmp = Some (s1, s2, tmp)"
      by (subst merge_loop.simps) (simp only: if_False)
    moreover have "slice fs s1 e1 = [] \<or> slice fs s2 e2 = []" using False by auto
    ultimately show ?thesis by auto
  next
    case True
    then have le: "s1 \<le> e1" "s2 \<le> e2" by simp_all
    note step = merge_loop_step [OF assms(1) le, of fs tmp]
    note IH1 = less [of "s1 + 1" s2 "tmp @ [fs ! s1]"]
    note IH2 = less [of s1 "s2 + 1" "tmp @ [fs ! s2]"]
    show ?thesis
      using IH1 IH2 step le assms by (auto simp: slice_Cons [of s1] slice_Cons [of s2])
  qed
qed

lemma copy_rest_result: "e < length fs \<Longrightarrow> copy_rest fs s e tmp = Some (tmp @ slice fs s e)"
proof (induction fs s e tmp rule: copy_rest.induct)
  case (1 fs s e tmp)
  then show ?case
    by (subst copy_rest.simps) (auto simp: rd_def slice_Cons)
qed

lemma copy_back_result:
  assumes "e < length fs" "s \<le> i" "i \<le> Suc e" "length tmp = Suc e - s"
  shows "copy_back fs tmp s i e = Some (put_slice fs i e (drop (i - s) tmp))"
  using assms
proof (induction fs tmp s i e rule: copy_back.induct)
  case (1 fs tmp s i e)
  show ?case
  proof (cases "i \<le> e")
    case True
    then have "i - s < length tmp" using 1(2-) by linarith
    then have "copy_back fs tmp s i e = copy_back (fs[i := tmp ! (i - s)]) tmp s (i + 1) e"
      using True 1(2-) by (subst copy_back.simps) (simp add: rd_def)
    moreover have "drop (i - s) tmp = tmp ! (i - s) # drop (i + 1 - s) tmp"
      using True 1(2-) by (simp add: Cons_nth_drop_Suc Suc_diff_le)
    ultimately show ?thesis
      using 1(1) [OF True, of "tmp ! (i - s)" "fs ! i"] True 1(2-)
      by (simp add: rd_def put_slice_def take_Suc_conv_app_nth)
  next
    case False
    then have "copy_back fs tmp s i e = Some fs" by (subst copy_back.simps) simp
    moreover have "i = Suc e" using False 1(2-) by simp
    ultimately show ?thesis using 1(2-) by (simp add: put_slice_def)
  qed
qed

lemma merge_result:
  assumes "is_way w" "s < e" "e < length fs"
  shows "merge s e w fs = Some (put_slice fs s e
    (merge2 (column w) (slice fs s ((s + e) div 2)) (slice fs ((s + e) div 2 + 1) e)))"
proof -
  let ?m = "(s + e) div 2"
  let ?z = "merge2 (column w) (slice fs s ?m) (slice fs (?m + 1) e)"
  have m: "s \<le> ?m" "?m < e" using assms by auto
  obtain s1 s2 tmp where l: "merge_loop w fs s ?m (?m + 1) e [] = Some (s1, s2, tmp)"
    and t: "tmp @ slice fs s1 ?m @ slice fs s2 e = ?z"
    using merge_loop_result [OF assms(1), of ?m fs e s "?m + 1" "[]"] m assms by auto
  have "length ?z = Suc e - s" using m assms by simp
  then have "copy_back fs ?z s s e = Some (put_slice fs s e ?z)"
    using copy_back_result [of e fs s s ?z] assms by simp
  then show ?thesis
    using m assms l t by (simp add: merge_def copy_rest_result)
qed

section \<open>Merge sort sorts\<close>

lemma merge_sort_non_distributed_range:
  assumes "is_way w" "s \<le> e" "e < length fs"
  shows "merge_sort_non_distributed s e w fs
    = Some (put_slice fs s e (sort_key (column w) (slice fs s e)))"
  using assms(2,3)
proof (induction "e - s" arbitrary: s e fs rule: less_induct)
  case less
  show ?case
  proof (cases "s = e")
    case True
    then have "slice fs s e = [fs ! s]" using less by (simp add: slice_Cons)
    then have "put_slice fs s e (sort_key (column w) (slice fs s e)) = fs"
      using put_slice_slice [of s e fs] True less by simp
    then show ?thesis using True by (subst merge_sort_non_distributed.simps) simp
  next
    case False
    let ?m = "(s + e) div 2"
    let ?xs = "sort_key (column w) (slice fs s ?m)"
    let ?ys = "sort_key (column w) (slice fs (?m + 1) e)"
    have m: "s \<le> ?m" "?m < e" using False less by auto
    let ?fs1 = "put_slice fs s ?m ?xs"
    let ?fs2 = "put_slice fs s e (?xs @ ?ys)"
    have 1: "merge_sort_non_distributed s ?m w fs = Some ?fs1"
      using less m by simp
    have 2: "merge_sort_non_distributed (?m + 1) e w ?fs1 = Some ?fs2"
      using less m by (simp add: put_slice_halves slice_other_half)
    have s1: "slice ?fs2 s ?m = ?xs" and s2: "slice ?fs2 (?m + 1) e = ?ys"
      using m less by (auto simp: put_slice_def slice_def)
    have "merge s e w ?fs2 = Some (put_slice fs s e (sort_key (column w) (slice fs s e)))"
      using merge_result [OF assms(1), of s e ?fs2] m less(2,3) s1 s2
      by (simp add: merge2_sort_key slice_split [of s ?m e fs])
    then show ?thesis
      using False 1 2 by (subst merge_sort_non_distributed.simps) simp
  qed
qed

section \<open>The distributed merge sort\<close>

text \<open>What the C standard asks of a comparison function, and what it promises of \<open>qsort\<close>.\<close>

definition consistent_on :: "'a set \<Rightarrow> ('a \<Rightarrow> 'a \<Rightarrow> int) \<Rightarrow> bool" where
  "consistent_on A cmp \<longleftrightarrow>
     (\<forall>x\<in>A. \<forall>y\<in>A. sgn (cmp x y) = - sgn (cmp y x)) \<and>
     (\<forall>x\<in>A. \<forall>y\<in>A. \<forall>z\<in>A. cmp x y \<le> 0 \<longrightarrow> cmp y z \<le> 0 \<longrightarrow> cmp x z \<le> 0)"

definition qsort_contract :: "(('a \<Rightarrow> 'a \<Rightarrow> int) \<Rightarrow> 'a list \<Rightarrow> 'a list) \<Rightarrow> bool" where
  "qsort_contract qsort \<longleftrightarrow>
     (\<forall>cmp xs. consistent_on (set xs) cmp \<longrightarrow>
        mset (qsort cmp xs) = mset xs \<and> sorted_wrt (\<lambda>x y. cmp x y \<le> 0) (qsort cmp xs))"

text \<open>No difference of two ids overflows a C int.\<close>

definition id_window :: "File list \<Rightarrow> bool" where
  "id_window fs \<longleftrightarrow> (\<forall>f\<in>set fs. \<forall>g\<in>set fs. file_id f - file_id g < 2 ^ 31)"

lemma wrap32_id: "- (2 ^ 31) \<le> i \<Longrightarrow> i < 2 ^ 31 \<Longrightarrow> wrap32 i = i"
  by (simp add: wrap32_def)

lemma id_window_diff:
  assumes "id_window fs" "f \<in> set fs" "g \<in> set fs"
  shows "wrap32 (file_id f - file_id g) = file_id f - file_id g"
proof -
  have "file_id f - file_id g < 2 ^ 31" "file_id g - file_id f < 2 ^ 31"
    using assms by (auto simp: id_window_def)
  then show ?thesis by (intro wrap32_id) linarith+
qed

lemma libc_strcmp_swap: "libc_strcmp ys xs = - libc_strcmp xs ys"
  by (induction xs ys rule: libc_strcmp.induct) auto

lemma libc_strcmp_sgn: "sgn (libc_strcmp xs ys) = - sgn (libc_strcmp ys xs)"
  using libc_strcmp_swap [of ys xs] by (simp add: sgn_minus)

text \<open>The comparison function of a column is consistent and orders its keys.\<close>

lemma get_comparison_function_orders:
  assumes "is_way w" "id_window fs"
  obtains cmp where "get_comparison_function w = Some cmp"
    "\<And>f g. f \<in> set fs \<Longrightarrow> g \<in> set fs \<Longrightarrow> cmp f g \<le> 0 \<longleftrightarrow> column w f \<le> column w g"
    "\<And>f g. f \<in> set fs \<Longrightarrow> g \<in> set fs \<Longrightarrow> sgn (cmp f g) = - sgn (cmp g f)"
proof -
  consider "w = 0" | "w = 1" | "w = 2" using assms by (auto simp: is_way_def)
  then show thesis
  proof cases
    case 1
    show thesis
    proof (rule that [of compare_by_name])
      show "sgn (compare_by_name f g) = - sgn (compare_by_name g f)" for f g
        by (simp only: compare_by_name_def libc_strcmp_sgn [of "name f" "name g"])
    qed (use 1 in \<open>simp_all add: get_comparison_function_def compare_by_name_def column_def libc_strcmp_le_iff\<close>)
  next
    case 2
    then show thesis
      by (intro that [of compare_by_id])
         (auto simp: get_comparison_function_def compare_by_id_def column_def
            id_window_diff [OF assms(2)] sgn_if)
  next
    case 3
    show thesis
    proof (rule that [of compare_by_timestamp])
      show "sgn (compare_by_timestamp f g) = - sgn (compare_by_timestamp g f)" for f g
        by (simp only: compare_by_timestamp_def libc_strcmp_sgn [of "timestamp f" "timestamp g"])
    qed (use 3 in \<open>simp_all add: get_comparison_function_def compare_by_timestamp_def column_def libc_strcmp_le_iff\<close>)
  qed
qed

lemma qsort_range_result:
  assumes "is_way w" "id_window (slice fs s e)" "qsort_contract qsort" "s \<le> e" "e < length fs"
  obtains zs where "qsort_range qsort w s e fs = Some (put_slice fs s e zs)"
    "mset zs = mset (slice fs s e)" "sorted (map (column w) zs)"
proof -
  let ?xs = "slice fs s e"
  obtain cmp where c: "get_comparison_function w = Some cmp"
    and le: "\<And>f g. f \<in> set ?xs \<Longrightarrow> g \<in> set ?xs \<Longrightarrow> cmp f g \<le> 0 \<longleftrightarrow> column w f \<le> column w g"
    and sg: "\<And>f g. f \<in> set ?xs \<Longrightarrow> g \<in> set ?xs \<Longrightarrow> sgn (cmp f g) = - sgn (cmp g f)"
    by (rule get_comparison_function_orders [OF assms(1,2)]) (blast intro: that)
  have "consistent_on (set ?xs) cmp"
    using le sg unfolding consistent_on_def by (meson order_trans)
  then have q: "mset (qsort cmp ?xs) = mset ?xs" "sorted_wrt (\<lambda>x y. cmp x y \<le> 0) (qsort cmp ?xs)"
    using assms(3) by (auto simp: qsort_contract_def)
  have "set (qsort cmp ?xs) = set ?xs" using q(1) by (metis set_mset_mset)
  then have "sorted_wrt (\<lambda>x y. column w x \<le> column w y) (qsort cmp ?xs)"
    using q(2) le by (auto elim!: sorted_wrt_mono_rel [rotated])
  then show ?thesis
    using that [of "qsort cmp ?xs"] q(1) c assms(4,5)
    by (simp add: qsort_range_def put_slice_def slice_def sorted_map)
qed

lemma set_slice_subset: "set (slice fs s e) \<subseteq> set fs"
  unfolding slice_def by (meson in_set_dropD in_set_takeD subsetI)

lemma id_window_subset: "id_window fs \<Longrightarrow> set gs \<subseteq> set fs \<Longrightarrow> id_window gs"
  by (auto simp: id_window_def)

lemma length_of_mset: "mset zs = mset (slice fs s e) \<Longrightarrow> e < length fs \<Longrightarrow> length zs = Suc e - s"
  by (metis length_slice size_mset)

lemma mset_put_slice:
  assumes "mset zs = mset (slice fs s e)" "s \<le> Suc e" "e < length fs"
  shows "mset (put_slice fs s e zs) = mset fs"
proof -
  have "mset (put_slice fs s e zs) = mset (put_slice fs s e (slice fs s e))"
    using assms(1) by (simp add: put_slice_def)
  then show ?thesis using assms(2,3) by simp
qed

lemma set_put_slice:
  "mset zs = mset (slice fs s e) \<Longrightarrow> s \<le> Suc e \<Longrightarrow> e < length fs \<Longrightarrow> set (put_slice fs s e zs) = set fs"
  using mset_put_slice by (metis set_mset_mset)

text \<open>
  Two calls that each rearrange their own half of \<open>s..e\<close>: whichever runs first, the other
  finds its half as it was, and the two results stand side by side.
\<close>

lemma merge_sort_children:
  fixes m :: nat and f g :: "'a list \<Rightarrow> 'a list option"
  assumes m: "s \<le> m" "m < e" "e < length fs"
    and f: "\<And>gs. set gs = set fs \<Longrightarrow> m < length gs \<Longrightarrow>
      \<exists>zs. f gs = Some (put_slice gs s m zs) \<and> mset zs = mset (slice gs s m) \<and> P zs"
    and g: "\<And>gs. set gs = set fs \<Longrightarrow> e < length gs \<Longrightarrow>
      \<exists>zs. g gs = Some (put_slice gs (m + 1) e zs) \<and> mset zs = mset (slice gs (m + 1) e) \<and> P zs"
  obtains xs ys where
    "(if b then f fs \<bind> g else g fs \<bind> f) = Some (put_slice fs s e (xs @ ys))"
    "mset xs = mset (slice fs s m)" "P xs" "mset ys = mset (slice fs (m + 1) e)" "P ys"
proof (cases b)
  case True
  obtain xs where xs: "f fs = Some (put_slice fs s m xs)" "mset xs = mset (slice fs s m)" "P xs"
    using f [of fs] m by auto
  have lx: "length xs = Suc m - s" using xs(2) m by (simp add: length_of_mset)
  have "set (put_slice fs s m xs) = set fs"
    using xs(2) m by (simp add: set_put_slice)
  then obtain ys where ys: "g (put_slice fs s m xs) = Some (put_slice (put_slice fs s m xs) (m + 1) e ys)"
     "mset ys = mset (slice (put_slice fs s m xs) (m + 1) e)" "P ys"
    using g [of "put_slice fs s m xs"] m lx by auto
  have "mset ys = mset (slice fs (m + 1) e)" using ys(2) m lx by (simp add: slice_other_half)
  moreover from this have "length ys = e - m" using m by (auto dest!: length_of_mset)
  ultimately show ?thesis
    using that [of xs ys] xs ys(1,3) True m lx by (simp add: put_slice_halves)
next
  case False
  obtain ys where ys: "g fs = Some (put_slice fs (m + 1) e ys)" "mset ys = mset (slice fs (m + 1) e)" "P ys"
    using g [of fs] m by auto
  have ly: "length ys = e - m" using ys(2) m by (simp add: length_of_mset)
  have "set (put_slice fs (m + 1) e ys) = set fs"
    using ys(2) m by (simp add: set_put_slice)
  then obtain xs where xs: "f (put_slice fs (m + 1) e ys) = Some (put_slice (put_slice fs (m + 1) e ys) s m xs)"
     "mset xs = mset (slice (put_slice fs (m + 1) e ys) s m)" "P xs"
    using f [of "put_slice fs (m + 1) e ys"] m ly by auto
  have "mset xs = mset (slice fs s m)" using xs(2) m by (simp add: slice_other_half)
  moreover from this have "length xs = Suc m - s" using m by (auto dest!: length_of_mset)
  ultimately show ?thesis
    using that [of xs ys] ys xs(1,3) False m ly by (simp add: put_slice_halves)
qed

lemma merge_sort_range:
  assumes "is_way w" "qsort_contract qsort"
  shows "id_window fs \<Longrightarrow> s \<le> e \<Longrightarrow> e < length fs \<Longrightarrow>
    \<exists>zs. merge_sort qsort lf w s e level ml w fs = Some (put_slice fs s e zs) \<and>
         mset zs = mset (slice fs s e) \<and> sorted (map (column w) zs)"
proof (induction "ml - level" arbitrary: s e level fs rule: less_induct)
  case less
  let ?m = "(s + e) div 2"
  consider "s = e" | "s \<noteq> e" "\<not> level < ml" | "s \<noteq> e" "level < ml" by blast
  then show ?case
  proof cases
    case 1
    then have "slice fs s e = [fs ! s]" using less(3,4) by (simp add: slice_Cons)
    moreover from this have "put_slice fs s e [fs ! s] = fs"
      using put_slice_slice [of s e fs] less(3,4) by simp
    ultimately show ?thesis
      unfolding merge_sort_leaf(1) [OF 1] by (intro exI [of _ "[fs ! s]"]) simp
  next
    case 2
    have "id_window (slice fs s e)"
      by (rule id_window_subset [OF less(2) set_slice_subset])
    from qsort_range_result [OF assms(1) this assms(2) less(3,4)]
    obtain zs where "qsort_range qsort w s e fs = Some (put_slice fs s e zs)"
      "mset zs = mset (slice fs s e)" "sorted (map (column w) zs)" .
    then show ?thesis unfolding merge_sort_leaf(2) [OF 2] by blast
  next
    case 3
    have m: "s \<le> ?m" "?m < e" using 3 less by auto
    have IH: "\<exists>zs. merge_sort qsort lf w a b (level + 1) ml w gs = Some (put_slice gs a b zs) \<and>
         mset zs = mset (slice gs a b) \<and> sorted (map (column w) zs)"
      if "set gs = set fs" "a \<le> b" "b < length gs" for a b gs
      using less(1) [of "level + 1" gs a b] 3 less(2) that id_window_subset [of fs gs] by auto
    obtain xs ys where both:
      "(if lf s e then do {
          fs1 \<leftarrow> merge_sort qsort lf w s ?m (level + 1) ml w fs;
          merge_sort qsort lf w (?m + 1) e (level + 1) ml w fs1
        } else do {
          fs1 \<leftarrow> merge_sort qsort lf w (?m + 1) e (level + 1) ml w fs;
          merge_sort qsort lf w s ?m (level + 1) ml w fs1
        }) = Some (put_slice fs s e (xs @ ys))"
      and xs: "mset xs = mset (slice fs s ?m)" "sorted (map (column w) xs)"
      and ys: "mset ys = mset (slice fs (?m + 1) e)" "sorted (map (column w) ys)"
      by (rule merge_sort_children [OF m less(4),
            where f = "merge_sort qsort lf w s ?m (level + 1) ml w"
              and g = "merge_sort qsort lf w (?m + 1) e (level + 1) ml w" and b = "lf s e"
              and P = "\<lambda>zs. sorted (map (column w) zs)", OF IH IH])
         (use m in auto)
    have len: "length xs = Suc ?m - s" "length ys = e - ?m"
      using xs(1) ys(1) m less(4) by (auto dest!: length_of_mset)
    let ?fs2 = "put_slice fs s e (xs @ ys)"
    have "slice ?fs2 s ?m = xs" "slice ?fs2 (?m + 1) e = ys"
      using m less(4) len by (auto simp: put_slice_def slice_def)
    then have "merge s e w ?fs2 = Some (put_slice fs s e (merge2 (column w) xs ys))"
      using merge_result [OF assms(1), of s e ?fs2] m less(4) len by simp
    then have "merge_sort qsort lf w s e level ml w fs = Some (put_slice fs s e (merge2 (column w) xs ys))"
      using 3 both by (subst merge_sort.simps) simp
    then show ?thesis
      using xs ys m less(4) slice_split [of s ?m e fs]
      by (intro exI [of _ "merge2 (column w) xs ys"]) (simp add: sorted_merge2)
  qed
qed

end
