(* ===== verification/PartA.thy ===== *)
theory PartA
  imports PartB
begin

text \<open>
  \<^verbatim>\<open>concurrency/partA.c\<close>: a file manager that serves read, write and delete requests, one
  thread per request, with a lock and a condition variable per file and a forked child per request
  that reports the user's cancellation.

  The program is a labelled transition system. \<open>step cfg l s\<close> is one step of the thread (or child, or
  clock) that the label \<open>l\<close> names, from state \<open>s\<close>; it is \<open>None\<close> when that thread cannot move. A thread's
  program counter \<open>pc\<close> stands between two operations of \<open>process_req\<close> that other threads can observe.
  The label also resolves what the C library leaves open: which of the waiting threads a
  \<^verbatim>\<open>pthread_cond_signal\<close> wakes, and when a wait ends without one.

  Time is in whole seconds since \<open>start_time\<close>; a \<^verbatim>\<open>sleep(k)\<close> ends at some moment not before \<open>k\<close>
  seconds have passed. \<^verbatim>\<open>fork\<close> succeeds. The fields of a file that \<open>main\<close> leaves as \<^verbatim>\<open>malloc\<close>
  returned them (\<open>time_requests\<close>) have arbitrary initial values, a parameter of the initial state.
\<close>

section \<open>Requests and files\<close>

record userrequest =
  userid :: int
  fileid :: int
  operation :: int
  requesttime :: int

definition compareByRequestTime :: "userrequest \<Rightarrow> userrequest \<Rightarrow> int" where
  "compareByRequestTime reqA reqB =
     (if requesttime reqA \<noteq> requesttime reqB then wrap32 (requesttime reqA - requesttime reqB)
      else wrap32 (operation reqA - operation reqB))"

text \<open>
  \<open>lock\<close> is the thread that holds the mutex; the threads waiting on \<open>cond\<close> are those at \<open>Waiting\<close>. The
  field \<open>isdeleting\<close> is used nowhere and left out.
\<close>

record fileinfo =
  lock :: "nat option"
  concurrent_access :: int
  deleted :: bool
  readercount :: int
  writercount :: int
  time_requests :: "int \<Rightarrow> int"

definition MAX_COUNT :: nat where "MAX_COUNT = 10000"
definition REQUEST_TIME_ARRAY_SIZE :: int where "REQUEST_TIME_ARRAY_SIZE = 100"

text \<open>The globals \<open>r\<close>, \<open>w\<close>, \<open>d\<close>, \<open>n\<close>, \<open>c\<close>, \<open>T\<close> and the sorted array \<open>requests\<close>, all constant once the threads run.\<close>

record config =
  cfg_r :: int
  cfg_w :: int
  cfg_d :: int
  cfg_n :: int
  cfg_c :: int
  cfg_T :: int
  requests :: "userrequest list"

section \<open>Reading the requests\<close>

text \<open>
  One entry of the input: the word \<^verbatim>\<open>STOP\<close>, or a user, a file, an operation's name and a time. The
  messages about unknown operations and the limit are left out; input that ends without \<^verbatim>\<open>STOP\<close> is \<open>None\<close>.
\<close>

datatype entry = STOP | Entry int int string int

definition operation_code :: "string \<Rightarrow> int option" where
  "operation_code nm =
     (if nm = ''READ'' then Some 1 else if nm = ''WRITE'' then Some 2
      else if nm = ''DELETE'' then Some 3 else None)"

fun read_requests :: "entry list \<Rightarrow> userrequest list \<Rightarrow> userrequest list option" where
  "read_requests [] qs = None"
| "read_requests (STOP # es) qs = Some qs"
| "read_requests (Entry u f nm rt # es) qs =
     (case operation_code nm of
        None \<Rightarrow> read_requests es qs
      | Some opn \<Rightarrow>
          if MAX_COUNT \<le> length qs then Some qs
          else read_requests es (qs @ [\<lparr>userid = u, fileid = f, operation = opn, requesttime = rt\<rparr>]))"

section \<open>The threads\<close>

datatype pc = Unborn | Born | Napping int | Start | Forking | Counting | Probing | Spinning bool | Locking
  | Checking | Waiting | Woken | Timing | Judging int | Killing int | Announcing int | Inspecting | Declining
  | Entered | Working int | Reporting | Relocking | Leaving | Deleting | Signalling | Unlocking | Finished

text \<open>The child that \<open>process_req\<close> forks: asleep until a time, done printing, or killed.\<close>

datatype child = NoChild | Armed int | Fired | Killed

datatype mainpc = Looping nat | Sleeping nat int | Adding nat | Saying nat | Creating nat | Joining nat
  | Ended | Aborted

datatype msg = WokenUp | Made nat | Cancelled nat int | TakenUp nat int | Declined nat int | Completed nat int
  | NoMore | CreateError

record lazy =
  files :: "nat \<Rightarrow> fileinfo"
  mainp :: mainpc
  thr :: "nat \<Rightarrow> pc"
  child :: "nat \<Rightarrow> child"
  now :: int
  outp :: "msg list"

datatype label = Main | MainFail | Thread nat "nat list" | Spurious nat | Child nat | Tick

definition req :: "config \<Rightarrow> nat \<Rightarrow> userrequest" where
  "req cfg i = requests cfg ! i"

abbreviation opr :: "config \<Rightarrow> nat \<Rightarrow> int" where
  "opr cfg i \<equiv> operation (req cfg i)"

text \<open>The index of the request's file in \<open>files\<close>, and of its time in \<open>time_requests\<close> (for times that are not negative the C remainder is \<open>mod\<close>).\<close>

definition fidx :: "config \<Rightarrow> nat \<Rightarrow> nat" where
  "fidx cfg i = nat (fileid (req cfg i) - 1)"

definition slot :: "config \<Rightarrow> nat \<Rightarrow> int" where
  "slot cfg i = requesttime (req cfg i) mod REQUEST_TIME_ARRAY_SIZE"

text \<open>The accesses \<^verbatim>\<open>files[req->fileid - 1]\<close> and \<^verbatim>\<open>time_requests[...]\<close> are within bounds.\<close>

definition file_ok :: "config \<Rightarrow> nat \<Rightarrow> bool" where
  "file_ok cfg i \<longleftrightarrow> 1 \<le> fileid (req cfg i) \<and> fileid (req cfg i) \<le> cfg_n cfg"

definition slot_ok :: "config \<Rightarrow> nat \<Rightarrow> bool" where
  "slot_ok cfg i \<longleftrightarrow> 0 \<le> requesttime (req cfg i)"

text \<open>The argument of \<^verbatim>\<open>sleep\<close> is an \<^verbatim>\<open>unsigned int\<close>.\<close>

definition secs :: "int \<Rightarrow> int" where
  "secs k = k mod 2 ^ 32"

definition file_of :: "config \<Rightarrow> nat \<Rightarrow> lazy \<Rightarrow> fileinfo" where
  "file_of cfg i s = files s (fidx cfg i)"

definition upd_file :: "config \<Rightarrow> nat \<Rightarrow> (fileinfo \<Rightarrow> fileinfo) \<Rightarrow> lazy \<Rightarrow> lazy" where
  "upd_file cfg i f s = s\<lparr>files := (files s)(fidx cfg i := f (files s (fidx cfg i)))\<rparr>"

definition goto :: "nat \<Rightarrow> pc \<Rightarrow> lazy \<Rightarrow> lazy" where
  "goto i p s = s\<lparr>thr := (thr s)(i := p)\<rparr>"

definition say :: "msg \<Rightarrow> lazy \<Rightarrow> lazy" where
  "say m s = s\<lparr>outp := outp s @ [m]\<rparr>"

text \<open>\<^verbatim>\<open>pthread_mutex_lock\<close> (only when the lock is free) and \<^verbatim>\<open>pthread_mutex_unlock\<close>.\<close>

definition mutex_lock :: "config \<Rightarrow> nat \<Rightarrow> lazy \<Rightarrow> lazy option" where
  "mutex_lock cfg i s =
     (if lock (file_of cfg i s) = None then Some (upd_file cfg i (\<lambda>f. f\<lparr>lock := Some i\<rparr>) s) else None)"

definition mutex_unlock :: "config \<Rightarrow> nat \<Rightarrow> lazy \<Rightarrow> lazy" where
  "mutex_unlock cfg i s = upd_file cfg i (\<lambda>f. f\<lparr>lock := None\<rparr>) s"

definition waiters :: "config \<Rightarrow> nat \<Rightarrow> lazy \<Rightarrow> nat list" where
  "waiters cfg i s = [j \<leftarrow> [0..<length (requests cfg)]. thr s j = Waiting \<and> fidx cfg j = fidx cfg i]"

text \<open>\<^verbatim>\<open>pthread_cond_signal\<close> wakes at least one of the waiting threads if there are any; \<open>ws\<close> are those it wakes.\<close>

definition cond_signal :: "config \<Rightarrow> nat \<Rightarrow> nat list \<Rightarrow> lazy \<Rightarrow> lazy option" where
  "cond_signal cfg i ws s =
     (if (\<forall>j\<in>set ws. j \<in> set (waiters cfg i s)) \<and> (ws = [] \<longrightarrow> waiters cfg i s = [])
      then Some (fold (\<lambda>j. goto j Woken) ws s) else None)"

text \<open>The conditions of the three \<^verbatim>\<open>while\<close> loops around \<^verbatim>\<open>pthread_cond_wait\<close>.\<close>

definition busy :: "config \<Rightarrow> int \<Rightarrow> fileinfo \<Rightarrow> bool" where
  "busy cfg opn f \<longleftrightarrow>
     (if opn = 1 then cfg_c cfg \<le> concurrent_access f
      else if opn = 2 then writercount f > 0 \<or> cfg_c cfg \<le> concurrent_access f
      else readercount f > 0 \<or> writercount f > 0)"

definition count_in :: "int \<Rightarrow> int \<Rightarrow> fileinfo \<Rightarrow> fileinfo" where
  "count_in opn k f =
     (if opn = 1 then f\<lparr>readercount := readercount f + k, concurrent_access := concurrent_access f + k\<rparr>
      else f\<lparr>writercount := writercount f + k, concurrent_access := concurrent_access f + k\<rparr>)"

definition duration :: "config \<Rightarrow> int \<Rightarrow> int" where
  "duration cfg opn = (if opn = 1 then cfg_r cfg else if opn = 2 then cfg_w cfg else cfg_d cfg)"

text \<open>
  \<open>process_req\<close> of request \<open>i\<close>, one step from its program counter. The branches for reading, writing
  and deleting have the same shape; deleting first waits for the requests of the same second to be
  counted (\<open>Probing\<close>, \<open>Spinning\<close>, \<open>Locking\<close>) and keeps the lock while it works.
\<close>

definition process_req :: "config \<Rightarrow> nat \<Rightarrow> nat list \<Rightarrow> lazy \<Rightarrow> lazy option" where
  "process_req cfg i ws s =
     (case thr s i of
        Born \<Rightarrow> Some (goto i (Napping (now s + secs 1)) s)
      | Napping t \<Rightarrow> if t \<le> now s then Some (goto i Start s) else None
      | Start \<Rightarrow> if file_ok cfg i then map_option (goto i Forking) (mutex_lock cfg i s) else None
      | Forking \<Rightarrow>
          Some (goto i (if opr cfg i = 3 then Probing else Counting)
                 (s\<lparr>child := (child s)(i := Armed (now s + secs (cfg_T cfg - 1)))\<rparr>))
      | Counting \<Rightarrow>
          if slot_ok cfg i
          then Some (goto i Checking (upd_file cfg i
                 (\<lambda>f. f\<lparr>time_requests := (time_requests f)(slot cfg i := time_requests f (slot cfg i) - 1)\<rparr>) s))
          else None
      | Probing \<Rightarrow>
          if \<not> slot_ok cfg i then None
          else if time_requests (file_of cfg i s) (slot cfg i) > 0
          then Some (goto i (Spinning True) (mutex_unlock cfg i s))
          else Some (goto i (Spinning False) s)
      | Spinning flag_checker \<Rightarrow>
          if time_requests (file_of cfg i s) (slot cfg i) > 0 then Some s
          else Some (goto i (if flag_checker then Locking else Checking) s)
      | Locking \<Rightarrow> map_option (goto i Checking) (mutex_lock cfg i s)
      | Checking \<Rightarrow>
          if busy cfg (opr cfg i) (file_of cfg i s) then Some (goto i Waiting (mutex_unlock cfg i s))
          else Some (goto i Timing s)
      | Woken \<Rightarrow> map_option (goto i Checking) (mutex_lock cfg i s)
      | Timing \<Rightarrow> Some (goto i (Judging (now s)) s)
      | Judging t \<Rightarrow>
          Some (goto i (if cfg_T cfg \<le> t - requesttime (req cfg i) then Signalling else Killing t) s)
      | Killing t \<Rightarrow>
          Some (goto i (Announcing t)
                 (case child s i of Armed u \<Rightarrow> s\<lparr>child := (child s)(i := Killed)\<rparr> | _ \<Rightarrow> s))
      | Announcing t \<Rightarrow> Some (goto i Inspecting (say (TakenUp i t) s))
      | Inspecting \<Rightarrow>
          if deleted (file_of cfg i s) then Some (goto i Declining s)
          else if opr cfg i = 3 then Some (goto i Entered s)
          else Some (goto i Entered (mutex_unlock cfg i (upd_file cfg i (count_in (opr cfg i) 1) s)))
      | Declining \<Rightarrow> Some (goto i Signalling (say (Declined i (now s)) s))
      | Entered \<Rightarrow> Some (goto i (Working (now s + secs (duration cfg (opr cfg i)))) s)
      | Working t \<Rightarrow> if t \<le> now s then Some (goto i Reporting s) else None
      | Reporting \<Rightarrow>
          Some (goto i (if opr cfg i = 3 then Deleting else Relocking) (say (Completed i (now s)) s))
      | Relocking \<Rightarrow> map_option (goto i Leaving) (mutex_lock cfg i s)
      | Leaving \<Rightarrow> Some (goto i Signalling (upd_file cfg i (count_in (opr cfg i) (- 1)) s))
      | Deleting \<Rightarrow> Some (goto i Signalling (upd_file cfg i (\<lambda>f. f\<lparr>deleted := True\<rparr>) s))
      | Signalling \<Rightarrow> map_option (goto i Unlocking) (cond_signal cfg i ws s)
      | Unlocking \<Rightarrow> Some (goto i Finished (mutex_unlock cfg i s))
      | _ \<Rightarrow> None)"

text \<open>The forked child of request \<open>i\<close>.\<close>

definition bullet :: "config \<Rightarrow> nat \<Rightarrow> lazy \<Rightarrow> lazy option" where
  "bullet cfg i s =
     (case child s i of
        Armed t \<Rightarrow>
          if t \<le> now s
          then Some (say (Cancelled i (requesttime (req cfg i) + cfg_T cfg)) (s\<lparr>child := (child s)(i := Fired)\<rparr>))
          else None
      | _ \<Rightarrow> None)"

section \<open>The main thread\<close>

definition main_step :: "config \<Rightarrow> lazy \<Rightarrow> lazy option" where
  "main_step cfg s =
     (case mainp s of
        Looping i \<Rightarrow>
          if i < length (requests cfg) then
            let wait = requesttime (req cfg i) - now s
            in Some (s\<lparr>mainp := if wait > 0 then Sleeping i (now s + secs wait) else Adding i\<rparr>)
          else Some (s\<lparr>mainp := Joining 0\<rparr>)
      | Sleeping i t \<Rightarrow> if t \<le> now s then Some (s\<lparr>mainp := Adding i\<rparr>) else None
      | Adding i \<Rightarrow>
          if opr cfg i < 3 then
            if file_ok cfg i \<and> slot_ok cfg i
            then Some ((upd_file cfg i
                   (\<lambda>f. f\<lparr>time_requests := (time_requests f)(slot cfg i := time_requests f (slot cfg i) + 1)\<rparr>) s)
                   \<lparr>mainp := Saying i\<rparr>)
            else None
          else Some (s\<lparr>mainp := Saying i\<rparr>)
      | Saying i \<Rightarrow> Some ((say (Made i) s)\<lparr>mainp := Creating i\<rparr>)
      | Creating i \<Rightarrow> Some ((goto i Born s)\<lparr>mainp := Looping (Suc i)\<rparr>)
      | Joining i \<Rightarrow>
          if i < length (requests cfg)
          then if thr s i = Finished then Some (s\<lparr>mainp := Joining (Suc i)\<rparr>) else None
          else Some ((say NoMore s)\<lparr>mainp := Ended\<rparr>)
      | _ \<Rightarrow> None)"

text \<open>\<^verbatim>\<open>pthread_create\<close> fails: \<open>main\<close> returns, which ends the process with all its threads.\<close>

definition main_fail :: "lazy \<Rightarrow> lazy option" where
  "main_fail s = (case mainp s of Creating i \<Rightarrow> Some ((say CreateError s)\<lparr>mainp := Aborted\<rparr>) | _ \<Rightarrow> None)"

definition init :: "(nat \<Rightarrow> int \<Rightarrow> int) \<Rightarrow> lazy" where
  "init junk =
     \<lparr>files = (\<lambda>k. \<lparr>lock = None, concurrent_access = 0, deleted = False, readercount = 0, writercount = 0,
         time_requests = junk k\<rparr>),
      mainp = Looping 0, thr = (\<lambda>_. Unborn), child = (\<lambda>_. NoChild), now = 0, outp = [WokenUp]\<rparr>"

definition step :: "config \<Rightarrow> label \<Rightarrow> lazy \<Rightarrow> lazy option" where
  "step cfg l s =
     (case l of
        Main \<Rightarrow> main_step cfg s
      | MainFail \<Rightarrow> main_fail s
      | Thread i ws \<Rightarrow> if i < length (requests cfg) \<and> mainp s \<noteq> Aborted then process_req cfg i ws s else None
      | Spurious i \<Rightarrow>
          if i < length (requests cfg) \<and> mainp s \<noteq> Aborted \<and> thr s i = Waiting then Some (goto i Woken s) else None
      | Child i \<Rightarrow> if i < length (requests cfg) then bullet cfg i s else None
      | Tick \<Rightarrow> Some (s\<lparr>now := now s + 1\<rparr>))"

fun run :: "config \<Rightarrow> label list \<Rightarrow> lazy \<Rightarrow> lazy option" where
  "run cfg [] s = Some s"
| "run cfg (l # ls) s = do { s \<leftarrow> step cfg l s; run cfg ls s }"

text \<open>The whole program, up to the start of the threads; \<open>qsort\<close> is the C library's.\<close>

definition setup_requests ::
  "((userrequest \<Rightarrow> userrequest \<Rightarrow> int) \<Rightarrow> userrequest list \<Rightarrow> userrequest list) \<Rightarrow> config \<Rightarrow> entry list \<Rightarrow> config option"
where
  "setup_requests qsort cfg es = do {
     qs \<leftarrow> read_requests es [];
     Some (cfg\<lparr>requests := qsort compareByRequestTime qs\<rparr>)
   }"

inductive reach :: "config \<Rightarrow> (nat \<Rightarrow> int \<Rightarrow> int) \<Rightarrow> lazy \<Rightarrow> bool" for cfg junk where
  start: "reach cfg junk (init junk)"
| more: "reach cfg junk s \<Longrightarrow> step cfg l s = Some s' \<Longrightarrow> reach cfg junk s'"

end
