(* ===== verification/PartAInv.thy ===== *)
theory PartAInv
  imports PartA
begin

text \<open>
  The invariant of the file manager of \<^verbatim>\<open>concurrency/partA.c\<close>: who holds a file's lock, what the
  counters of a file count, and what a thread that has passed its waiting loop may rely on.
\<close>

section \<open>Counting threads\<close>

definition tally :: "config \<Rightarrow> (nat \<Rightarrow> pc \<Rightarrow> bool) \<Rightarrow> (nat \<Rightarrow> pc) \<Rightarrow> int" where
  "tally cfg R t = (\<Sum>j<length (requests cfg). of_bool (R j (t j)))"

lemma tally_upd [simp]:
  assumes "i < length (requests cfg)"
  shows "tally cfg R (t(i := p)) = tally cfg R t - of_bool (R i (t i)) + of_bool (R i p)"
proof -
  have "tally cfg R u = of_bool (R i (u i)) + (\<Sum>j\<in>{..<length (requests cfg)} - {i}. of_bool (R j (u j)))" for u
    unfolding tally_def using assms by (subst sum.remove [of _ i]) simp_all
  moreover have "(\<Sum>j\<in>{..<length (requests cfg)} - {i}. of_bool (R j ((t(i := p)) j)))
      = (\<Sum>j\<in>{..<length (requests cfg)} - {i}. of_bool (R j (t j)) :: int)"
    by (rule sum.cong) (simp_all del: sum_of_bool_eq)
  ultimately show ?thesis by (simp del: sum_of_bool_eq)
qed

lemma tally_cong:
  "(\<And>j. j < length (requests cfg) \<Longrightarrow> R j (t j) = R' j (t' j)) \<Longrightarrow> tally cfg R t = tally cfg R' t'"
  unfolding tally_def by (rule sum.cong) simp_all

lemma tally_nonneg [simp]: "0 \<le> tally cfg R t"
  by (simp add: tally_def sum_nonneg)

lemma tally_pos: "i < length (requests cfg) \<Longrightarrow> R i (t i) \<Longrightarrow> 0 < tally cfg R t"
  unfolding tally_def by (rule sum_pos2 [of _ i]) simp_all

lemma tally_0_iff: "tally cfg R t = 0 \<longleftrightarrow> (\<forall>j<length (requests cfg). \<not> R j (t j))"
  by (auto simp: tally_def sum_nonneg_eq_0_iff)

lemma tally_card: "tally cfg R t = int (card {j. j < length (requests cfg) \<and> R j (t j)})"
proof -
  have "{j. j < length (requests cfg) \<and> R j (t j)} = {..<length (requests cfg)} \<inter> {j. R j (t j)}" by auto
  then show ?thesis by (simp add: tally_def sum_of_bool_eq)
qed

section \<open>Where the threads are\<close>

fun with_lock :: "int \<Rightarrow> pc \<Rightarrow> bool" where
  "with_lock opn Forking = True" | "with_lock opn Counting = True" | "with_lock opn Probing = True"
| "with_lock opn (Spinning b) = (\<not> b)" | "with_lock opn Checking = True" | "with_lock opn Timing = True"
| "with_lock opn (Judging t) = True" | "with_lock opn (Killing t) = True" | "with_lock opn (Announcing t) = True"
| "with_lock opn Inspecting = True" | "with_lock opn Declining = True" | "with_lock opn Entered = (opn = 3)"
| "with_lock opn (Working t) = (opn = 3)" | "with_lock opn Reporting = (opn = 3)" | "with_lock opn Leaving = True"
| "with_lock opn Deleting = True" | "with_lock opn Signalling = True" | "with_lock opn Unlocking = True"
| "with_lock opn p = False"

text \<open>The thread is using the file: between the end of its waiting loop and the moment it gives the file back.\<close>

fun in_use :: "pc \<Rightarrow> bool" where
  "in_use Entered = True" | "in_use (Working t) = True" | "in_use Reporting = True" | "in_use Relocking = True"
| "in_use Leaving = True" | "in_use Deleting = True" | "in_use p = False"

text \<open>The thread has seen its condition hold and not looked at \<open>deleted\<close> yet.\<close>

fun admitted :: "pc \<Rightarrow> bool" where
  "admitted Timing = True" | "admitted (Judging t) = True" | "admitted (Killing t) = True"
| "admitted (Announcing t) = True" | "admitted Inspecting = True" | "admitted p = False"

definition user_of :: "config \<Rightarrow> nat \<Rightarrow> int \<Rightarrow> nat \<Rightarrow> pc \<Rightarrow> bool" where
  "user_of cfg k opn j p \<longleftrightarrow> fidx cfg j = k \<and> opr cfg j = opn \<and> in_use p"

definition ops_ok :: "config \<Rightarrow> bool" where
  "ops_ok cfg \<longleftrightarrow> (\<forall>q\<in>set (requests cfg). operation q = 1 \<or> operation q = 2 \<or> operation q = 3)"

lemma ops_okD: "ops_ok cfg \<Longrightarrow> i < length (requests cfg) \<Longrightarrow> opr cfg i = 1 \<or> opr cfg i = 2 \<or> opr cfg i = 3"
  by (simp add: ops_ok_def req_def)

section \<open>The invariant\<close>

definition lock_inv :: "config \<Rightarrow> lazy \<Rightarrow> bool" where
  "lock_inv cfg s \<longleftrightarrow>
     (\<forall>k j. lock (files s k) = Some j \<longleftrightarrow>
        j < length (requests cfg) \<and> fidx cfg j = k \<and> with_lock (opr cfg j) (thr s j))"

definition count_inv :: "config \<Rightarrow> lazy \<Rightarrow> bool" where
  "count_inv cfg s \<longleftrightarrow>
     (\<forall>k. readercount (files s k) = tally cfg (user_of cfg k 1) (thr s) \<and>
          writercount (files s k) = tally cfg (user_of cfg k 2) (thr s) \<and>
          concurrent_access (files s k) = readercount (files s k) + writercount (files s k))"

definition use_inv :: "config \<Rightarrow> lazy \<Rightarrow> bool" where
  "use_inv cfg s \<longleftrightarrow>
     (\<forall>j<length (requests cfg). admitted (thr s j) \<longrightarrow> \<not> busy cfg (opr cfg j) (file_of cfg j s)) \<and>
     (\<forall>j<length (requests cfg). opr cfg j = 3 \<longrightarrow> in_use (thr s j) \<longrightarrow> \<not> busy cfg 3 (file_of cfg j s)) \<and>
     (\<forall>j<length (requests cfg). thr s j = Relocking \<or> thr s j = Leaving \<longrightarrow> opr cfg j \<noteq> 3) \<and>
     (\<forall>j<length (requests cfg). thr s j = Deleting \<longrightarrow> opr cfg j = 3) \<and>
     (\<forall>j<length (requests cfg). in_use (thr s j) \<longrightarrow> \<not> deleted (file_of cfg j s)) \<and>
     (\<forall>k. concurrent_access (files s k) \<le> max 0 (cfg_c cfg) \<and> writercount (files s k) \<le> 1)"

named_theorems pa_simps \<open>the fields of the file manager's state after an update\<close>

lemma goto_simps [pa_simps]:
  "files (goto i p s) = files s" "mainp (goto i p s) = mainp s" "thr (goto i p s) = (thr s)(i := p)"
  "child (goto i p s) = child s" "now (goto i p s) = now s" "outp (goto i p s) = outp s"
  by (simp_all add: goto_def)

lemma upd_file_simps [pa_simps]:
  "files (upd_file cfg i f s) = (files s)(fidx cfg i := f (files s (fidx cfg i)))" "mainp (upd_file cfg i f s) = mainp s"
  "thr (upd_file cfg i f s) = thr s" "child (upd_file cfg i f s) = child s" "now (upd_file cfg i f s) = now s"
  "outp (upd_file cfg i f s) = outp s"
  by (simp_all add: upd_file_def)

lemma say_simps [pa_simps]:
  "files (say m s) = files s" "mainp (say m s) = mainp s" "thr (say m s) = thr s" "child (say m s) = child s"
  "now (say m s) = now s" "outp (say m s) = outp s @ [m]"
  by (simp_all add: say_def)

lemma count_in_simps [pa_simps]:
  "lock (count_in opn k f) = lock f" "deleted (count_in opn k f) = deleted f"
  "time_requests (count_in opn k f) = time_requests f"
  "concurrent_access (count_in opn k f) = concurrent_access f + k"
  "readercount (count_in opn k f) = (if opn = 1 then readercount f + k else readercount f)"
  "writercount (count_in opn k f) = (if opn = 1 then writercount f else writercount f + k)"
  by (simp_all add: count_in_def)

lemma fold_woken:
  "thr (fold (\<lambda>j. goto j Woken) ws s) j = (if j \<in> set ws then Woken else thr s j)"
  "files (fold (\<lambda>j. goto j Woken) ws s) = files s" "mainp (fold (\<lambda>j. goto j Woken) ws s) = mainp s"
  "child (fold (\<lambda>j. goto j Woken) ws s) = child s" "now (fold (\<lambda>j. goto j Woken) ws s) = now s"
  "outp (fold (\<lambda>j. goto j Woken) ws s) = outp s"
  by (induction ws arbitrary: s) (simp_all add: pa_simps)

section \<open>Every step keeps it\<close>

lemmas pa_defs = mutex_lock_def mutex_unlock_def cond_signal_def file_of_def

text \<open>The step at \<open>Signalling\<close>: threads that waited are woken.\<close>

lemma signalling_step:
  assumes "thr s i = Signalling" "process_req cfg i ws s = Some s'"
  obtains t where "\<And>j. t j = thr s j \<or> thr s j = Waiting \<and> t j = Woken" "t i = thr s i"
    "waiters cfg i s \<noteq> [] \<Longrightarrow> \<exists>j\<in>set (waiters cfg i s). t j = Woken"
    "s' = s\<lparr>thr := t(i := Unlocking)\<rparr>"
proof -
  have w: "\<forall>j\<in>set ws. j \<in> set (waiters cfg i s)" "ws = [] \<longrightarrow> waiters cfg i s = []"
    and s': "s' = goto i Unlocking (fold (\<lambda>j. goto j Woken) ws s)"
    using assms by (auto simp: process_req_def cond_signal_def split: if_splits)
  let ?t = "\<lambda>j. if j \<in> set ws then Woken else thr s j"
  have "s' = s\<lparr>thr := ?t(i := Unlocking)\<rparr>"
    unfolding s' by (rule lazy.equality) (simp_all add: fold_woken pa_simps fun_eq_iff)
  moreover have "\<forall>j\<in>set ws. thr s j = Waiting" using w(1) by (simp add: waiters_def)
  moreover have "\<exists>j\<in>set (waiters cfg i s). ?t j = Woken" if "waiters cfg i s \<noteq> []"
    using w that by (cases ws) auto
  ultimately show ?thesis using assms(1) by (intro that [of ?t]) auto
qed

lemma lock_inv_thread:
  assumes "lock_inv cfg s" "i < length (requests cfg)" "process_req cfg i ws s = Some s'"
  shows "lock_inv cfg s'"
proof -
  have L: "lock (files s k) = Some j \<longleftrightarrow> j < length (requests cfg) \<and> fidx cfg j = k \<and> with_lock (opr cfg j) (thr s j)" for k j
    using assms(1) by (simp add: lock_inv_def)
  have U: "with_lock (opr cfg i) (thr s i) \<or> lock (files s (fidx cfg i)) = None \<Longrightarrow> j < length (requests cfg)
      \<Longrightarrow> fidx cfg j = fidx cfg i \<Longrightarrow> j \<noteq> i \<Longrightarrow> \<not> with_lock (opr cfg j) (thr s j)" for j
    using L [of "fidx cfg i" j] L [of "fidx cfg i" i] assms(2) by auto
  show ?thesis
  proof (cases "thr s i")
    case Signalling
    then obtain t where t: "\<And>j. t j = thr s j \<or> thr s j = Waiting \<and> t j = Woken" "t i = thr s i" "s' = s\<lparr>thr := t(i := Unlocking)\<rparr>"
      using signalling_step assms(3) by metis
    have "with_lock opn (t j) = with_lock opn (thr s j)" for opn j using t(1) [of j] by auto
    then show ?thesis using Signalling L t(3) by (simp add: lock_inv_def)
  qed (use assms(2,3) L in
       \<open>auto simp: lock_inv_def process_req_def pa_simps pa_defs U split: if_splits child.splits\<close>)
qed

lemma woken_pcs:
  assumes "t j = thr s j \<or> thr s j = Waiting \<and> t j = Woken"
  shows "in_use (t j) = in_use (thr s j)" "admitted (t j) = admitted (thr s j)"
    "with_lock opn (t j) = with_lock opn (thr s j)"
  using assms by auto

lemma count_inv_thread:
  assumes "count_inv cfg s" "ops_ok cfg" "use_inv cfg s" "i < length (requests cfg)" "process_req cfg i ws s = Some s'"
  shows "count_inv cfg s'"
proof (cases "thr s i")
  case Signalling
  then obtain t where t: "\<And>j. t j = thr s j \<or> thr s j = Waiting \<and> t j = Woken" "t i = thr s i" "s' = s\<lparr>thr := t(i := Unlocking)\<rparr>"
    using signalling_step assms(5) by metis
  have "tally cfg (user_of cfg k opn) t = tally cfg (user_of cfg k opn) (thr s)" for k opn
    using woken_pcs(1) [of t _ s, OF t(1)] by (intro tally_cong) (simp add: user_of_def)
  then show ?thesis using Signalling assms(1,4) t(2,3) by (simp add: count_inv_def user_of_def)
qed (use assms ops_okD [OF assms(2,4)] in
     \<open>auto simp: count_inv_def use_inv_def process_req_def pa_simps pa_defs user_of_def split: if_splits child.splits\<close>)

lemma busy_deleted: "busy cfg opn (f\<lparr>deleted := b\<rparr>) = busy cfg opn f"
  by (simp add: busy_def)

lemma busy_less:
  assumes "\<not> busy cfg opn f" "concurrent_access f' \<le> concurrent_access f" "readercount f' \<le> readercount f"
    "writercount f' \<le> writercount f"
  shows "\<not> busy cfg opn f'"
  using assms by (auto simp: busy_def split: if_splits)

text \<open>What a step of thread \<open>i\<close> to \<open>p\<close> that changes no other file has to show.\<close>

lemma use_inv_step:
  assumes inv: "use_inv cfg s" and s': "thr s' = (thr s)(i := p)" "\<And>k. k \<noteq> fidx cfg i \<Longrightarrow> files s' k = files s k"
    and self: "admitted p \<Longrightarrow> \<not> busy cfg (opr cfg i) (files s' (fidx cfg i))" "in_use p \<Longrightarrow> \<not> deleted (files s' (fidx cfg i)) \<and> (opr cfg i = 3 \<longrightarrow> \<not> busy cfg 3 (files s' (fidx cfg i)))"
      "p = Relocking \<or> p = Leaving \<Longrightarrow> opr cfg i \<noteq> 3" "p = Deleting \<Longrightarrow> opr cfg i = 3"
    and cap: "concurrent_access (files s' (fidx cfg i)) \<le> max 0 (cfg_c cfg)" "writercount (files s' (fidx cfg i)) \<le> 1"
    and other: "\<And>j. j \<noteq> i \<Longrightarrow> j < length (requests cfg) \<Longrightarrow> fidx cfg j = fidx cfg i \<Longrightarrow> admitted (thr s j) \<Longrightarrow> \<not> busy cfg (opr cfg j) (files s' (fidx cfg i))"
      "\<And>j. j \<noteq> i \<Longrightarrow> j < length (requests cfg) \<Longrightarrow> fidx cfg j = fidx cfg i \<Longrightarrow> in_use (thr s j) \<Longrightarrow>
         \<not> deleted (files s' (fidx cfg i)) \<and> (opr cfg j = 3 \<longrightarrow> \<not> busy cfg 3 (files s' (fidx cfg i)))"
  shows "use_inv cfg s'"
proof -
  have 1: "admitted (thr s' j) \<longrightarrow> \<not> busy cfg (opr cfg j) (file_of cfg j s')" if "j < length (requests cfg)" for j
    using inv that self(1) other(1) [OF _ that] by (cases "fidx cfg j = fidx cfg i") (auto simp: use_inv_def s' file_of_def)
  have 2: "in_use (thr s' j) \<longrightarrow> \<not> deleted (file_of cfg j s') \<and> (opr cfg j = 3 \<longrightarrow> \<not> busy cfg 3 (file_of cfg j s'))"
    if "j < length (requests cfg)" for j
    using inv that self(2) other(2) [OF _ that] by (cases "fidx cfg j = fidx cfg i") (auto simp: use_inv_def s' file_of_def)
  have 3: "(thr s' j = Relocking \<or> thr s' j = Leaving \<longrightarrow> opr cfg j \<noteq> 3) \<and> (thr s' j = Deleting \<longrightarrow> opr cfg j = 3)"
    if "j < length (requests cfg)" for j
    using inv that self(3,4) by (auto simp: use_inv_def s')
  have "concurrent_access (files s' k) \<le> max 0 (cfg_c cfg) \<and> writercount (files s' k) \<le> 1" for k
    using inv cap by (cases "k = fidx cfg i") (auto simp: use_inv_def s')
  then show ?thesis unfolding use_inv_def using 1 2 3 by blast
qed

lemma use_invD:
  assumes "use_inv cfg s" "j < length (requests cfg)"
  shows "fidx cfg j = k \<Longrightarrow> admitted (thr s j) \<Longrightarrow> \<not> busy cfg (opr cfg j) (files s k)"
    "fidx cfg j = k \<Longrightarrow> in_use (thr s j) \<Longrightarrow> \<not> deleted (files s k) \<and> (opr cfg j = 3 \<longrightarrow> \<not> busy cfg 3 (files s k))"
    "thr s j = Relocking \<or> thr s j = Leaving \<Longrightarrow> opr cfg j \<noteq> 3" "thr s j = Deleting \<Longrightarrow> opr cfg j = 3"
    "concurrent_access (files s k) \<le> max 0 (cfg_c cfg)" "writercount (files s k) \<le> 1"
  using assms by (auto simp: use_inv_def file_of_def)

text \<open>A step that leaves the counters and \<open>deleted\<close> alone and neither admits the thread nor lets it in.\<close>

lemma use_inv_quiet:
  assumes "use_inv cfg s" "i < length (requests cfg)" "thr s' = (thr s)(i := p)"
    "\<And>k. k \<noteq> fidx cfg i \<Longrightarrow> files s' k = files s k"
    "concurrent_access (files s' (fidx cfg i)) = concurrent_access (files s (fidx cfg i))" "readercount (files s' (fidx cfg i)) = readercount (files s (fidx cfg i))"
    "writercount (files s' (fidx cfg i)) = writercount (files s (fidx cfg i))" "deleted (files s' (fidx cfg i)) = deleted (files s (fidx cfg i))"
    "\<not> admitted p \<or> admitted (thr s i)" "\<not> in_use p \<or> in_use (thr s i)"
    "p = Relocking \<or> p = Leaving \<Longrightarrow> opr cfg i \<noteq> 3" "p = Deleting \<Longrightarrow> opr cfg i = 3"
  shows "use_inv cfg s'"
proof -
  have b: "busy cfg opn (files s' (fidx cfg i)) = busy cfg opn (files s (fidx cfg i))" for opn using assms(5-7) by (simp add: busy_def)
  show ?thesis
    using use_invD(5,6) [OF assms(1,2), of "fidx cfg i"] use_invD(1-4) [OF assms(1)] assms(2,5-12)
    by (intro use_inv_step [OF assms(1,3,4)]) (auto simp: b)
qed

lemma alone:
  assumes "lock_inv cfg s" "i < length (requests cfg)" "with_lock (opr cfg i) (thr s i)"
    "j \<noteq> i" "j < length (requests cfg)" "fidx cfg j = fidx cfg i"
  shows "\<not> with_lock (opr cfg j) (thr s j)"
  using assms unfolding lock_inv_def by (metis option.inject)

lemma admitted_with_lock: "admitted p \<Longrightarrow> with_lock opn p"
  by (cases p) auto

lemma delete_with_lock:
  "use_inv cfg s \<Longrightarrow> j < length (requests cfg) \<Longrightarrow> opr cfg j = 3 \<Longrightarrow> in_use (thr s j) \<Longrightarrow> with_lock 3 (thr s j)"
  unfolding use_inv_def by (cases "thr s j") auto

lemma use_inv_thread:
  assumes "lock_inv cfg s" "count_inv cfg s" "ops_ok cfg" "use_inv cfg s" "i < length (requests cfg)"
    "process_req cfg i ws s = Some s'"
  shows "use_inv cfg s'"
proof (cases "thr s i")
  case Signalling
  then obtain t where t: "\<And>j. t j = thr s j \<or> thr s j = Waiting \<and> t j = Woken" "t i = thr s i" "s' = s\<lparr>thr := t(i := Unlocking)\<rparr>"
    using signalling_step assms(6) by metis
  have "t j = Relocking \<longleftrightarrow> thr s j = Relocking" "t j = Leaving \<longleftrightarrow> thr s j = Leaving"
    "t j = Deleting \<longleftrightarrow> thr s j = Deleting" for j
    using t(1) [of j] by auto
  then show ?thesis
    using assms(4) t(3) woken_pcs(1,2) [of t _ s, OF t(1)] by (simp add: use_inv_def file_of_def)
next
  case Checking
  show ?thesis
  proof (cases "busy cfg (opr cfg i) (files s (fidx cfg i))")
    case True
    then have "s' = goto i Waiting (mutex_unlock cfg i s)"
      using assms(6) Checking by (simp add: process_req_def file_of_def)
    then show ?thesis by (intro use_inv_quiet [OF assms(4,5)]) (auto simp: pa_simps pa_defs)
  next
    case False
    then have "s' = goto i Timing s" using assms(6) Checking by (simp add: process_req_def file_of_def)
    then show ?thesis using assms(4) False unfolding use_inv_def by (simp add: pa_simps file_of_def)
  qed
next
  case Inspecting
  have nb: "\<not> busy cfg (opr cfg i) (files s (fidx cfg i))"
    using use_invD(1) [OF assms(4,5) refl] Inspecting by simp
  consider (no) "s' = goto i Declining s" | (del) "opr cfg i = 3" "\<not> deleted (files s (fidx cfg i))" "s' = goto i Entered s"
    | (acc) "opr cfg i \<noteq> 3" "\<not> deleted (files s (fidx cfg i))"
        "s' = goto i Entered (mutex_unlock cfg i (upd_file cfg i (count_in (opr cfg i) 1) s))"
    using assms(6) Inspecting by (auto simp: process_req_def pa_defs split: if_splits)
  then show ?thesis
  proof cases
    case acc
    have out: "\<not> admitted (thr s j)" "opr cfg j = 3 \<Longrightarrow> \<not> in_use (thr s j)"
      if "j \<noteq> i" "j < length (requests cfg)" "fidx cfg j = fidx cfg i" for j
      using alone [OF assms(1,5) _ that] admitted_with_lock delete_with_lock [OF assms(4) that(2)] Inspecting by auto
    show ?thesis
      using acc nb out ops_okD [OF assms(3,5)] use_invD(5,6) [OF assms(4,5), of "fidx cfg i"]
      by (intro use_inv_step [OF assms(4)]) (auto simp: pa_simps pa_defs busy_def split: if_splits)
  next
    case no
    then show ?thesis by (intro use_inv_quiet [OF assms(4,5)]) (auto simp: pa_simps)
  next
    case del
    then show ?thesis
      using nb use_invD [OF assms(4)] assms(5) by (intro use_inv_step [OF assms(4)]) (auto simp: pa_simps)
  qed
next
  case Leaving
  let ?f = "count_in (opr cfg i) (- 1) (files s (fidx cfg i))"
  have "\<not> busy cfg opn (files s (fidx cfg i)) \<Longrightarrow> \<not> busy cfg opn ?f" for opn
    by (erule busy_less) (simp_all add: pa_simps)
  moreover have "s' = goto i Signalling (upd_file cfg i (count_in (opr cfg i) (- 1)) s)"
    using assms(6) Leaving by (simp add: process_req_def)
  ultimately show ?thesis
    using use_invD [OF assms(4)] use_invD(5,6) [OF assms(4,5), of "fidx cfg i"]
    by (intro use_inv_step [OF assms(4)]) (auto simp: pa_simps)
next
  case Deleting
  have i: "opr cfg i = 3" "\<not> busy cfg 3 (files s (fidx cfg i))"
    using assms(4,5) Deleting by (auto simp: use_inv_def file_of_def)
  have out: "\<not> in_use (thr s j)" if "j \<noteq> i" "j < length (requests cfg)" "fidx cfg j = fidx cfg i" for j
  proof
    assume u: "in_use (thr s j)"
    then have "opr cfg j \<noteq> 3" using alone [OF assms(1,5) _ that] delete_with_lock [OF assms(4) that(2)] Deleting by auto
    then have "user_of cfg (fidx cfg i) 1 j (thr s j) \<or> user_of cfg (fidx cfg i) 2 j (thr s j)"
      using ops_okD [OF assms(3) that(2)] u that(3) by (auto simp: user_of_def)
    then have "0 < readercount (files s (fidx cfg i)) \<or> 0 < writercount (files s (fidx cfg i))"
      using assms(2) tally_pos [of j cfg _ "thr s", OF that(2)] by (auto simp: count_inv_def)
    then show False using i by (simp add: busy_def)
  qed
  have "s' = goto i Signalling (upd_file cfg i (\<lambda>f. f\<lparr>deleted := True\<rparr>) s)"
    using assms(6) Deleting by (simp add: process_req_def)
  then show ?thesis
    using use_invD [OF assms(4)] use_invD(5,6) [OF assms(4,5), of "fidx cfg i"] out
    by (intro use_inv_step [OF assms(4)]) (auto simp: pa_simps busy_deleted)
qed (use assms(5,6) use_invD(3,4) [OF assms(4,5)] in \<open>auto simp: process_req_def pa_simps pa_defs
       intro!: use_inv_quiet [OF assms(4,5)] split: if_splits child.splits\<close>)

text \<open>The other steps: the clock, the children, woken threads and \<open>main\<close> change nothing the invariant speaks of.\<close>

definition lazy_inv :: "config \<Rightarrow> lazy \<Rightarrow> bool" where
  "lazy_inv cfg s \<longleftrightarrow> lock_inv cfg s \<and> count_inv cfg s \<and> use_inv cfg s"

lemma lazy_inv_cong:
  assumes "lazy_inv cfg s"
    "\<And>j. j < length (requests cfg) \<Longrightarrow> thr s' j = thr s j \<or>
       thr s j \<in> {Unborn, Waiting} \<and> thr s' j \<in> {Born, Woken}"
    "\<And>k. lock (files s' k) = lock (files s k) \<and> concurrent_access (files s' k) = concurrent_access (files s k) \<and>
       readercount (files s' k) = readercount (files s k) \<and> writercount (files s' k) = writercount (files s k) \<and>
       deleted (files s' k) = deleted (files s k)"
  shows "lazy_inv cfg s'"
proof -
  have pcs: "with_lock opn (thr s' j) = with_lock opn (thr s j)" "in_use (thr s' j) = in_use (thr s j)"
    "admitted (thr s' j) = admitted (thr s j)" "thr s' j = Relocking \<longleftrightarrow> thr s j = Relocking"
    "thr s' j = Leaving \<longleftrightarrow> thr s j = Leaving" "thr s' j = Deleting \<longleftrightarrow> thr s j = Deleting"
    if "j < length (requests cfg)" for j opn
    using assms(2) [OF that] by auto
  have t: "tally cfg (user_of cfg k opn) (thr s') = tally cfg (user_of cfg k opn) (thr s)" for k opn
    by (rule tally_cong) (simp add: user_of_def pcs)
  have "busy cfg opn (files s' k) = busy cfg opn (files s k)" for opn k using assms(3) by (simp add: busy_def)
  then show ?thesis
    using assms(1) pcs t assms(3) unfolding lazy_inv_def lock_inv_def count_inv_def use_inv_def file_of_def by (simp cong: conj_cong)
qed

lemma lazy_inv_step:
  assumes "lazy_inv cfg s" "ops_ok cfg" "step cfg l s = Some s'" "\<And>i. mainp s = Creating i \<Longrightarrow> thr s i = Unborn"
  shows "lazy_inv cfg s'"
proof (cases l)
  case (Thread i ws)
  then have "i < length (requests cfg)" "process_req cfg i ws s = Some s'"
    using assms(3) by (auto simp: step_def split: if_splits)
  then show ?thesis
    using assms(1,2) lock_inv_thread count_inv_thread use_inv_thread unfolding lazy_inv_def by metis
next
  case Main
  then have "main_step cfg s = Some s'" using assms(3) by (simp add: step_def)
  then show ?thesis
    using assms(4) by (intro lazy_inv_cong [OF assms(1)])
      (auto simp: main_step_def pa_simps Let_def split: mainpc.splits if_splits)
qed (use assms(3) in \<open>auto simp: step_def main_fail_def bullet_def pa_simps intro!: lazy_inv_cong [OF assms(1)]
       split: if_splits mainpc.splits child.splits\<close>)

end
