(* ===== verification/PartALive.thy ===== *)
theory PartALive
  imports PartAInv
begin

text \<open>
  The invariants behind the progress of the file manager of \<^verbatim>\<open>concurrency/partA.c\<close>: the threads that the main
  thread has created, the counts of requests of the same second, and that a thread that waits is never left alone with
  nobody to wake it.
\<close>

section \<open>The main thread and the threads it has created\<close>

fun created :: "config \<Rightarrow> mainpc \<Rightarrow> nat" where
  "created cfg (Looping i) = i" | "created cfg (Sleeping i t) = i" | "created cfg (Adding i) = i"
| "created cfg (Saying i) = i" | "created cfg (Creating i) = i" | "created cfg p = length (requests cfg)"

fun in_loop :: "mainpc \<Rightarrow> bool" where
  "in_loop (Sleeping i t) = True" | "in_loop (Adding i) = True" | "in_loop (Saying i) = True"
| "in_loop (Creating i) = True" | "in_loop p = False"

definition main_inv :: "config \<Rightarrow> lazy \<Rightarrow> bool" where
  "main_inv cfg s \<longleftrightarrow>
     created cfg (mainp s) \<le> length (requests cfg) \<and>
     (in_loop (mainp s) \<longrightarrow> created cfg (mainp s) < length (requests cfg)) \<and>
     (mainp s \<noteq> Aborted \<longrightarrow> (\<forall>j. thr s j = Unborn \<longleftrightarrow> created cfg (mainp s) \<le> j))"

lemma thread_other:
  assumes "process_req cfg i ws s = Some s'"
  shows "mainp s' = mainp s" "thr s i \<noteq> Unborn" "thr s' i \<noteq> Unborn" "now s' = now s"
    "j \<noteq> i \<Longrightarrow> thr s' j = thr s j \<or> thr s i = Signalling \<and> thr s j = Waiting \<and> thr s' j = Woken"
    "j \<noteq> i \<Longrightarrow> child s' j = child s j"
proof -
  have "mainp s' = mainp s \<and> thr s i \<noteq> Unborn \<and> thr s' i \<noteq> Unborn \<and> now s' = now s \<and>
    (j \<noteq> i \<longrightarrow> thr s' j = thr s j \<or> thr s i = Signalling \<and> thr s j = Waiting \<and> thr s' j = Woken) \<and>
    (j \<noteq> i \<longrightarrow> child s' j = child s j)"
  proof (cases "thr s i")
    case Signalling
    then obtain t where "\<And>j. t j = thr s j \<or> thr s j = Waiting \<and> t j = Woken" "s' = s\<lparr>thr := t(i := Unlocking)\<rparr>"
      using signalling_step assms by metis
    then show ?thesis using Signalling by auto
  qed (use assms in \<open>auto simp: process_req_def pa_simps pa_defs split: if_splits child.splits\<close>)
  then show "mainp s' = mainp s" "thr s i \<noteq> Unborn" "thr s' i \<noteq> Unborn" "now s' = now s"
    "j \<noteq> i \<Longrightarrow> thr s' j = thr s j \<or> thr s i = Signalling \<and> thr s j = Waiting \<and> thr s' j = Woken"
    "j \<noteq> i \<Longrightarrow> child s' j = child s j"
    by auto
qed

lemma main_inv_step:
  assumes "main_inv cfg s" "step cfg l s = Some s'"
  shows "main_inv cfg s'"
proof (cases l)
  case (Thread i ws)
  then have p: "process_req cfg i ws s = Some s'" using assms(2) by (auto simp: step_def split: if_splits)
  have "thr s' j = Unborn \<longleftrightarrow> thr s j = Unborn" for j
    using thread_other(2,3) [OF p] thread_other(5) [OF p, of j] by (cases "j = i") auto
  then show ?thesis using assms(1) thread_other(1) [OF p] by (simp add: main_inv_def)
next
  case Main
  then have "main_step cfg s = Some s'" using assms(2) by (simp add: step_def)
  then show ?thesis
    using assms(1) by (cases "mainp s") (auto simp: main_inv_def main_step_def pa_simps Let_def split: if_splits)
next
  case (Spurious i)
  then have "thr s i = Waiting" "s' = goto i Woken s" using assms(2) by (auto simp: step_def split: if_splits)
  moreover have "thr s' j = Unborn \<longleftrightarrow> thr s j = Unborn" for j using calculation by (simp add: pa_simps)
  ultimately show ?thesis using assms(1) by (simp add: main_inv_def pa_simps)
qed (use assms in \<open>auto simp: step_def main_fail_def bullet_def main_inv_def pa_simps
       split: if_splits mainpc.splits child.splits\<close>)

lemma reach_main_inv: "reach cfg junk s \<Longrightarrow> main_inv cfg s"
proof (induction rule: reach.induct)
  case start
  then show ?case by (simp add: main_inv_def init_def)
qed (rule main_inv_step)

lemma creating_unborn: "main_inv cfg s \<Longrightarrow> mainp s = Creating i \<Longrightarrow> thr s i = Unborn"
  by (simp add: main_inv_def)

lemma reach_lazy_inv: "reach cfg junk s \<Longrightarrow> ops_ok cfg \<Longrightarrow> lazy_inv cfg s"
proof (induction rule: reach.induct)
  case start
  have "tally cfg (user_of cfg k opn) (\<lambda>_. Unborn) = 0" for k opn
    by (simp add: tally_0_iff user_of_def)
  then show ?case
    by (simp add: lazy_inv_def lock_inv_def count_inv_def use_inv_def init_def)
next
  case (more s l s')
  then show ?case using lazy_inv_step reach_main_inv creating_unborn by metis
qed

section \<open>Well-formed input\<close>

text \<open>
  The files exist, the times are distinct slots of \<open>time_requests\<close>, the requests are ordered as \<open>qsort\<close>
  leaves them, and a file may be accessed by at least one user at a time.
\<close>

definition valid :: "config \<Rightarrow> bool" where
  "valid cfg \<longleftrightarrow>
     ops_ok cfg \<and> 1 \<le> cfg_c cfg \<and>
     (\<forall>j<length (requests cfg). file_ok cfg j \<and> 0 \<le> requesttime (req cfg j) \<and> requesttime (req cfg j) < REQUEST_TIME_ARRAY_SIZE) \<and>
     (\<forall>i j. i < j \<longrightarrow> j < length (requests cfg) \<longrightarrow>
        requesttime (req cfg i) < requesttime (req cfg j) \<or>
        requesttime (req cfg i) = requesttime (req cfg j) \<and> opr cfg i \<le> opr cfg j)"

lemma valid_slot: "valid cfg \<Longrightarrow> j < length (requests cfg) \<Longrightarrow> slot cfg j = requesttime (req cfg j)"
  by (simp add: valid_def slot_def)

lemma valid_ok: "valid cfg \<Longrightarrow> j < length (requests cfg) \<Longrightarrow> slot_ok cfg j \<and> file_ok cfg j"
  by (simp add: valid_def slot_ok_def)

section \<open>The counts of requests of the same second\<close>

fun pending :: "pc \<Rightarrow> bool" where
  "pending Born = True" | "pending (Napping t) = True" | "pending Start = True" | "pending Forking = True"
| "pending Counting = True" | "pending p = False"

definition counted :: "config \<Rightarrow> nat \<Rightarrow> int \<Rightarrow> nat \<Rightarrow> pc \<Rightarrow> bool" where
  "counted cfg k q j p \<longleftrightarrow> fidx cfg j = k \<and> slot cfg j = q \<and> opr cfg j \<noteq> 3 \<and> pending p"

fun announced :: "config \<Rightarrow> nat \<Rightarrow> int \<Rightarrow> mainpc \<Rightarrow> int" where
  "announced cfg k q (Saying i) = of_bool (fidx cfg i = k \<and> slot cfg i = q \<and> opr cfg i \<noteq> 3)"
| "announced cfg k q (Creating i) = of_bool (fidx cfg i = k \<and> slot cfg i = q \<and> opr cfg i \<noteq> 3)"
| "announced cfg k q p = 0"

definition slots_inv :: "config \<Rightarrow> lazy \<Rightarrow> bool" where
  "slots_inv cfg s \<longleftrightarrow>
     (\<forall>k q. time_requests (files s k) q = tally cfg (counted cfg k q) (thr s) + announced cfg k q (mainp s))"

fun deleter :: "pc \<Rightarrow> bool" where
  "deleter Probing = True" | "deleter (Spinning b) = True" | "deleter Locking = True" | "deleter p = False"

definition spin_free :: "config \<Rightarrow> lazy \<Rightarrow> bool" where
  "spin_free cfg s \<longleftrightarrow>
     (\<forall>j<length (requests cfg). (thr s j = Counting \<longrightarrow> opr cfg j \<noteq> 3) \<and> (deleter (thr s j) \<longrightarrow> opr cfg j = 3) \<and>
        (thr s j = Spinning False \<longrightarrow> time_requests (files s (fidx cfg j)) (slot cfg j) \<le> 0))"

lemma slots_inv_thread:
  assumes "slots_inv cfg s" "spin_free cfg s" "i < length (requests cfg)" "process_req cfg i ws s = Some s'"
  shows "slots_inv cfg s'"
proof (cases "thr s i")
  case Signalling
  then obtain t where t: "\<And>j. t j = thr s j \<or> thr s j = Waiting \<and> t j = Woken" "t i = thr s i" "s' = s\<lparr>thr := t(i := Unlocking)\<rparr>"
    using signalling_step assms(4) by metis
  have "pending (t j) = pending (thr s j)" for j using t(1) [of j] by auto
  then have "tally cfg (counted cfg k q) t = tally cfg (counted cfg k q) (thr s)" for k q
    by (intro tally_cong) (simp add: counted_def)
  then show ?thesis using Signalling assms(1,3) t(2,3) by (simp add: slots_inv_def counted_def)
qed (use assms in
     \<open>auto simp: slots_inv_def spin_free_def process_req_def pa_simps pa_defs counted_def split: if_splits child.splits\<close>)

lemma spin_free_quiet:
  assumes "spin_free cfg s" "thr s' = (thr s)(i := p)" "\<And>k. time_requests (files s' k) = time_requests (files s k)"
    "p = Counting \<Longrightarrow> opr cfg i \<noteq> 3" "deleter p \<Longrightarrow> opr cfg i = 3"
    "p = Spinning False \<Longrightarrow> time_requests (files s (fidx cfg i)) (slot cfg i) \<le> 0"
  shows "spin_free cfg s'"
  using assms by (simp add: spin_free_def)

lemma spin_free_thread:
  assumes "spin_free cfg s" "i < length (requests cfg)" "process_req cfg i ws s = Some s'"
  shows "spin_free cfg s'"
proof (cases "thr s i")
  case Signalling
  then obtain t where t: "\<And>j. t j = thr s j \<or> thr s j = Waiting \<and> t j = Woken" "t i = thr s i" "s' = s\<lparr>thr := t(i := Unlocking)\<rparr>"
    using signalling_step assms(3) by metis
  have "deleter (t j) = deleter (thr s j)" "t j = Counting \<longleftrightarrow> thr s j = Counting"
    "t j = Spinning False \<longleftrightarrow> thr s j = Spinning False" for j using t(1) [of j] by auto
  then show ?thesis using assms(1) t(3) by (simp add: spin_free_def)
next
  case Counting
  then show ?thesis using assms by (fastforce simp: spin_free_def process_req_def pa_simps split: if_splits)
next
  case (Spinning b)
  then show ?thesis
    using assms spin_free_quiet [of cfg s s' i "if b then Locking else Checking"]
    by (auto simp: process_req_def pa_simps spin_free_def split: if_splits)
qed (use assms(2,3) assms(1) [unfolded spin_free_def, rule_format, OF assms(2)] in
     \<open>auto simp: process_req_def pa_simps pa_defs intro!: spin_free_quiet [OF assms(1)]
       split: if_splits child.splits\<close>)

lemma slots_spin_main:
  assumes "slots_inv cfg s" "spin_free cfg s" "main_inv cfg s" "valid cfg" "main_step cfg s = Some s'"
  shows "slots_inv cfg s' \<and> spin_free cfg s'"
proof (cases "mainp s")
  case (Adding i)
  have i: "i < length (requests cfg)" and unborn: "\<And>j. thr s j = Unborn \<longleftrightarrow> i \<le> j"
    using assms(3) Adding by (auto simp: main_inv_def)
  have opi: "opr cfg i < 3 \<longleftrightarrow> opr cfg i \<noteq> 3" using assms(4) i ops_okD by (fastforce simp: valid_def)
  have "slots_inv cfg s'"
    using assms(1,5) Adding opi by (auto simp: slots_inv_def main_step_def pa_simps split: if_splits)
  moreover have "\<not> (fidx cfg j = fidx cfg i \<and> slot cfg j = slot cfg i \<and> opr cfg i < 3)"
    if "j < length (requests cfg)" "thr s j = Spinning False" for j
  proof -
    have "j < i" using unborn [of j] that(2) by auto
    moreover have "opr cfg j = 3" using assms(2) that by (auto simp: spin_free_def)
    ultimately show ?thesis
      using assms(4) i valid_slot [OF assms(4)] that(1) unfolding valid_def by force
  qed
  ultimately show ?thesis
    using assms(2,5) Adding by (auto simp: spin_free_def main_step_def pa_simps split: if_splits) metis
next
  case (Creating i)
  have "thr s i = Unborn" "i < length (requests cfg)" using assms(3) Creating by (auto simp: main_inv_def)
  then show ?thesis
    using assms(1,2,5) Creating
    by (auto simp: slots_inv_def counted_def main_step_def pa_simps intro: spin_free_quiet [OF assms(2)])
qed (use assms in \<open>auto simp: slots_inv_def spin_free_def main_step_def pa_simps Let_def split: if_splits\<close>)

section \<open>No lost wake-up\<close>

text \<open>A thread that will look at the condition again, or will signal it.\<close>

fun stirring :: "pc \<Rightarrow> bool" where
  "stirring Woken = True" | "stirring Checking = True" | "stirring Timing = True" | "stirring (Judging t) = True"
| "stirring (Killing t) = True" | "stirring (Announcing t) = True" | "stirring Inspecting = True"
| "stirring Declining = True" | "stirring Entered = True" | "stirring (Working t) = True" | "stirring Reporting = True"
| "stirring Relocking = True" | "stirring Leaving = True" | "stirring Deleting = True" | "stirring Signalling = True"
| "stirring p = False"

definition wake_inv :: "config \<Rightarrow> lazy \<Rightarrow> bool" where
  "wake_inv cfg s \<longleftrightarrow>
     (\<forall>j<length (requests cfg). thr s j = Waiting \<longrightarrow>
        (\<exists>i<length (requests cfg). fidx cfg i = fidx cfg j \<and> stirring (thr s i)))"

lemma busy_user:
  assumes "count_inv cfg s" "1 \<le> cfg_c cfg" "busy cfg opn (files s k)"
  shows "\<exists>j<length (requests cfg). fidx cfg j = k \<and> in_use (thr s j)"
proof -
  have "readercount (files s k) > 0 \<or> writercount (files s k) > 0"
    using assms by (auto simp: busy_def count_inv_def split: if_splits)
  then have "tally cfg (user_of cfg k 1) (thr s) \<noteq> 0 \<or> tally cfg (user_of cfg k 2) (thr s) \<noteq> 0"
    using assms(1) by (auto simp: count_inv_def)
  then show ?thesis by (auto simp: tally_0_iff user_of_def)
qed

lemma in_use_stirring: "in_use p \<Longrightarrow> stirring p"
  by (cases p) auto

lemma wake_inv_quiet:
  assumes "wake_inv cfg s" "i < length (requests cfg)" "thr s' = (thr s)(i := p)" "p \<noteq> Waiting" "stirring (thr s i) \<Longrightarrow> stirring p"
  shows "wake_inv cfg s'"
  unfolding wake_inv_def
proof (intro allI impI)
  fix j assume j: "j < length (requests cfg)" "thr s' j = Waiting"
  then have "thr s j = Waiting" using assms(3,4) by (auto split: if_splits)
  then obtain h where "h < length (requests cfg)" "fidx cfg h = fidx cfg j" "stirring (thr s h)"
    using assms(1) j(1) by (auto simp: wake_inv_def)
  then show "\<exists>h<length (requests cfg). fidx cfg h = fidx cfg j \<and> stirring (thr s' h)"
    using assms(3,5) by (intro exI [of _ h]) auto
qed

lemma wake_inv_thread:
  assumes "wake_inv cfg s" "count_inv cfg s" "1 \<le> cfg_c cfg" "i < length (requests cfg)" "process_req cfg i ws s = Some s'"
  shows "wake_inv cfg s'"
proof (cases "thr s i")
  case Signalling
  obtain t where t: "\<And>j. t j = thr s j \<or> thr s j = Waiting \<and> t j = Woken"
    "waiters cfg i s \<noteq> [] \<Longrightarrow> \<exists>j\<in>set (waiters cfg i s). t j = Woken" "s' = s\<lparr>thr := t(i := Unlocking)\<rparr>"
    using signalling_step [OF Signalling assms(5)] by metis
  show ?thesis
    unfolding wake_inv_def
  proof (intro allI impI)
    fix j assume j: "j < length (requests cfg)" "thr s' j = Waiting"
    then have w: "thr s j = Waiting" "j \<noteq> i" using t(1) [of j] t(3) by (auto split: if_splits)
    show "\<exists>h<length (requests cfg). fidx cfg h = fidx cfg j \<and> stirring (thr s' h)"
    proof (cases "fidx cfg j = fidx cfg i")
      case True
      then have "j \<in> set (waiters cfg i s)" using w j by (simp add: waiters_def)
      then obtain h where "h \<in> set (waiters cfg i s)" "t h = Woken" using t(2) by (metis empty_iff empty_set)
      then show ?thesis using True t(3) Signalling by (intro exI [of _ h]) (auto simp: waiters_def)
    next
      case False
      obtain h where h: "h < length (requests cfg)" "fidx cfg h = fidx cfg j" "stirring (thr s h)"
        using assms(1) j(1) w by (auto simp: wake_inv_def)
      moreover have "stirring (t h)" using t(1) [of h] h(3) by auto
      ultimately show ?thesis using False t(3) by (intro exI [of _ h]) auto
    qed
  qed
next
  case Checking
  show ?thesis
  proof (cases "busy cfg (opr cfg i) (files s (fidx cfg i))")
    case True
    obtain h where h: "h < length (requests cfg)" "fidx cfg h = fidx cfg i" "in_use (thr s h)"
      using busy_user [OF assms(2,3) True] by blast
    have s': "thr s' = (thr s)(i := Waiting)"
      using assms(5) Checking True by (auto simp: process_req_def pa_simps pa_defs)
    have "h \<noteq> i" using h(3) Checking by auto
    then have "stirring (thr s' h)" using h(3) in_use_stirring s' by simp
    moreover have "\<exists>g<length (requests cfg). fidx cfg g = fidx cfg j \<and> stirring (thr s' g)"
      if j: "j < length (requests cfg)" "thr s j = Waiting" for j
    proof (cases "fidx cfg j = fidx cfg i")
      case False
      obtain g where "g < length (requests cfg)" "fidx cfg g = fidx cfg j" "stirring (thr s g)"
        using assms(1) j by (auto simp: wake_inv_def)
      then show ?thesis using False s' by (intro exI [of _ g]) auto
    qed (use h calculation in auto)
    ultimately show ?thesis using h s' by (auto simp: wake_inv_def split: if_splits)
  next
    case False
    then show ?thesis
      using assms(4,5) Checking by (auto simp: process_req_def pa_simps pa_defs intro!: wake_inv_quiet [OF assms(1)])
  qed
qed (use assms(4,5) in \<open>auto simp: process_req_def pa_simps pa_defs intro!: wake_inv_quiet [OF assms(1)]
       split: if_splits child.splits\<close>)

end
