(* ===== verification/PartAAnswer.thy ===== *)
theory PartAAnswer
  imports PartALive
begin

text \<open>
  What the file manager of \<^verbatim>\<open>concurrency/partA.c\<close> owes its users: a request whose thread has ended was
  answered, or its child will still report the cancellation. With the invariants before it this is
  \<open>live_inv\<close>, which every reachable state satisfies.
\<close>

section \<open>Answers\<close>

definition answered :: "lazy \<Rightarrow> nat \<Rightarrow> bool" where
  "answered s i \<longleftrightarrow> (\<exists>t. Cancelled i t \<in> set (outp s) \<or> Declined i t \<in> set (outp s) \<or> Completed i t \<in> set (outp s))"

text \<open>The child has been forked and not been killed.\<close>

fun alive :: "child \<Rightarrow> bool" where
  "alive (Armed t) = True" | "alive Fired = True" | "alive c = False"

fun before_kill :: "pc \<Rightarrow> bool" where
  "before_kill Counting = True" | "before_kill Probing = True" | "before_kill (Spinning b) = True"
| "before_kill Locking = True" | "before_kill Checking = True" | "before_kill Waiting = True" | "before_kill Woken = True"
| "before_kill Timing = True" | "before_kill (Judging t) = True" | "before_kill (Killing t) = True" | "before_kill p = False"

fun after_work :: "pc \<Rightarrow> bool" where
  "after_work Relocking = True" | "after_work Leaving = True" | "after_work Deleting = True" | "after_work p = False"

fun at_end :: "pc \<Rightarrow> bool" where
  "at_end Signalling = True" | "at_end Unlocking = True" | "at_end Finished = True" | "at_end p = False"

definition answer_inv :: "lazy \<Rightarrow> bool" where
  "answer_inv s \<longleftrightarrow>
     (\<forall>i. (child s i = Fired \<longrightarrow> answered s i) \<and> (before_kill (thr s i) \<longrightarrow> alive (child s i)) \<and>
          (after_work (thr s i) \<longrightarrow> answered s i) \<and> (at_end (thr s i) \<longrightarrow> answered s i \<or> alive (child s i)))"

lemma answered_say: "answered s i \<Longrightarrow> answered (say m s) i"
  by (auto simp: answered_def pa_simps)

lemma signalling_same:
  assumes "thr s i = Signalling" "process_req cfg i ws s = Some s'"
  shows "outp s' = outp s" "child s' = child s" "files s' = files s" "thr s' i = Unlocking"
proof -
  obtain t where "s' = s\<lparr>thr := t(i := Unlocking)\<rparr>" using signalling_step [OF assms] by metis
  then show "outp s' = outp s" "child s' = child s" "files s' = files s" "thr s' i = Unlocking" by simp_all
qed

lemma answer_inv_thread:
  assumes "answer_inv s" "process_req cfg i ws s = Some s'"
  shows "answer_inv s'"
proof -
  have inv: "child s j = Fired \<Longrightarrow> answered s j" "before_kill (thr s j) \<Longrightarrow> alive (child s j)"
    "after_work (thr s j) \<Longrightarrow> answered s j" "at_end (thr s j) \<Longrightarrow> answered s j \<or> alive (child s j)" for j
    using assms(1) by (auto simp: answer_inv_def)
  have "set (outp s) \<subseteq> set (outp s')"
  proof (cases "thr s i")
    case Signalling
    then show ?thesis by (simp add: signalling_same [OF Signalling assms(2)])
  qed (use assms(2) in \<open>auto simp: process_req_def pa_simps pa_defs split: if_splits child.splits\<close>)
  then have keep: "answered s j \<Longrightarrow> answered s' j" for j by (auto simp: answered_def)
  have "child s' j = Fired \<Longrightarrow> answered s' j" "before_kill (thr s' j) \<Longrightarrow> alive (child s' j)"
    "after_work (thr s' j) \<Longrightarrow> answered s' j" "at_end (thr s' j) \<Longrightarrow> answered s' j \<or> alive (child s' j)" if "j \<noteq> i" for j
    using thread_other(5,6) [OF assms(2) that] inv [of j] keep by auto
  moreover have "(child s' i = Fired \<longrightarrow> answered s' i) \<and> (before_kill (thr s' i) \<longrightarrow> alive (child s' i)) \<and>
      (after_work (thr s' i) \<longrightarrow> answered s' i) \<and> (at_end (thr s' i) \<longrightarrow> answered s' i \<or> alive (child s' i))"
  proof (cases "thr s i")
    case Signalling
    then show ?thesis using signalling_same [OF Signalling assms(2)] inv [of i] keep by auto
  next
    case Reporting
    then show ?thesis using assms(2) inv [of i] keep
      by (auto simp: process_req_def pa_simps answered_def split: if_splits)
  next
    case Declining
    then show ?thesis using assms(2) inv [of i] keep
      by (auto simp: process_req_def pa_simps answered_def split: if_splits)
  qed (use assms(2) inv [of i] keep [of i] in \<open>auto simp: process_req_def pa_simps pa_defs split: if_splits child.splits\<close>)
  ultimately show ?thesis unfolding answer_inv_def by metis
qed

lemma answer_inv_step:
  assumes "answer_inv s" "main_inv cfg s" "step cfg l s = Some s'"
  shows "answer_inv s'"
proof (cases l)
  case (Thread i ws)
  then show ?thesis using assms(3) answer_inv_thread [OF assms(1)] by (auto simp: step_def split: if_splits)
next
  case Main
  then have "main_step cfg s = Some s'" using assms(3) by (simp add: step_def)
  then show ?thesis
    using assms(1) creating_unborn [OF assms(2)]
    by (cases "mainp s") (auto simp: answer_inv_def answered_def main_step_def pa_simps Let_def split: if_splits)
next
  case (Child i)
  then obtain t where s': "s' = say (Cancelled i t) (s\<lparr>child := (child s)(i := Fired)\<rparr>)" and "alive (child s i)"
    using assms(3) by (auto simp: step_def bullet_def split: if_splits child.splits)
  then have "answered s j \<Longrightarrow> answered s' j" "answered s' i" for j by (auto simp: answered_def pa_simps)
  then show ?thesis using assms(1) s' by (auto simp: answer_inv_def pa_simps)
qed (use assms(1,3) in \<open>auto simp: step_def main_fail_def answer_inv_def answered_def pa_simps
       split: if_splits mainpc.splits\<close>)

section \<open>The invariant of progress\<close>

definition live_inv :: "config \<Rightarrow> lazy \<Rightarrow> bool" where
  "live_inv cfg s \<longleftrightarrow>
     lazy_inv cfg s \<and> main_inv cfg s \<and> answer_inv s \<and> wake_inv cfg s \<and>
     (mainp s \<noteq> Aborted \<longrightarrow> slots_inv cfg s \<and> spin_free cfg s)"

lemma wake_inv_woken:
  assumes "wake_inv cfg s" "\<And>j. thr s' j = thr s j \<or> thr s j \<in> {Unborn, Waiting} \<and> thr s' j \<in> {Born, Woken}"
  shows "wake_inv cfg s'"
  unfolding wake_inv_def
proof (intro allI impI)
  fix j assume j: "j < length (requests cfg)" "thr s' j = Waiting"
  then have "thr s j = Waiting" using assms(2) [of j] by auto
  then obtain i where i: "i < length (requests cfg)" "fidx cfg i = fidx cfg j" "stirring (thr s i)"
    using assms(1) j by (auto simp: wake_inv_def)
  then have "thr s' i = thr s i" using assms(2) [of i] by auto
  then show "\<exists>i<length (requests cfg). fidx cfg i = fidx cfg j \<and> stirring (thr s' i)" using i by auto
qed

lemma spurious_slots:
  assumes "slots_inv cfg s" "spin_free cfg s" "thr s i = Waiting" "i < length (requests cfg)"
  shows "slots_inv cfg (goto i Woken s) \<and> spin_free cfg (goto i Woken s)"
  using assms by (auto simp: slots_inv_def counted_def pa_simps intro!: spin_free_quiet [OF assms(2)])

lemma live_inv_step:
  assumes "live_inv cfg s" "valid cfg" "step cfg l s = Some s'"
  shows "live_inv cfg s'"
proof -
  have inv: "lazy_inv cfg s" "main_inv cfg s" "answer_inv s" "wake_inv cfg s"
    and sl: "mainp s \<noteq> Aborted \<Longrightarrow> slots_inv cfg s \<and> spin_free cfg s"
    using assms(1) by (auto simp: live_inv_def)
  have v: "ops_ok cfg" "1 \<le> cfg_c cfg" using assms(2) by (auto simp: valid_def)
  have "wake_inv cfg s' \<and> (mainp s' \<noteq> Aborted \<longrightarrow> slots_inv cfg s' \<and> spin_free cfg s')"
  proof (cases l)
    case (Thread i ws)
    then have t: "i < length (requests cfg)" "mainp s \<noteq> Aborted" "process_req cfg i ws s = Some s'"
      using assms(3) by (auto simp: step_def split: if_splits)
    then show ?thesis
      using inv(1) wake_inv_thread [OF inv(4) _ v(2) t(1,3)] slots_inv_thread [OF _ _ t(1,3)] spin_free_thread [OF _ t(1,3)] sl
      by (auto simp: lazy_inv_def)
  next
    case Main
    then have m: "main_step cfg s = Some s'" using assms(3) by (simp add: step_def)
    then have "thr s' j = thr s j \<or> thr s j \<in> {Unborn, Waiting} \<and> thr s' j \<in> {Born, Woken}" for j
      using creating_unborn [OF inv(2)] by (cases "mainp s") (auto simp: main_step_def pa_simps Let_def split: if_splits)
    moreover have "mainp s \<noteq> Aborted" using m by (auto simp: main_step_def)
    ultimately show ?thesis using slots_spin_main [OF _ _ inv(2) assms(2) m] wake_inv_woken [OF inv(4)] sl by blast
  next
    case (Spurious i)
    then show ?thesis
      using assms(3) sl spurious_slots [of cfg s i] wake_inv_woken [OF inv(4), of s']
      by (auto simp: step_def pa_simps split: if_splits)
  next
    case (Child i)
    then show ?thesis
      using assms(3) sl inv(4) by (auto simp: step_def bullet_def pa_simps wake_inv_def slots_inv_def spin_free_def
        split: if_splits child.splits)
  qed (use assms(3) sl inv(4) in \<open>auto simp: step_def main_fail_def pa_simps wake_inv_def slots_inv_def spin_free_def
         split: mainpc.splits\<close>)
  then show ?thesis
    using lazy_inv_step [OF inv(1) v(1) assms(3) creating_unborn [OF inv(2)]] main_inv_step [OF inv(2) assms(3)]
      answer_inv_step [OF inv(3,2) assms(3)] by (simp add: live_inv_def)
qed

lemma reach_live_inv: "reach cfg (\<lambda>_ _. 0) s \<Longrightarrow> valid cfg \<Longrightarrow> live_inv cfg s"
proof (induction rule: reach.induct)
  case start
  have "tally cfg (counted cfg k q) (\<lambda>_. Unborn) = 0" for k q by (simp add: tally_0_iff counted_def)
  then show ?case
    using reach_lazy_inv [OF reach.start, of cfg "\<lambda>_ _. 0"] reach_main_inv [OF reach.start, of cfg "\<lambda>_ _. 0"] start
    by (simp add: live_inv_def valid_def init_def answer_inv_def wake_inv_def slots_inv_def spin_free_def)
next
  case (more s l s')
  then show ?case using live_inv_step by blast
qed

end
