(* ===== verification/Qsort.thy ===== *)
theory Qsort
  imports PartB
begin

text \<open>
  An instance of the C library's \<^verbatim>\<open>qsort\<close> for concrete runs of the programs under
  \<^verbatim>\<open>src/concurrency\<close>: insertion sort by a comparison function, which satisfies \<open>qsort_contract\<close>.
\<close>

fun insert_by :: "('a \<Rightarrow> 'a \<Rightarrow> int) \<Rightarrow> 'a \<Rightarrow> 'a list \<Rightarrow> 'a list" where
  "insert_by cmp x [] = [x]"
| "insert_by cmp x (y # ys) = (if cmp x y \<le> 0 then x # y # ys else y # insert_by cmp x ys)"

definition insertion_qsort :: "('a \<Rightarrow> 'a \<Rightarrow> int) \<Rightarrow> 'a list \<Rightarrow> 'a list" where
  "insertion_qsort cmp xs = foldr (insert_by cmp) xs []"

lemma mset_insert_by [simp]: "mset (insert_by cmp x ys) = add_mset x (mset ys)"
  by (induction ys) auto

lemma set_insert_by [simp]: "set (insert_by cmp x ys) = insert x (set ys)"
  by (induction ys) auto

lemma consistent_on_total:
  assumes "consistent_on A cmp" "x \<in> A" "y \<in> A" "\<not> cmp x y \<le> 0"
  shows "cmp y x \<le> 0"
proof -
  have "sgn (cmp x y) = - sgn (cmp y x)" using assms(1-3) unfolding consistent_on_def by blast
  moreover have "sgn (cmp x y) = 1" using assms(4) by simp
  ultimately have "sgn (cmp y x) = -1" by linarith
  then show ?thesis by (simp add: sgn_1_neg)
qed

lemma consistent_on_trans:
  "consistent_on A cmp \<Longrightarrow> x \<in> A \<Longrightarrow> y \<in> A \<Longrightarrow> z \<in> A \<Longrightarrow> cmp x y \<le> 0 \<Longrightarrow> cmp y z \<le> 0 \<Longrightarrow> cmp x z \<le> 0"
  unfolding consistent_on_def by fast

lemma sorted_insert_by:
  assumes "consistent_on A cmp" "x \<in> A" "set ys \<subseteq> A" "sorted_wrt (\<lambda>x y. cmp x y \<le> 0) ys"
  shows "sorted_wrt (\<lambda>x y. cmp x y \<le> 0) (insert_by cmp x ys)"
  using assms(3,4)
proof (induction ys)
  case (Cons y ys)
  have y: "y \<in> A" and ys: "\<forall>z\<in>set ys. z \<in> A \<and> cmp y z \<le> 0" using Cons(2,3) by auto
  show ?case
  proof (cases "cmp x y \<le> 0")
    case True
    then have "\<forall>z\<in>set ys. cmp x z \<le> 0"
      using ys consistent_on_trans [OF assms(1,2) y] by blast
    then show ?thesis using True Cons(3) by simp
  next
    case False
    then have "cmp y x \<le> 0" by (rule consistent_on_total [OF assms(1,2) y])
    then show ?thesis using False Cons by simp
  qed
qed simp

lemma qsort_contract_insertion: "qsort_contract insertion_qsort"
  unfolding qsort_contract_def
proof (intro allI impI)
  fix cmp :: "'a \<Rightarrow> 'a \<Rightarrow> int" and xs
  assume c: "consistent_on (set xs) cmp"
  have "mset (insertion_qsort cmp ys) = mset ys \<and> sorted_wrt (\<lambda>x y. cmp x y \<le> 0) (insertion_qsort cmp ys)"
    if "set ys \<subseteq> set xs" for ys
    using that
  proof (induction ys)
    case (Cons y ys)
    let ?zs = "insertion_qsort cmp ys"
    have "mset ?zs = mset ys" "sorted_wrt (\<lambda>x y. cmp x y \<le> 0) ?zs" using Cons by auto
    moreover from this(1) have "set ?zs = set ys" by (rule mset_eq_setD)
    ultimately show ?case
      using sorted_insert_by [OF c, of y ?zs] Cons(2) by (simp add: insertion_qsort_def)
  qed (simp add: insertion_qsort_def)
  then show "mset (insertion_qsort cmp xs) = mset xs \<and> sorted_wrt (\<lambda>x y. cmp x y \<le> 0) (insertion_qsort cmp xs)"
    by simp
qed

end
