(* ===== verification/PartAProps.thy ===== *)
theory PartAProps
  imports PartAAnswer Qsort
begin

text \<open>
  The file manager of \<^verbatim>\<open>concurrency/partA.c\<close>: a measure of the work left that some step always decreases, the
  requests that \<open>main\<close> hands to the threads, and who may use a file together.
\<close>

section \<open>A measure of the work left\<close>

fun unsignalled :: "pc \<Rightarrow> nat" where
  "unsignalled Unlocking = 0" | "unsignalled Finished = 0" | "unsignalled p = 1"

fun rank :: "pc \<Rightarrow> nat" where
  "rank Unborn = 28" | "rank Born = 27" | "rank (Napping t) = 26" | "rank Start = 25" | "rank Forking = 24"
| "rank Counting = 22" | "rank Probing = 22" | "rank (Spinning b) = (if b then 21 else 20)" | "rank Locking = 20"
| "rank Woken = 19" | "rank Checking = 18" | "rank Waiting = 0" | "rank Timing = 17" | "rank (Judging t) = 16"
| "rank (Killing t) = 15" | "rank (Announcing t) = 14" | "rank Inspecting = 13" | "rank Declining = 12"
| "rank Entered = 12" | "rank (Working t) = 11" | "rank Reporting = 10" | "rank Relocking = 9" | "rank Deleting = 9"
| "rank Leaving = 8" | "rank Signalling = 7" | "rank Unlocking = 6" | "rank Finished = 5"

fun child_rank :: "child \<Rightarrow> nat" where
  "child_rank (Armed t) = 1" | "child_rank c = 0"

fun main_rank :: "nat \<Rightarrow> mainpc \<Rightarrow> nat" where
  "main_rank m (Looping i) = 5 * (m - i) + m + 2" | "main_rank m (Sleeping i t) = 5 * (m - i) + m + 1"
| "main_rank m (Adding i) = 5 * (m - i) + m" | "main_rank m (Saying i) = 5 * (m - i) + m - 1"
| "main_rank m (Creating i) = 5 * (m - i) + m - 2" | "main_rank m (Joining i) = m - i + 1" | "main_rank m p = 0"

fun nap :: "int \<Rightarrow> pc \<Rightarrow> nat" where
  "nap u (Napping t) = nat (t - u)" | "nap u (Working t) = nat (t - u)" | "nap u p = 0"

fun child_nap :: "int \<Rightarrow> child \<Rightarrow> nat" where
  "child_nap u (Armed t) = nat (t - u)" | "child_nap u c = 0"

fun main_nap :: "int \<Rightarrow> mainpc \<Rightarrow> nat" where
  "main_nap u (Sleeping i t) = nat (t - u)" | "main_nap u p = 0"

definition summed :: "config \<Rightarrow> ('a \<Rightarrow> nat) \<Rightarrow> (nat \<Rightarrow> 'a) \<Rightarrow> nat" where
  "summed cfg f t = (\<Sum>j<length (requests cfg). f (t j))"

lemma summed_upd:
  assumes "i < length (requests cfg)"
  shows "summed cfg f (t(i := p)) + f (t i) = summed cfg f t + f p"
proof -
  have "summed cfg f u = f (u i) + (\<Sum>j\<in>{..<length (requests cfg)} - {i}. f (u j))" for u
    unfolding summed_def using assms by (subst sum.remove [of _ i]) simp_all
  moreover have "(\<Sum>j\<in>{..<length (requests cfg)} - {i}. f ((t(i := p)) j))
      = (\<Sum>j\<in>{..<length (requests cfg)} - {i}. f (t j))"
    by (rule sum.cong) simp_all
  ultimately show ?thesis by simp
qed

definition signals_left :: "config \<Rightarrow> lazy \<Rightarrow> nat" where
  "signals_left cfg s = summed cfg unsignalled (thr s)"

definition steps_left :: "config \<Rightarrow> lazy \<Rightarrow> nat" where
  "steps_left cfg s =
     summed cfg rank (thr s) + summed cfg child_rank (child s) + main_rank (length (requests cfg)) (mainp s)"

definition time_left :: "config \<Rightarrow> lazy \<Rightarrow> nat" where
  "time_left cfg s =
     summed cfg (nap (now s)) (thr s) + summed cfg (child_nap (now s)) (child s) + main_nap (now s) (mainp s)"

definition closer :: "config \<Rightarrow> (lazy \<times> lazy) set" where
  "closer cfg = measures [signals_left cfg, steps_left cfg, time_left cfg]"

lemma wf_closer: "wf (closer cfg)"
  by (simp add: closer_def)

lemma thread_closer:
  assumes "process_req cfg i ws s = Some s'" "i < length (requests cfg)"
    "\<And>b. thr s i = Spinning b \<Longrightarrow> time_requests (files s (fidx cfg i)) (slot cfg i) \<le> 0"
  shows "(s', s) \<in> closer cfg"
proof (cases "thr s i")
  case Signalling
  then obtain t where t: "\<And>j. t j = thr s j \<or> thr s j = Waiting \<and> t j = Woken" "t i = thr s i" "s' = s\<lparr>thr := t(i := Unlocking)\<rparr>"
    using signalling_step assms(1) by metis
  have "unsignalled (t j) = unsignalled (thr s j)" for j using t(1) [of j] by auto
  then have "summed cfg unsignalled t = summed cfg unsignalled (thr s)" by (simp add: summed_def)
  then have "signals_left cfg s' < signals_left cfg s"
    using summed_upd [OF assms(2), of unsignalled t Unlocking] t(2,3) Signalling by (simp add: signals_left_def)
  then show ?thesis by (simp add: closer_def)
next
  case Forking
  then show ?thesis
    using assms summed_upd [OF assms(2), of unsignalled "thr s" "thr s' i"] summed_upd [OF assms(2), of rank "thr s" "thr s' i"]
      summed_upd [OF assms(2), of child_rank "child s" "child s' i"]
    by (auto simp: process_req_def pa_simps closer_def signals_left_def steps_left_def split: if_splits)
next
  case (Killing u)
  then show ?thesis
    using assms summed_upd [OF assms(2), of unsignalled "thr s" "thr s' i"] summed_upd [OF assms(2), of rank "thr s" "thr s' i"]
      summed_upd [OF assms(2), of child_rank "child s" "child s' i"]
    by (auto simp: process_req_def pa_simps closer_def signals_left_def steps_left_def split: child.splits)
qed (use assms summed_upd [OF assms(2), of unsignalled "thr s" "thr s' i"] summed_upd [OF assms(2), of rank "thr s" "thr s' i"] in
     \<open>auto simp: process_req_def pa_simps pa_defs closer_def signals_left_def steps_left_def split: if_splits\<close>)

lemma main_closer:
  assumes "main_step cfg s = Some s'" "main_inv cfg s"
  shows "(s', s) \<in> closer cfg"
proof (cases "mainp s")
  case (Creating i)
  then have i: "i < length (requests cfg)" "thr s i = Unborn" using assms(2) by (auto simp: main_inv_def)
  then show ?thesis
    using assms(1) Creating summed_upd [OF i(1), of unsignalled "thr s" Born] summed_upd [OF i(1), of rank "thr s" Born]
    by (auto simp: main_step_def pa_simps closer_def signals_left_def steps_left_def)
qed (use assms in \<open>auto simp: main_step_def main_inv_def pa_simps Let_def closer_def signals_left_def steps_left_def
       split: if_splits\<close>)

lemma child_closer:
  assumes "bullet cfg i s = Some s'" "i < length (requests cfg)"
  shows "(s', s) \<in> closer cfg"
  using assms summed_upd [OF assms(2), of child_rank "child s" Fired]
  by (auto simp: bullet_def pa_simps closer_def signals_left_def steps_left_def split: child.splits if_splits)

lemma nap_later: "nap (u + 1) p \<le> nap u p" "child_nap (u + 1) c \<le> child_nap u c" "main_nap (u + 1) q \<le> main_nap u q"
  by (cases p; cases c; cases q; simp)+

lemma summed_mono: "(\<And>x. f x \<le> g x) \<Longrightarrow> summed cfg f t \<le> summed cfg g t"
  unfolding summed_def by (rule sum_mono) simp

lemma summed_less:
  assumes "\<And>x. f x \<le> g x" "i < length (requests cfg)" "f (t i) < g (t i)"
  shows "summed cfg f t < summed cfg g t"
  unfolding summed_def by (rule sum_strict_mono_ex1) (use assms in auto)

lemma tick_closer:
  assumes "0 < main_nap (now s) (mainp s) \<or> (\<exists>i<length (requests cfg). 0 < nap (now s) (thr s i) \<or> 0 < child_nap (now s) (child s i))"
  shows "(s\<lparr>now := now s + 1\<rparr>, s) \<in> closer cfg"
proof -
  let ?n = "now s"
  have less: "0 < nap ?n p \<Longrightarrow> nap (?n + 1) p < nap ?n p" "0 < child_nap ?n c \<Longrightarrow> child_nap (?n + 1) c < child_nap ?n c"
    "0 < main_nap ?n q \<Longrightarrow> main_nap (?n + 1) q < main_nap ?n q" for p c q
    by (cases p; cases c; cases q; simp)+
  have le: "summed cfg (nap (?n + 1)) (thr s) \<le> summed cfg (nap ?n) (thr s)"
    "summed cfg (child_nap (?n + 1)) (child s) \<le> summed cfg (child_nap ?n) (child s)"
    "main_nap (?n + 1) (mainp s) \<le> main_nap ?n (mainp s)"
    by (simp_all add: summed_mono nap_later)
  from assms have "main_nap (?n + 1) (mainp s) < main_nap ?n (mainp s) \<or>
      summed cfg (nap (?n + 1)) (thr s) < summed cfg (nap ?n) (thr s) \<or>
      summed cfg (child_nap (?n + 1)) (child s) < summed cfg (child_nap ?n) (child s)"
    using less summed_less [of "nap (?n + 1)" "nap ?n", OF nap_later(1)] summed_less [of "child_nap (?n + 1)" "child_nap ?n", OF nap_later(2)] by blast
  then have "time_left cfg (s\<lparr>now := ?n + 1\<rparr>) < time_left cfg s"
    using le by (auto simp: time_left_def)
  then show ?thesis by (simp add: closer_def signals_left_def steps_left_def)
qed

section \<open>Some step always leads closer to the end\<close>

definition over :: "config \<Rightarrow> lazy \<Rightarrow> bool" where
  "over cfg s \<longleftrightarrow> mainp s = Ended \<and> (\<forall>i<length (requests cfg). thr s i = Finished \<and> (\<forall>t. child s i \<noteq> Armed t))"

text \<open>The thread can do a step that is not a turn of the spinning loop.\<close>

definition ready :: "config \<Rightarrow> lazy \<Rightarrow> nat \<Rightarrow> bool" where
  "ready cfg s i \<longleftrightarrow>
     (\<exists>ws s'. process_req cfg i ws s = Some s') \<and>
     (\<forall>b. thr s i = Spinning b \<longrightarrow> time_requests (files s (fidx cfg i)) (slot cfg i) \<le> 0)"

lemma not_ready:
  assumes "\<not> ready cfg s i" "valid cfg" "i < length (requests cfg)"
  shows "thr s i \<in> {Unborn, Waiting, Finished} \<or> 0 < nap (now s) (thr s i) \<or>
    thr s i \<in> {Start, Locking, Woken, Relocking} \<and> lock (files s (fidx cfg i)) \<noteq> None \<or>
    (\<exists>b. thr s i = Spinning b) \<and> 0 < time_requests (files s (fidx cfg i)) (slot cfg i)"
proof (cases "thr s i")
  case Signalling
  have "\<exists>s'. process_req cfg i (waiters cfg i s) s = Some s'"
    using Signalling by (simp add: process_req_def cond_signal_def)
  then show ?thesis using assms(1) Signalling by (auto simp: ready_def)
qed (use assms(1) valid_ok [OF assms(2,3)] in \<open>auto simp: ready_def process_req_def mutex_lock_def file_of_def split: if_splits\<close>)

lemma holder_ready:
  assumes "live_inv cfg s" "mainp s \<noteq> Aborted" "valid cfg" "lock (files s k) = Some h"
  shows "h < length (requests cfg) \<and> (ready cfg s h \<or> 0 < nap (now s) (thr s h))"
proof -
  have h: "h < length (requests cfg)" "fidx cfg h = k" "with_lock (opr cfg h) (thr s h)"
    using assms(1,4) by (auto simp: live_inv_def lazy_inv_def lock_inv_def)
  have "thr s h = Spinning False \<Longrightarrow> time_requests (files s (fidx cfg h)) (slot cfg h) \<le> 0"
    using assms(1,2) h(1) by (auto simp: live_inv_def spin_free_def)
  then show ?thesis using not_ready [of cfg s h, OF _ assms(3) h(1)] h(1,3) by (cases "thr s h") auto
qed

text \<open>What it means that no step leads closer to the end.\<close>

lemma no_closer_step:
  assumes none: "\<not> (\<exists>l s'. l \<noteq> MainFail \<and> (\<forall>i. l \<noteq> Spurious i) \<and> step cfg l s = Some s' \<and> (s', s) \<in> closer cfg)" and "main_inv cfg s" "mainp s \<noteq> Aborted"
  shows "main_step cfg s = None" "main_nap (now s) (mainp s) = 0"
    "\<And>i. i < length (requests cfg) \<Longrightarrow> \<not> ready cfg s i" "\<And>i t. i < length (requests cfg) \<Longrightarrow> child s i \<noteq> Armed t"
    "\<And>i. i < length (requests cfg) \<Longrightarrow> nap (now s) (thr s i) = 0"
proof -
  let ?m = "length (requests cfg)"
  show "main_step cfg s = None"
    using none main_closer assms(2) by (cases "main_step cfg s") (auto simp: step_def dest!: spec [of _ Main])
  have "step cfg Tick s = Some (s\<lparr>now := now s + 1\<rparr>)" by (simp add: step_def)
  then have "\<not> (0 < main_nap (now s) (mainp s) \<or> (\<exists>i<?m. 0 < nap (now s) (thr s i) \<or> 0 < child_nap (now s) (child s i)))"
    using none tick_closer [of s cfg] by blast
  then have naps: "main_nap (now s) (mainp s) = 0" "\<And>i. i < ?m \<Longrightarrow> nap (now s) (thr s i) = 0"
    "\<And>i. i < ?m \<Longrightarrow> child_nap (now s) (child s i) = 0"
    by auto
  then show "main_nap (now s) (mainp s) = 0" "\<And>i. i < ?m \<Longrightarrow> nap (now s) (thr s i) = 0" by auto
  have kid: "bullet cfg i s = None" if "i < ?m" for i
    using none child_closer that by (cases "bullet cfg i s") (auto simp: step_def dest!: spec [of _ "Child i"])
  show "child s i \<noteq> Armed t" if "i < ?m" for i t
    using kid [OF that] naps(3) [OF that] by (auto simp: bullet_def split: if_splits)
  show "\<not> ready cfg s i" if "i < ?m" for i
  proof
    assume r: "ready cfg s i"
    then obtain ws s' where p: "process_req cfg i ws s = Some s'" by (auto simp: ready_def)
    then have "(s', s) \<in> closer cfg" using thread_closer [OF p that] r by (auto simp: ready_def)
    moreover have "step cfg (Thread i ws) s = Some s'" using p that assms(3) by (simp add: step_def)
    ultimately show False using none by blast
  qed
qed

lemma some_step_closer:
  assumes "live_inv cfg s" "mainp s \<noteq> Aborted" "valid cfg" "\<not> over cfg s"
  shows "\<exists>l s'. l \<noteq> MainFail \<and> (\<forall>i. l \<noteq> Spurious i) \<and> step cfg l s = Some s' \<and> (s', s) \<in> closer cfg"
proof (rule ccontr)
  let ?m = "length (requests cfg)"
  assume none: "\<not> ?thesis"
  have inv: "main_inv cfg s" "wake_inv cfg s" "slots_inv cfg s" "spin_free cfg s"
    using assms(1,2) by (auto simp: live_inv_def)
  note stuck = no_closer_step [OF none inv(1) assms(2)]
  have joining: "mainp s = Ended \<or> (\<exists>i<?m. mainp s = Joining i \<and> thr s i \<noteq> Finished)"
    using stuck(1,2) assms(2) valid_ok [OF assms(3)] inv(1)
    by (cases "mainp s") (auto simp: main_step_def main_inv_def Let_def split: if_splits)
  then have born: "thr s i \<noteq> Unborn" if "i < ?m" for i using inv(1) that by (auto simp: main_inv_def)
  have nolock: "lock (files s k) = None" for k
    using holder_ready [OF assms(1-3)] stuck(3,5) by (cases "lock (files s k)") fastforce+
  have left: "thr s i = Waiting \<or> thr s i = Finished \<or> (\<exists>b. thr s i = Spinning b \<and> 0 < time_requests (files s (fidx cfg i)) (slot cfg i))"
    if "i < ?m" for i
    using not_ready [OF stuck(3) [OF that] assms(3) that] stuck(5) [OF that] nolock born [OF that] by auto
  have "tally cfg (counted cfg k q) (thr s) = 0" for k q
    unfolding tally_0_iff counted_def using left by fastforce
  moreover have "announced cfg k q (mainp s) = 0" for k q using joining by auto
  ultimately have "time_requests (files s k) q = 0" for k q using inv(3) by (simp add: slots_inv_def)
  then have "thr s i = Waiting \<or> thr s i = Finished" if "i < ?m" for i using left [OF that] by auto
  then have "thr s i = Finished" if "i < ?m" for i
    using inv(2) that unfolding wake_inv_def by fastforce
  then show False using joining stuck(4) assms(4) by (auto simp: over_def)
qed

lemma step_not_aborted: "step cfg l s = Some s' \<Longrightarrow> mainp s \<noteq> Aborted \<Longrightarrow> l \<noteq> MainFail \<Longrightarrow> mainp s' \<noteq> Aborted"
  by (cases l) (auto simp: step_def main_step_def bullet_def pa_simps Let_def thread_other(1)
    split: if_splits mainpc.splits child.splits)

lemma over_answered:
  assumes "live_inv cfg s" "over cfg s" "i < length (requests cfg)"
  shows "answered s i"
proof -
  have i: "at_end (thr s i)" "\<And>t. child s i \<noteq> Armed t" using assms(2,3) by (auto simp: over_def)
  have "answered s i \<or> alive (child s i)" "child s i = Fired \<longrightarrow> answered s i"
    using assms(1) i(1) by (auto simp: live_inv_def answer_inv_def)
  then show ?thesis using i(2) by (cases "child s i") auto
qed

section \<open>What main hands to the threads\<close>

definition good_request :: "int \<Rightarrow> userrequest \<Rightarrow> bool" where
  "good_request n q \<longleftrightarrow>
     operation q \<in> {1, 2, 3} \<and> 1 \<le> fileid q \<and> fileid q \<le> n \<and> 0 \<le> requesttime q \<and> requesttime q < REQUEST_TIME_ARRAY_SIZE"

text \<open>Every entry names an existing file and a time below the size of \<open>time_requests\<close>.\<close>

definition good_entry :: "int \<Rightarrow> entry \<Rightarrow> bool" where
  "good_entry n e =
     (case e of STOP \<Rightarrow> True
      | Entry u f nm rt \<Rightarrow> 1 \<le> f \<and> f \<le> n \<and> 0 \<le> rt \<and> rt < REQUEST_TIME_ARRAY_SIZE)"

lemma read_requests_good:
  "read_requests es qs = Some qs' \<Longrightarrow> \<forall>e\<in>set es. good_entry n e \<Longrightarrow> \<forall>q\<in>set qs. good_request n q \<Longrightarrow> \<forall>q\<in>set qs'. good_request n q"
proof (induction es qs rule: read_requests.induct)
  case (3 u f nm rt es qs)
  show ?case
  proof (cases "operation_code nm")
    case None
    then show ?thesis using 3 by simp
  next
    case (Some opn)
    then have "good_request n \<lparr>userid = u, fileid = f, operation = opn, requesttime = rt\<rparr>"
      using 3(4) by (auto simp: good_request_def good_entry_def operation_code_def split: if_splits)
    then show ?thesis using 3 Some by (cases "MAX_COUNT \<le> length qs") auto
  qed
qed simp_all

lemma compare_good:
  assumes "good_request n p" "good_request n q"
  shows "compareByRequestTime p q =
    (if requesttime p \<noteq> requesttime q then requesttime p - requesttime q else operation p - operation q)"
  using assms by (auto simp: compareByRequestTime_def good_request_def REQUEST_TIME_ARRAY_SIZE_def wrap32_id)

lemma setup_valid:
  assumes "setup_requests qsort cfg0 es = Some cfg" "qsort_contract qsort" "\<forall>e\<in>set es. good_entry (cfg_n cfg0) e" "1 \<le> cfg_c cfg0"
  shows "valid cfg"
proof -
  obtain qs where qs: "read_requests es [] = Some qs" and cfg: "cfg = cfg0\<lparr>requests := qsort compareByRequestTime qs\<rparr>"
    using assms(1) by (auto simp: setup_requests_def)
  have good: "\<forall>q\<in>set qs. good_request (cfg_n cfg0) q" using read_requests_good [OF qs assms(3)] by simp
  have cmp: "compareByRequestTime x y = (if requesttime x \<noteq> requesttime y then requesttime x - requesttime y else operation x - operation y)"
    if "x \<in> set qs" "y \<in> set qs" for x y
    using compare_good good that by blast
  have "consistent_on (set qs) compareByRequestTime"
    unfolding consistent_on_def by (auto simp: cmp sgn_if split: if_splits)
  then have q: "mset (requests cfg) = mset qs" and sorted: "sorted_wrt (\<lambda>x y. compareByRequestTime x y \<le> 0) (requests cfg)"
    using assms(2) by (auto simp: qsort_contract_def cfg)
  have set: "set (requests cfg) = set qs" using q by (metis set_mset_mset)
  then have all: "good_request (cfg_n cfg) (req cfg i)" if "i < length (requests cfg)" for i
    using good that by (metis cfg config.ext_inject config.surjective config.update_convs(7) nth_mem req_def)
  have "compareByRequestTime (req cfg i) (req cfg j) \<le> 0" if "i < j" "j < length (requests cfg)" for i j
    using sorted that by (auto simp: sorted_wrt_iff_nth_less req_def)
  then have "requesttime (req cfg i) < requesttime (req cfg j) \<or> requesttime (req cfg i) = requesttime (req cfg j) \<and> opr cfg i \<le> opr cfg j"
    if "i < j" "j < length (requests cfg)" for i j
    using compare_good [OF all all] that by (force split: if_splits)
  moreover have "ops_ok cfg" using good set by (auto simp: ops_ok_def good_request_def)
  moreover have "1 \<le> cfg_c cfg" using assms(4) by (simp add: cfg)
  ultimately show ?thesis using all by (auto simp: valid_def good_request_def file_ok_def)
qed

section \<open>The properties\<close>

lemma run_reach: "run cfg ls s = Some s' \<Longrightarrow> reach cfg junk s \<Longrightarrow> reach cfg junk s'"
  by (induction ls arbitrary: s) (auto intro: reach.more)

text \<open>The threads with one of the given operations that use file \<open>k\<close>.\<close>

definition users :: "config \<Rightarrow> lazy \<Rightarrow> nat \<Rightarrow> int set \<Rightarrow> nat set" where
  "users cfg s k ops = {j. j < length (requests cfg) \<and> fidx cfg j = k \<and> opr cfg j \<in> ops \<and> in_use (thr s j)}"

lemma finite_users [simp]: "finite (users cfg s k ops)"
  by (rule finite_subset [of _ "{..<length (requests cfg)}"]) (auto simp: users_def)

lemma card_users: "int (card (users cfg s k {opn})) = tally cfg (user_of cfg k opn) (thr s)"
proof -
  have "{j. j < length (requests cfg) \<and> user_of cfg k opn j (thr s j)} = users cfg s k {opn}"
    by (auto simp: users_def user_of_def)
  then show ?thesis by (simp add: tally_card)
qed

lemma count_users:
  assumes "count_inv cfg s"
  shows "int (card (users cfg s k {1})) = readercount (files s k)" "int (card (users cfg s k {2})) = writercount (files s k)"
    "int (card (users cfg s k {1, 2})) = concurrent_access (files s k)"
proof -
  show r: "int (card (users cfg s k {1})) = readercount (files s k)" and w: "int (card (users cfg s k {2})) = writercount (files s k)"
    using assms by (simp_all add: card_users count_inv_def)
  have "users cfg s k {1, 2} = users cfg s k {1} \<union> users cfg s k {2}" "users cfg s k {1} \<inter> users cfg s k {2} = {}"
    by (auto simp: users_def)
  then have "card (users cfg s k {1, 2}) = card (users cfg s k {1}) + card (users cfg s k {2})"
    by (simp add: card_Un_disjoint)
  then show "int (card (users cfg s k {1, 2})) = concurrent_access (files s k)"
    using r w assms by (simp add: count_inv_def)
qed

text \<open>
  C37. In every reachable state of \<open>partA\<close>, whatever the order of its threads and the wake-ups, and for
  every file: at most \<open>c\<close> readers and writers use it, at most one of them writes, at most one thread deletes it,
  nobody reads or writes it while it is being deleted, and nobody uses it any more once it is deleted.
\<close>

theorem partA_exclusion:
  assumes "reach cfg junk s" "ops_ok cfg"
  shows "int (card (users cfg s k {1, 2})) \<le> max 0 (cfg_c cfg) \<and> card (users cfg s k {2}) \<le> 1 \<and>
    card (users cfg s k {3}) \<le> 1 \<and> (users cfg s k {3} = {} \<or> users cfg s k {1, 2} = {}) \<and>
    (if deleted (files s k) then users cfg s k {1, 2, 3} = {} else True)"
proof -
  have inv: "lock_inv cfg s" "count_inv cfg s" "use_inv cfg s"
    using reach_lazy_inv [OF assms] by (simp_all add: lazy_inv_def)
  have cap: "concurrent_access (files s k) \<le> max 0 (cfg_c cfg)" "writercount (files s k) \<le> 1"
    using inv(3) by (simp_all add: use_inv_def)
  have del: "i = j" if "i \<in> users cfg s k {3}" "j \<in> users cfg s k {3}" for i j
    using that delete_with_lock [OF inv(3)] alone [OF inv(1), of i j] by (auto simp: users_def)
  then have "card (users cfg s k {3}) \<le> 1" using card_le_Suc0_iff_eq [of "users cfg s k {3}"] by auto
  moreover have "users cfg s k {1, 2} = {}" if "i \<in> users cfg s k {3}" for i
  proof -
    have "\<not> busy cfg 3 (files s k)" using that use_invD(2) [OF inv(3)] by (auto simp: users_def)
    then have "concurrent_access (files s k) \<le> 0" using inv(2) by (simp add: busy_def count_inv_def)
    then have "card (users cfg s k {1, 2}) = 0" using count_users(3) [OF inv(2), of k] by linarith
    then show ?thesis by simp
  qed
  moreover have "users cfg s k {1, 2, 3} = {}" if "deleted (files s k)"
    using that use_invD(2) [OF inv(3)] by (auto simp: users_def)
  ultimately show ?thesis
    using cap count_users [OF inv(2), of k] by auto
qed

definition demo_lazy :: config where
  "demo_lazy = \<lparr>cfg_r = 2, cfg_w = 2, cfg_d = 2, cfg_n = 1, cfg_c = 1, cfg_T = 10,
     requests = [\<lparr>userid = 7, fileid = 1, operation = 1, requesttime = 0\<rparr>,
                 \<lparr>userid = 8, fileid = 1, operation = 2, requesttime = 0\<rparr>]\<rparr>"

definition demo_labels :: "label list" where
  "demo_labels = replicate 8 Main @ [Thread 0 [], Thread 1 [], Tick] @ replicate 11 (Thread 0 []) @ replicate 5 (Thread 1 [])"

lemma demo_lazy_run:
  "map_option (\<lambda>s. (thr s 0, thr s 1, mainp s)) (run demo_lazy demo_labels (init (\<lambda>_ _. 0))) = Some (Working 3, Waiting, Looping 2)"
  by code_simp

lemma demo_lazy_reached:
  obtains s where "reach demo_lazy (\<lambda>_ _. 0) s" "thr s 0 = Working 3" "thr s 1 = Waiting" "mainp s = Looping 2"
proof -
  obtain s where "run demo_lazy demo_labels (init (\<lambda>_ _. 0)) = Some s" "thr s 0 = Working 3" "thr s 1 = Waiting" "mainp s = Looping 2"
    using demo_lazy_run by (cases "run demo_lazy demo_labels (init (\<lambda>_ _. 0))") auto
  then show thesis using that run_reach [OF _ reach.start] by blast
qed

theorem partA_exclusion_witness:
  "\<exists>s. users demo_lazy s 0 {1} = {0} \<and> thr s 1 = Waiting \<and> users demo_lazy s 0 {3} = {} \<and>
     int (card (users demo_lazy s 0 {1, 2})) \<le> max 0 (cfg_c demo_lazy)"
proof -
  obtain s where s: "reach demo_lazy (\<lambda>_ _. 0) s" "thr s 0 = Working 3" "thr s 1 = Waiting"
    by (rule demo_lazy_reached)
  have "ops_ok demo_lazy" by (simp add: ops_ok_def demo_lazy_def)
  then have "int (card (users demo_lazy s 0 {1, 2})) \<le> max 0 (cfg_c demo_lazy)"
    using partA_exclusion [OF s(1), of 0] by simp
  moreover have "users demo_lazy s 0 {1} = {0}" "users demo_lazy s 0 {3} = {}"
    using s(2,3) by (auto simp: users_def demo_lazy_def req_def fidx_def less_Suc_eq nth_Cons' split: if_splits)
  ultimately show ?thesis using s(3) by blast
qed

end
