(* ===== verification/PartAFair.thy ===== *)
theory PartAFair
  imports PartAProps
begin

text \<open>
  Runs of the file manager of \<^verbatim>\<open>concurrency/partA.c\<close> that go on for ever under a fair scheduler: all of them come to the end of
  the program with every request answered, without the help of spurious wake-ups. And the race between a request that
  is taken up and its cancellation.
\<close>

section \<open>Fair runs\<close>

text \<open>Who makes a step; a spurious wake-up is nobody's duty.\<close>

datatype agent = MainThread | RequestThread nat | ChildProcess nat | Clock

fun agent_of :: "label \<Rightarrow> agent option" where
  "agent_of Main = Some MainThread" | "agent_of MainFail = Some MainThread" | "agent_of (Thread i ws) = Some (RequestThread i)"
| "agent_of (Spurious i) = None" | "agent_of (Child i) = Some (ChildProcess i)" | "agent_of Tick = Some Clock"

definition can_move :: "config \<Rightarrow> agent \<Rightarrow> lazy \<Rightarrow> bool" where
  "can_move cfg a s \<longleftrightarrow> (\<exists>l s'. agent_of l = Some a \<and> step cfg l s = Some s')"

text \<open>
  A run without end, weakly fair: whoever can move from some moment on without interruption does move. After the end
  of the program only the clock goes on.
\<close>

definition fair_run :: "config \<Rightarrow> (nat \<Rightarrow> lazy) \<Rightarrow> (nat \<Rightarrow> label) \<Rightarrow> bool" where
  "fair_run cfg st lab \<longleftrightarrow>
     (\<forall>n. step cfg (lab n) (st n) = Some (st (Suc n))) \<and>
     (\<forall>a n. (\<forall>m\<ge>n. can_move cfg a (st m)) \<longrightarrow> (\<exists>m\<ge>n. agent_of (lab m) = Some a))"

section \<open>Steps that are no progress\<close>

definition same_work :: "config \<Rightarrow> lazy \<Rightarrow> lazy \<Rightarrow> bool" where
  "same_work cfg s s' \<longleftrightarrow>
     signals_left cfg s = signals_left cfg s' \<and> steps_left cfg s = steps_left cfg s' \<and> time_left cfg s = time_left cfg s'"

lemma closer_same: "(t, s) \<in> closer cfg \<Longrightarrow> same_work cfg s s' \<Longrightarrow> (t, s') \<in> closer cfg"
  by (simp add: closer_def same_work_def)

lemma tick_work:
  "signals_left cfg (s\<lparr>now := u\<rparr>) = signals_left cfg s" "steps_left cfg (s\<lparr>now := u\<rparr>) = steps_left cfg s"
  "time_left cfg (s\<lparr>now := now s + 1\<rparr>) \<le> time_left cfg s"
  by (simp_all add: signals_left_def steps_left_def time_left_def summed_mono nap_later add_mono)

lemma tick_closer_iff: "(s\<lparr>now := now s + 1\<rparr>, s) \<in> closer cfg \<longleftrightarrow> 0 < time_left cfg s"
proof
  assume "(s\<lparr>now := now s + 1\<rparr>, s) \<in> closer cfg"
  then show "0 < time_left cfg s" by (auto simp: closer_def tick_work(1,2))
next
  assume "0 < time_left cfg s"
  then have "0 < main_nap (now s) (mainp s) \<or> (\<exists>i<length (requests cfg). 0 < nap (now s) (thr s i) \<or> 0 < child_nap (now s) (child s i))"
    by (auto simp: time_left_def summed_def)
  then show "(s\<lparr>now := now s + 1\<rparr>, s) \<in> closer cfg" by (rule tick_closer)
qed

text \<open>Only the clock when nobody sleeps, and a turn of the spinning loop of a delete request.\<close>

lemma step_progress:
  assumes "main_inv cfg s" "step cfg l s = Some s'" "l \<noteq> MainFail" "\<forall>i. l \<noteq> Spurious i"
  shows "(s', s) \<in> closer cfg \<or> l = Tick \<and> s' = s\<lparr>now := now s + 1\<rparr> \<and> time_left cfg s = 0 \<or>
    (\<exists>i ws b. l = Thread i ws \<and> thr s i = Spinning b \<and> 0 < time_requests (files s (fidx cfg i)) (slot cfg i) \<and> s' = s)"
proof (cases l)
  case (Thread i ws)
  then have p: "i < length (requests cfg)" "process_req cfg i ws s = Some s'"
    using assms(2) by (auto simp: step_def split: if_splits)
  show ?thesis
  proof (cases "\<exists>b. thr s i = Spinning b \<and> 0 < time_requests (files s (fidx cfg i)) (slot cfg i)")
    case True
    then show ?thesis using p(2) Thread by (auto simp: process_req_def file_of_def)
  next
    case False
    then show ?thesis using thread_closer [OF p(2,1)] by force
  qed
next
  case Tick
  then show ?thesis using assms(2) tick_closer_iff [of s cfg] by (auto simp: step_def)
qed (use assms main_closer child_closer in \<open>auto simp: step_def split: if_splits\<close>)

text \<open>Time only helps: who can move now can still move when only the clock has gone on.\<close>

lemma later_enabled:
  assumes "step cfg l s = Some s'" "now s \<le> u"
  shows "\<exists>s''. step cfg l (s\<lparr>now := u\<rparr>) = Some s''"
proof (cases l)
  case (Thread i ws)
  then have p: "i < length (requests cfg)" "mainp s \<noteq> Aborted" "process_req cfg i ws s = Some s'"
    using assms(1) by (auto simp: step_def split: if_splits)
  have "\<exists>s''. process_req cfg i ws (s\<lparr>now := u\<rparr>) = Some s''"
  proof (cases "thr s i")
    case Signalling
    then show ?thesis using p(3) by (auto simp: process_req_def cond_signal_def waiters_def split: if_splits)
  qed (use p(3) assms(2) in \<open>auto simp: process_req_def mutex_lock_def file_of_def split: if_splits\<close>)
  then show ?thesis using p(1,2) Thread by (simp add: step_def)
next
  case Main
  then have "main_step cfg s = Some s'" using assms(1) by (simp add: step_def)
  then have "\<exists>s''. main_step cfg (s\<lparr>now := u\<rparr>) = Some s''"
    using assms(2) by (cases "mainp s") (auto simp: main_step_def Let_def split: if_splits)
  then show ?thesis using Main by (simp add: step_def)
qed (use assms in \<open>auto simp: step_def main_fail_def bullet_def split: if_splits mainpc.splits child.splits\<close>)

section \<open>Every fair run ends\<close>

text \<open>From \<open>k\<close> on no step is progress: then the state stays, but for the time.\<close>

lemma stalled:
  assumes st: "\<And>n. step cfg (lab n) (st n) = Some (st (Suc n))" and inv: "\<And>n. main_inv cfg (st n)"
    and quiet: "\<And>n. k \<le> n \<Longrightarrow> lab n \<noteq> MainFail \<and> (\<forall>i. lab n \<noteq> Spurious i)"
    and least: "\<And>n. k \<le> n \<Longrightarrow> (st n, st k) \<notin> closer cfg"
  shows "k \<le> n \<Longrightarrow> same_work cfg (st n) (st k) \<and> (\<exists>u\<ge>now (st k). st n = (st k)\<lparr>now := u\<rparr>)"
proof (induction n rule: dec_induct)
  case base
  then show ?case by (auto simp: same_work_def intro!: exI [of _ "now (st k)"])
next
  case (step n)
  then obtain u where u: "now (st k) \<le> u" "st n = (st k)\<lparr>now := u\<rparr>" and same: "same_work cfg (st n) (st k)" by blast
  have "(st (Suc n), st n) \<notin> closer cfg" using least [of "Suc n"] closer_same [OF _ same] step(1) by auto
  then consider "st (Suc n) = (st n)\<lparr>now := now (st n) + 1\<rparr>" "time_left cfg (st n) = 0" | "st (Suc n) = st n"
    using step_progress [OF inv [of n] st [of n]] quiet [OF step(1)] by metis
  then show ?case
  proof cases
    case 1
    then have "same_work cfg (st (Suc n)) (st n)" using tick_work(3) [of cfg "st n"] by (simp add: same_work_def tick_work(1,2))
    then have "same_work cfg (st (Suc n)) (st k)" using same by (simp add: same_work_def)
    then show ?thesis using 1(1) u by (intro conjI exI [of _ "u + 1"]) auto
  next
    case 2
    then show ?thesis using step.IH by simp
  qed
qed

lemma fair_run_progress:
  assumes fair: "fair_run cfg st lab" and inv: "\<And>n. live_inv cfg (st n) \<and> mainp (st n) \<noteq> Aborted" and "valid cfg"
    and quiet: "\<And>n. k \<le> n \<Longrightarrow> lab n \<noteq> MainFail \<and> (\<forall>i. lab n \<noteq> Spurious i)"
    and least: "\<And>n. k \<le> n \<Longrightarrow> (st n, st k) \<notin> closer cfg"
  shows "over cfg (st k)"
proof (rule ccontr)
  assume "\<not> over cfg (st k)"
  then obtain l s' where l: "l \<noteq> MainFail" "\<forall>i. l \<noteq> Spurious i" "step cfg l (st k) = Some s'" "(s', st k) \<in> closer cfg"
    using some_step_closer inv assms(3) by blast
  have st: "\<And>n. step cfg (lab n) (st n) = Some (st (Suc n))" using fair by (simp add: fair_run_def)
  have main: "\<And>n. main_inv cfg (st n)" using inv by (simp add: live_inv_def)
  have stay: "same_work cfg (st n) (st k) \<and> (\<exists>u\<ge>now (st k). st n = (st k)\<lparr>now := u\<rparr>)" if "k \<le> n" for n
    by (rule stalled [OF st main quiet least that])
  have enabled: "\<exists>s''. step cfg l (st m) = Some s''" if "k \<le> m" for m
    using stay [OF that] later_enabled [OF l(3)] by auto
  obtain a where a: "agent_of l = Some a" using l(2) by (cases l) auto
  have "\<forall>m\<ge>k. can_move cfg a (st m)" using enabled a by (auto simp: can_move_def)
  then obtain m where m: "k \<le> m" "agent_of (lab m) = Some a" using fair unfolding fair_run_def by blast
  have same: "same_work cfg (st m) (st k)" using stay [OF m(1)] by blast
  have "(st (Suc m), st m) \<notin> closer cfg" using least [of "Suc m"] closer_same [OF _ same] m(1) by auto
  then consider "lab m = Tick" "time_left cfg (st m) = 0"
    | i ws b where "lab m = Thread i ws" "thr (st m) i = Spinning b" "0 < time_requests (files (st m) (fidx cfg i)) (slot cfg i)"
    using step_progress [OF main [of m] st [of m]] quiet [OF m(1)] by metis
  then show False
  proof cases
    case 1
    then have "l = Tick" using m(2) a by (cases l) auto
    then have "0 < time_left cfg (st k)" using l(3,4) tick_closer_iff [of "st k" cfg] by (auto simp: step_def)
    then show False using 1(2) same by (simp add: same_work_def)
  next
    case (2 i ws b)
    then obtain ws' where "l = Thread i ws'" using m(2) a l(1) by (cases l) auto
    moreover have "thr (st k) i = Spinning b" "0 < time_requests (files (st k) (fidx cfg i)) (slot cfg i)"
      using 2 stay [OF m(1)] by auto
    ultimately have "s' = st k" using l(3) by (auto simp: step_def process_req_def file_of_def split: if_splits)
    then show False using l(4) by (simp add: closer_def)
  qed
qed

lemma fair_run_ends:
  assumes fair: "fair_run cfg st lab" and init: "st 0 = init (\<lambda>_ _. 0)" and v: "valid cfg" and "\<And>n. lab n \<noteq> MainFail"
    "finite {n. \<exists>i. lab n = Spurious i}"
  shows "\<exists>n. live_inv cfg (st n) \<and> over cfg (st n)"
proof -
  have st: "\<And>n. step cfg (lab n) (st n) = Some (st (Suc n))" using fair by (simp add: fair_run_def)
  have reach: "reach cfg (\<lambda>_ _. 0) (st n) \<and> mainp (st n) \<noteq> Aborted" for n
  proof (induction n)
    case 0
    then show ?case using reach.start [of cfg "\<lambda>_ _. 0"] by (simp add: init) (simp add: init_def)
  next
    case (Suc n)
    then show ?case using reach.more [OF _ st] step_not_aborted [OF st] assms(4) by blast
  qed
  then have inv: "live_inv cfg (st n) \<and> mainp (st n) \<noteq> Aborted" for n using reach_live_inv [OF _ v] by blast
  obtain N where N: "\<forall>n\<in>{n. \<exists>i. lab n = Spurious i}. n < N" using assms(5) finite_nat_set_iff_bounded by blast
  have "st N \<in> st ` {N..}" by simp
  then obtain t where t: "t \<in> st ` {N..}" "\<And>s. (s, t) \<in> closer cfg \<Longrightarrow> s \<notin> st ` {N..}"
    using wfE_min [OF wf_closer [of cfg]] by metis
  then obtain k where k: "N \<le> k" "t = st k" by auto
  have "over cfg (st k)"
  proof (rule fair_run_progress [OF fair inv v])
    show "lab n \<noteq> MainFail \<and> (\<forall>i. lab n \<noteq> Spurious i)" if "k \<le> n" for n
      using assms(4) N that k(1) by fastforce
    show "(st n, st k) \<notin> closer cfg" if "k \<le> n" for n
      using t(2) [of "st n"] k that by auto
  qed
  then show ?thesis using inv by blast
qed

section \<open>The properties\<close>

text \<open>
  C38. \<open>partA\<close> always comes to its end: in every weakly fair run of its threads in which \<^verbatim>\<open>pthread_create\<close> does not fail,
  whichever waiting threads the signals wake and with finitely many spurious wake-ups or none, there is a moment when the
  main thread has joined all threads and ended, and every user has been told that the request was completed, declined
  or cancelled. Assumed is that the array \<open>time_requests\<close> that \<^verbatim>\<open>malloc\<close> returns holds zeroes, that the input names existing
  files and times below 100, and that a file may be accessed by at least one user at a time.
\<close>

theorem partA_answers_everyone:
  assumes "setup_requests qsort cfg0 es = Some cfg" "qsort_contract qsort" "\<forall>e\<in>set es. good_entry (cfg_n cfg0) e" "1 \<le> cfg_c cfg0"
    and "st 0 = init (\<lambda>_ _. 0)" "fair_run cfg st lab" "\<forall>n. lab n \<noteq> MainFail" "finite {n. \<exists>i. lab n = Spurious i}"
  shows "\<exists>n. mainp (st n) = Ended \<and> (\<forall>i<length (requests cfg). thr (st n) i = Finished \<and> answered (st n) i)"
proof -
  have v: "valid cfg" by (rule setup_valid [OF assms(1-4)])
  obtain n where "live_inv cfg (st n)" "over cfg (st n)"
    using fair_run_ends [OF assms(6,5) v _ assms(8)] assms(7) by blast
  then show ?thesis using over_answered [of cfg "st n"] by (intro exI [of _ n]) (auto simp: over_def)
qed

text \<open>A run that has come to its end, with the clock going on for ever.\<close>

lemma run_append: "run cfg (ls @ ls') s = run cfg ls s \<bind> run cfg ls'"
  by (induction ls arbitrary: s) (auto split: bind_splits)

lemma over_stuck: "over cfg s \<Longrightarrow> agent_of l = Some a \<Longrightarrow> a \<noteq> Clock \<Longrightarrow> step cfg l s = None"
  by (cases l) (auto simp: over_def step_def main_step_def main_fail_def process_req_def bullet_def split: child.splits)

lemma over_later [simp]: "over cfg (s\<lparr>now := u\<rparr>) = over cfg s"
  by (simp add: over_def)

definition then_ticks :: "label list \<Rightarrow> nat \<Rightarrow> label" where
  "then_ticks L n = (if n < length L then L ! n else Tick)"

lemma map_then_ticks: "n \<le> length L \<Longrightarrow> map (then_ticks L) [0..<n] = take n L"
  by (rule nth_equalityI) (auto simp: then_ticks_def)

lemma run_then_ticks:
  assumes "run cfg L s = Some t" "over cfg t"
  shows "\<exists>st. st 0 = s \<and> st (length L) = t \<and> fair_run cfg st (then_ticks L)"
proof -
  let ?run = "\<lambda>n. run cfg (map (then_ticks L) [0..<n]) s"
  define st where "st n = the (?run n)" for n
  have full: "?run (length L) = Some t" using assms(1) by (simp add: map_then_ticks)
  have prefix: "?run n \<noteq> None" if "n \<le> length L" for n
  proof -
    have "run cfg (take n L) s \<bind> run cfg (drop n L) = Some t"
      using assms(1) run_append [of cfg "take n L" "drop n L" s] by simp
    then show ?thesis by (cases "run cfg (take n L) s") (simp_all add: map_then_ticks that)
  qed
  have after: "?run (length L + j) = Some (t\<lparr>now := now t + int j\<rparr>)" for j
  proof (induction j)
    case (Suc j)
    then show ?case by (simp add: run_append then_ticks_def step_def)
  qed (use full in simp)
  have some: "?run n = Some (st n)" for n
  proof (cases "n \<le> length L")
    case False
    then show ?thesis using after [of "n - length L"] by (simp add: st_def)
  qed (use prefix in \<open>auto simp: st_def\<close>)
  have late: "st n = t\<lparr>now := now t + int (n - length L)\<rparr>" if "length L \<le> n" for n
    using after [of "n - length L"] some [of n] that by simp
  have "step cfg (then_ticks L n) (st n) = Some (st (Suc n))" for n
    using some [of "Suc n"] some [of n] by (simp add: run_append)
  moreover have "\<exists>m\<ge>n. agent_of (then_ticks L m) = Some a" if "\<forall>m\<ge>n. can_move cfg a (st m)" for a n
  proof -
    let ?m = "max n (length L)"
    have "can_move cfg a (st ?m)" using that by simp
    moreover have "over cfg (st ?m)" using assms(2) late [of ?m] by simp
    ultimately have "a = Clock" using over_stuck unfolding can_move_def by (metis option.distinct(1))
    then show ?thesis by (intro exI [of _ ?m]) (simp add: then_ticks_def)
  qed
  ultimately have "fair_run cfg st (then_ticks L)" by (simp add: fair_run_def)
  moreover have "st 0 = s" "st (length L) = t" using some [of 0] some [of "length L"] full by simp_all
  ultimately show ?thesis by blast
qed

definition demo_end :: "label list" where
  "demo_end = demo_labels @ [Main, Tick, Tick] @ replicate 4 (Thread 0 []) @ [Thread 0 [1]] @ [Thread 0 []] @
     replicate 8 (Thread 1 []) @ [Tick, Tick] @ replicate 6 (Thread 1 []) @ replicate 3 Main"

lemma demo_end_run:
  "map_option (\<lambda>s. (mainp s, thr s 0, thr s 1, child s 0, child s 1)) (run demo_lazy demo_end (init (\<lambda>_ _. 0)))
     = Some (Ended, Finished, Finished, Killed, Killed)"
  by code_simp

lemma demo_end_labels: "then_ticks demo_end n \<noteq> MainFail" "then_ticks demo_end n \<noteq> Spurious i"
proof -
  have "l \<noteq> MainFail \<and> l \<noteq> Spurious i" if "l \<in> set demo_end" for l
    using that by (auto simp: demo_end_def demo_labels_def)
  then show "then_ticks demo_end n \<noteq> MainFail" "then_ticks demo_end n \<noteq> Spurious i"
    unfolding then_ticks_def using nth_mem [of n demo_end] by (auto split: if_splits)
qed

text \<open>
  The read request of \<open>demo_lazy\<close> lets the write request wait; its signal wakes it. The run is fair and has no
  spurious wake-up.
\<close>

theorem partA_answers_everyone_witness:
  "\<exists>st n. fair_run demo_lazy st (then_ticks demo_end) \<and> mainp (st n) = Ended \<and> answered (st n) 0 \<and> answered (st n) 1"
proof -
  let ?es = "[Entry 8 1 ''WRITE'' 0, Entry 9 1 ''COPY'' 0, Entry 7 1 ''READ'' 0, STOP]"
  have prog: "setup_requests insertion_qsort (demo_lazy\<lparr>requests := []\<rparr>) ?es = Some demo_lazy"
    by (simp add: setup_requests_def demo_lazy_def operation_code_def MAX_COUNT_def insertion_qsort_def compareByRequestTime_def wrap32_def)
  have input: "\<forall>e\<in>set ?es. good_entry (cfg_n (demo_lazy\<lparr>requests := []\<rparr>)) e" "1 \<le> cfg_c (demo_lazy\<lparr>requests := []\<rparr>)"
    by (simp_all add: demo_lazy_def good_entry_def REQUEST_TIME_ARRAY_SIZE_def)
  have len: "length (requests demo_lazy) = 2" by (simp add: demo_lazy_def)
  obtain t where t: "run demo_lazy demo_end (init (\<lambda>_ _. 0)) = Some t" "mainp t = Ended" "thr t 0 = Finished" "thr t 1 = Finished"
    "child t 0 = Killed" "child t 1 = Killed"
    using demo_end_run by (cases "run demo_lazy demo_end (init (\<lambda>_ _. 0))") auto
  have "over demo_lazy t" using t(2-6) by (auto simp: over_def len less_Suc_eq numeral_2_eq_2)
  then obtain st where st: "st 0 = init (\<lambda>_ _. 0)" "fair_run demo_lazy st (then_ticks demo_end)"
    using run_then_ticks [OF t(1)] by blast
  have "\<forall>n. then_ticks demo_end n \<noteq> MainFail" "finite {n. \<exists>i. then_ticks demo_end n = Spurious i}"
    by (simp_all add: demo_end_labels)
  from partA_answers_everyone [OF prog qsort_contract_insertion input st this]
  obtain n where "mainp (st n) = Ended" "\<forall>i<2. thr (st n) i = Finished \<and> answered (st n) i" unfolding len by blast
  then show ?thesis using st(2) by (intro exI [of _ st] exI [of _ n]) simp
qed

section \<open>The race of a cancellation\<close>

lemma run_ticks: "run cfg (replicate k Tick) s = Some (s\<lparr>now := now s + int k\<rparr>)"
  by (induction k arbitrary: s) (simp_all add: step_def add.commute)

text \<open>The child has fired: the thread takes the request up all the same.\<close>

lemma take_up:
  assumes "i < length (requests cfg)" "mainp s \<noteq> Aborted" "thr s i = Judging t" "t - requesttime (req cfg i) < cfg_T cfg"
    "child s i = Fired" "\<not> deleted (files s (fidx cfg i))"
  shows "\<exists>s' x. run cfg (replicate 5 (Thread i [])) s = Some s' \<and> thr s' i = Working x \<and> mainp s' = mainp s \<and>
    outp s' = outp s @ [TakenUp i t]"
  using assms by (simp add: eval_nat_numeral step_def process_req_def pa_simps pa_defs)

lemma work_done:
  assumes "i < length (requests cfg)" "mainp s \<noteq> Aborted" "thr s i = Working x"
  shows "\<exists>ls s' w. run cfg ls s = Some s' \<and> outp s' = outp s @ [Completed i w]"
  using assms
  by (intro exI [of _ "replicate (nat (x - now s)) Tick @ [Thread i [], Thread i []]"])
     (simp add: run_append run_ticks step_def process_req_def pa_simps)

text \<open>
  C39. The cancellation and the start of a request are not mutually exclusive: \<open>process_req\<close> reads the time before
  it kills the child. From every state in which a thread has read a time that is early enough, its child is still asleep
  and the file is not deleted, whatever the other threads are at, there is a run in which the user is told that the request was cancelled
  and afterwards that it was taken up and completed.
\<close>

theorem partA_cancelled_and_completed:
  assumes "i < length (requests cfg)" "mainp s \<noteq> Aborted" "thr s i = Judging t" "t - requesttime (req cfg i) < cfg_T cfg"
    "child s i = Armed u" "\<not> deleted (files s (fidx cfg i))"
  shows "\<exists>ls s' w. run cfg ls s = Some s' \<and>
    outp s' = outp s @ [Cancelled i (requesttime (req cfg i) + cfg_T cfg), TakenUp i t, Completed i w]"
proof -
  let ?s1 = "s\<lparr>now := now s + int (nat (u - now s))\<rparr>"
  let ?s2 = "say (Cancelled i (requesttime (req cfg i) + cfg_T cfg)) (?s1\<lparr>child := (child s)(i := Fired)\<rparr>)"
  have 1: "run cfg (replicate (nat (u - now s)) Tick @ [Child i]) s = Some ?s2"
    using assms(1,5) by (simp add: run_append run_ticks step_def bullet_def)
  obtain s3 x where 3: "run cfg (replicate 5 (Thread i [])) ?s2 = Some s3" "thr s3 i = Working x" "mainp s3 = mainp s"
    "outp s3 = outp s @ [Cancelled i (requesttime (req cfg i) + cfg_T cfg), TakenUp i t]"
    using take_up [of i cfg ?s2 t] assms by (auto simp: pa_simps)
  obtain ls s4 w where 4: "run cfg ls s3 = Some s4" "outp s4 = outp s3 @ [Completed i w]"
    using work_done [OF assms(1) _ 3(2)] 3(3) assms(2) by auto
  have "run cfg ((replicate (nat (u - now s)) Tick @ [Child i]) @ replicate 5 (Thread i []) @ ls) s = Some s4"
    using 1 3(1) 4(1) by (simp only: run_append [of cfg "_ @ _"] run_append [of cfg "replicate 5 _"] bind.bind_lunit)
  then show ?thesis using 3(4) 4(2) by auto
qed

definition race_lazy :: config where
  "race_lazy = \<lparr>cfg_r = 1, cfg_w = 1, cfg_d = 1, cfg_n = 1, cfg_c = 1, cfg_T = 2,
     requests = [\<lparr>userid = 7, fileid = 1, operation = 1, requesttime = 0\<rparr>]\<rparr>"

definition race_labels :: "label list" where
  "race_labels = replicate 4 Main @ [Thread 0 [], Tick] @ replicate 6 (Thread 0 [])"

lemma race_run:
  "map_option (\<lambda>s. (thr s 0, child s 0, deleted (files s 0), mainp s)) (run race_lazy race_labels (init (\<lambda>_ _. 0)))
     = Some (Judging 1, Armed 2, False, Looping 1)"
  by code_simp

theorem partA_cancelled_and_completed_witness:
  "\<exists>s ls s' w. reach race_lazy (\<lambda>_ _. 0) s \<and> run race_lazy ls s = Some s' \<and>
     outp s' = outp s @ [Cancelled 0 2, TakenUp 0 1, Completed 0 w]"
proof -
  obtain s where s: "run race_lazy race_labels (init (\<lambda>_ _. 0)) = Some s" "thr s 0 = Judging 1" "child s 0 = Armed 2"
    "\<not> deleted (files s 0)" "mainp s = Looping 1"
    using race_run by (cases "run race_lazy race_labels (init (\<lambda>_ _. 0))") auto
  have f: "0 < length (requests race_lazy)" "fidx race_lazy 0 = 0" "requesttime (req race_lazy 0) = 0" "cfg_T race_lazy = 2"
    by (simp_all add: race_lazy_def fidx_def req_def)
  have "\<exists>ls s' w. run race_lazy ls s = Some s' \<and>
      outp s' = outp s @ [Cancelled 0 (requesttime (req race_lazy 0) + cfg_T race_lazy), TakenUp 0 1, Completed 0 w]"
    by (rule partA_cancelled_and_completed [OF f(1)]) (use s f in simp_all)
  then show ?thesis using run_reach [OF s(1) reach.start] f by auto
qed

end
