(* ===== verification/PartBCount.thy ===== *)
theory PartBCount
  imports PartB
begin

text \<open>
  The count sort of \<^verbatim>\<open>concurrency/partB.c\<close>, which inputs of fewer than
  \<open>LAZY_THRESHOLD\<close> files take, and the entry points \<open>lazy_sort\<close> and \<open>main\<close>.

  The global variables are the record \<open>globals\<close>; a bucket of \<open>global_count\<close> is the record
  \<open>file_count\<close>, its linked list \<open>head\<close> a list. The threads of the counting phase interleave:
  one locked section of \<open>count_local\<close> is one step, and a schedule (a list of thread
  numbers) says whose step comes next; steps the schedule leaves over are made in the order
  of the threads before the join. Each slot of \<open>output\<close> is written by one thread only, so the
  second phase is run thread by thread.

  \<open>seconds\<close> stands for \<open>strptime\<close> followed by \<open>mktime\<close>, which depend on the locale and the
  time zone: a parameter.
\<close>

section \<open>Data\<close>

record file_count =
  frequency :: int
  fileid :: int
  head :: "File list"
  size_fc :: int

record globals =
  files :: "File list"
  total_files :: nat
  sort_column_flag :: int
  max_value :: int
  min_value :: int
  offset :: int
  size_of_new_global_count :: nat
  min_filename :: string
  max_filename :: string
  min_timestamp :: string
  max_timestamp :: string

section \<open>Keys\<close>

definition convert_timestamp_to_seconds :: "(string \<Rightarrow> int) \<Rightarrow> globals \<Rightarrow> string \<Rightarrow> int" where
  "convert_timestamp_to_seconds seconds g ts = wrap32 (seconds ts - seconds (min_timestamp g))"

text \<open>\<open>toupper\<close> in the C locale.\<close>

definition toupper :: "int \<Rightarrow> int" where
  "toupper c = (if 97 \<le> c \<and> c \<le> 122 then c - 32 else c)"

fun convert_to_index_loop :: "nat \<Rightarrow> nat \<Rightarrow> string \<Rightarrow> int \<Rightarrow> int \<Rightarrow> int" where
  "convert_to_index_loop 0 i base26_part len index = index"
| "convert_to_index_loop (Suc n) i base26_part len index =
     (let value = (if int i < len then toupper (of_char (base26_part ! i)) - 65 + 1 else 0)
      in convert_to_index_loop n (i + 1) base26_part len (index * 26 + value))"

definition convert_to_index :: "string \<Rightarrow> int" where
  "convert_to_index filename =
     (let base26_part = drop 4 filename; len = int (length base26_part) - 4
      in convert_to_index_loop 4 0 base26_part len 0)"

definition convert_filename_to_file_index :: "globals \<Rightarrow> string \<Rightarrow> int" where
  "convert_filename_to_file_index g filename =
     convert_to_index filename - convert_to_index (min_filename g)"

section \<open>Minimum and maximum\<close>

definition max_min_step :: "File \<Rightarrow> globals \<Rightarrow> globals" where
  "max_min_step f g =
     (if sort_column_flag g = 0 then
        let g1 = (if libc_strcmp (name f) (min_filename g) < 0 then g\<lparr>min_filename := name f\<rparr> else g)
        in if libc_strcmp (name f) (max_filename g1) > 0 then g1\<lparr>max_filename := name f\<rparr> else g1
      else if sort_column_flag g = 2 then
        let g1 = (if libc_strcmp (timestamp f) (min_timestamp g) < 0 then g\<lparr>min_timestamp := timestamp f\<rparr> else g)
        in if libc_strcmp (timestamp f) (max_timestamp g1) > 0 then g1\<lparr>max_timestamp := timestamp f\<rparr> else g1
      else
        let g1 = (if file_id f > max_value g then g\<lparr>max_value := file_id f\<rparr> else g)
        in if file_id f < min_value g1 then g1\<lparr>min_value := file_id f\<rparr> else g1)"

definition get_max_min_values :: "(string \<Rightarrow> int) \<Rightarrow> globals \<Rightarrow> globals option" where
  "get_max_min_values seconds g = do {
     f \<leftarrow> rd (files g) 0;
     let g1 = g\<lparr>max_value := file_id f, min_value := file_id f,
                min_filename := name f, max_filename := name f,
                min_timestamp := timestamp f, max_timestamp := timestamp f\<rparr>;
     let g2 = fold max_min_step (drop 1 (take (total_files g1) (files g1))) g1;
     let g3 = (if sort_column_flag g2 = 0 then
                 g2\<lparr>min_value := convert_filename_to_file_index g2 (min_filename g2),
                    max_value := convert_filename_to_file_index g2 (max_filename g2)\<rparr>
               else if sort_column_flag g2 = 2 then
                 g2\<lparr>min_value := convert_timestamp_to_seconds seconds g2 (min_timestamp g2),
                    max_value := convert_timestamp_to_seconds seconds g2 (max_timestamp g2)\<rparr>
               else g2);
     Some (g3\<lparr>offset := min_value g3\<rparr>)
   }"

section \<open>Counting\<close>

definition count_index :: "(string \<Rightarrow> int) \<Rightarrow> globals \<Rightarrow> File \<Rightarrow> int" where
  "count_index seconds g f =
     (if sort_column_flag g = 0 then convert_filename_to_file_index g (name f)
      else if sort_column_flag g = 2 then convert_timestamp_to_seconds seconds g (timestamp f)
      else wrap32 (file_id f - min_value g))"

text \<open>One locked section of \<open>count_local\<close>: count the file and push it on its bucket.\<close>

definition count_step ::
  "(string \<Rightarrow> int) \<Rightarrow> globals \<Rightarrow> File \<Rightarrow> file_count list \<Rightarrow> file_count list option"
where
  "count_step seconds g f gc =
     (let index = count_index seconds g f in
      if 0 \<le> index \<and> nat index < length gc
      then Some (gc[nat index := (gc ! nat index)
             \<lparr>frequency := frequency (gc ! nat index) + 1, head := f # head (gc ! nat index)\<rparr>])
      else None)"

fun count_all ::
  "(string \<Rightarrow> int) \<Rightarrow> globals \<Rightarrow> File list \<Rightarrow> file_count list \<Rightarrow> file_count list option"
where
  "count_all seconds g [] gc = Some gc"
| "count_all seconds g (f # fs) gc = count_step seconds g f gc \<bind> count_all seconds g fs"

text \<open>\<open>count_local\<close> for the chunk \<open>start..end\<close>, run by itself.\<close>

definition count_local ::
  "(string \<Rightarrow> int) \<Rightarrow> globals \<Rightarrow> nat \<Rightarrow> nat \<Rightarrow> file_count list \<Rightarrow> file_count list option"
where
  "count_local seconds g start len gc = count_all seconds g (take len (drop start (files g))) gc"

text \<open>
  The threads run together. \<open>qs ! i\<close> is what thread \<open>i\<close> has still to count; the schedule
  names the thread of the next step, and what it leaves over is counted at the end.
\<close>

fun count_threads ::
  "(string \<Rightarrow> int) \<Rightarrow> globals \<Rightarrow> nat list \<Rightarrow> File list list \<Rightarrow> file_count list \<Rightarrow> file_count list option"
where
  "count_threads seconds g [] qs gc = count_all seconds g (concat qs) gc"
| "count_threads seconds g (t # sched) qs gc =
     (if t < length qs
      then (case qs ! t of
              [] \<Rightarrow> count_threads seconds g sched qs gc
            | f # r \<Rightarrow> count_step seconds g f gc \<bind> count_threads seconds g sched (qs[t := r]))
      else count_threads seconds g sched qs gc)"

text \<open>
  \<open>global_count\<close> after \<open>init_global_count\<close>. The bound \<open>max_value - min_value\<close> of the loop and its counter, which
  ends one above it, are C ints: a range that leaves them no room is \<open>None\<close>.
\<close>

definition empty_buckets :: "globals \<Rightarrow> file_count list" where
  "empty_buckets g =
     map (\<lambda>i. \<lparr>frequency = 0,
               fileid = (if sort_column_flag g \<noteq> 0 \<and> sort_column_flag g \<noteq> 1 then int i else 0),
               head = [], size_fc = 0\<rparr>)
       [0..<nat (max_value g - min_value g + 1)]"

definition init_global_count :: "globals \<Rightarrow> file_count list option" where
  "init_global_count g =
     (if int_fits (max_value g - min_value g) \<and> int_fits (max_value g - min_value g + 1)
      then Some (empty_buckets g) else None)"

text \<open>
  The size of the array of buckets, an int: \<open>None\<close> if it overflows. \<^verbatim>\<open>malloc\<close> is taken to succeed. The array has one
  slot more than there are buckets, which is never initialised.
\<close>

definition table_size :: "globals \<Rightarrow> int option" where
  "table_size g =
     (if int_fits (max_value g - min_value g) \<and> int_fits (max_value g - min_value g + 2)
      then Some (max_value g - min_value g + 2) else None)"

section \<open>Chunks\<close>

fun chunck_sizes :: "nat \<Rightarrow> nat \<Rightarrow> nat \<Rightarrow> nat list" where
  "chunck_sizes 0 base_size left_over = []"
| "chunck_sizes (Suc n) base_size left_over =
     (if left_over \<noteq> 0 then (base_size + 1) # chunck_sizes n base_size (left_over - 1)
      else base_size # chunck_sizes n base_size left_over)"

text \<open>The chunks handed out before \<open>elements_covered\<close> reaches \<open>total_files\<close>.\<close>

fun thread_chunks :: "nat \<Rightarrow> nat \<Rightarrow> nat list \<Rightarrow> (nat \<times> nat) list" where
  "thread_chunks n covered [] = []"
| "thread_chunks n covered (c # cs) =
     (covered, c) # (if covered + c = n then [] else thread_chunks n (covered + c) cs)"

section \<open>Output\<close>

fun write_down :: "File list \<Rightarrow> int \<Rightarrow> nat \<Rightarrow> File option list \<Rightarrow> (nat \<times> File option list) option" where
  "write_down [] index elements out = Some (elements, out)"
| "write_down (f # fs) index 0 out = Some (0, out)"
| "write_down (f # fs) index (Suc n) out =
     (if 0 \<le> index \<and> nat index < length out
      then write_down fs (index - 1) n (out[nat index := Some f]) else None)"

text \<open>
  The outer loop of \<open>populate_output\<close> ends, since it leaves the array of buckets
  (\<open>None\<close>) once \<open>s\<close> passes its end.
\<close>

function populate_output ::
  "file_count list \<Rightarrow> nat \<Rightarrow> nat \<Rightarrow> nat \<Rightarrow> nat \<Rightarrow> File option list \<Rightarrow> File option list option"
where
  "populate_output ngc s elements list_offset index_adder out =
     (if elements = 0 then Some out
      else if s < length ngc then do {
        (elements', out') \<leftarrow>
          write_down (drop list_offset (head (ngc ! s)))
            (frequency (ngc ! s) - 1 - int index_adder) elements out;
        populate_output ngc (s + 1) elements' (list_offset - length (head (ngc ! s))) 0 out'
      } else None)"
  by pat_completeness auto
termination
  by (relation "measure (\<lambda>(ngc, s, elements, lo, ia, out). length ngc - s)") auto

declare populate_output.simps [simp del]

text \<open>The main thread's bookkeeping: where the next thread starts.\<close>

function advance :: "file_count list \<Rightarrow> nat \<Rightarrow> int \<Rightarrow> int \<Rightarrow> (nat \<times> int) option" where
  "advance ngc curr_list previous_list_elements_covered chunk =
     (if chunk > 0 then
        if curr_list < length ngc then
          let room = size_fc (ngc ! curr_list) - previous_list_elements_covered in
          if chunk < room then Some (curr_list, previous_list_elements_covered + chunk)
          else advance ngc (curr_list + 1) 0 (chunk - room)
        else None
      else Some (curr_list, previous_list_elements_covered))"
  by pat_completeness auto
termination
  by (relation "measure (\<lambda>(ngc, c, p, k). length ngc - c)") auto

declare advance.simps [simp del]

fun populate_threads ::
  "file_count list \<Rightarrow> nat list \<Rightarrow> nat \<Rightarrow> int \<Rightarrow> File option list \<Rightarrow> File option list option"
where
  "populate_threads ngc [] curr_list prev out = Some out"
| "populate_threads ngc (c # cs) curr_list prev out = do {
     out1 \<leftarrow> populate_output ngc curr_list c (nat prev) (nat prev) out;
     (curr', prev') \<leftarrow> advance ngc curr_list prev (int c);
     populate_threads ngc cs curr' prev' out1
   }"

section \<open>Count sort\<close>

text \<open>The loop that fills \<open>size\<close> and accumulates \<open>frequency\<close> over \<open>new_global_count\<close>.\<close>

fun accumulate :: "int \<Rightarrow> file_count list \<Rightarrow> file_count list" where
  "accumulate before [] = []"
| "accumulate before (b # bs) =
     b\<lparr>size_fc := frequency b, frequency := frequency b + before\<rparr>
       # accumulate (frequency b + before) bs"

text \<open>
  Both count sorts share everything but how the counting threads run: \<open>phase\<close> is that
  phase, given the chunks (start and length) of the threads.
\<close>

definition count_sort_with ::
  "((nat \<times> nat) list \<Rightarrow> globals \<Rightarrow> file_count list \<Rightarrow> file_count list option) \<Rightarrow>
   (string \<Rightarrow> int) \<Rightarrow> globals \<Rightarrow> globals option"
where
  "count_sort_with phase seconds g0 = do {
     g \<leftarrow> get_max_min_values seconds g0;
     _ \<leftarrow> table_size g;
     gc0 \<leftarrow> init_global_count g;
     let chunks = thread_chunks (total_files g) 0
       (chunck_sizes NUM_PROCESSES (total_files g div NUM_PROCESSES) (total_files g mod NUM_PROCESSES));
     gc \<leftarrow> phase chunks g gc0;
     let ngc = filter (\<lambda>b. frequency b \<noteq> 0) gc;
     let size = size_of_new_global_count g + length ngc;
     if size \<noteq> length ngc then None
     else do {
       out \<leftarrow> populate_threads (accumulate 0 ngc) (map snd chunks) 0 0 (replicate (total_files g) None);
       if None \<in> set out then None
       else Some (g\<lparr>files := map the out @ drop (total_files g) (files g), size_of_new_global_count := size\<rparr>)
     }
   }"

definition distributed_count_sort :: "(string \<Rightarrow> int) \<Rightarrow> nat list \<Rightarrow> globals \<Rightarrow> globals option" where
  "distributed_count_sort seconds sched =
     count_sort_with (\<lambda>chunks g.
       count_threads seconds g sched (map (\<lambda>(st, n). take n (drop st (files g))) chunks)) seconds"

fun count_in_turn ::
  "(string \<Rightarrow> int) \<Rightarrow> (nat \<times> nat) list \<Rightarrow> globals \<Rightarrow> file_count list \<Rightarrow> file_count list option"
where
  "count_in_turn seconds [] g gc = Some gc"
| "count_in_turn seconds ((st, n) # cs) g gc =
     count_local seconds g st n gc \<bind> count_in_turn seconds cs g"

definition non_distributed_count_sort :: "(string \<Rightarrow> int) \<Rightarrow> globals \<Rightarrow> globals option" where
  "non_distributed_count_sort seconds = count_sort_with (count_in_turn seconds) seconds"

section \<open>What the counting phase leaves in the buckets\<close>

text \<open>\<open>counted key fs gc\<close>: the files \<open>fs\<close> have been counted, in some order, into \<open>gc\<close>.\<close>

definition counted :: "(File \<Rightarrow> int) \<Rightarrow> File list \<Rightarrow> file_count list \<Rightarrow> bool" where
  "counted key fs gc \<longleftrightarrow>
     (\<forall>j<length gc. frequency (gc ! j) = int (length (head (gc ! j))) \<and>
        mset (head (gc ! j)) = mset (filter (\<lambda>f. key f = int j) fs))"

text \<open>Every file has a bucket.\<close>

definition in_buckets :: "(File \<Rightarrow> int) \<Rightarrow> nat \<Rightarrow> File list \<Rightarrow> bool" where
  "in_buckets key n fs \<longleftrightarrow> (\<forall>f\<in>set fs. 0 \<le> key f \<and> key f < int n)"

lemma counted_mset: "counted key fs gc \<Longrightarrow> mset fs = mset gs \<Longrightarrow> counted key gs gc"
  by (simp add: counted_def mset_filter)

lemma in_buckets_mset: "in_buckets key n fs \<Longrightarrow> mset fs = mset gs \<Longrightarrow> in_buckets key n gs"
  by (metis in_buckets_def set_mset_mset)

lemma in_buckets_simps [simp]:
  "in_buckets key n []"
  "in_buckets key n (f # fs) \<longleftrightarrow> 0 \<le> key f \<and> key f < int n \<and> in_buckets key n fs"
  "in_buckets key n (fs @ gs) \<longleftrightarrow> in_buckets key n fs \<and> in_buckets key n gs"
  by (auto simp: in_buckets_def)

lemma count_step_counted:
  assumes "counted (count_index seconds g) fs gc" "in_buckets (count_index seconds g) (length gc) [f]"
  obtains gc' where "count_step seconds g f gc = Some gc'" "length gc' = length gc"
    "counted (count_index seconds g) (f # fs) gc'"
proof -
  let ?i = "nat (count_index seconds g f)"
  let ?gc' = "gc[?i := (gc ! ?i)\<lparr>frequency := frequency (gc ! ?i) + 1, head := f # head (gc ! ?i)\<rparr>]"
  have "count_step seconds g f gc = Some ?gc'"
    using assms(2) by (auto simp: count_step_def Let_def)
  moreover have "counted (count_index seconds g) (f # fs) ?gc'"
    using assms by (auto simp: counted_def nth_list_update)
  ultimately show ?thesis using that by simp
qed

lemma count_all_counted:
  assumes "counted (count_index seconds g) ds gc" "in_buckets (count_index seconds g) (length gc) fs"
  shows "\<exists>gc'. count_all seconds g fs gc = Some gc' \<and> length gc' = length gc \<and>
    counted (count_index seconds g) (ds @ fs) gc'"
  using assms
proof (induction fs arbitrary: ds gc)
  case (Cons f fs)
  obtain gc1 where gc1: "count_step seconds g f gc = Some gc1" "length gc1 = length gc"
    "counted (count_index seconds g) (f # ds) gc1"
    using count_step_counted [OF Cons(2), of f] Cons(3) by auto
  from Cons.IH [OF gc1(3)] gc1(2) Cons(3)
  obtain gc' where "count_all seconds g fs gc1 = Some gc'" "length gc' = length gc"
    "counted (count_index seconds g) ((f # ds) @ fs) gc'" by auto
  moreover from this(3) have "counted (count_index seconds g) (ds @ f # fs) gc'"
    by (rule counted_mset) simp
  ultimately show ?case using gc1(1) by simp
qed simp

lemma mset_concat_update:
  "t < length qs \<Longrightarrow> qs ! t = f # r \<Longrightarrow> mset (concat qs) = add_mset f (mset (concat (qs[t := r])))"
proof (induction qs arbitrary: t)
  case (Cons q qs)
  then show ?case by (cases t) auto
qed simp

lemma count_threads_counted:
  assumes "counted (count_index seconds g) ds gc" "in_buckets (count_index seconds g) (length gc) (concat qs)"
  shows "\<exists>gc'. count_threads seconds g sched qs gc = Some gc' \<and> length gc' = length gc \<and>
    counted (count_index seconds g) (ds @ concat qs) gc'"
  using assms
proof (induction sched arbitrary: ds qs gc)
  case Nil
  then show ?case using count_all_counted by simp
next
  case (Cons t sched)
  show ?case
  proof (cases "t < length qs \<and> qs ! t \<noteq> []")
    case True
    then obtain f r where fr: "t < length qs" "qs ! t = f # r" by (auto simp: neq_Nil_conv)
    note ms = mset_concat_update [OF fr]
    have ib: "in_buckets (count_index seconds g) (length gc) (f # concat (qs[t := r]))"
      by (rule in_buckets_mset [OF Cons(3)]) (simp add: ms)
    obtain gc1 where gc1: "count_step seconds g f gc = Some gc1" "length gc1 = length gc"
      "counted (count_index seconds g) (f # ds) gc1"
      using count_step_counted [OF Cons(2), of f] ib by auto
    from Cons.IH [OF gc1(3)] gc1(2) ib
    obtain gc' where "count_threads seconds g sched (qs[t := r]) gc1 = Some gc'" "length gc' = length gc"
      "counted (count_index seconds g) ((f # ds) @ concat (qs[t := r])) gc'" by auto
    moreover from this(3) have "counted (count_index seconds g) (ds @ concat qs) gc'"
      by (rule counted_mset) (simp add: ms)
    ultimately show ?thesis using fr gc1(1) by simp
  next
    case False
    then show ?thesis using Cons by auto
  qed
qed

text \<open>Counted one after the other, every bucket holds its files in reverse order.\<close>

definition stacked :: "(File \<Rightarrow> int) \<Rightarrow> File list \<Rightarrow> file_count list \<Rightarrow> bool" where
  "stacked key fs gc \<longleftrightarrow>
     (\<forall>j<length gc. frequency (gc ! j) = int (length (head (gc ! j))) \<and>
        head (gc ! j) = rev (filter (\<lambda>f. key f = int j) fs))"

lemma count_all_stacked:
  assumes "stacked (count_index seconds g) ds gc" "in_buckets (count_index seconds g) (length gc) fs"
  shows "\<exists>gc'. count_all seconds g fs gc = Some gc' \<and> length gc' = length gc \<and>
    stacked (count_index seconds g) (ds @ fs) gc'"
  using assms
proof (induction fs arbitrary: ds gc)
  case (Cons f fs)
  let ?i = "nat (count_index seconds g f)"
  let ?gc1 = "gc[?i := (gc ! ?i)\<lparr>frequency := frequency (gc ! ?i) + 1, head := f # head (gc ! ?i)\<rparr>]"
  have "count_step seconds g f gc = Some ?gc1"
    using Cons(3) by (auto simp: count_step_def Let_def)
  moreover have "stacked (count_index seconds g) (ds @ [f]) ?gc1"
    using Cons(2,3) by (auto simp: stacked_def nth_list_update)
  ultimately show ?case using Cons.IH [of "ds @ [f]" ?gc1] Cons(3) by simp
qed simp

lemma count_all_append:
  "count_all seconds g (fs @ gs) gc = count_all seconds g fs gc \<bind> count_all seconds g gs"
  by (induction fs arbitrary: gc) (auto intro: arg_cong [where f = "Option.bind _"])

lemma count_in_turn_all:
  "count_in_turn seconds cs g gc
     = count_all seconds g (concat (map (\<lambda>(st, n). take n (drop st (files g))) cs)) gc"
proof (induction cs arbitrary: gc)
  case (Cons c cs)
  then show ?case
    by (cases c) (simp add: count_local_def count_all_append cong: Option.bind_cong)
qed simp

section \<open>The output phase lays out the buckets\<close>

text \<open>
  \<open>filled hs k\<close>: the output after the first \<open>k\<close> list elements, bucket by bucket, have been
  written. A bucket fills its slots from the right.
\<close>

fun filled :: "'a list list \<Rightarrow> nat \<Rightarrow> 'a option list" where
  "filled [] k = []"
| "filled (h # hs) k =
     replicate (length h - k) None @ map Some (rev (take k h)) @ filled hs (k - length h)"

lemma filled_0: "filled hs 0 = replicate (sum_list (map length hs)) None"
  by (induction hs) (auto simp: replicate_add)

lemma filled_all: "sum_list (map length hs) \<le> k \<Longrightarrow> filled hs k = map Some (concat (map rev hs))"
  by (induction hs arbitrary: k) auto

lemma write_down_result:
  assumes "p \<le> length h" "index = int (length pre + length h) - 1 - int p"
  shows "write_down (drop p h) index e
      (pre @ replicate (length h - p) None @ map Some (rev (take p h)) @ post)
    = Some (e - (length h - p),
        pre @ replicate (length h - (p + e)) None @ map Some (rev (take (p + e) h)) @ post)"
  using assms
proof (induction e arbitrary: p index)
  case 0
  then show ?case by (cases "drop p h") auto
next
  case (Suc e)
  show ?case
  proof (cases "p = length h")
    case False
    then have p: "p < length h" using Suc by simp
    let ?out = "pre @ replicate (length h - p) None @ map Some (rev (take p h)) @ post"
    have d: "drop p h = h ! p # drop (Suc p) h" using p by (simp add: Cons_nth_drop_Suc)
    have idx: "0 \<le> index" "nat index = length pre + (length h - p - 1)"
      using p Suc(3) by auto
    have r: "replicate (length h - p) None = replicate (length h - Suc p) None @ [None :: 'a option]" for pre
      using p by (metis Suc_diff_Suc replicate_Suc replicate_append_same)
    have upd: "?out[nat index := Some (h ! p)]
        = pre @ replicate (length h - Suc p) None @ map Some (rev (take (Suc p) h)) @ post"
      unfolding idx r using p by (simp add: list_update_append take_Suc_conv_app_nth)
    have "index - 1 = int (length pre + length h) - 1 - int (Suc p)" using Suc(3) by simp
    from Suc.IH [OF _ this] show ?thesis
      unfolding d using p idx upd by simp
  qed (use Suc in auto)
qed

definition sized :: "file_count list \<Rightarrow> bool" where
  "sized bs \<longleftrightarrow> (\<forall>b\<in>set bs. frequency b = int (length (head b)))"

lemma sized_simps [simp]:
  "sized []" "sized (b # bs) \<longleftrightarrow> frequency b = int (length (head b)) \<and> sized bs"
  by (auto simp: sized_def)

lemma populate_output_result:
  assumes "sized bs" "bs \<noteq> [] \<Longrightarrow> p \<le> length (head (hd bs))"
    "p + e \<le> sum_list (map (length \<circ> head) bs)"
  shows "populate_output (us @ accumulate (int (length pre)) bs) (length us) e p p
      (pre @ filled (map head bs) p)
    = Some (pre @ filled (map head bs) (p + e))"
  using assms
proof (induction bs arbitrary: us pre p e)
  case Nil
  then show ?case by (subst populate_output.simps) simp
next
  case (Cons b bs)
  let ?h = "head b"
  let ?ngc = "us @ accumulate (int (length pre)) (b # bs)"
  show ?case
  proof (cases "e = 0")
    case False
    let ?e = "e - (length ?h - p)"
    let ?pre = "pre @ replicate (length ?h - (p + e)) None @ map Some (rev (take (p + e) ?h))"
    have step: "populate_output ?ngc (length us) e p p (pre @ filled (map head (b # bs)) p)
      = populate_output ?ngc (Suc (length us)) ?e 0 0 (?pre @ filled (map head bs) 0)"
      using False Cons(2,3) write_down_result [of p ?h _ pre e "filled (map head bs) (p - length ?h)"]
      by (subst populate_output.simps) (simp add: nth_append add.commute)
    show ?thesis
    proof (cases "?e = 0")
      case True
      then have "p + e - length ?h = 0" using Cons(3) by simp
      with True show ?thesis
        unfolding step by (subst populate_output.simps) simp
    next
      case False
      then have full: "length ?h \<le> p + e" and e: "?e = p + e - length ?h" using Cons(3) by auto
      then have len: "int (length ?pre) = frequency b + int (length pre)" using Cons(2) by simp
      have "populate_output ((us @ [b\<lparr>size_fc := frequency b, frequency := frequency b + int (length pre)\<rparr>])
            @ accumulate (int (length ?pre)) bs)
          (length (us @ [b\<lparr>size_fc := frequency b, frequency := frequency b + int (length pre)\<rparr>])) ?e 0 0
          (?pre @ filled (map head bs) 0) = Some (?pre @ filled (map head bs) (0 + ?e))"
        by (rule Cons.IH) (use Cons(2,4) full in auto)
      then show ?thesis
        unfolding step len using full e by simp
    qed
  qed (subst populate_output.simps, simp)
qed

text \<open>
  The position a thread is told to start at: \<open>us\<close> are the buckets passed, \<open>p\<close> elements of
  the next one are taken.
\<close>

lemma advance_result:
  assumes "sized bs" "p + c \<le> sum_list (map (length \<circ> head) bs)" "bs \<noteq> [] \<Longrightarrow> p \<le> length (head (hd bs))"
  shows "\<exists>us' bs' p' pre'. us @ accumulate (int (length pre)) bs = us' @ accumulate (int (length pre')) bs' \<and>
    advance (us @ accumulate (int (length pre)) bs) (length us) (int p) (int c) = Some (length us', int p') \<and>
    pre @ filled (map head bs) (p + c) = pre' @ filled (map head bs') p' \<and> sized bs' \<and>
    pre @ map Some (concat (map (rev \<circ> head) bs)) = pre' @ map Some (concat (map (rev \<circ> head) bs')) \<and>
    (bs' \<noteq> [] \<longrightarrow> p' \<le> length (head (hd bs'))) \<and>
    p' + (sum_list (map (length \<circ> head) bs) - (p + c)) = sum_list (map (length \<circ> head) bs')"
  using assms
proof (induction bs arbitrary: us pre p c)
  case Nil
  then show ?case by (subst advance.simps) fastforce
next
  case (Cons b bs)
  let ?h = "head b"
  let ?ngc = "us @ accumulate (int (length pre)) (b # bs)"
  let ?room = "length ?h - p"
  consider "c = 0" | "c > 0" "c < ?room" | "c > 0" "\<not> c < ?room" by blast
  then show ?case
  proof cases
    case 1
    then show ?thesis using Cons(2-4)
      by (intro exI [of _ us] exI [of _ "b # bs"] exI [of _ p] exI [of _ pre], subst advance.simps) simp
  next
    case 2
    then show ?thesis using Cons(2-4)
      by (intro exI [of _ us] exI [of _ "b # bs"] exI [of _ "p + c"] exI [of _ pre], subst advance.simps)
         (auto simp: nth_append Let_def)
  next
    case 3
    let ?b = "b\<lparr>size_fc := frequency b, frequency := frequency b + int (length pre)\<rparr>"
    let ?pre = "pre @ map Some (rev ?h)"
    have len: "int (length ?pre) = frequency b + int (length pre)" using Cons(2) by simp
    have ngc: "(us @ [?b]) @ accumulate (int (length ?pre)) bs = ?ngc" unfolding len by simp
    have e1: "advance ?ngc (length us) (int p) (int c) = advance ?ngc (length (us @ [?b])) (int 0) (int (c - ?room))"
      using 3 Cons(2,4) by (subst advance.simps) (auto simp: nth_append Let_def of_nat_diff algebra_simps)
    have e2: "pre @ filled (map head (b # bs)) (p + c) = ?pre @ filled (map head bs) (0 + (c - ?room))"
      using 3 Cons(4) by (simp add: add.commute)
    have e3: "pre @ map Some (concat (map (rev \<circ> head) (b # bs)))
        = ?pre @ map Some (concat (map (rev \<circ> head) bs))" by simp
    have e4: "sum_list (map (length \<circ> head) (b # bs)) - (p + c)
        = sum_list (map (length \<circ> head) bs) - (0 + (c - ?room))"
      using 3 Cons(4) by simp
    show ?thesis
      unfolding e1 e2 e3 e4
      by (rule Cons.IH [of 0 "c - ?room" "us @ [?b]" ?pre, unfolded ngc]) (use Cons(2-4) 3 in auto)
  qed
qed

lemma populate_threads_result:
  assumes "sized bs" "p + sum_list cs = sum_list (map (length \<circ> head) bs)"
    "bs \<noteq> [] \<Longrightarrow> p \<le> length (head (hd bs))"
  shows "populate_threads (us @ accumulate (int (length pre)) bs) cs (length us) (int p)
      (pre @ filled (map head bs) p)
    = Some (pre @ map Some (concat (map (rev \<circ> head) bs)))"
  using assms
proof (induction cs arbitrary: us bs p pre)
  case Nil
  then show ?case by (simp add: filled_all comp_def)
next
  case (Cons c cs)
  let ?ngc = "us @ accumulate (int (length pre)) bs"
  have c: "p + c \<le> sum_list (map (length \<circ> head) bs)" using Cons(3) by (simp flip: Cons(3))
  have out: "populate_output ?ngc (length us) c p p (pre @ filled (map head bs) p)
      = Some (pre @ filled (map head bs) (p + c))"
    by (rule populate_output_result [OF Cons(2,4) c])
  obtain us' bs' p' pre' where adv:
    "?ngc = us' @ accumulate (int (length pre')) bs'"
    "advance ?ngc (length us) (int p) (int c) = Some (length us', int p')"
    "pre @ filled (map head bs) (p + c) = pre' @ filled (map head bs') p'" "sized bs'"
    "pre @ map Some (concat (map (rev \<circ> head) bs)) = pre' @ map Some (concat (map (rev \<circ> head) bs'))"
    "bs' \<noteq> [] \<longrightarrow> p' \<le> length (head (hd bs'))"
    "p' + (sum_list (map (length \<circ> head) bs) - (p + c)) = sum_list (map (length \<circ> head) bs')"
    using advance_result [OF Cons(2) c Cons(4)] by blast
  have "p' + sum_list cs = sum_list (map (length \<circ> head) bs')" 
    unfolding adv(7) [symmetric] Cons(3) [symmetric] by simp
  from Cons.IH [OF adv(4) this] adv(6)
  have "populate_threads ?ngc cs (length us') (int p') (pre' @ filled (map head bs') p')
    = Some (pre' @ map Some (concat (map (rev \<circ> head) bs')))" unfolding adv(1) by blast
  then show ?case using out adv(2,3) unfolding adv(5) by simp
qed

section \<open>The chunks cover the array\<close>

lemma sum_chunck_sizes: "l \<le> n \<Longrightarrow> sum_list (chunck_sizes n b l) = n * b + l"
  by (induction n b l rule: chunck_sizes.induct) auto

lemma sum_thread_chunks:
  "covered + sum_list cs = n \<Longrightarrow> covered + sum_list (map snd (thread_chunks n covered cs)) = n"
  by (induction n covered cs rule: thread_chunks.induct) auto

lemma concat_thread_chunks:
  "covered + sum_list cs = n \<Longrightarrow> n \<le> length fs \<Longrightarrow>
   concat (map (\<lambda>(st, k). take k (drop st fs)) (thread_chunks n covered cs)) = drop covered (take n fs)"
proof (induction n covered cs rule: thread_chunks.induct)
  case (2 n covered c cs)
  have "take c (drop covered fs) @ drop (covered + c) (take n fs) = drop covered (take n fs)"
    using 2(2) by (auto simp: drop_take take_add add.commute)
  then show ?case using 2 by auto
qed simp

abbreviation chunks_of :: "nat \<Rightarrow> (nat \<times> nat) list" where
  "chunks_of n \<equiv> thread_chunks n 0 (chunck_sizes NUM_PROCESSES (n div NUM_PROCESSES) (n mod NUM_PROCESSES))"

lemma chunks_of:
  "sum_list (map snd (chunks_of n)) = n"
  "n \<le> length fs \<Longrightarrow> concat (map (\<lambda>(st, k). take k (drop st fs)) (chunks_of n)) = take n fs"
proof -
  have "n mod NUM_PROCESSES \<le> NUM_PROCESSES"
    by (simp add: NUM_PROCESSES_def less_imp_le)
  then have "0 + sum_list (chunck_sizes NUM_PROCESSES (n div NUM_PROCESSES) (n mod NUM_PROCESSES)) = n"
    by (simp add: sum_chunck_sizes)
  from sum_thread_chunks [OF this] concat_thread_chunks [OF this, of fs]
  show "sum_list (map snd (chunks_of n)) = n"
    "n \<le> length fs \<Longrightarrow> concat (map (\<lambda>(st, k). take k (drop st fs)) (chunks_of n)) = take n fs"
    by simp_all
qed

section \<open>Count sort: the result\<close>

lemma concat_nonempty: "concat (map (rev \<circ> head) (filter (\<lambda>b. head b \<noteq> []) bs)) = concat (map (rev \<circ> head) bs)"
  by (induction bs) auto

text \<open>The range of the keys leaves room for the size of the array.\<close>

definition table_fits :: "globals \<Rightarrow> bool" where
  "table_fits g \<longleftrightarrow> int_fits (max_value g - min_value g) \<and> int_fits (max_value g - min_value g + 2)"

lemma table_fitsD:
  "table_fits g \<Longrightarrow> table_size g = Some (max_value g - min_value g + 2)"
  "table_fits g \<Longrightarrow> init_global_count g = Some (empty_buckets g)"
  by (auto simp: table_fits_def table_size_def init_global_count_def int_fits_def)

lemma count_sort_with_result:
  assumes g: "get_max_min_values seconds g0 = Some g"
    and fit: "table_fits g"
    and gc: "phase (chunks_of (total_files g)) g (empty_buckets g) = Some gc"
    and sz: "sized gc" and n: "sum_list (map (length \<circ> head) gc) = total_files g"
    and z: "size_of_new_global_count g = 0" and l: "length (files g) = total_files g"
  shows "\<exists>k. count_sort_with phase seconds g0
    = Some (g\<lparr>files := concat (map (rev \<circ> head) gc), size_of_new_global_count := k\<rparr>)"
proof -
  let ?ngc = "filter (\<lambda>b. frequency b \<noteq> 0) gc"
  have f: "?ngc = filter (\<lambda>b. head b \<noteq> []) gc"
    using sz by (intro filter_cong) (auto simp: sized_def)
  have cc: "concat (map (rev \<circ> head) ?ngc) = concat (map (rev \<circ> head) gc)"
    unfolding f by (rule concat_nonempty)
  have len: "sum_list (map (length \<circ> head) ?ngc) = total_files g"
    unfolding f n [symmetric] by (induction gc) auto
  have "sized ?ngc" using sz by (simp add: sized_def)
  from populate_threads_result [OF this, of 0 "map snd (chunks_of (total_files g))" "[]" "[]"]
  have "populate_threads (accumulate 0 ?ngc) (map snd (chunks_of (total_files g))) 0 0
      (filled (map head ?ngc) 0) = Some (map Some (concat (map (rev \<circ> head) gc)))"
    unfolding cc by (simp add: chunks_of len)
  moreover have "filled (map head ?ngc) 0 = replicate (total_files g) None"
    unfolding filled_0 len [symmetric] by (simp add: comp_def)
  ultimately show ?thesis
    using g gc z l table_fitsD [OF fit]
    by (intro exI [of _ "length ?ngc"]) (simp add: count_sort_with_def Let_def comp_def)
qed

lemma counted_init: "counted key [] (empty_buckets g)" "stacked key [] (empty_buckets g)"
  by (auto simp: counted_def stacked_def empty_buckets_def)

text \<open>The buckets side by side: a permutation of the files, sorted by key.\<close>

lemma filter_mset_less_Suc:
  fixes key :: "'a \<Rightarrow> int"
  shows "{#x \<in># M. key x < int n#} + {#x \<in># M. key x = int n#} = {#x \<in># M. key x < 1 + int n#}"
  by (induction M) auto

lemma mset_concat_buckets:
  assumes "\<forall>f\<in>set fs. 0 \<le> key f" "\<forall>j<n. mset (h j) = mset (filter (\<lambda>f. key f = int j) fs)"
  shows "mset (concat (map h [0..<n])) = mset (filter (\<lambda>f. key f < int n) fs)"
  using assms(2)
proof (induction n)
  case 0
  have "filter (\<lambda>f. key f < 0) fs = []" using assms(1) by (auto simp: filter_empty_conv)
  then show ?case by simp
qed (simp add: filter_mset_less_Suc)

lemma sorted_concat_buckets:
  assumes "\<forall>j<n. \<forall>f\<in>set (h j). key f = int j"
  shows "sorted (map key (concat (map h [0..<n])))"
  using assms
proof (induction n)
  case (Suc n)
  then have "map key (h n) = replicate (length (h n)) (int n)"
    by (intro replicate_eqI) auto
  moreover have "\<forall>j<n. \<forall>f\<in>set (h j). key f \<le> int n" using Suc(2) by (metis less_SucI less_imp_le of_nat_le_iff)
  ultimately show ?case using Suc by (auto simp: sorted_append)
qed simp

lemma heads_upt: "map (rev \<circ> head) gc = map (\<lambda>j. rev (head (gc ! j))) [0..<length gc]"
  by (rule nth_equalityI) auto

lemma counted_sorts:
  assumes "counted key fs gc" "in_buckets key (length gc) fs"
  shows "mset (concat (map (rev \<circ> head) gc)) = mset fs"
    and "sorted (map key (concat (map (rev \<circ> head) gc)))"
    and "sum_list (map (length \<circ> head) gc) = length fs"
proof -
  have k: "\<forall>f\<in>set fs. 0 \<le> key f" and h: "\<forall>j<length gc. mset (rev (head (gc ! j))) = mset (filter (\<lambda>f. key f = int j) fs)"
    using assms by (auto simp: in_buckets_def counted_def)
  have all: "filter (\<lambda>f. key f < int (length gc)) fs = fs"
    using assms(2) by (auto simp: in_buckets_def)
  show m: "mset (concat (map (rev \<circ> head) gc)) = mset fs"
    unfolding heads_upt using mset_concat_buckets [OF k h] all by simp
  have "\<forall>j<length gc. \<forall>f\<in>set (rev (head (gc ! j))). key f = int j"
    using h by (fastforce dest: mset_eq_setD)
  then show "sorted (map key (concat (map (rev \<circ> head) gc)))"
    unfolding heads_upt by (rule sorted_concat_buckets)
  have "sum_list (map (length \<circ> head) gc) = length (concat (map (rev \<circ> head) gc))"
    by (simp add: length_concat comp_def)
  also have "\<dots> = length fs" using m by (metis size_mset)
  finally show "sum_list (map (length \<circ> head) gc) = length fs" .
qed

lemma stacked_counted: "stacked key fs gc \<Longrightarrow> counted key fs gc"
  by (simp add: counted_def stacked_def)

lemma stacked_sorts:
  assumes "stacked key fs gc" "in_buckets key (length gc) fs"
  shows "concat (map (rev \<circ> head) gc) = sort_key key fs"
proof (rule properties_for_sort_key [symmetric])
  note c = counted_sorts [OF stacked_counted [OF assms(1)] assms(2)]
  show "mset (concat (map (rev \<circ> head) gc)) = mset fs" "sorted (map key (concat (map (rev \<circ> head) gc)))"
    by (fact c)+
  fix k
  assume "k \<in> set (concat (map (rev \<circ> head) gc))"
  then have "k \<in> set fs" using c(1) by (metis set_mset_mset)
  then have i: "nat (key k) < length gc" "0 \<le> key k" using assms(2) by (auto simp: in_buckets_def)
  have "filter (\<lambda>x. key k = key x) (concat (map (\<lambda>j. rev (head (gc ! j))) [0..<n]))
      = (if nat (key k) < n then filter (\<lambda>x. key k = key x) fs else [])" if "n \<le> length gc" for n
    using that
  proof (induction n)
    case (Suc n)
    have "rev (head (gc ! n)) = filter (\<lambda>f. key f = int n) fs"
      using assms(1) Suc by (simp add: stacked_def)
    moreover have "filter (\<lambda>x. key k = key x) (filter (\<lambda>f. key f = int n) fs)
        = (if nat (key k) = n then filter (\<lambda>x. key k = key x) fs else [])"
      using i by (auto simp: filter_empty_conv intro: filter_cong)
    ultimately show ?case using Suc by auto
  qed simp
  from this [of "length gc"] i show "filter (\<lambda>x. key k = key x) (concat (map (rev \<circ> head) gc))
      = filter (\<lambda>x. key k = key x) fs"
    unfolding heads_upt by simp
qed

section \<open>Minimum and maximum are bounds\<close>

text \<open>Later timestamps have later times, and the differences of two times leave room for the size of the table.\<close>

definition seconds_order :: "(string \<Rightarrow> int) \<Rightarrow> File list \<Rightarrow> bool" where
  "seconds_order seconds fs \<longleftrightarrow> (\<forall>f\<in>set fs. \<forall>g\<in>set fs.
     (seconds (timestamp f) \<le> seconds (timestamp g) \<longleftrightarrow> libc_strcmp (timestamp f) (timestamp g) \<le> 0) \<and>
     seconds (timestamp f) - seconds (timestamp g) < 2 ^ 31 - 2)"

text \<open>The differences of two ids leave room for the size of the table.\<close>

definition id_table :: "File list \<Rightarrow> bool" where
  "id_table fs \<longleftrightarrow> (\<forall>f\<in>set fs. \<forall>g\<in>set fs. file_id f - file_id g < 2 ^ 31 - 2)"

lemma id_table_window: "id_table fs \<Longrightarrow> id_window fs"
  by (force simp: id_table_def id_window_def)

lemma fold_max_min_id:
  "sort_column_flag g = 1 \<Longrightarrow> fold max_min_step fs g =
     g\<lparr>max_value := fold max (map file_id fs) (max_value g), min_value := fold min (map file_id fs) (min_value g)\<rparr>"
proof (induction fs arbitrary: g)
  case (Cons f fs)
  have "max_min_step f g = g\<lparr>max_value := max (file_id f) (max_value g), min_value := min (file_id f) (min_value g)\<rparr>"
    using Cons(2) by (cases g) (auto simp: max_min_step_def Let_def max_def min_def)
  then show ?case using Cons by (simp add: Cons.IH)
qed simp

definition tmin :: "string \<Rightarrow> string \<Rightarrow> string" where
  "tmin t m = (if libc_strcmp t m < 0 then t else m)"

definition tmax :: "string \<Rightarrow> string \<Rightarrow> string" where
  "tmax t m = (if libc_strcmp t m > 0 then t else m)"

lemma fold_max_min_timestamp:
  "sort_column_flag g = 2 \<Longrightarrow> fold max_min_step fs g =
     g\<lparr>min_timestamp := fold tmin (map timestamp fs) (min_timestamp g),
       max_timestamp := fold tmax (map timestamp fs) (max_timestamp g)\<rparr>"
proof (induction fs arbitrary: g)
  case (Cons f fs)
  have "max_min_step f g = g\<lparr>min_timestamp := tmin (timestamp f) (min_timestamp g), max_timestamp := tmax (timestamp f) (max_timestamp g)\<rparr>"
    using Cons(2) by (cases g) (auto simp: max_min_step_def Let_def tmin_def tmax_def)
  then show ?case using Cons by (simp add: Cons.IH)
qed simp

lemma fold_tmin:
  "fold tmin ts t \<in> set (t # ts) \<and> (\<forall>u\<in>set (t # ts). strkey (fold tmin ts t) \<le> strkey u)"
proof (induction ts arbitrary: t)
  case (Cons u ts)
  have "strkey (tmin u t) \<le> strkey u" "strkey (tmin u t) \<le> strkey t" "tmin u t = u \<or> tmin u t = t"
    using libc_strcmp_le_iff [of u t] libc_strcmp_le_iff [of t u] libc_strcmp_swap [of u t]
    by (auto simp: tmin_def)
  with Cons [of "tmin u t"] show ?case by (auto intro: order_trans)
qed simp

lemma fold_tmax:
  "fold tmax ts t \<in> set (t # ts) \<and> (\<forall>u\<in>set (t # ts). strkey u \<le> strkey (fold tmax ts t))"
proof (induction ts arbitrary: t)
  case (Cons u ts)
  have "strkey u \<le> strkey (tmax u t)" "strkey t \<le> strkey (tmax u t)" "tmax u t = u \<or> tmax u t = t"
    using libc_strcmp_le_iff [of u t] libc_strcmp_le_iff [of t u] libc_strcmp_swap [of u t]
    by (auto simp: tmax_def)
  with Cons [of "tmax u t"] show ?case by (auto intro: order_trans)
qed simp

lemma fold_max_min:
  fixes xs :: "int list"
  shows "fold max xs x \<in> set (x # xs)" "\<forall>y\<in>set (x # xs). y \<le> fold max xs x"
    "fold min xs x \<in> set (x # xs)" "\<forall>y\<in>set (x # xs). fold min xs x \<le> y"
  by (simp_all add: Max.set_eq_fold [symmetric] Min.set_eq_fold [symmetric] Max_in [of "set (x # xs)"] Min_in [of "set (x # xs)"]
      del: list.set)

lemma length_empty_buckets [simp]:
  "length (empty_buckets g) = nat (max_value g - min_value g + 1)"
  by (simp add: empty_buckets_def)

text \<open>The globals before a sort: all the files of the array take part, nothing is counted.\<close>

definition ready :: "globals \<Rightarrow> bool" where
  "ready g \<longleftrightarrow> files g \<noteq> [] \<and> total_files g = length (files g) \<and> size_of_new_global_count g = 0"

text \<open>The globals that \<open>get_max_min_values\<close> leaves, with a table that fits.\<close>

definition prepared :: "(string \<Rightarrow> int) \<Rightarrow> globals \<Rightarrow> globals \<Rightarrow> bool" where
  "prepared seconds g g' \<longleftrightarrow>
     get_max_min_values seconds g = Some g' \<and> files g' = files g \<and> ready g' \<and> table_fits g'"

lemma preparedD:
  assumes "prepared seconds g g'"
  shows "get_max_min_values seconds g = Some g'" "files g' = files g" "ready g'" "table_fits g'"
  using assms by (simp_all add: prepared_def)

lemma get_max_min_id:
  assumes "ready g" "sort_column_flag g = 1" "id_table (files g)"
  obtains g' where "prepared seconds g g'"
    "in_buckets (count_index seconds g') (length (empty_buckets g')) (files g)"
    "\<forall>f\<in>set (files g). count_index seconds g' f = file_id f - min_value g'"
proof -
  obtain f fs where fs: "files g = f # fs" using assms(1) by (auto simp: ready_def neq_Nil_conv)
  let ?mx = "fold max (map file_id fs) (file_id f)" and ?mn = "fold min (map file_id fs) (file_id f)"
  let ?g = "g\<lparr>max_value := ?mx, min_value := ?mn, min_filename := name f, max_filename := name f,
     min_timestamp := timestamp f, max_timestamp := timestamp f, offset := ?mn\<rparr>"
  have g': "get_max_min_values seconds g = Some ?g"
    using assms(1,2) fs by (simp add: get_max_min_values_def rd_def ready_def fold_max_min_id)
  have "?mn \<in> file_id ` set (files g)" using fold_max_min(3) [where xs = "map file_id fs" and x = "file_id f"] fs by auto
  then obtain m where m: "m \<in> set (files g)" "?mn = file_id m" by blast
  have "?mx \<in> file_id ` set (files g)" using fold_max_min(1) [where xs = "map file_id fs" and x = "file_id f"] fs by auto
  then have room: "?mx - ?mn < 2 ^ 31 - 2" using assms(3) m by (auto simp: id_table_def)
  have idx: "count_index seconds ?g h = file_id h - ?mn" if "h \<in> set (files g)" for h
    using id_window_diff [OF id_table_window [OF assms(3)] that m(1)] assms(2) unfolding m(2) [symmetric] by (simp add: count_index_def)
  have bnd: "?mn \<le> file_id h \<and> file_id h \<le> ?mx" if "h \<in> set (files g)" for h
    using that fs fold_max_min(2,4) [where xs = "map file_id fs" and x = "file_id f"] by auto
  have "in_buckets (count_index seconds ?g) (length (empty_buckets ?g)) (files g)"
    unfolding in_buckets_def
  proof
    fix h
    assume h: "h \<in> set (files g)"
    show "0 \<le> count_index seconds ?g h \<and> count_index seconds ?g h < int (length (empty_buckets ?g))"
      unfolding idx [OF h] using bnd [OF h] by simp
  qed
  moreover have "table_fits ?g"
    using room bnd [of f] fs by (simp add: table_fits_def int_fits_def)
  ultimately show ?thesis using that [of ?g] g' idx assms(1) by (simp add: prepared_def ready_def)
qed

lemma get_max_min_timestamp:
  assumes "ready g" "sort_column_flag g = 2" "seconds_order seconds (files g)"
  obtains g' where "prepared seconds g g'"
    "in_buckets (count_index seconds g') (length (empty_buckets g')) (files g)"
    "\<forall>f\<in>set (files g). count_index seconds g' f = seconds (timestamp f) - seconds (min_timestamp g')"
proof -
  obtain f fs where fs: "files g = f # fs" using assms(1) by (auto simp: ready_def neq_Nil_conv)
  let ?mn = "fold tmin (map timestamp fs) (timestamp f)" and ?mx = "fold tmax (map timestamp fs) (timestamp f)"
  let ?w = "wrap32 (seconds ?mn - seconds ?mn)"
  let ?g = "g\<lparr>max_value := wrap32 (seconds ?mx - seconds ?mn), min_value := ?w, min_filename := name f, max_filename := name f,
     min_timestamp := ?mn, max_timestamp := ?mx, offset := ?w\<rparr>"
  have g': "get_max_min_values seconds g = Some ?g"
    using assms(1,2) fs
    by (simp add: get_max_min_values_def rd_def ready_def fold_max_min_timestamp convert_timestamp_to_seconds_def)
  have "?mn \<in> timestamp ` set (files g)" "?mx \<in> timestamp ` set (files g)"
    using fold_tmin [of "map timestamp fs" "timestamp f"] fold_tmax [of "map timestamp fs" "timestamp f"] fs by auto
  then obtain m x where m: "m \<in> set (files g)" "?mn = timestamp m" and x: "x \<in> set (files g)" "?mx = timestamp x"
    by blast
  have w: "wrap32 (seconds (timestamp h) - seconds (timestamp k)) = seconds (timestamp h) - seconds (timestamp k)"
    if "h \<in> set (files g)" "k \<in> set (files g)" for h k
  proof (rule wrap32_id)
    have "seconds (timestamp h) - seconds (timestamp k) < 2 ^ 31 - 2" "seconds (timestamp k) - seconds (timestamp h) < 2 ^ 31 - 2"
      using assms(3) that by (simp_all add: seconds_order_def)
    then show "- (2 ^ 31) \<le> seconds (timestamp h) - seconds (timestamp k)"
      "seconds (timestamp h) - seconds (timestamp k) < 2 ^ 31" by linarith+
  qed
  have idx: "count_index seconds ?g h = seconds (timestamp h) - seconds ?mn" if "h \<in> set (files g)" for h
    using w [OF that m(1)] assms(2) unfolding m(2) [symmetric]
    by (simp add: count_index_def convert_timestamp_to_seconds_def)
  have bnd: "seconds ?mn \<le> seconds (timestamp h) \<and> seconds (timestamp h) \<le> seconds ?mx" if "h \<in> set (files g)" for h
    using that fs fold_tmin [of "map timestamp fs" "timestamp f"] fold_tmax [of "map timestamp fs" "timestamp f"]
      assms(3) m x by (auto simp: seconds_order_def libc_strcmp_le_iff)
  have "in_buckets (count_index seconds ?g) (length (empty_buckets ?g)) (files g)"
    unfolding in_buckets_def
  proof
    fix h
    assume h: "h \<in> set (files g)"
    show "0 \<le> count_index seconds ?g h \<and> count_index seconds ?g h < int (length (empty_buckets ?g))"
      unfolding idx [OF h] using bnd [OF h] w [OF x(1) m(1)] w [OF m(1) m(1)] x(2) m(2) by simp
  qed
  moreover have "table_fits ?g"
  proof -
    have "seconds (timestamp x) - seconds (timestamp m) < 2 ^ 31 - 2" using assms(3) m(1) x(1) by (simp add: seconds_order_def)
    then show ?thesis
      using w [OF x(1) m(1)] w [OF m(1) m(1)] bnd [OF x(1)] x(2) m(2) by (simp add: table_fits_def int_fits_def)
  qed
  ultimately show ?thesis using that [of ?g] g' idx assms(1) by (simp add: prepared_def ready_def)
qed

section \<open>Count sort sorts\<close>

text \<open>What a sort by id or by timestamp needs of its input.\<close>

definition sortable :: "(string \<Rightarrow> int) \<Rightarrow> int \<Rightarrow> File list \<Rightarrow> bool" where
  "sortable seconds w fs \<longleftrightarrow>
     (w = 1 \<and> id_table fs) \<or> (w = 2 \<and> seconds_order seconds fs)"

lemma get_max_min_sortable:
  assumes "ready g" "sortable seconds (sort_column_flag g) (files g)"
  obtains g' where "prepared seconds g g'"
    "in_buckets (count_index seconds g') (length (empty_buckets g')) (files g)"
    "\<forall>f\<in>set (files g). \<forall>h\<in>set (files g).
       count_index seconds g' f \<le> count_index seconds g' h
         \<longleftrightarrow> column (sort_column_flag g) f \<le> column (sort_column_flag g) h"
proof -
  consider "sort_column_flag g = 1" "id_table (files g)"
    | "sort_column_flag g = 2" "seconds_order seconds (files g)"
    using assms(2) by (auto simp: sortable_def)
  then show thesis
  proof cases
    case 1
    obtain g' where g': "prepared seconds g g'"
      "in_buckets (count_index seconds g') (length (empty_buckets g')) (files g)"
      "\<forall>f\<in>set (files g). count_index seconds g' f = file_id f - min_value g'"
      by (rule get_max_min_id [OF assms(1) 1])
    show thesis
      by (rule that [OF g'(1,2)]) (use g'(3) 1 in \<open>auto simp: column_def\<close>)
  next
    case 2
    obtain g' where g': "prepared seconds g g'"
      "in_buckets (count_index seconds g') (length (empty_buckets g')) (files g)"
      "\<forall>f\<in>set (files g). count_index seconds g' f = seconds (timestamp f) - seconds (min_timestamp g')"
      by (rule get_max_min_timestamp [OF assms(1) 2])
    show thesis
      by (rule that [OF g'(1,2)])
         (use g'(3) 2 in \<open>simp add: column_def seconds_order_def libc_strcmp_le_iff\<close>)
  qed
qed

lemma sorted_map_mono:
  assumes "sorted (map k xs)" "\<And>f h. f \<in> set xs \<Longrightarrow> h \<in> set xs \<Longrightarrow> k f \<le> k h \<Longrightarrow> c f \<le> c h"
  shows "sorted (map c xs)"
  using assms by (auto simp: sorted_map elim!: sorted_wrt_mono_rel [rotated])

lemma sized_counted: "counted key fs gc \<Longrightarrow> sized gc"
  by (auto simp: counted_def sized_def in_set_conv_nth)

text \<open>The count sorts with every file in a bucket: sorted by the index of the bucket.\<close>

lemma distributed_buckets:
  assumes "prepared seconds g g1" and ib: "in_buckets (count_index seconds g1) (length (empty_buckets g1)) (files g)"
  shows "\<exists>g'. distributed_count_sort seconds sched g = Some g' \<and>
    mset (files g') = mset (files g) \<and> sorted (map (count_index seconds g1) (files g'))"
proof -
  note g1 = preparedD [OF assms(1)]
  let ?qs = "map (\<lambda>(st, n). take n (drop st (files g1))) (chunks_of (total_files g1))"
  have qs: "concat ?qs = files g"
    using chunks_of(2) [of "total_files g1" "files g1"] g1(2,3) by (simp add: ready_def)
  obtain gc where gc: "count_threads seconds g1 sched ?qs (empty_buckets g1) = Some gc"
    "length gc = length (empty_buckets g1)" "counted (count_index seconds g1) (files g) gc"
    using count_threads_counted [OF counted_init(1), of seconds g1 g1 ?qs sched] ib unfolding qs by auto
  note srt = counted_sorts [OF gc(3) ib [folded gc(2)]]
  have n: "sum_list (map (length \<circ> head) gc) = total_files g1" "size_of_new_global_count g1 = 0"
    "length (files g1) = total_files g1"
    using srt(3) g1(2,3) by (simp_all only: ready_def)
  obtain k where "distributed_count_sort seconds sched g
      = Some (g1\<lparr>files := concat (map (rev \<circ> head) gc), size_of_new_global_count := k\<rparr>)"
    unfolding distributed_count_sort_def
    using count_sort_with_result [where phase = "\<lambda>chunks g. count_threads seconds g sched
        (map (\<lambda>(st, n). take n (drop st (files g))) chunks)", OF g1(1,4) gc(1) sized_counted [OF gc(3)] n]
    by blast
  then show ?thesis using srt(1,2) by auto
qed

lemma distributed_count_sort_result:
  assumes "ready g" "sortable seconds (sort_column_flag g) (files g)"
  shows "\<exists>g'. distributed_count_sort seconds sched g = Some g' \<and>
    mset (files g') = mset (files g) \<and> sorted (map (column (sort_column_flag g)) (files g'))"
proof -
  obtain g1 where g1: "prepared seconds g g1"
    and ib: "in_buckets (count_index seconds g1) (length (empty_buckets g1)) (files g)"
    and le: "\<forall>f\<in>set (files g). \<forall>h\<in>set (files g).
       count_index seconds g1 f \<le> count_index seconds g1 h
         \<longleftrightarrow> column (sort_column_flag g) f \<le> column (sort_column_flag g) h"
    by (rule get_max_min_sortable [OF assms])
  obtain g' where g': "distributed_count_sort seconds sched g = Some g'" "mset (files g') = mset (files g)"
    "sorted (map (count_index seconds g1) (files g'))"
    using distributed_buckets [OF g1 ib] by blast
  moreover have "sorted (map (column (sort_column_flag g)) (files g'))"
    by (rule sorted_map_mono [OF g'(3)]) (use le g'(2) in \<open>metis set_mset_mset\<close>)
  ultimately show ?thesis by blast
qed

lemma sort_key_cong_order:
  fixes k :: "'a \<Rightarrow> 'b::linorder" and c :: "'a \<Rightarrow> 'c::linorder"
  assumes "\<And>f h. f \<in> set xs \<Longrightarrow> h \<in> set xs \<Longrightarrow> k f \<le> k h \<longleftrightarrow> c f \<le> c h"
  shows "sort_key k xs = sort_key c xs"
proof (rule properties_for_sort_key [symmetric])
  show "sorted (map c (sort_key k xs))"
    by (rule sorted_map_mono [of k]) (use assms in auto)
  fix y
  assume "y \<in> set (sort_key k xs)"
  then have "filter (\<lambda>x. c y = c x) ys = filter (\<lambda>x. k y = k x) ys" if "set ys = set xs" for ys
    using assms that by (intro filter_cong) (auto simp: order_eq_iff)
  then show "filter (\<lambda>x. c y = c x) (sort_key k xs) = filter (\<lambda>x. c y = c x) xs"
    by (simp add: filter_sort_key)
qed simp

lemma non_distributed_buckets:
  assumes "prepared seconds g g1" and ib: "in_buckets (count_index seconds g1) (length (empty_buckets g1)) (files g)"
  shows "\<exists>g'. non_distributed_count_sort seconds g = Some g' \<and>
    files g' = sort_key (count_index seconds g1) (files g)"
proof -
  note g1 = preparedD [OF assms(1)]
  have qs: "concat (map (\<lambda>(st, n). take n (drop st (files g1))) (chunks_of (total_files g1))) = files g"
    using chunks_of(2) [of "total_files g1" "files g1"] g1(2,3) by (simp add: ready_def)
  obtain gc where gc: "count_in_turn seconds (chunks_of (total_files g1)) g1 (empty_buckets g1) = Some gc"
    "length gc = length (empty_buckets g1)" "stacked (count_index seconds g1) (files g) gc"
    using count_all_stacked [OF counted_init(2), of seconds g1 g1 "files g"] ib
    unfolding count_in_turn_all qs by auto
  note srt = counted_sorts [OF stacked_counted [OF gc(3)] ib [folded gc(2)]]
  have n: "sum_list (map (length \<circ> head) gc) = total_files g1" "size_of_new_global_count g1 = 0"
    "length (files g1) = total_files g1"
    using srt(3) g1(2,3) by (simp_all only: ready_def)
  obtain k where "non_distributed_count_sort seconds g
      = Some (g1\<lparr>files := concat (map (rev \<circ> head) gc), size_of_new_global_count := k\<rparr>)"
    unfolding non_distributed_count_sort_def
    using count_sort_with_result [where phase = "count_in_turn seconds", OF g1(1,4) gc(1)
        sized_counted [OF stacked_counted [OF gc(3)]] n]
    by blast
  then show ?thesis using stacked_sorts [OF gc(3) ib [folded gc(2)]] by auto
qed

lemma non_distributed_count_sort_result:
  assumes "ready g" "sortable seconds (sort_column_flag g) (files g)"
  shows "\<exists>g'. non_distributed_count_sort seconds g = Some g' \<and>
    files g' = sort_key (column (sort_column_flag g)) (files g)"
proof -
  obtain g1 where g1: "prepared seconds g g1"
    and ib: "in_buckets (count_index seconds g1) (length (empty_buckets g1)) (files g)"
    and le: "\<forall>f\<in>set (files g). \<forall>h\<in>set (files g).
       count_index seconds g1 f \<le> count_index seconds g1 h
         \<longleftrightarrow> column (sort_column_flag g) f \<le> column (sort_column_flag g) h"
    by (rule get_max_min_sortable [OF assms])
  have "sort_key (count_index seconds g1) (files g) = sort_key (column (sort_column_flag g)) (files g)"
    by (rule sort_key_cong_order) (use le in blast)
  then show ?thesis using non_distributed_buckets [OF g1 ib] by simp
qed

section \<open>The entry points\<close>

definition lazy_sort ::
  "qsort_fun \<Rightarrow> (nat \<Rightarrow> nat \<Rightarrow> bool) \<Rightarrow> (string \<Rightarrow> int) \<Rightarrow> nat list \<Rightarrow> int \<Rightarrow> globals \<Rightarrow> globals option"
where
  "lazy_sort qsort left_first seconds sched sort_way g =
     (if total_files g < LAZY_THRESHOLD then distributed_count_sort seconds sched g
      else if total_files g = 1 then Some g
      else do {
        fs \<leftarrow> merge_sort qsort left_first (sort_column_flag g) 0 (total_files g - 1) 0
               MAX_LEVEL_MERGE_SORT sort_way (files g);
        Some (g\<lparr>files := fs\<rparr>)
      })"

definition check_data :: "int \<Rightarrow> nat \<Rightarrow> File list \<Rightarrow> File list \<Rightarrow> string" where
  "check_data flag n fs testfiles =
     (if \<forall>i<n. (if flag = 0 then libc_strcmp (timestamp (fs ! i)) (timestamp (testfiles ! i)) = 0
                else if flag = 2 then libc_strcmp (name (fs ! i)) (name (testfiles ! i)) = 0
                else file_id (fs ! i) = file_id (testfiles ! i))
      then ''yes'' else ''no'')"

text \<open>
  \<open>main\<close> over what \<open>fscanf\<close> reads from input.txt: the number of files, the records and the
  sort column; \<open>None\<close> for a file that cannot be opened. The result is the message printed
  before exit code 1, or the column and the records printed on success. Fewer records than
  announced leave the array uninitialised.
\<close>

datatype main_result = Failed string | Printed string "File list"

definition initial_globals :: "File list \<Rightarrow> nat \<Rightarrow> int \<Rightarrow> globals" where
  "initial_globals fs n flag =
     \<lparr>files = fs, total_files = n, sort_column_flag = flag, max_value = 0, min_value = 0, offset = 0,
      size_of_new_global_count = 0, min_filename = [], max_filename = [], min_timestamp = [], max_timestamp = []\<rparr>"

definition flag_of_column :: "string \<Rightarrow> int" where
  "flag_of_column sort_column =
     (if sort_column = ''ID'' then 1 else if sort_column = ''TIMESTAMP'' then 2
      else if sort_column = ''NAME'' then 0 else 1)"

definition main_sort ::
  "qsort_fun \<Rightarrow> (nat \<Rightarrow> nat \<Rightarrow> bool) \<Rightarrow> (string \<Rightarrow> int) \<Rightarrow> nat list \<Rightarrow>
   (int \<times> File list \<times> string) option \<Rightarrow> main_result option"
where
  "main_sort qsort left_first seconds sched input =
     (case input of
        None \<Rightarrow> Some (Failed ''Error: Unable to open input file'')
      | Some (n, fs, sort_column) \<Rightarrow>
          if n \<le> 0 \<or> n > MAX_FILES then Some (Failed ''Invalid number of files'')
          else if length fs < nat n then None
          else do {
            g \<leftarrow> lazy_sort qsort left_first seconds sched (flag_of_column sort_column)
                   (initial_globals (take (nat n) fs) (nat n) (flag_of_column sort_column));
            Some (Printed sort_column (files g))
          })"

lemma lazy_sort_large:
  assumes "LAZY_THRESHOLD \<le> length (files g)" "total_files g = length (files g)" "is_way (sort_column_flag g)"
    "qsort_contract qsort" "id_window (files g)"
  shows "\<exists>g'. lazy_sort qsort lf seconds sched (sort_column_flag g) g = Some g' \<and>
    mset (files g') = mset (files g) \<and> sorted (map (column (sort_column_flag g)) (files g'))"
proof -
  let ?n = "length (files g) - 1"
  have n: "\<not> total_files g < LAZY_THRESHOLD" "total_files g \<noteq> 1" "?n < length (files g)"
    using assms(1,2) by (simp_all add: LAZY_THRESHOLD_def)
  obtain zs where zs: "merge_sort qsort lf (sort_column_flag g) 0 ?n 0 MAX_LEVEL_MERGE_SORT (sort_column_flag g) (files g)
      = Some (put_slice (files g) 0 ?n zs)" "mset zs = mset (slice (files g) 0 ?n)"
      "sorted (map (column (sort_column_flag g)) zs)"
    using merge_sort_range [OF assms(3,4,5), of 0 ?n] n(3) by blast
  have "put_slice (files g) 0 ?n zs = zs" "slice (files g) 0 ?n = files g"
    using n(3) by (simp_all add: put_slice_def slice_def)
  then show ?thesis using zs n assms(2) by (simp add: lazy_sort_def)
qed

lemma lazy_sort_small:
  assumes "length (files g) < LAZY_THRESHOLD" "ready g" "sortable seconds (sort_column_flag g) (files g)"
  shows "\<exists>g'. lazy_sort qsort lf seconds sched w g = Some g' \<and>
    mset (files g') = mset (files g) \<and> sorted (map (column (sort_column_flag g)) (files g'))"
  using distributed_count_sort_result [OF assms(2,3)] assms(1,2) by (simp add: lazy_sort_def ready_def)

end
