(* ===== verification/PartBName.thy ===== *)
theory PartBName
  imports PartBCount
begin

text \<open>
  The count sort of \<^verbatim>\<open>concurrency/partB.c\<close> by name. The smallest and the largest name are found with the
  case-sensitive \<^verbatim>\<open>strcmp\<close>, the buckets are numbered by \<open>convert_to_index\<close>, which ignores case and looks at four
  characters: the lemmas show what the sort does when the two orders agree on the extreme names, and that it leaves
  its array when they do not.
\<close>

section \<open>Counting outside the array\<close>

lemma count_step_None: "count_step seconds g f gc = None \<longleftrightarrow> \<not> in_buckets (count_index seconds g) (length gc) [f]"
  by (auto simp: count_step_def Let_def)

lemma count_step_length: "count_step seconds g f gc = Some gc' \<Longrightarrow> length gc' = length gc"
  by (auto simp: count_step_def Let_def split: if_splits)

text \<open>The counting reaches a file whose index is outside the array.\<close>

lemma count_all_leaves:
  assumes "\<not> in_buckets (count_index seconds g) (length gc) fs"
  shows "\<exists>fs1 f fs2 gc'. fs = fs1 @ f # fs2 \<and> count_all seconds g fs1 gc = Some gc' \<and> length gc' = length gc \<and>
    (count_index seconds g f < 0 \<or> int (length gc) \<le> count_index seconds g f)"
  using assms
proof (induction fs arbitrary: gc)
  case (Cons f fs)
  show ?case
  proof (cases "count_step seconds g f gc")
    case None
    then show ?thesis
      by (intro exI [of _ "[]"] exI [of _ f] exI [of _ fs] exI [of _ gc]) (auto simp: count_step_None)
  next
    case (Some gc1)
    have len: "length gc1 = length gc" by (rule count_step_length [OF Some])
    have "in_buckets (count_index seconds g) (length gc) [f]" using Some count_step_None by (metis option.distinct(1))
    then have "\<not> in_buckets (count_index seconds g) (length gc1) fs" using Cons.prems len by simp
    then obtain fs1 h fs2 gc' where "fs = fs1 @ h # fs2" "count_all seconds g fs1 gc1 = Some gc'" "length gc' = length gc1"
      "count_index seconds g h < 0 \<or> int (length gc1) \<le> count_index seconds g h"
      using Cons.IH by blast
    then show ?thesis
      using Some len by (intro exI [of _ "f # fs1"] exI [of _ h] exI [of _ fs2] exI [of _ gc']) simp
  qed
qed simp

lemma count_all_None:
  assumes "\<not> in_buckets (count_index seconds g) (length gc) fs"
  shows "count_all seconds g fs gc = None"
proof -
  obtain fs1 f fs2 gc' where l: "fs = fs1 @ f # fs2" "count_all seconds g fs1 gc = Some gc'" "length gc' = length gc"
    "count_index seconds g f < 0 \<or> int (length gc) \<le> count_index seconds g f"
    using count_all_leaves [OF assms] by blast
  then have "count_step seconds g f gc' = None" by (auto simp: count_step_None)
  then show ?thesis using l(1,2) by (simp add: count_all_append)
qed

lemma count_threads_None:
  assumes "\<not> in_buckets (count_index seconds g) (length gc) (concat qs)"
  shows "count_threads seconds g sched qs gc = None"
  using assms
proof (induction sched arbitrary: qs gc)
  case Nil
  then show ?case using count_all_None by simp
next
  case (Cons t sched)
  show ?case
  proof (cases "t < length qs \<and> qs ! t \<noteq> []")
    case True
    then obtain f r where fr: "t < length qs" "qs ! t = f # r" by (auto simp: neq_Nil_conv)
    have n: "\<not> in_buckets (count_index seconds g) (length gc) (f # concat (qs[t := r]))"
      using Cons.prems in_buckets_mset [of "count_index seconds g" "length gc" "f # concat (qs[t := r])" "concat qs"]
        mset_concat_update [OF fr] by auto
    show ?thesis
    proof (cases "count_step seconds g f gc")
      case (Some gc1)
      have "in_buckets (count_index seconds g) (length gc) [f]" using Some count_step_None by (metis option.distinct(1))
      then have "\<not> in_buckets (count_index seconds g) (length gc1) (concat (qs[t := r]))"
        using n count_step_length [OF Some] by simp
      then show ?thesis using fr Some Cons.IH by simp
    qed (use fr in simp)
  next
    case False
    then show ?thesis using Cons by auto
  qed
qed

lemma count_sorts_None:
  assumes "prepared seconds g g1" "\<not> in_buckets (count_index seconds g1) (length (empty_buckets g1)) (files g)"
  shows "distributed_count_sort seconds sched g = None" "non_distributed_count_sort seconds g = None"
proof -
  note g1 = preparedD [OF assms(1)]
  have qs: "concat (map (\<lambda>(st, n). take n (drop st (files g1))) (chunks_of (total_files g1))) = files g"
    using chunks_of(2) [of "total_files g1" "files g1"] g1(2,3) by (simp add: ready_def)
  show "distributed_count_sort seconds sched g = None"
    unfolding distributed_count_sort_def count_sort_with_def
    using g1(1) table_fitsD [OF g1(4)] count_threads_None assms(2) qs by simp
  show "non_distributed_count_sort seconds g = None"
    unfolding non_distributed_count_sort_def count_sort_with_def count_in_turn_all
    using g1(1) table_fitsD [OF g1(4)] count_all_None assms(2) qs by simp
qed

section \<open>The extreme names\<close>

text \<open>Names as the program expects them: at least four ASCII characters.\<close>

definition plain_names :: "File list \<Rightarrow> bool" where
  "plain_names fs \<longleftrightarrow>
     (\<forall>f\<in>set fs. 4 \<le> length (name f) \<and> (\<forall>c\<in>set (name f). (of_char c :: int) \<noteq> 0 \<and> of_char c < (128 :: int)))"

abbreviation name_index :: "File \<Rightarrow> int" where
  "name_index f \<equiv> convert_to_index (name f)"

lemma toupper_bounds: "0 \<le> c \<Longrightarrow> c < 128 \<Longrightarrow> 0 \<le> toupper c \<and> toupper c < 128"
  by (simp add: toupper_def)

lemma convert_to_index_bounds:
  assumes "\<forall>c\<in>set nm. (of_char c :: int) < 128"
  shows "\<bar>convert_to_index nm\<bar> \<le> 2000000"
proof -
  define v where "v i = (if int i < int (length (drop 4 nm)) - 4 then toupper (of_char (drop 4 nm ! i)) - 65 + 1 else 0)" for i
  have b: "- 64 \<le> v i \<and> v i \<le> 64" for i
  proof (cases "int i < int (length (drop 4 nm)) - 4")
    case True
    then have "i < length (drop 4 nm)" by linarith
    then have "drop 4 nm ! i \<in> set nm" using nth_mem in_set_dropD by metis
    then show ?thesis using assms toupper_bounds [of "of_char (drop 4 nm ! i)"] True by (auto simp: v_def)
  qed (simp add: v_def)
  have "convert_to_index nm = ((v 0 * 26 + v 1) * 26 + v 2) * 26 + v 3"
    by (simp add: convert_to_index_def Let_def v_def eval_nat_numeral)
  then show ?thesis using b [of 0] b [of 1] b [of 2] b [of 3] by (simp add: abs_le_iff)
qed

lemma fold_max_min_name:
  "sort_column_flag g = 0 \<Longrightarrow> fold max_min_step fs g =
     g\<lparr>min_filename := fold tmin (map name fs) (min_filename g), max_filename := fold tmax (map name fs) (max_filename g)\<rparr>"
proof (induction fs arbitrary: g)
  case (Cons f fs)
  have "max_min_step f g = g\<lparr>min_filename := tmin (name f) (min_filename g), max_filename := tmax (name f) (max_filename g)\<rparr>"
    using Cons(2) by (cases g) (auto simp: max_min_step_def Let_def tmin_def tmax_def)
  then show ?case using Cons by (simp add: Cons.IH)
qed simp

lemma get_max_min_name:
  assumes "ready g" "sort_column_flag g = 0" "plain_names (files g)"
  obtains g' lo hi where "prepared seconds g g'" "lo \<in> set (files g)" "hi \<in> set (files g)"
    "\<forall>f\<in>set (files g). strkey (name lo) \<le> strkey (name f) \<and> strkey (name f) \<le> strkey (name hi)"
    "\<And>f. count_index seconds g' f = name_index f - name_index lo"
    "int (length (empty_buckets g')) = max 0 (name_index hi - name_index lo + 1)"
proof -
  obtain f fs where fs: "files g = f # fs" using assms(1) by (auto simp: ready_def neq_Nil_conv)
  let ?mn = "fold tmin (map name fs) (name f)" and ?mx = "fold tmax (map name fs) (name f)"
  let ?x = "convert_to_index ?mx - convert_to_index ?mn"
  let ?g = "g\<lparr>max_value := ?x, min_value := 0, min_filename := ?mn, max_filename := ?mx,
     min_timestamp := timestamp f, max_timestamp := timestamp f, offset := 0\<rparr>"
  have g': "get_max_min_values seconds g = Some ?g"
    using assms(1,2) fs
    by (simp add: get_max_min_values_def rd_def ready_def fold_max_min_name convert_filename_to_file_index_def)
  have "?mn \<in> name ` set (files g)" "?mx \<in> name ` set (files g)"
    using fold_tmin [of "map name fs" "name f"] fold_tmax [of "map name fs" "name f"] fs by auto
  then obtain lo hi where lo: "lo \<in> set (files g)" "?mn = name lo" and hi: "hi \<in> set (files g)" "?mx = name hi"
    by blast
  have ext: "\<forall>h\<in>set (files g). strkey (name lo) \<le> strkey (name h) \<and> strkey (name h) \<le> strkey (name hi)"
    using fold_tmin [of "map name fs" "name f"] fold_tmax [of "map name fs" "name f"] fs lo(2) hi(2) by auto
  have "\<bar>name_index lo\<bar> \<le> 2000000" "\<bar>name_index hi\<bar> \<le> 2000000"
    using assms(3) lo(1) hi(1) by (auto simp: plain_names_def intro!: convert_to_index_bounds)
  then have "table_fits ?g" using lo(2) hi(2) unfolding table_fits_def int_fits_def by (auto simp: abs_le_iff)
  then have "prepared seconds g ?g" using g' assms(1) by (simp add: prepared_def ready_def)
  moreover have "count_index seconds ?g h = name_index h - name_index lo" for h
    using assms(2) lo(2) by (simp add: count_index_def convert_filename_to_file_index_def)
  moreover have "int (length (empty_buckets ?g)) = max 0 (name_index hi - name_index lo + 1)"
    using lo(2) hi(2) by simp
  ultimately show thesis using that [of ?g lo hi] lo(1) hi(1) ext by blast
qed

end
