(* ===== verification/PartBProps.thy ===== *)
theory PartBProps
  imports PartBName Qsort
begin

text \<open>
  The properties of the file sorter: the program prints a sorted permutation of its input
  whatever the threads' order, its sequential variants are stable sorts, and what the count
  sort by name does.
\<close>

section \<open>The program sorts\<close>

lemma flag_of_column_way: "is_way (flag_of_column c)"
  by (simp add: flag_of_column_def is_way_def)

text \<open>
  C14. \<open>main\<close> prints its records sorted by the column asked for, each exactly as often as the
  input has it, whatever the order in which the threads of either sort run: for the columns
  ID and TIMESTAMP at every size, for NAME from \<open>LAZY_THRESHOLD\<close> files on (the merge sort; the count sort
  by name of fewer files does not sort by name). Assumed are the contract of the library's \<open>qsort\<close> and that
  differences of ids fit a C int; and for fewer files, which take the count sort, that the range of the ids or
  times leaves room for the size of its table in a C int, and that later timestamps are later times.
\<close>

theorem main_sorts:
  assumes "0 < n" "n \<le> MAX_FILES" "length fs = nat n" "qsort_contract qsort"
    and "id_window fs"
    and "sort_column = ''ID'' \<and> (int LAZY_THRESHOLD \<le> n \<or> id_table fs) \<or>
         sort_column = ''TIMESTAMP'' \<and> (int LAZY_THRESHOLD \<le> n \<or> seconds_order seconds fs) \<or>
         sort_column = ''NAME'' \<and> int LAZY_THRESHOLD \<le> n"
  shows "\<exists>ys. main_sort qsort left_first seconds sched (Some (n, fs, sort_column))
              = Some (Printed sort_column ys) \<and>
           mset ys = mset fs \<and> sorted (map (column (flag_of_column sort_column)) ys)"
proof -
  let ?w = "flag_of_column sort_column"
  let ?g = "initial_globals fs (nat n) ?w"
  have g: "files ?g = fs" "total_files ?g = length fs" "sort_column_flag ?g = ?w" "ready ?g"
    using assms(1,3) by (auto simp: initial_globals_def ready_def)
  have "\<exists>g'. lazy_sort qsort left_first seconds sched ?w ?g = Some g' \<and>
    mset (files g') = mset fs \<and> sorted (map (column ?w) (files g'))"
  proof (cases "length fs < LAZY_THRESHOLD")
    case True
    then have "sort_column = ''ID'' \<and> id_table fs \<or> sort_column = ''TIMESTAMP'' \<and> seconds_order seconds fs"
      using assms(3,6) by auto
    then have "sortable seconds ?w fs" by (auto simp: sortable_def flag_of_column_def)
    then show ?thesis
      using lazy_sort_small [of ?g seconds qsort left_first sched ?w] True g by simp
  next
    case False
    then show ?thesis
      using lazy_sort_large [of ?g qsort left_first seconds sched] g assms(4,5) flag_of_column_way [of sort_column] by simp
  qed
  then show ?thesis
    using assms(1-3) by (auto simp: main_sort_def)
qed

definition three_files :: "File list" where
  "three_files =
     [\<lparr>name = ''a'', file_id = 7, timestamp = ''2023-01-01T00:00:03''\<rparr>,
      \<lparr>name = ''b'', file_id = 3, timestamp = ''2023-01-01T00:00:01''\<rparr>,
      \<lparr>name = ''c'', file_id = 5, timestamp = ''2023-01-01T00:00:02''\<rparr>]"

theorem main_sorts_witness:
  "\<exists>ys. main_sort insertion_qsort (\<lambda>s e. s = 0) (\<lambda>ts. of_char (ts ! 18)) [1, 0, 1]
          (Some (3, three_files, ''TIMESTAMP'')) = Some (Printed ''TIMESTAMP'' ys) \<and>
     mset ys = mset three_files \<and> sorted (map (column (flag_of_column ''TIMESTAMP'')) ys)"
  by (rule main_sorts)
     (simp_all add: MAX_FILES_def three_files_def qsort_contract_insertion id_window_def seconds_order_def)

text \<open>
  C15. The sequential merge sort is the stable sort by the column: run on the whole array it
  returns, and the result is \<open>sort_key\<close> of the column's key, files with equal keys in their
  original order.
\<close>

theorem merge_sort_non_distributed_stable:
  assumes "fs \<noteq> []" "sort_way = 0 \<or> sort_way = 1 \<or> sort_way = 2"
  shows "merge_sort_non_distributed 0 (length fs - 1) sort_way fs = Some (sort_key (column sort_way) fs)"
  using merge_sort_non_distributed_range [of sort_way 0 "length fs - 1" fs] assms
  by (simp add: is_way_def put_slice_def slice_def)

theorem merge_sort_non_distributed_stable_witness:
  "three_files \<noteq> [] \<and> merge_sort_non_distributed 0 (length three_files - 1) 1 three_files
     = Some (sort_key (column 1) three_files)"
  using merge_sort_non_distributed_stable [of three_files 1] by (simp add: three_files_def)

text \<open>
  C16. The sequential count sort refines the stable sort: by id or by timestamp it returns,
  and leaves in \<open>files\<close> the stable sort of the files by the column, whenever the range of the keys leaves room
  for the size of its table in a C int and (for timestamps) later timestamps are later times.
\<close>

theorem non_distributed_count_sort_stable:
  assumes "ready g" "sortable seconds (sort_column_flag g) (files g)"
  shows "\<exists>g'. non_distributed_count_sort seconds g = Some g' \<and>
           files g' = sort_key (column (sort_column_flag g)) (files g)"
  by (rule non_distributed_count_sort_result [OF assms])

theorem non_distributed_count_sort_stable_witness:
  "ready (initial_globals three_files 3 1) \<and>
   (\<exists>g'. non_distributed_count_sort (\<lambda>_. 0) (initial_globals three_files 3 1) = Some g' \<and>
     files g' = sort_key (column (sort_column_flag (initial_globals three_files 3 1)))
       (files (initial_globals three_files 3 1)))"
proof
  show r: "ready (initial_globals three_files 3 1)"
    by (simp add: ready_def initial_globals_def three_files_def)
  show "\<exists>g'. non_distributed_count_sort (\<lambda>_. 0) (initial_globals three_files 3 1) = Some g' \<and>
     files g' = sort_key (column (sort_column_flag (initial_globals three_files 3 1)))
       (files (initial_globals three_files 3 1))"
    by (rule non_distributed_count_sort_stable [OF r])
       (simp add: sortable_def initial_globals_def three_files_def id_table_def)
qed

section \<open>The count sort by name\<close>




text \<open>
  The digits of an index run from 0 to 26 in base 26, so different names share a bucket:
  the sorted order of the two is lost.
\<close>

lemma count_sort_name_collision:
  "convert_to_index ''fileaz.txt'' = convert_to_index ''fileb.txt''"
  by code_simp

end
