(* ===== verification/Spinlock.thy ===== *)
theory Spinlock
  imports Prelude
begin

text \<open>
  \<^verbatim>\<open>kernel/spinlock.c\<close>: spin locks and the nesting of interrupt disabling. The state is the
  \<open>noff\<close>/\<open>intena\<close> part of every CPU's \<^verbatim>\<open>struct cpu\<close>, its interrupt-enable bit, and the locks,
  named by a type \<open>'l\<close>.

  The functions \<open>push_off\<close>, \<open>pop_off\<close>, \<open>holding\<close>, \<open>acquire\<close> and \<open>release\<close> run without
  interference; \<open>acquire\<close> of a lock that is held spins for ever there, which is \<open>None\<close>. The step
  relation \<open>spin_step\<close> runs the same code on several CPUs at once, one access to the lock at a
  time, with the test-and-set as one step.
\<close>

section \<open>State\<close>

record cpu =
  noff :: int
  intena :: bool
  intr :: bool

record spinlock =
  locked :: bool
  lk_cpu :: "nat option"

record 'l lockst =
  cpus :: "nat \<Rightarrow> cpu"
  locks :: "'l \<Rightarrow> spinlock"

section \<open>Operations\<close>

definition initlock :: "'l \<Rightarrow> 'l lockst \<Rightarrow> 'l lockst" where
  "initlock lk s = s\<lparr>locks := (locks s)(lk := \<lparr>locked = False, lk_cpu = None\<rparr>)\<rparr>"

definition holding :: "nat \<Rightarrow> 'l \<Rightarrow> 'l lockst \<Rightarrow> bool" where
  "holding c lk s \<longleftrightarrow> locked (locks s lk) \<and> lk_cpu (locks s lk) = Some c"

definition push_off :: "nat \<Rightarrow> 'l lockst \<Rightarrow> 'l lockst" where
  "push_off c s =
     (let k = cpus s c; old = intr k;
          k = k\<lparr>intr := False\<rparr>;
          k = (if noff k = 0 then k\<lparr>intena := old\<rparr> else k);
          k = k\<lparr>noff := noff k + 1\<rparr>
      in s\<lparr>cpus := (cpus s)(c := k)\<rparr>)"

definition pop_off :: "nat \<Rightarrow> 'l lockst \<Rightarrow> 'l lockst option" where
  "pop_off c s =
     (let k = cpus s c in
      if intr k then panic ''pop_off - interruptible''
      else if noff k < 1 then panic ''pop_off''
      else
        let k = k\<lparr>noff := noff k - 1\<rparr>;
            k = (if noff k = 0 \<and> intena k then k\<lparr>intr := True\<rparr> else k)
        in Some (s\<lparr>cpus := (cpus s)(c := k)\<rparr>))"

definition acquire :: "nat \<Rightarrow> 'l \<Rightarrow> 'l lockst \<Rightarrow> 'l lockst option" where
  "acquire c lk s =
     (let s = push_off c s in
      if holding c lk s then panic ''acquire''
      else if locked (locks s lk) then None
      else
        let s = s\<lparr>locks := (locks s)(lk := (locks s lk)\<lparr>locked := True\<rparr>)\<rparr>
        in Some (s\<lparr>locks := (locks s)(lk := (locks s lk)\<lparr>lk_cpu := Some c\<rparr>)\<rparr>))"

definition release :: "nat \<Rightarrow> 'l \<Rightarrow> 'l lockst \<Rightarrow> 'l lockst option" where
  "release c lk s =
     (if \<not> holding c lk s then panic ''release''
      else
        let s = s\<lparr>locks := (locks s)(lk := (locks s lk)\<lparr>lk_cpu := None\<rparr>)\<rparr>;
            s = s\<lparr>locks := (locks s)(lk := (locks s lk)\<lparr>locked := False\<rparr>)\<rparr>
        in pop_off c s)"

section \<open>Nesting\<close>

text \<open>A lock that nobody holds, and a CPU whose nesting count is sane.\<close>

definition free_lock :: "'l \<Rightarrow> 'l lockst \<Rightarrow> bool" where
  "free_lock lk s \<longleftrightarrow> locks s lk = \<lparr>locked = False, lk_cpu = None\<rparr>"

definition quiet :: "nat \<Rightarrow> 'l lockst \<Rightarrow> bool" where
  "quiet c s \<longleftrightarrow> 0 \<le> noff (cpus s c) \<and> (if noff (cpus s c) = 0 then intena (cpus s c) = intr (cpus s c)
     else \<not> intr (cpus s c))"

text \<open>The state after a successful \<open>acquire\<close>.\<close>

definition acquired :: "nat \<Rightarrow> 'l \<Rightarrow> 'l lockst \<Rightarrow> 'l lockst" where
  "acquired c lk s = (push_off c s)\<lparr>locks := (locks s)(lk := \<lparr>locked = True, lk_cpu = Some c\<rparr>)\<rparr>"

lemma locks_push_off [simp]: "locks (push_off c s) = locks s"
  by (simp add: push_off_def Let_def)

lemma acquire_free: "free_lock lk s \<Longrightarrow> acquire c lk s = Some (acquired c lk s)"
  by (simp add: acquire_def acquired_def free_lock_def holding_def Let_def)

lemma pop_push_off:
  assumes "quiet c s"
  shows "pop_off c ((push_off c s)\<lparr>locks := L\<rparr>) = Some (s\<lparr>locks := L\<rparr>)"
proof -
  obtain n a b where k: "cpus s c = \<lparr>noff = n, intena = a, intr = b\<rparr>" by (cases "cpus s c")
  have u: "(cpus s)(c := \<lparr>noff = n, intena = a, intr = b\<rparr>) = cpus s" using k by auto
  have id: "s\<lparr>locks := L\<rparr> = s\<lparr>cpus := (cpus s)(c := \<lparr>noff = n, intena = a, intr = b\<rparr>), locks := L\<rparr>"
    unfolding u by (cases s) simp
  show ?thesis
    unfolding id using assms k by (auto simp: quiet_def pop_off_def push_off_def Let_def)
qed

lemma release_acquired:
  assumes "quiet c s" "free_lock lk s"
  shows "release c lk (acquired c lk s) = Some s"
proof -
  have "(locks s)(lk := \<lparr>locked = False, lk_cpu = None\<rparr>) = locks s"
    using assms(2) by (auto simp: free_lock_def)
  then have "release c lk (acquired c lk s) = pop_off c ((push_off c s)\<lparr>locks := locks s\<rparr>)"
    by (simp add: release_def acquired_def holding_def Let_def)
  then show ?thesis using pop_push_off [OF assms(1)] by simp
qed

lemma quiet_acquired: "quiet c s \<Longrightarrow> quiet c (acquired c lk s)"
  by (auto simp: quiet_def acquired_def push_off_def Let_def)

lemma free_lock_acquired [simp]: "lk \<noteq> lk' \<Longrightarrow> free_lock lk' (acquired c lk s) \<longleftrightarrow> free_lock lk' s"
  by (simp add: free_lock_def acquired_def)

lemma holding_acquired [simp]: "holding c lk (acquired c lk s)"
  by (simp add: holding_def acquired_def)

lemma acquired_lock [simp]: "locks (acquired c lk s) lk = \<lparr>locked = True, lk_cpu = Some c\<rparr>"
  by (simp add: acquired_def)

text \<open>Locks released in the order they were taken in, not the reverse: the same state again.\<close>

lemma release_acquired_twice:
  assumes "quiet c s" "free_lock a s" "free_lock b s" "a \<noteq> b"
  shows "release c a (acquired c b (acquired c a s)) = Some (acquired c b s)"
proof -
  obtain n e i where k: "cpus s c = \<lparr>noff = n, intena = e, intr = i\<rparr>" by (cases "cpus s c")
  have "(locks s)(b := \<lparr>locked = True, lk_cpu = Some c\<rparr>, a := \<lparr>locked = False, lk_cpu = None\<rparr>)
      = (locks s)(b := \<lparr>locked = True, lk_cpu = Some c\<rparr>)"
    using assms(2,4) by (auto simp: free_lock_def)
  then show ?thesis
    using assms k
    by (auto simp: release_def holding_def acquired_def push_off_def pop_off_def quiet_def Let_def
        fun_upd_twist [of a b])
qed

section \<open>Several CPUs\<close>

text \<open>
  Where a CPU is in the code of a lock: outside; in \<open>acquire\<close> before the two reads of \<open>holding\<close>, of \<open>locked\<close>
  (\<open>Testing\<close>) and of \<open>cpu\<close> (\<open>Asking\<close>), spinning on the test-and-set, and between the test-and-set and the
  assignment of \<open>cpu\<close>; in \<open>release\<close> between the two reads of \<open>holding\<close> (\<open>Confirming\<close>), after them (\<open>Owning\<close>), and between
  clearing \<open>cpu\<close> and clearing \<open>locked\<close>.
\<close>

datatype 'l pc = Outside | Testing 'l | Asking 'l | Spin 'l | Got 'l | Confirming 'l | Owning 'l | Leaving 'l

record 'l machine =
  ls :: "'l lockst"
  at :: "nat \<Rightarrow> 'l pc"
  own :: "nat \<Rightarrow> 'l set"

text \<open>
  \<open>own\<close> records the locks for which \<open>acquire\<close> has returned and that \<open>release\<close> has not begun to give up. A
  CPU whose \<open>holding\<close> leads to a panic makes no further step.
\<close>

inductive spin_step :: "'l machine \<Rightarrow> 'l machine \<Rightarrow> bool" where
  enter: "at m c = Outside
    \<Longrightarrow> spin_step m (m\<lparr>ls := push_off c (ls m), at := (at m)(c := Testing lk)\<rparr>)"
| test_free: "\<lbrakk>at m c = Testing lk; \<not> locked (locks (ls m) lk)\<rbrakk>
    \<Longrightarrow> spin_step m (m\<lparr>at := (at m)(c := Spin lk)\<rparr>)"
| test_held: "\<lbrakk>at m c = Testing lk; locked (locks (ls m) lk)\<rbrakk>
    \<Longrightarrow> spin_step m (m\<lparr>at := (at m)(c := Asking lk)\<rparr>)"
| ask: "\<lbrakk>at m c = Asking lk; lk_cpu (locks (ls m) lk) \<noteq> Some c\<rbrakk>
    \<Longrightarrow> spin_step m (m\<lparr>at := (at m)(c := Spin lk)\<rparr>)"
| spin: "\<lbrakk>at m c = Spin lk; locked (locks (ls m) lk)\<rbrakk> \<Longrightarrow> spin_step m m"
| test_and_set: "\<lbrakk>at m c = Spin lk; \<not> locked (locks (ls m) lk)\<rbrakk>
    \<Longrightarrow> spin_step m (m\<lparr>ls := (ls m)\<lparr>locks := (locks (ls m))(lk := (locks (ls m) lk)\<lparr>locked := True\<rparr>)\<rparr>,
                     at := (at m)(c := Got lk)\<rparr>)"
| set_cpu: "at m c = Got lk
    \<Longrightarrow> spin_step m (m\<lparr>ls := (ls m)\<lparr>locks := (locks (ls m))(lk := (locks (ls m) lk)\<lparr>lk_cpu := Some c\<rparr>)\<rparr>,
                     at := (at m)(c := Outside), own := (own m)(c := insert lk (own m c))\<rparr>)"
| confirm: "\<lbrakk>at m c = Outside; locked (locks (ls m) lk)\<rbrakk>
    \<Longrightarrow> spin_step m (m\<lparr>at := (at m)(c := Confirming lk)\<rparr>)"
| confirm_cpu: "\<lbrakk>at m c = Confirming lk; lk_cpu (locks (ls m) lk) = Some c\<rbrakk>
    \<Longrightarrow> spin_step m (m\<lparr>at := (at m)(c := Owning lk)\<rparr>)"
| clear_cpu: "at m c = Owning lk
    \<Longrightarrow> spin_step m (m\<lparr>ls := (ls m)\<lparr>locks := (locks (ls m))(lk := (locks (ls m) lk)\<lparr>lk_cpu := None\<rparr>)\<rparr>,
                     at := (at m)(c := Leaving lk), own := (own m)(c := own m c - {lk})\<rparr>)"
| clear_locked: "\<lbrakk>at m c = Leaving lk;
      pop_off c ((ls m)\<lparr>locks := (locks (ls m))(lk := (locks (ls m) lk)\<lparr>locked := False\<rparr>)\<rparr>) = Some s\<rbrakk>
    \<Longrightarrow> spin_step m (m\<lparr>ls := s, at := (at m)(c := Outside)\<rparr>)"

inductive_cases spin_stepE: "spin_step m m'"

text \<open>The locks a CPU is inside of: those it owns and the one it is taking or leaving.\<close>

definition inside :: "'l machine \<Rightarrow> nat \<Rightarrow> 'l \<Rightarrow> bool" where
  "inside m c lk \<longleftrightarrow> lk \<in> own m c \<or> at m c = Got lk \<or> at m c = Leaving lk"

definition spin_inv :: "'l machine \<Rightarrow> bool" where
  "spin_inv m \<longleftrightarrow>
     (\<forall>lk c d. inside m c lk \<longrightarrow> inside m d lk \<longrightarrow> c = d) \<and>
     (\<forall>lk c. inside m c lk \<longrightarrow> locked (locks (ls m) lk)) \<and>
     (\<forall>lk c. lk_cpu (locks (ls m) lk) = Some c \<longleftrightarrow> lk \<in> own m c) \<and>
     (\<forall>lk. locked (locks (ls m) lk) \<longrightarrow> (\<exists>c. inside m c lk)) \<and>
     (\<forall>lk c. at m c = Got lk \<or> at m c = Leaving lk \<longrightarrow> lk \<notin> own m c) \<and>
     (\<forall>lk c. at m c = Owning lk \<longrightarrow> lk \<in> own m c)"

lemma pop_off_locks: "pop_off c s = Some s' \<Longrightarrow> locks s' = locks s"
  by (auto simp: pop_off_def Let_def split: if_splits)

lemma spin_invD:
  assumes "spin_inv m"
  shows "inside m c lk \<Longrightarrow> inside m d lk \<Longrightarrow> c = d" "inside m c lk \<Longrightarrow> locked (locks (ls m) lk)"
    "lk_cpu (locks (ls m) lk) = Some c \<longleftrightarrow> lk \<in> own m c"
    "locked (locks (ls m) lk) \<Longrightarrow> \<exists>c. inside m c lk" "at m c = Got lk \<Longrightarrow> lk \<notin> own m c"
    "at m c = Leaving lk \<Longrightarrow> lk \<notin> own m c" "at m c = Owning lk \<Longrightarrow> lk \<in> own m c"
  using assms unfolding spin_inv_def by blast+

text \<open>A step that only reads the locks.\<close>

lemma spin_inv_read:
  assumes "spin_inv m" "locks (ls m') = locks (ls m)" "own m' = own m" "at m' = (at m)(c := p)"
    "\<And>lk. at m c \<noteq> Got lk \<and> at m c \<noteq> Leaving lk" "\<And>lk. p \<noteq> Got lk \<and> p \<noteq> Leaving lk" "\<And>lk. p = Owning lk \<Longrightarrow> lk \<in> own m c"
  shows "spin_inv m'"
proof -
  have i: "inside m' d k \<longleftrightarrow> inside m d k" for d k
    using assms(3-6) by (auto simp: inside_def)
  show ?thesis using assms(1,5-7) unfolding spin_inv_def i assms(2-4) by auto
qed

lemma spin_inv_step:
  assumes "spin_inv m" "spin_step m m'"
  shows "spin_inv m'"
  using assms(2)
proof cases
  case (confirm_cpu c lk)
  then show ?thesis using spin_invD(3) [OF assms(1), of lk c] by (intro spin_inv_read [OF assms(1)]) auto
next
  case (test_and_set c lk)
  have no: "\<not> inside m d lk" for d
    using spin_invD(2) [OF assms(1)] test_and_set by blast
  have i: "inside m' d k \<longleftrightarrow> inside m d k \<or> d = c \<and> k = lk" for d k
    using test_and_set by (auto simp: inside_def)
  have "lk \<notin> own m c" using no [of c] by (simp add: inside_def)
  then show ?thesis
    using assms(1) no test_and_set unfolding spin_inv_def i by auto
next
  case (set_cpu c lk)
  have i: "inside m' d k \<longleftrightarrow> inside m d k" for d k
    using set_cpu by (auto simp: inside_def)
  have "lk \<in> own m d \<longrightarrow> d = c" for d
    using spin_invD(1) [OF assms(1), of d lk c] set_cpu by (auto simp: inside_def)
  then show ?thesis
    using assms(1) set_cpu unfolding spin_inv_def i by auto
next
  case (clear_cpu c lk)
  have i: "inside m' d k \<longleftrightarrow> inside m d k" for d k
    using clear_cpu spin_invD(7) [OF assms(1)] by (auto simp: inside_def)
  have "lk \<in> own m d \<longrightarrow> d = c" for d
    using clear_cpu(2) spin_invD(1) [OF assms(1), of d lk c] spin_invD(7) [OF assms(1)] by (auto simp: inside_def)
  then show ?thesis
    using assms(1) clear_cpu unfolding spin_inv_def i by auto
next
  case (clear_locked c lk s)
  have l: "locks s = (locks (ls m))(lk := (locks (ls m) lk)\<lparr>locked := False\<rparr>)"
    using clear_locked(3) by (auto dest!: pop_off_locks)
  have i: "inside m' d k \<longleftrightarrow> inside m d k \<and> k \<noteq> lk" for d k
  proof (cases "d = c")
    case True
    then show ?thesis
      using clear_locked(1,2) spin_invD(6) [OF assms(1) clear_locked(2)] by (auto simp: inside_def)
  next
    case False
    have "inside m c lk" using clear_locked(2) by (simp add: inside_def)
    then have "\<not> inside m d lk" using spin_invD(1) [OF assms(1)] False by blast
    then show ?thesis using clear_locked(1) False by (auto simp: inside_def)
  qed
  show ?thesis
    using assms(1) clear_locked(1,2) l unfolding spin_inv_def i by auto
next
  case (enter c lk)
  then show ?thesis by (intro spin_inv_read [OF assms(1)]) auto
next
  case (test_free c lk)
  then show ?thesis by (intro spin_inv_read [OF assms(1)]) auto
next
  case (test_held c lk)
  then show ?thesis by (intro spin_inv_read [OF assms(1)]) auto
next
  case (ask c lk)
  then show ?thesis by (intro spin_inv_read [OF assms(1)]) auto
next
  case (confirm c lk)
  then show ?thesis by (intro spin_inv_read [OF assms(1)]) auto
qed (use assms in auto)

lemma spin_inv_steps: "spin_step\<^sup>*\<^sup>* m m' \<Longrightarrow> spin_inv m \<Longrightarrow> spin_inv m'"
  by (induction rule: rtranclp_induct) (auto intro: spin_inv_step)

text \<open>All CPUs outside, all locks free.\<close>

definition idle :: "'l machine \<Rightarrow> bool" where
  "idle m \<longleftrightarrow> (\<forall>c. at m c = Outside \<and> own m c = {}) \<and> (\<forall>lk. free_lock lk (ls m))"

lemma spin_inv_idle: "idle m \<Longrightarrow> spin_inv m"
  by (auto simp: idle_def spin_inv_def inside_def free_lock_def)

text \<open>
  C20. Mutual exclusion: however the CPUs' accesses interleave, from a machine with all locks
  free no two CPUs are between \<open>acquire\<close> and \<open>release\<close> of the same lock, a lock somebody is inside
  of is marked locked, and \<open>holding\<close> tells a CPU exactly the locks whose \<open>acquire\<close> has returned to
  it and that \<open>release\<close> has not begun to give up.
\<close>

theorem spinlock_mutual_exclusion:
  assumes "idle m" "spin_step\<^sup>*\<^sup>* m m'"
  shows "(inside m' c lk \<longrightarrow> inside m' d lk \<longrightarrow> c = d) \<and>
    (inside m' c lk \<longrightarrow> locked (locks (ls m') lk)) \<and> (holding c lk (ls m') \<longleftrightarrow> lk \<in> own m' c)"
proof -
  have "spin_inv m'" by (rule spin_inv_steps [OF assms(2) spin_inv_idle [OF assms(1)]])
  note inv = spin_invD [OF this]
  have "lk \<in> own m' c \<Longrightarrow> locked (locks (ls m') lk)" using inv(2) [of c lk] by (simp add: inside_def)
  then show ?thesis using inv(1-3) by (auto simp: holding_def)
qed

definition idle_machine :: "nat machine" where
  "idle_machine = \<lparr>ls = \<lparr>cpus = (\<lambda>_. \<lparr>noff = 0, intena = True, intr = True\<rparr>),
       locks = (\<lambda>_. \<lparr>locked = False, lk_cpu = None\<rparr>)\<rparr>, at = (\<lambda>_. Outside), own = (\<lambda>_. {})\<rparr>"

text \<open>A call of \<open>acquire\<close> that returns is a run of one CPU's steps.\<close>

lemma acquire_steps:
  assumes "at m c = Outside" "acquire c lk (ls m) = Some s"
  shows "spin_step\<^sup>*\<^sup>* m (m\<lparr>ls := s, own := (own m)(c := insert lk (own m c))\<rparr>)"
proof -
  let ?s = "push_off c (ls m)"
  have free: "\<not> locked (locks ?s lk)"
    and s: "s = ?s\<lparr>locks := (locks ?s)(lk := (locks ?s lk)\<lparr>locked := True, lk_cpu := Some c\<rparr>)\<rparr>"
    using assms(2) by (auto simp: acquire_def Let_def split: if_splits)
  let ?m0 = "m\<lparr>ls := ?s, at := (at m)(c := Testing lk)\<rparr>"
  let ?m1 = "?m0\<lparr>at := (at ?m0)(c := Spin lk)\<rparr>"
  let ?m2 = "?m1\<lparr>ls := (ls ?m1)\<lparr>locks := (locks (ls ?m1))(lk := (locks (ls ?m1) lk)\<lparr>locked := True\<rparr>)\<rparr>,
     at := (at ?m1)(c := Got lk)\<rparr>"
  let ?m3 = "?m2\<lparr>ls := (ls ?m2)\<lparr>locks := (locks (ls ?m2))(lk := (locks (ls ?m2) lk)\<lparr>lk_cpu := Some c\<rparr>)\<rparr>,
     at := (at ?m2)(c := Outside), own := (own ?m2)(c := insert lk (own ?m2 c))\<rparr>"
  have "spin_step m ?m0" using assms(1) by (rule spin_step.enter)
  moreover have "spin_step ?m0 ?m1" using free by (intro spin_step.test_free) auto
  moreover have "spin_step ?m1 ?m2" using free by (intro spin_step.test_and_set) auto
  moreover have "spin_step ?m2 ?m3" by (rule spin_step.set_cpu) simp
  moreover have "?m3 = m\<lparr>ls := s, own := (own m)(c := insert lk (own m c))\<rparr>"
    unfolding s using assms(1) by (cases m) (simp add: fun_upd_idem_iff)
  ultimately show ?thesis
    by (metis (no_types, lifting) r_into_rtranclp rtranclp.rtrancl_into_rtrancl)
qed

text \<open>CPU 0 has the lock, CPU 1 has seen it held and spins.\<close>

theorem spinlock_mutual_exclusion_witness:
  "\<exists>m'. spin_step\<^sup>*\<^sup>* idle_machine m' \<and> at m' 1 = Spin 7 \<and> inside m' 0 7 \<and> \<not> inside m' 1 7 \<and>
     locked (locks (ls m') 7) \<and> holding 0 7 (ls m')"
proof -
  define m1 where "m1 = idle_machine\<lparr>ls := acquired 0 7 (ls idle_machine), own := (own idle_machine)(0 := {7})\<rparr>"
  define m2 where "m2 = m1\<lparr>ls := push_off 1 (ls m1), at := (at m1)(1 := Testing 7)\<rparr>"
  define m3 where "m3 = m2\<lparr>at := (at m2)(1 := Asking 7)\<rparr>"
  define m4 where "m4 = m3\<lparr>at := (at m3)(1 := Spin 7)\<rparr>"
  have f: "at m1 1 = Outside" "at m2 1 = Testing 7" "at m3 1 = Asking 7" "locks (ls m2) 7 = \<lparr>locked = True, lk_cpu = Some 0\<rparr>"
    "locks (ls m3) = locks (ls m2)" "at m4 1 = Spin 7" "own m4 0 = {7}"
    by (simp_all add: m1_def m2_def m3_def m4_def idle_machine_def)
  have a: "acquire 0 7 (ls idle_machine) = Some (acquired 0 7 (ls idle_machine))"
    by (rule acquire_free) (simp add: free_lock_def idle_machine_def)
  have "at idle_machine 0 = Outside" "own idle_machine 0 = {}" by (simp_all add: idle_machine_def)
  then have 1: "spin_step\<^sup>*\<^sup>* idle_machine m1" using acquire_steps [OF _ a] unfolding m1_def by simp
  have 2: "spin_step m1 m2" unfolding m2_def by (rule spin_step.enter [OF f(1)])
  have 3: "spin_step m2 m3" unfolding m3_def by (rule spin_step.test_held [OF f(2)]) (simp add: f)
  have 4: "spin_step m3 m4" unfolding m4_def by (rule spin_step.ask [OF f(3)]) (simp add: f)
  have r: "spin_step\<^sup>*\<^sup>* idle_machine m4" using 1 2 3 4 by simp
  have "idle idle_machine" by (simp add: idle_def idle_machine_def free_lock_def)
  note ex = spinlock_mutual_exclusion [OF this r, of 0 7 1]
  have "inside m4 0 7" using f(7) by (simp add: inside_def)
  then show ?thesis using ex r f(6,7) by (intro exI [of _ m4]) auto
qed

text \<open>
  C22. \<open>push_off\<close>/\<open>pop_off\<close> nest and \<open>acquire\<close>/\<open>release\<close> are inverse: taking a free lock succeeds
  with interrupts off, and releasing it gives back the very state before, the interrupt-enable
  bit included.
\<close>

theorem acquire_release_restores:
  assumes "quiet c s" "free_lock lk s"
  shows "\<exists>s'. acquire c lk s = Some s' \<and> holding c lk s' \<and> \<not> intr (cpus s' c) \<and>
           noff (cpus s' c) = noff (cpus s c) + 1 \<and> release c lk s' = Some s"
proof -
  have "\<not> intr (cpus (acquired c lk s) c)" "noff (cpus (acquired c lk s) c) = noff (cpus s c) + 1"
    by (auto simp: acquired_def push_off_def Let_def)
  then show ?thesis
    using acquire_free [OF assms(2)] release_acquired [OF assms] by auto
qed

theorem acquire_release_restores_witness:
  "quiet 0 (ls idle_machine) \<and>
   (\<exists>s'. acquire 0 7 (ls idle_machine) = Some s' \<and> holding 0 7 s' \<and> \<not> intr (cpus s' 0) \<and>
           noff (cpus s' 0) = noff (cpus (ls idle_machine) 0) + 1 \<and> release 0 7 s' = Some (ls idle_machine))"
proof
  show q: "quiet 0 (ls idle_machine)" by (simp add: quiet_def idle_machine_def)
  show "\<exists>s'. acquire 0 7 (ls idle_machine) = Some s' \<and> holding 0 7 s' \<and> \<not> intr (cpus s' 0) \<and>
           noff (cpus s' 0) = noff (cpus (ls idle_machine) 0) + 1 \<and> release 0 7 s' = Some (ls idle_machine)"
    by (rule acquire_release_restores [OF q]) (simp add: free_lock_def idle_machine_def)
qed

end
