(* ===== verification/State.thy ===== *)
theory State
  imports Vm Spinlock
begin

text \<open>
  The kernel's state: the C structures of \<^verbatim>\<open>proc.h\<close>, \<^verbatim>\<open>buf.h\<close>, \<^verbatim>\<open>file.h\<close>, \<^verbatim>\<open>fs.h\<close>,
  \<^verbatim>\<open>log.c\<close>, \<^verbatim>\<open>pipe.c\<close>, \<^verbatim>\<open>console.c\<close> and \<^verbatim>\<open>uart.c\<close> as records, and one record \<open>kstate\<close>
  with the kernel's global variables, an extension of the page allocator's \<open>kmem\<close>.

  Pages (page tables, user memory, trapframes) live in the byte memory \<open>mem\<close>. The kernel's own
  objects are typed: a pointer to a table entry is its index, a pointer to a \<^verbatim>\<open>struct pipe\<close> the
  address of the page it was allocated in. The spin locks of the kernel are named by \<open>klock\<close>, the
  sleep channels (addresses in the code) by \<open>chan\<close>.

  The functions are those of one process in the kernel. \<open>None\<close> is a call that does not return:
  a panic, or (said at the definition) waiting for something only another process can do.
\<close>

section \<open>Parameters (param.h, fs.h)\<close>

definition NPROC :: nat where "NPROC = 64"
definition NOFILE :: nat where "NOFILE = 16"
definition NFILE :: nat where "NFILE = 100"
definition NINODE :: nat where "NINODE = 50"
definition NDEV :: int where "NDEV = 10"
definition ROOTDEV :: u32 where "ROOTDEV = 1"
definition ROOTINO :: u32 where "ROOTINO = 1"
definition MAXOPBLOCKS :: int where "MAXOPBLOCKS = 10"
definition LOGSIZE :: int where "LOGSIZE = 30"
definition NBUF :: nat where "NBUF = 30"
definition MAXPATH :: nat where "MAXPATH = 128"
definition MAXARG :: nat where "MAXARG = 32"
definition BSIZE :: nat where "BSIZE = 1024"

section \<open>Locks, channels and small structures\<close>

datatype klock = PidLock | WaitLock | PLock nat | TicksLock | BcacheLock | BufLock nat
  | ItableLock | InodeLock nat | LogLock | FtableLock | PipeLock u64 | ConsLock | UartLock | PrLock | VdiskLock

datatype chan = NoChan | ChanProc "nat option" | ChanTicks | ChanBuf nat | ChanInode nat | ChanLog
  | ChanNread u64 | ChanNwrite u64 | ChanConsR | ChanUartR | ChanDisk nat | ChanDescs

datatype procstate = UNUSED | USED | SLEEPING | RUNNABLE | RUNNING | ZOMBIE

record sleeplock =
  sl_locked :: bool
  sl_pid :: int

record proc =
  p_state :: procstate
  p_chan :: chan
  p_killed :: int
  p_xstate :: int
  p_pid :: int
  p_parent :: "nat option"
  p_kstack :: u64
  p_sz :: u64
  p_pagetable :: u64
  p_trapframe :: u64
  p_context_ra :: u64
  p_context_sp :: u64
  p_ofile :: "nat option list"
  p_cwd :: "nat option"
  p_name :: "u8 list"
  p_rtime :: u32
  p_ctime :: u32
  p_etime :: u32
  p_pagefaultcount :: u32

text \<open>The contents of a disk block, by byte offset.\<close>

type_synonym block = "nat \<Rightarrow> u8"

record buf =
  b_valid :: bool
  b_dev :: u32
  b_blockno :: u32
  b_lock :: sleeplock
  b_refcnt :: u32
  b_prev :: nat
  b_next :: nat
  b_data :: block

record log =
  lg_start :: u32
  lg_size :: int
  lg_outstanding :: int
  lg_committing :: bool
  lg_dev :: u32
  lg_n :: int
  lg_block :: "nat \<Rightarrow> u32"

record superblock =
  sb_magic :: u32
  sb_size :: u32
  sb_nblocks :: u32
  sb_ninodes :: u32
  sb_nlog :: u32
  sb_logstart :: u32
  sb_inodestart :: u32
  sb_bmapstart :: u32

record inode =
  i_dev :: u32
  i_inum :: u32
  i_ref :: int
  i_lock :: sleeplock
  i_valid :: bool
  i_type :: u16
  i_major :: u16
  i_minor :: u16
  i_nlink :: u16
  i_size :: u32
  i_addrs :: "u32 list"

datatype fdtype = FD_NONE | FD_PIPE | FD_INODE | FD_DEVICE

record kfile =
  f_type :: fdtype
  f_ref :: int
  f_readable :: bool
  f_writable :: bool
  f_pipe :: u64
  f_ip :: nat
  f_off :: u32
  f_major :: u16

record pipe =
  pi_data :: "nat \<Rightarrow> u8"
  pi_nread :: u32
  pi_nwrite :: u32
  pi_readopen :: bool
  pi_writeopen :: bool

record cons =
  cons_buf :: "nat \<Rightarrow> u8"
  cons_r :: u32
  cons_w :: u32
  cons_e :: u32

record uart =
  tx_buf :: "nat \<Rightarrow> u8"
  tx_w :: u64
  tx_r :: u64

section \<open>The kernel's global variables\<close>

text \<open>
  \<open>hart\<close> is the CPU the process runs on and \<open>curproc\<close> that CPU's \<open>proc\<close>. The buffers are numbered
  from 0; \<open>NBUF\<close> is the list head of \<^verbatim>\<open>bcache\<close>. \<open>disk\<close> is the contents of the block device and
  \<open>dwrites\<close> the writes it has carried out, oldest first. Of the UART's registers, \<open>uart_cfg\<close> are the
  configuration writes, \<open>tx_sent\<close> the bytes given to the transmit register, \<open>tx_room\<close> how many more it
  takes before it reports itself busy and \<open>rx_bytes\<close> the received bytes not read yet.
  \<open>dev_console\<close> tells whether \<^verbatim>\<open>devsw[CONSOLE]\<close> has been connected.
\<close>

record kstate = kmem +
  lk :: "klock lockst"
  hart :: nat
  procs :: "proc list"
  initproc :: "nat option"
  nextpid :: int
  curproc :: "nat option"
  ticks :: u32
  first :: bool
  bufs :: "nat \<Rightarrow> buf"
  disk :: "u32 \<Rightarrow> block"
  dwrites :: "(u32 \<times> block) list"
  klog :: log
  sb :: superblock
  itable :: "inode list"
  ftable :: "kfile list"
  pipes :: "u64 \<Rightarrow> pipe"
  cons :: cons
  uart :: uart
  uart_cfg :: "(nat \<times> u8) list"
  tx_sent :: "u8 list"
  tx_room :: nat
  rx_bytes :: "u8 list"
  panicked :: bool
  pr_locking :: bool
  dev_console :: bool

text \<open>
  The result of a call that may have to wait for another process: it returned, or it is asleep, inside
  \<open>sleep\<close>, with the values of its local variables.
\<close>

datatype ('v, 'r) outcome = Returned 'r kstate | Asleep 'v kstate

section \<open>Locks of the kernel\<close>

definition acq :: "klock \<Rightarrow> kstate \<Rightarrow> kstate option" where
  "acq l s = do { k \<leftarrow> acquire (hart s) l (lk s); Some (s\<lparr>lk := k\<rparr>) }"

definition rel :: "klock \<Rightarrow> kstate \<Rightarrow> kstate option" where
  "rel l s = do { k \<leftarrow> release (hart s) l (lk s); Some (s\<lparr>lk := k\<rparr>) }"

text \<open>The lock state of a process that holds nothing: every lock free.\<close>

definition unlocked :: "kstate \<Rightarrow> bool" where
  "unlocked s \<longleftrightarrow> quiet (hart s) (lk s) \<and> (\<forall>l. free_lock l (lk s))"

text \<open>The state with one lock taken.\<close>

definition locked_with :: "klock \<Rightarrow> kstate \<Rightarrow> kstate" where
  "locked_with l s = s\<lparr>lk := acquired (hart s) l (lk s)\<rparr>"

lemma acq_free: "free_lock l (lk s) \<Longrightarrow> acq l s = Some (s\<lparr>lk := acquired (hart s) l (lk s)\<rparr>)"
  by (simp add: acq_def acquire_free)

lemma rel_acquired:
  "quiet (hart s) k \<Longrightarrow> free_lock l k \<Longrightarrow> lk s = acquired (hart s) l k \<Longrightarrow> rel l s = Some (s\<lparr>lk := k\<rparr>)"
  by (simp add: rel_def release_acquired)

named_theorems lock_simps \<open>taking and giving back a free lock\<close>

lemmas [lock_simps] = acq_free rel_acquired quiet_acquired

section \<open>Processes and their table\<close>

definition upd_proc :: "nat \<Rightarrow> (proc \<Rightarrow> proc) \<Rightarrow> kstate \<Rightarrow> kstate" where
  "upd_proc i f s = s\<lparr>procs := (procs s)[i := f (procs s ! i)]\<rparr>"

text \<open>\<^verbatim>\<open>myproc\<close>; the surrounding \<open>push_off\<close>/\<open>pop_off\<close> leave the state as it was.\<close>

definition myproc :: "kstate \<Rightarrow> nat option" where
  "myproc s = curproc s"

text \<open>Reading and writing a field of the trapframe page, by byte offset.\<close>

definition tf_get :: "nat \<Rightarrow> nat \<Rightarrow> kstate \<Rightarrow> u64" where
  "tf_get off i s = load64 (mem s) (p_trapframe (procs s ! i) + of_nat off)"

definition tf_set :: "nat \<Rightarrow> u64 \<Rightarrow> nat \<Rightarrow> kstate \<Rightarrow> kstate" where
  "tf_set off v i s = s\<lparr>mem := store64 (mem s) (p_trapframe (procs s ! i) + of_nat off) v\<rparr>"

fun wakeup_from :: "nat list \<Rightarrow> chan \<Rightarrow> kstate \<Rightarrow> kstate option" where
  "wakeup_from [] ch s = Some s"
| "wakeup_from (i # is) ch s =
     (if myproc s \<noteq> Some i then do {
        s \<leftarrow> acq (PLock i) s;
        let s = (if p_state (procs s ! i) = SLEEPING \<and> p_chan (procs s ! i) = ch
                 then upd_proc i (\<lambda>p. p\<lparr>p_state := RUNNABLE\<rparr>) s else s);
        s \<leftarrow> rel (PLock i) s;
        wakeup_from is ch s
      } else wakeup_from is ch s)"

definition wakeup :: "chan \<Rightarrow> kstate \<Rightarrow> kstate option" where
  "wakeup ch s = wakeup_from [0..<NPROC] ch s"

definition setkilled :: "nat \<Rightarrow> kstate \<Rightarrow> kstate option" where
  "setkilled i s = do {
     s \<leftarrow> acq (PLock i) s;
     let s = upd_proc i (\<lambda>p. p\<lparr>p_killed := 1\<rparr>) s;
     rel (PLock i) s
   }"

definition killed :: "nat \<Rightarrow> kstate \<Rightarrow> (int \<times> kstate) option" where
  "killed i s = do {
     s \<leftarrow> acq (PLock i) s;
     let k = p_killed (procs s ! i);
     s \<leftarrow> rel (PLock i) s;
     Some (k, s)
   }"

section \<open>Giving up the CPU\<close>

text \<open>
  The checks of \<open>sched\<close>; the result is the state in which \<open>swtch\<close> hands the CPU to the scheduler.
\<close>

definition sched :: "kstate \<Rightarrow> kstate option" where
  "sched s =
     (case myproc s of
        None \<Rightarrow> None
      | Some i \<Rightarrow>
          if \<not> holding (hart s) (PLock i) (lk s) then panic ''sched p->lock''
          else if noff (cpus (lk s) (hart s)) \<noteq> 1 then panic ''sched locks''
          else if p_state (procs s ! i) = RUNNING then panic ''sched running''
          else if intr (cpus (lk s) (hart s)) then panic ''sched interruptible''
          else Some s)"

text \<open>
  \<open>sleep\<close> up to the switch to the scheduler, and what follows when the process is scheduled
  again; the scheduler hands the CPU over with the process's lock held.
\<close>

definition sleep :: "chan \<Rightarrow> klock \<Rightarrow> kstate \<Rightarrow> kstate option" where
  "sleep ch l s =
     (case myproc s of
        None \<Rightarrow> None
      | Some i \<Rightarrow> do {
          s \<leftarrow> acq (PLock i) s;
          s \<leftarrow> rel l s;
          let s = upd_proc i (\<lambda>p. p\<lparr>p_chan := ch, p_state := SLEEPING\<rparr>) s;
          sched s
        })"

definition sleep_resumed :: "klock \<Rightarrow> kstate \<Rightarrow> kstate option" where
  "sleep_resumed l s =
     (case myproc s of
        None \<Rightarrow> None
      | Some i \<Rightarrow> do {
          let s = upd_proc i (\<lambda>p. p\<lparr>p_chan := NoChan\<rparr>) s;
          s \<leftarrow> rel (PLock i) s;
          acq l s
        })"

definition yield :: "kstate \<Rightarrow> kstate option" where
  "yield s =
     (case myproc s of
        None \<Rightarrow> None
      | Some i \<Rightarrow> do {
          s \<leftarrow> acq (PLock i) s;
          let s = upd_proc i (\<lambda>p. p\<lparr>p_state := RUNNABLE\<rparr>) s;
          sched s
        })"

definition yield_resumed :: "kstate \<Rightarrow> kstate option" where
  "yield_resumed s = (case myproc s of None \<Rightarrow> None | Some i \<Rightarrow> rel (PLock i) s)"

text \<open>
  One round of the scheduler's inner loop, for process \<open>i\<close>: \<open>True\<close> when it switches to that
  process; and what it does when the process has switched back.
\<close>

definition scheduler_try :: "nat \<Rightarrow> kstate \<Rightarrow> (bool \<times> kstate) option" where
  "scheduler_try i s = do {
     s \<leftarrow> acq (PLock i) s;
     if p_state (procs s ! i) = RUNNABLE
     then Some (True, (upd_proc i (\<lambda>p. p\<lparr>p_state := RUNNING\<rparr>) s)\<lparr>curproc := Some i\<rparr>)
     else do { s \<leftarrow> rel (PLock i) s; Some (False, s) }
   }"

definition scheduler_back :: "nat \<Rightarrow> kstate \<Rightarrow> kstate option" where
  "scheduler_back i s = rel (PLock i) (s\<lparr>curproc := None\<rparr>)"

section \<open>Copies between the kernel and either kind of memory\<close>

definition either_copyout :: "bool \<Rightarrow> u64 \<Rightarrow> u8 list \<Rightarrow> kstate \<Rightarrow> (int \<times> kstate) option" where
  "either_copyout user_dst dst src s =
     (case myproc s of
        None \<Rightarrow> None
      | Some i \<Rightarrow>
          if user_dst then copyout (p_pagetable (procs s ! i)) dst src s
          else Some (0, s\<lparr>mem := put_bytes (mem s) dst src\<rparr>))"

definition either_copyin :: "bool \<Rightarrow> u64 \<Rightarrow> u64 \<Rightarrow> kstate \<Rightarrow> (int \<times> u8 list) option" where
  "either_copyin user_src src len s =
     (case myproc s of
        None \<Rightarrow> None
      | Some i \<Rightarrow>
          if user_src then copyin (p_pagetable (procs s ! i)) src len s
          else Some (0, bytes_at (mem s) src (unat len)))"

section \<open>Sleep locks\<close>

text \<open>
  A sleep lock sits in a table: \<open>get\<close> and \<open>put\<close> read and write it, \<open>l\<close> is its spin lock and \<open>ch\<close>
  its address. \<open>acquiresleep\<close> of a lock that is held waits for another process: \<open>None\<close>.
\<close>

definition acquiresleep ::
  "klock \<Rightarrow> (kstate \<Rightarrow> sleeplock) \<Rightarrow> (sleeplock \<Rightarrow> kstate \<Rightarrow> kstate) \<Rightarrow> kstate \<Rightarrow> kstate option"
where
  "acquiresleep l get put s =
     (case myproc s of
        None \<Rightarrow> None
      | Some i \<Rightarrow> do {
          s \<leftarrow> acq l s;
          if sl_locked (get s) then None
          else rel l (put \<lparr>sl_locked = True, sl_pid = p_pid (procs s ! i)\<rparr> s)
        })"

definition releasesleep ::
  "klock \<Rightarrow> chan \<Rightarrow> (sleeplock \<Rightarrow> kstate \<Rightarrow> kstate) \<Rightarrow> kstate \<Rightarrow> kstate option"
where
  "releasesleep l ch put s = do {
     s \<leftarrow> acq l s;
     let s = put \<lparr>sl_locked = False, sl_pid = 0\<rparr> s;
     s \<leftarrow> wakeup ch s;
     rel l s
   }"

definition holdingsleep ::
  "klock \<Rightarrow> (kstate \<Rightarrow> sleeplock) \<Rightarrow> kstate \<Rightarrow> (bool \<times> kstate) option"
where
  "holdingsleep l get s =
     (case myproc s of
        None \<Rightarrow> None
      | Some i \<Rightarrow> do {
          s \<leftarrow> acq l s;
          let r = (sl_locked (get s) \<and> sl_pid (get s) = p_pid (procs s ! i));
          s \<leftarrow> rel l s;
          Some (r, s)
        })"

section \<open>What wakeup and the sleep locks do\<close>

text \<open>One process woken; the specification of \<open>wakeup\<close> is this for every process but the caller.\<close>

definition wake1 :: "chan \<Rightarrow> proc \<Rightarrow> proc" where
  "wake1 ch p = (if p_state p = SLEEPING \<and> p_chan p = ch then p\<lparr>p_state := RUNNABLE\<rparr> else p)"

definition woken :: "chan \<Rightarrow> nat option \<Rightarrow> proc list \<Rightarrow> proc list" where
  "woken ch cur ps = map (\<lambda>i. if cur = Some i then ps ! i else wake1 ch (ps ! i)) [0..<length ps]"

text \<open>The CPU's lock state is sane and no process lock is held.\<close>

definition plocks_free :: "kstate \<Rightarrow> bool" where
  "plocks_free s \<longleftrightarrow> quiet (hart s) (lk s) \<and> (\<forall>i. free_lock (PLock i) (lk s))"

lemma plocks_free_acquired:
  "plocks_free s \<Longrightarrow> \<forall>i. l \<noteq> PLock i \<Longrightarrow> plocks_free (s\<lparr>lk := acquired (hart s) l (lk s)\<rparr>)"
  by (simp add: plocks_free_def quiet_acquired)

lemma unlocked_plocks_free [simp]: "unlocked s \<Longrightarrow> plocks_free s"
  by (simp add: unlocked_def plocks_free_def)

definition wake_at :: "chan \<Rightarrow> nat option \<Rightarrow> nat \<Rightarrow> proc list \<Rightarrow> proc list" where
  "wake_at ch cur i ps = (if cur = Some i then ps else ps[i := wake1 ch (ps ! i)])"

lemma acq_rel_proc:
  assumes "plocks_free s"
  shows "acq (PLock i) s = Some (s\<lparr>lk := acquired (hart s) (PLock i) (lk s)\<rparr>)"
    and "rel (PLock i) (s\<lparr>lk := acquired (hart s) (PLock i) (lk s), procs := ps\<rparr>) = Some (s\<lparr>procs := ps\<rparr>)"
  using assms by (auto simp: plocks_free_def acq_free rel_def release_acquired)

lemma wakeup_from_result:
  "plocks_free s \<Longrightarrow>
   wakeup_from is ch s = Some (s\<lparr>procs := fold (wake_at ch (curproc s)) is (procs s)\<rparr>)"
proof (induction "is" arbitrary: s)
  case (Cons i "is")
  have step: "wakeup_from (i # is) ch s = wakeup_from is ch (s\<lparr>procs := wake_at ch (curproc s) i (procs s)\<rparr>)"
  proof (cases "curproc s = Some i")
    case False
    let ?k = "acquired (hart s) (PLock i) (lk s)"
    have "(if p_state (procs s ! i) = SLEEPING \<and> p_chan (procs s ! i) = ch
           then upd_proc i (\<lambda>p. p\<lparr>p_state := RUNNABLE\<rparr>) (s\<lparr>lk := ?k\<rparr>) else s\<lparr>lk := ?k\<rparr>)
        = s\<lparr>lk := ?k, procs := (procs s)[i := wake1 ch (procs s ! i)]\<rparr>"
      by (simp add: upd_proc_def wake1_def)
    then show ?thesis
      using False acq_rel_proc [OF Cons(2), of i] by (simp add: myproc_def wake_at_def)
  qed (simp add: myproc_def wake_at_def)
  have "plocks_free (s\<lparr>procs := ps\<rparr>)" for ps using Cons(2) by (simp add: plocks_free_def)
  then show ?case unfolding step by (simp add: Cons.IH)
qed simp

lemma fold_wake_at:
  "n \<le> length ps \<Longrightarrow> fold (wake_at ch cur) [0..<n] ps
     = map (\<lambda>i. if i < n \<and> cur \<noteq> Some i then wake1 ch (ps ! i) else ps ! i) [0..<length ps]"
proof (induction n)
  case 0
  show ?case by (simp add: map_nth)
next
  case (Suc n)
  then show ?case
    by (auto simp: wake_at_def intro!: nth_equalityI simp: nth_list_update less_Suc_eq)
qed

lemma wakeup_result:
  assumes "plocks_free s" "length (procs s) = NPROC"
  shows "wakeup ch s = Some (s\<lparr>procs := woken ch (curproc s) (procs s)\<rparr>)"
proof -
  have "fold (wake_at ch (curproc s)) [0..<NPROC] (procs s) = woken ch (curproc s) (procs s)"
    using fold_wake_at [of NPROC "procs s" ch "curproc s"] assms(2)
    by (auto simp: woken_def intro!: map_cong)
  then show ?thesis
    using wakeup_from_result [OF assms(1)] by (simp add: wakeup_def)
qed

lemma wake1_fields [simp]: "p_pid (wake1 ch p) = p_pid p"
  by (simp add: wake1_def)

lemma woken_simps [simp]:
  "length (woken ch cur ps) = length ps"
  "i < length ps \<Longrightarrow> woken ch cur ps ! i = (if cur = Some i then ps ! i else wake1 ch (ps ! i))"
  by (simp_all add: woken_def)

section \<open>A concrete state\<close>

text \<open>
  Zeroed global variables, as the kernel's image has them, every lock free, and process 0 running
  with pid 1 on CPU 0.
\<close>

definition zero_proc :: proc where
  "zero_proc = \<lparr>p_state = UNUSED, p_chan = NoChan, p_killed = 0, p_xstate = 0, p_pid = 0, p_parent = None,
     p_kstack = 0, p_sz = 0, p_pagetable = 0, p_trapframe = 0, p_context_ra = 0, p_context_sp = 0,
     p_ofile = replicate NOFILE None, p_cwd = None, p_name = [], p_rtime = 0, p_ctime = 0, p_etime = 0,
     p_pagefaultcount = 0\<rparr>"

definition zero_buf :: buf where
  "zero_buf = \<lparr>b_valid = False, b_dev = 0, b_blockno = 0, b_lock = \<lparr>sl_locked = False, sl_pid = 0\<rparr>, b_refcnt = 0,
     b_prev = 0, b_next = 0, b_data = (\<lambda>_. 0)\<rparr>"

definition zero_inode :: inode where
  "zero_inode = \<lparr>i_dev = 0, i_inum = 0, i_ref = 0, i_lock = \<lparr>sl_locked = False, sl_pid = 0\<rparr>, i_valid = False,
     i_type = 0, i_major = 0, i_minor = 0, i_nlink = 0, i_size = 0, i_addrs = replicate 13 0\<rparr>"

definition zero_file :: kfile where
  "zero_file = \<lparr>f_type = FD_NONE, f_ref = 0, f_readable = False, f_writable = False, f_pipe = 0, f_ip = 0,
     f_off = 0, f_major = 0\<rparr>"

definition zero_pipe :: pipe where
  "zero_pipe = \<lparr>pi_data = (\<lambda>_. 0), pi_nread = 0, pi_nwrite = 0, pi_readopen = False, pi_writeopen = False\<rparr>"

definition zero_state :: kstate where
  "zero_state = \<lparr>mem = (\<lambda>_. 0), freelist = 0, reference_counter = (\<lambda>_. 0), kend = 0x80022000,
     lk = \<lparr>cpus = (\<lambda>_. \<lparr>noff = 0, intena = False, intr = False\<rparr>),
           locks = (\<lambda>_. \<lparr>locked = False, lk_cpu = None\<rparr>)\<rparr>,
     hart = 0, procs = (replicate NPROC zero_proc)[0 := zero_proc\<lparr>p_state := RUNNING, p_pid := 1\<rparr>],
     initproc = Some 0, nextpid = 2, curproc = Some 0, ticks = 0, first = False,
     bufs = (\<lambda>_. zero_buf), disk = (\<lambda>_ _. 0), dwrites = [],
     klog = \<lparr>lg_start = 0, lg_size = 0, lg_outstanding = 0, lg_committing = False, lg_dev = 0, lg_n = 0,
             lg_block = (\<lambda>_. 0)\<rparr>,
     sb = \<lparr>sb_magic = 0, sb_size = 0, sb_nblocks = 0, sb_ninodes = 0, sb_nlog = 0, sb_logstart = 0,
           sb_inodestart = 0, sb_bmapstart = 0\<rparr>,
     itable = replicate NINODE zero_inode, ftable = replicate NFILE zero_file, pipes = (\<lambda>_. zero_pipe),
     cons = \<lparr>cons_buf = (\<lambda>_. 0), cons_r = 0, cons_w = 0, cons_e = 0\<rparr>,
     uart = \<lparr>tx_buf = (\<lambda>_. 0), tx_w = 0, tx_r = 0\<rparr>, uart_cfg = [], tx_sent = [],
     tx_room = 1, rx_bytes = [], panicked = False, pr_locking = False, dev_console = False\<rparr>"

lemma zero_state_unlocked: "unlocked zero_state"
  by (simp add: zero_state_def unlocked_def quiet_def free_lock_def)

lemma zero_state_procs: "length (procs zero_state) = NPROC" "curproc zero_state = Some 0"
  by (simp_all add: zero_state_def)

end
