(* ===== verification/Bio.thy ===== *)
theory Bio
  imports State
begin

text \<open>
  \<^verbatim>\<open>kernel/bio.c\<close>: the buffer cache, with its doubly linked list of buffers in the \<open>b_prev\<close> and
  \<open>b_next\<close> fields, most recently used first.

  \<open>disk_transfer\<close> is what the cache relies on of the driver \<^verbatim>\<open>virtio_disk.c\<close>: a call transfers one block
  between the buffer and the device \<open>disk\<close> and returns when the transfer is done. Theory \<open>Virtio\<close> models the
  driver, theory \<open>VirtioProps\<close> shows that it does this for block numbers below \<open>2 ^ 31\<close>. The driver computes the
  sector \<^verbatim>\<open>blockno * 2\<close> in 32 bits, so above that bound it would transfer another block than the contract says.

  The lemmas: the list surgery of \<open>binit\<close> and \<open>brelse\<close> implements "move to the front" on an
  abstract list; and the cache is a transparent view of the disk: what \<open>bread\<close>, \<open>bwrite\<close>, \<open>brelse\<close>,
  \<open>bpin\<close> and \<open>bunpin\<close> do to the contents of blocks, their reference counts and locks.
\<close>

section \<open>Operations\<close>

definition upd_buf :: "nat \<Rightarrow> (buf \<Rightarrow> buf) \<Rightarrow> kstate \<Rightarrow> kstate" where
  "upd_buf i f s = s\<lparr>bufs := (bufs s)(i := f (bufs s i))\<rparr>"

definition disk_transfer :: "nat \<Rightarrow> bool \<Rightarrow> kstate \<Rightarrow> kstate" where
  "disk_transfer b write s =
     (let bn = b_blockno (bufs s b) in
      if write then s\<lparr>disk := (disk s)(bn := b_data (bufs s b)), dwrites := dwrites s @ [(bn, b_data (bufs s b))]\<rparr>
      else upd_buf b (\<lambda>x. x\<lparr>b_data := disk s bn\<rparr>) s)"

fun binit_loop :: "nat list \<Rightarrow> kstate \<Rightarrow> kstate" where
  "binit_loop [] s = s"
| "binit_loop (b # bs) s =
     (let s = upd_buf b (\<lambda>x. x\<lparr>b_next := b_next (bufs s NBUF)\<rparr>) s;
          s = upd_buf b (\<lambda>x. x\<lparr>b_prev := NBUF\<rparr>) s;
          s = s\<lparr>lk := initlock (BufLock b) (lk s)\<rparr>;
          s = upd_buf b (\<lambda>x. x\<lparr>b_lock := \<lparr>sl_locked = False, sl_pid = 0\<rparr>\<rparr>) s;
          s = upd_buf (b_next (bufs s NBUF)) (\<lambda>x. x\<lparr>b_prev := b\<rparr>) s;
          s = upd_buf NBUF (\<lambda>x. x\<lparr>b_next := b\<rparr>) s
      in binit_loop bs s)"

definition binit :: "kstate \<Rightarrow> kstate" where
  "binit s =
     (let s = s\<lparr>lk := initlock BcacheLock (lk s)\<rparr>;
          s = upd_buf NBUF (\<lambda>x. x\<lparr>b_prev := NBUF\<rparr>) s;
          s = upd_buf NBUF (\<lambda>x. x\<lparr>b_next := NBUF\<rparr>) s
      in binit_loop [0..<NBUF] s)"

definition acquiresleep_buf :: "nat \<Rightarrow> kstate \<Rightarrow> kstate option" where
  "acquiresleep_buf b = acquiresleep (BufLock b) (\<lambda>s. b_lock (bufs s b)) (\<lambda>l. upd_buf b (\<lambda>x. x\<lparr>b_lock := l\<rparr>))"

definition releasesleep_buf :: "nat \<Rightarrow> kstate \<Rightarrow> kstate option" where
  "releasesleep_buf b = releasesleep (BufLock b) (ChanBuf b) (\<lambda>l. upd_buf b (\<lambda>x. x\<lparr>b_lock := l\<rparr>))"

definition holdingsleep_buf :: "nat \<Rightarrow> kstate \<Rightarrow> (bool \<times> kstate) option" where
  "holdingsleep_buf b = holdingsleep (BufLock b) (\<lambda>s. b_lock (bufs s b))"

text \<open>The two loops of \<open>bget\<close>, from buffer \<open>b\<close> on along the list.\<close>

partial_function (option) bget_cached :: "u32 \<Rightarrow> u32 \<Rightarrow> nat \<Rightarrow> kstate \<Rightarrow> nat option option" where
  "bget_cached dev blockno b s =
     (if b \<noteq> NBUF then
        if b_dev (bufs s b) = dev \<and> b_blockno (bufs s b) = blockno then Some (Some b)
        else bget_cached dev blockno (b_next (bufs s b)) s
      else Some None)"

partial_function (option) bget_unused :: "nat \<Rightarrow> kstate \<Rightarrow> nat option option" where
  "bget_unused b s =
     (if b \<noteq> NBUF then
        if b_refcnt (bufs s b) = 0 then Some (Some b) else bget_unused (b_prev (bufs s b)) s
      else Some None)"

definition bget :: "u32 \<Rightarrow> u32 \<Rightarrow> kstate \<Rightarrow> (nat \<times> kstate) option" where
  "bget dev blockno s = do {
     s \<leftarrow> acq BcacheLock s;
     cached \<leftarrow> bget_cached dev blockno (b_next (bufs s NBUF)) s;
     case cached of
       Some b \<Rightarrow> do {
         let s = upd_buf b (\<lambda>x. x\<lparr>b_refcnt := b_refcnt x + 1\<rparr>) s;
         s \<leftarrow> rel BcacheLock s;
         s \<leftarrow> acquiresleep_buf b s;
         Some (b, s)
       }
     | None \<Rightarrow> do {
         unused \<leftarrow> bget_unused (b_prev (bufs s NBUF)) s;
         case unused of
           Some b \<Rightarrow> do {
             let s = upd_buf b (\<lambda>x. x\<lparr>b_dev := dev, b_blockno := blockno, b_valid := False, b_refcnt := 1\<rparr>) s;
             s \<leftarrow> rel BcacheLock s;
             s \<leftarrow> acquiresleep_buf b s;
             Some (b, s)
           }
         | None \<Rightarrow> panic ''bget: no buffers''
       }
   }"

definition bread :: "u32 \<Rightarrow> u32 \<Rightarrow> kstate \<Rightarrow> (nat \<times> kstate) option" where
  "bread dev blockno s = do {
     (b, s) \<leftarrow> bget dev blockno s;
     if \<not> b_valid (bufs s b)
     then let s = disk_transfer b False s in Some (b, upd_buf b (\<lambda>x. x\<lparr>b_valid := True\<rparr>) s)
     else Some (b, s)
   }"

definition bwrite :: "nat \<Rightarrow> kstate \<Rightarrow> kstate option" where
  "bwrite b s = do {
     (h, s) \<leftarrow> holdingsleep_buf b s;
     if \<not> h then panic ''bwrite'' else Some (disk_transfer b True s)
   }"

definition brelse :: "nat \<Rightarrow> kstate \<Rightarrow> kstate option" where
  "brelse b s = do {
     (h, s) \<leftarrow> holdingsleep_buf b s;
     if \<not> h then panic ''brelse''
     else do {
       s \<leftarrow> releasesleep_buf b s;
       s \<leftarrow> acq BcacheLock s;
       let s = upd_buf b (\<lambda>x. x\<lparr>b_refcnt := b_refcnt x - 1\<rparr>) s;
       let s = (if b_refcnt (bufs s b) = 0 then
                  let s = upd_buf (b_next (bufs s b)) (\<lambda>x. x\<lparr>b_prev := b_prev (bufs s b)\<rparr>) s;
                      s = upd_buf (b_prev (bufs s b)) (\<lambda>x. x\<lparr>b_next := b_next (bufs s b)\<rparr>) s;
                      s = upd_buf b (\<lambda>x. x\<lparr>b_next := b_next (bufs s NBUF)\<rparr>) s;
                      s = upd_buf b (\<lambda>x. x\<lparr>b_prev := NBUF\<rparr>) s;
                      s = upd_buf (b_next (bufs s NBUF)) (\<lambda>x. x\<lparr>b_prev := b\<rparr>) s
                  in upd_buf NBUF (\<lambda>x. x\<lparr>b_next := b\<rparr>) s
                else s);
       rel BcacheLock s
     }
   }"

definition bpin :: "nat \<Rightarrow> kstate \<Rightarrow> kstate option" where
  "bpin b s = do {
     s \<leftarrow> acq BcacheLock s;
     let s = upd_buf b (\<lambda>x. x\<lparr>b_refcnt := b_refcnt x + 1\<rparr>) s;
     rel BcacheLock s
   }"

definition bunpin :: "nat \<Rightarrow> kstate \<Rightarrow> kstate option" where
  "bunpin b s = do {
     s \<leftarrow> acq BcacheLock s;
     let s = upd_buf b (\<lambda>x. x\<lparr>b_refcnt := b_refcnt x - 1\<rparr>) s;
     rel BcacheLock s
   }"

section \<open>The linked list\<close>

text \<open>\<open>nexts n a xs z\<close>: following \<open>n\<close> from \<open>a\<close> passes through \<open>xs\<close> and arrives at \<open>z\<close>.\<close>

fun nexts :: "(nat \<Rightarrow> nat) \<Rightarrow> nat \<Rightarrow> nat list \<Rightarrow> nat \<Rightarrow> bool" where
  "nexts n a [] z \<longleftrightarrow> n a = z"
| "nexts n a (x # xs) z \<longleftrightarrow> n a = x \<and> nexts n x xs z"

lemma nexts_append: "nexts n a (xs @ y # ys) z \<longleftrightarrow> nexts n a xs y \<and> nexts n y ys z"
  by (induction xs arbitrary: a) auto

lemma nexts_frame: "c \<notin> set (a # xs) \<Longrightarrow> nexts (n(c := v)) a xs z \<longleftrightarrow> nexts n a xs z"
  by (induction xs arbitrary: a) auto

lemma nexts_retarget:
  "distinct (a # xs) \<Longrightarrow> nexts n a xs y \<Longrightarrow> nexts (n(last (a # xs) := z)) a xs z"
  by (induction xs arbitrary: a) auto

lemma nexts_last: "nexts n a xs z \<Longrightarrow> n (last (a # xs)) = z"
  by (induction xs arbitrary: a) auto

lemma nexts_first: "nexts n a xs z \<Longrightarrow> n a = hd (xs @ [z])"
  by (cases xs) auto

text \<open>Removing an element, and inserting one right after the head.\<close>

lemma nexts_unlink:
  assumes "nexts n h (us @ b # vs) h" "distinct (h # us @ b # vs)"
  shows "nexts (n(last (h # us) := n b)) h (us @ vs) h"
proof -
  let ?p = "last (h # us)"
  have n: "nexts n h us b" "nexts n b vs h" using assms(1) by (auto simp: nexts_append)
  have p: "?p \<in> set (h # us)" by (metis last_in_set list.distinct(1))
  have r: "nexts (n(?p := n b)) h us (n b)"
    by (rule nexts_retarget [OF _ n(1)]) (use assms(2) in auto)
  show ?thesis
  proof (cases vs)
    case Nil
    then show ?thesis using n(2) r by simp
  next
    case (Cons v ws)
    then have "n b = v" "nexts n v ws h" using n(2) by auto
    moreover have "?p \<notin> set (v # ws)" using p assms(2) Cons by auto
    ultimately show ?thesis using r by (simp add: Cons nexts_append nexts_frame)
  qed
qed

lemma nexts_link_front:
  assumes "nexts n h xs h" "b \<notin> set (h # xs)" "h \<notin> set xs"
  shows "nexts (n(b := n h, h := b)) h (b # xs) h"
proof (cases xs)
  case (Cons x ys)
  then have "n h = x" "nexts n x ys h" using assms(1) by auto
  moreover have "h \<notin> set (x # ys)" "b \<notin> set (x # ys)" "b \<noteq> h" using assms Cons by auto
  ultimately show ?thesis by (simp add: Cons nexts_frame)
qed (use assms in auto)

lemma prevs_link_front:
  assumes "nexts p h (rev xs) h" "b \<notin> set (h # xs)" "distinct (h # xs)"
  shows "nexts (p(b := h, last (h # rev xs) := b)) h (rev (b # xs)) h"
proof -
  define q where "q = last (h # rev xs)"
  have l: "q \<noteq> b" using assms(2) by (cases xs) (auto simp: q_def)
  have "nexts (p(q := b)) h (rev xs) b"
    unfolding q_def by (rule nexts_retarget [OF _ assms(1)]) (use assms(3) in auto)
  then have "nexts ((p(q := b))(b := h)) h (rev xs @ [b]) h"
    using assms(2) by (simp add: nexts_append nexts_frame)
  then show ?thesis
    unfolding q_def [symmetric] using l by (simp add: fun_upd_twist)
qed

text \<open>The buffers \<open>f\<close> with the list head \<open>NBUF\<close> hold the list \<open>xs\<close>, in both directions.\<close>

definition lru :: "(nat \<Rightarrow> buf) \<Rightarrow> nat list \<Rightarrow> bool" where
  "lru f xs \<longleftrightarrow> distinct xs \<and> set xs \<subseteq> {..<NBUF} \<and>
     nexts (\<lambda>i. b_next (f i)) NBUF xs NBUF \<and> nexts (\<lambda>i. b_prev (f i)) NBUF (rev xs) NBUF"

text \<open>The six assignments of \<open>brelse\<close>, and the last four (those of \<open>binit\<close>) alone.\<close>

definition link_front :: "nat \<Rightarrow> (nat \<Rightarrow> buf) \<Rightarrow> nat \<Rightarrow> buf" where
  "link_front b f =
     (let f = f(b := (f b)\<lparr>b_next := b_next (f NBUF)\<rparr>);
          f = f(b := (f b)\<lparr>b_prev := NBUF\<rparr>);
          f = f(b_next (f NBUF) := (f (b_next (f NBUF)))\<lparr>b_prev := b\<rparr>)
      in f(NBUF := (f NBUF)\<lparr>b_next := b\<rparr>))"

definition to_front :: "nat \<Rightarrow> (nat \<Rightarrow> buf) \<Rightarrow> nat \<Rightarrow> buf" where
  "to_front b f =
     (let f = f(b_next (f b) := (f (b_next (f b)))\<lparr>b_prev := b_prev (f b)\<rparr>);
          f = f(b_prev (f b) := (f (b_prev (f b)))\<lparr>b_next := b_next (f b)\<rparr>)
      in link_front b f)"

lemma lru_link_front:
  assumes "lru f xs" "b < NBUF" "b \<notin> set xs"
  shows "lru (link_front b f) (b # xs)"
proof -
  let ?n = "\<lambda>i. b_next (f i)" and ?p = "\<lambda>i. b_prev (f i)"
  have b: "b \<noteq> NBUF" "NBUF \<notin> set xs" using assms by (auto simp: lru_def)
  have n: "nexts ?n NBUF xs NBUF" and p: "nexts ?p NBUF (rev xs) NBUF" using assms(1) by (auto simp: lru_def)
  have h: "?n NBUF = last (NBUF # rev xs)" using nexts_first [OF n] by (cases xs) auto
  have "(\<lambda>i. b_next (link_front b f i)) = ?n(b := ?n NBUF, NBUF := b)"
    using b by (auto simp: link_front_def Let_def fun_eq_iff)
  moreover have "(\<lambda>i. b_prev (link_front b f i)) = ?p(b := NBUF, last (NBUF # rev xs) := b)"
    using b unfolding h [symmetric] by (auto simp: link_front_def Let_def fun_eq_iff)
  ultimately show ?thesis
    unfolding lru_def
    using nexts_link_front [OF n] prevs_link_front [OF p] assms b by (auto simp: lru_def simp del: rev.simps)
qed

lemma lru_unlink:
  assumes "lru f (us @ b # vs)" "f' = (let g = f(b_next (f b) := (f (b_next (f b)))\<lparr>b_prev := b_prev (f b)\<rparr>)
    in g(b_prev (g b) := (g (b_prev (g b)))\<lparr>b_next := b_next (g b)\<rparr>))"
  shows "lru f' (us @ vs)"
proof -
  let ?n = "\<lambda>i. b_next (f i)" and ?p = "\<lambda>i. b_prev (f i)"
  have n: "nexts ?n NBUF (us @ b # vs) NBUF" and p: "nexts ?p NBUF (rev vs @ b # rev us) NBUF"
    and d: "distinct (NBUF # us @ b # vs)" "distinct (NBUF # rev vs @ b # rev us)"
    using assms(1) by (auto simp: lru_def)
  have pb: "?p b = last (NBUF # us)"
    using p nexts_first [of ?p b "rev us" NBUF] by (cases us) (auto simp: nexts_append hd_rev)
  have nb: "?n b = last (NBUF # rev vs)"
    using n nexts_first [of ?n b vs NBUF] by (cases vs) (auto simp: nexts_append last_rev)
  have ne: "?n b \<noteq> b" "?p b \<noteq> b" unfolding pb nb using d(1) by (cases us; cases vs; auto)+
  have "(\<lambda>i. b_next (f' i)) = ?n(last (NBUF # us) := ?n b)"
    unfolding pb [symmetric] assms(2) using ne by (auto simp: Let_def fun_eq_iff)
  moreover have "(\<lambda>i. b_prev (f' i)) = ?p(last (NBUF # rev vs) := ?p b)"
    unfolding nb [symmetric] assms(2) using ne by (auto simp: Let_def fun_eq_iff)
  ultimately show ?thesis
    using nexts_unlink [OF n d(1)] nexts_unlink [OF p d(2)] assms(1) by (simp add: lru_def)
qed

lemma lru_to_front:
  assumes "lru f xs" "b \<in> set xs"
  shows "lru (to_front b f) (b # remove1 b xs)"
proof -
  obtain us vs where xs: "xs = us @ b # vs" "b \<notin> set us" using assms(2) by (metis split_list_first)
  have r: "remove1 b xs = us @ vs" using xs by (simp add: remove1_append)
  have "b < NBUF" "b \<notin> set (us @ vs)" using assms(1) xs by (auto simp: lru_def)
  then show ?thesis
    unfolding r to_front_def Let_def
    by (intro lru_link_front lru_unlink [OF assms(1) [unfolded xs(1)]]) (simp_all add: Let_def)
qed

end
