(* ===== verification/BlockCache.thy ===== *)
theory BlockCache
  imports State
begin

text \<open>
  The interface between the buffer cache and its clients. \<open>cabs\<close> is the abstract state of a cache:
  per block the contents a reader sees, the number of references, whether a process has it locked,
  and the contents on disk; and the disk writes so far. The locale \<open>block_cache\<close> lists the laws
  that a cache's operations obey with respect to it, and proves what the sequences of calls that the
  log makes amount to. Theory \<open>BioView\<close> interprets it on \<^verbatim>\<open>bio.c\<close>.
\<close>

record cabs =
  a_view :: "u32 \<Rightarrow> block"
  a_refs :: "u32 \<Rightarrow> u32"
  a_locked :: "u32 \<Rightarrow> bool"
  a_disk :: "u32 \<Rightarrow> block"
  a_writes :: "(u32 \<times> block) list"

definition a_get :: "u32 \<Rightarrow> cabs \<Rightarrow> cabs" where
  "a_get b a = a\<lparr>a_refs := (a_refs a)(b := a_refs a b + 1), a_locked := (a_locked a)(b := True)\<rparr>"

definition a_put :: "u32 \<Rightarrow> cabs \<Rightarrow> cabs" where
  "a_put b a = a\<lparr>a_refs := (a_refs a)(b := a_refs a b - 1), a_locked := (a_locked a)(b := False)\<rparr>"

definition a_set :: "u32 \<Rightarrow> block \<Rightarrow> cabs \<Rightarrow> cabs" where
  "a_set b d a = a\<lparr>a_view := (a_view a)(b := d)\<rparr>"

definition a_write :: "u32 \<Rightarrow> cabs \<Rightarrow> cabs" where
  "a_write b a = a\<lparr>a_disk := (a_disk a)(b := a_view a b), a_writes := a_writes a @ [(b, a_view a b)]\<rparr>"

definition a_pin :: "u32 \<Rightarrow> cabs \<Rightarrow> cabs" where
  "a_pin b a = a\<lparr>a_refs := (a_refs a)(b := a_refs a b + 1)\<rparr>"

definition a_unpin :: "u32 \<Rightarrow> cabs \<Rightarrow> cabs" where
  "a_unpin b a = a\<lparr>a_refs := (a_refs a)(b := a_refs a b - 1)\<rparr>"

text \<open>Room for one more block.\<close>

definition a_room :: "cabs \<Rightarrow> bool" where
  "a_room a \<longleftrightarrow> card {b. a_refs a b \<noteq> 0} < NBUF"

lemmas a_ops = a_get_def a_put_def a_set_def a_write_def a_pin_def a_unpin_def

text \<open>The net effect of copying block \<open>a\<close> to block \<open>d\<close> and writing it through.\<close>

definition a_copy :: "u32 \<Rightarrow> u32 \<Rightarrow> cabs \<Rightarrow> cabs" where
  "a_copy src d a = a\<lparr>a_view := (a_view a)(d := a_view a src), a_disk := (a_disk a)(d := a_view a src),
     a_writes := a_writes a @ [(d, a_view a src)]\<rparr>"

locale block_cache =
  fixes good :: "'s \<Rightarrow> bool" and absf :: "'s \<Rightarrow> cabs" and own :: "'s \<Rightarrow> nat \<Rightarrow> u32 \<Rightarrow> bool"
    and frame :: "'s \<Rightarrow> 's \<Rightarrow> bool"
    and get :: "u32 \<Rightarrow> 's \<Rightarrow> (nat \<times> 's) option" and put :: "nat \<Rightarrow> 's \<Rightarrow> 's option"
    and setd :: "nat \<Rightarrow> block \<Rightarrow> 's \<Rightarrow> 's" and data :: "nat \<Rightarrow> 's \<Rightarrow> block"
    and wr :: "nat \<Rightarrow> 's \<Rightarrow> 's option" and pin :: "nat \<Rightarrow> 's \<Rightarrow> 's option" and unpin :: "nat \<Rightarrow> 's \<Rightarrow> 's option"
  assumes get_ok: "\<lbrakk>good s; \<not> a_locked (absf s) b; a_refs (absf s) b + 1 \<noteq> 0; a_room (absf s) \<or> a_refs (absf s) b \<noteq> 0\<rbrakk>
      \<Longrightarrow> \<exists>i s'. get b s = Some (i, s') \<and> good s' \<and> frame s s' \<and> own s' i b \<and> absf s' = a_get b (absf s) \<and>
            (\<forall>j c. own s j c \<longrightarrow> own s' j c)"
    and put_ok: "\<lbrakk>good s; own s i b; a_refs (absf s) b = 1 \<longrightarrow> a_disk (absf s) b = a_view (absf s) b\<rbrakk>
      \<Longrightarrow> \<exists>s'. put i s = Some s' \<and> good s' \<and> frame s s' \<and> absf s' = a_put b (absf s) \<and>
            (\<forall>j c. j \<noteq> i \<longrightarrow> own s j c \<longrightarrow> own s' j c)"
    and setd_ok: "\<lbrakk>good s; own s i b\<rbrakk>
      \<Longrightarrow> good (setd i d s) \<and> frame s (setd i d s) \<and> absf (setd i d s) = a_set b d (absf s) \<and>
            (\<forall>j c. own s j c \<longrightarrow> own (setd i d s) j c)"
    and data_ok: "\<lbrakk>good s; own s i b\<rbrakk> \<Longrightarrow> data i s = a_view (absf s) b"
    and wr_ok: "\<lbrakk>good s; own s i b\<rbrakk>
      \<Longrightarrow> \<exists>s'. wr i s = Some s' \<and> good s' \<and> frame s s' \<and> absf s' = a_write b (absf s) \<and>
            (\<forall>j c. own s j c \<longrightarrow> own s' j c)"
    and pin_ok: "\<lbrakk>good s; own s i b; a_refs (absf s) b + 1 \<noteq> 0\<rbrakk>
      \<Longrightarrow> \<exists>s'. pin i s = Some s' \<and> good s' \<and> frame s s' \<and> absf s' = a_pin b (absf s) \<and>
            (\<forall>j c. own s j c \<longrightarrow> own s' j c)"
    and unpin_ok: "\<lbrakk>good s; own s i b; a_refs (absf s) b \<noteq> 1\<rbrakk>
      \<Longrightarrow> \<exists>s'. unpin i s = Some s' \<and> good s' \<and> frame s s' \<and> absf s' = a_unpin b (absf s) \<and>
            (\<forall>j c. own s j c \<longrightarrow> own s' j c)"
    and unused_clean: "good s \<Longrightarrow> a_refs (absf s) b = 0 \<Longrightarrow> a_disk (absf s) b = a_view (absf s) b"
    and own_fun: "own s i b \<Longrightarrow> own s i c \<Longrightarrow> b = c"
    and frame_trans: "frame s t \<Longrightarrow> frame t u \<Longrightarrow> frame s u"
begin

text \<open>Read two blocks, overwrite the first with the second, write it: the state before the releases.\<close>

lemma two_gets:
  assumes "good s" "\<not> a_locked (absf s) b" "\<not> a_locked (absf s) c" "b \<noteq> c"
    and "a_refs (absf s) b + 1 \<noteq> 0" "a_refs (absf s) c + 1 \<noteq> 0"
    and "a_room (absf s) \<or> a_refs (absf s) b \<noteq> 0"
    and "a_room (a_get b (absf s)) \<or> a_refs (absf s) c \<noteq> 0"
  obtains i j s1 s2 where "get b s = Some (i, s1)" "get c s1 = Some (j, s2)" "good s2" "frame s s1" "frame s s2"
    "own s2 i b" "own s2 j c" "i \<noteq> j" "absf s2 = a_get c (a_get b (absf s))"
proof -
  obtain i s1 where s1: "get b s = Some (i, s1)" "good s1" "frame s s1" "own s1 i b" "absf s1 = a_get b (absf s)"
    using get_ok [OF assms(1,2,5,7)] by blast
  have "\<not> a_locked (absf s1) c" "a_refs (absf s1) c + 1 \<noteq> 0" "a_room (absf s1) \<or> a_refs (absf s1) c \<noteq> 0"
    using s1(5) assms(3,4,6,8) by (auto simp: a_get_def)
  from get_ok [OF s1(2) this] obtain j s2 where s2: "get c s1 = Some (j, s2)" "good s2" "frame s1 s2" "own s2 j c"
    "absf s2 = a_get c (absf s1)" "own s2 i b" using s1(4) by blast
  moreover have "i \<noteq> j" using own_fun s2(4,6) assms(4) by blast
  ultimately show ?thesis using that s1 frame_trans by metis
qed

lemma set_and_write:
  assumes "good s" "own s i b" "own s j c" "i \<noteq> j"
  obtains s' where "wr i (setd i d s) = Some s'" "good s'" "frame s s'" "own s' i b" "own s' j c"
    "absf s' = a_write b (a_set b d (absf s))"
proof -
  note sd = setd_ok [OF assms(1,2), of d]
  have "own (setd i d s) i b" "own (setd i d s) j c" using sd assms by blast+
  with wr_ok [of "setd i d s" i b] sd show ?thesis
    using that frame_trans by (metis (no_types, lifting))
qed

lemma two_puts:
  assumes "good s" "own s i b" "own s j c" "i \<noteq> j" "b \<noteq> c"
    and "a_refs (absf s) b = 1 \<longrightarrow> a_disk (absf s) b = a_view (absf s) b"
    and "a_refs (absf s) c = 1 \<longrightarrow> a_disk (absf s) c = a_view (absf s) c"
  obtains s1 s2 where "put i s = Some s1" "put j s1 = Some s2" "good s2" "frame s s2"
    "absf s2 = a_put c (a_put b (absf s))"
proof -
  obtain s1 where s1: "put i s = Some s1" "good s1" "frame s s1" "absf s1 = a_put b (absf s)" "own s1 j c"
    using put_ok [OF assms(1,2,6)] assms(3) not_sym [OF assms(4)] by blast
  have "a_refs (absf s1) c = 1 \<longrightarrow> a_disk (absf s1) c = a_view (absf s1) c"
    using s1(4) assms(5,7) by (simp add: a_put_def)
  from put_ok [OF s1(2,5) this] s1 show ?thesis using that frame_trans by metis
qed

text \<open>
  The three sequences of the log. Copying a pinned block to an unused one (\<open>write_log\<close>), copying a
  log block to its pinned home and unpinning it (\<open>install_trans\<close> at a commit), copying a log block to
  an unpinned home (recovery); and changing one block in place (\<open>write_head\<close>).
\<close>

definition quiet_cache :: "'s \<Rightarrow> bool" where
  "quiet_cache s \<longleftrightarrow> good s \<and> (\<forall>b. \<not> a_locked (absf s) b) \<and> a_room (absf s)"

lemma copy_to_log:
  assumes "quiet_cache s" "src \<noteq> d" "a_refs (absf s) src = 1" "a_refs (absf s) d = 0"
  obtains i j s1 s2 s3 s4 s5 where "get d s = Some (i, s1)" "frame s s1" "get src s1 = Some (j, s2)"
    "wr i (setd i (data j s2) s2) = Some s3" "put j s3 = Some s4" "put i s4 = Some s5"
    "good s5" "frame s s5" "absf s5 = a_copy src d (absf s)"
proof -
  have q: "good s" "\<not> a_locked (absf s) d" "\<not> a_locked (absf s) src" "a_room (absf s)"
    using assms(1) by (auto simp: quiet_cache_def)
  obtain i j s1 s2 where g: "get d s = Some (i, s1)" "get src s1 = Some (j, s2)" "good s2" "frame s s1" "frame s s2"
    "own s2 i d" "own s2 j src" "i \<noteq> j" "absf s2 = a_get src (a_get d (absf s))"
    by (rule two_gets [OF q(1-3)]) (use assms q in auto)
  obtain s3 where w: "wr i (setd i (data j s2) s2) = Some s3" "good s3" "frame s2 s3" "own s3 i d" "own s3 j src"
    "absf s3 = a_write d (a_set d (data j s2) (absf s2))"
    by (rule set_and_write [OF g(3,6,7,8)])
  have dj: "data j s2 = a_view (absf s) src" using data_ok [OF g(3,7)] g(9) by (simp add: a_ops)
  obtain s4 s5 where p: "put j s3 = Some s4" "put i s4 = Some s5" "good s5" "frame s3 s5"
    "absf s5 = a_put d (a_put src (absf s3))"
    by (rule two_puts [OF w(2,5,4) g(8) [symmetric] assms(2)]) (use w(6) g(9) assms in \<open>auto simp: a_ops\<close>)
  have "absf s5 = a_copy src d (absf s)"
    using p(5) w(6) g(9) dj q(2,3) assms
    by (cases "absf s") (auto simp: a_ops a_copy_def fun_eq_iff)
  moreover have "frame s s5" by (rule frame_trans [OF frame_trans [OF g(5) w(3)] p(4)])
  ultimately show ?thesis by (intro that [OF g(1,4,2) w(1) p(1-3)])
qed

lemma copy_home:
  assumes "quiet_cache s" "src \<noteq> d" "a_refs (absf s) src = 0" "a_refs (absf s) d = 1"
  obtains i j s1 s2 s3 s4 s5 s6 where "get src s = Some (i, s1)" "frame s s1" "get d s1 = Some (j, s2)"
    "wr j (setd j (data i s2) s2) = Some s3" "unpin j s3 = Some s4" "put i s4 = Some s5" "put j s5 = Some s6"
    "good s6" "frame s s6" "absf s6 = a_unpin d (a_copy src d (absf s))"
proof -
  have q: "good s" "\<not> a_locked (absf s) src" "\<not> a_locked (absf s) d" "a_room (absf s)"
    using assms(1) by (auto simp: quiet_cache_def)
  obtain i j s1 s2 where g: "get src s = Some (i, s1)" "get d s1 = Some (j, s2)" "good s2" "frame s s1" "frame s s2"
    "own s2 i src" "own s2 j d" "i \<noteq> j" "absf s2 = a_get d (a_get src (absf s))"
    by (rule two_gets [OF q(1-3) assms(2)]) (use assms q in auto)
  obtain s3 where w: "wr j (setd j (data i s2) s2) = Some s3" "good s3" "frame s2 s3" "own s3 j d" "own s3 i src"
    "absf s3 = a_write d (a_set d (data i s2) (absf s2))"
    by (rule set_and_write [OF g(3,7,6) g(8) [symmetric]])
  have di: "data i s2 = a_view (absf s) src" using data_ok [OF g(3,6)] g(9) by (simp add: a_ops)
  have "a_refs (absf s3) d \<noteq> 1" using w(6) g(9) assms by (simp add: a_ops)
  from unpin_ok [OF w(2,4) this] obtain s4 where u: "unpin j s3 = Some s4" "good s4" "frame s3 s4"
    "absf s4 = a_unpin d (absf s3)" "own s4 j d" "own s4 i src" using w(4,5) by blast
  have clean: "a_refs (absf s4) src = 1 \<longrightarrow> a_disk (absf s4) src = a_view (absf s4) src"
    using unused_clean [OF q(1) assms(3)] u(4) w(6) g(9) assms(2) by (simp add: a_ops)
  obtain s5 s6 where p: "put i s4 = Some s5" "put j s5 = Some s6" "good s6" "frame s4 s6"
    "absf s6 = a_put d (a_put src (absf s4))"
    by (rule two_puts [OF u(2,6,5) g(8) assms(2) clean]) (use u(4) w(6) g(9) assms in \<open>auto simp: a_ops\<close>)
  have "absf s6 = a_unpin d (a_copy src d (absf s))"
    using p(5) u(4) w(6) g(9) di q(2,3) assms
    by (cases "absf s") (auto simp: a_ops a_copy_def fun_eq_iff)
  moreover have "frame s s6"
    by (rule frame_trans [OF frame_trans [OF frame_trans [OF g(5) w(3)] u(3)] p(4)])
  ultimately show ?thesis by (intro that [OF g(1,4,2) w(1) u(1) p(1-3)])
qed

lemma copy_home_recovering:
  assumes "quiet_cache s" "src \<noteq> d" "a_refs (absf s) src = 0" "a_refs (absf s) d = 0"
    and "a_room (a_get src (absf s))"
  obtains i j s1 s2 s3 s4 s5 where "get src s = Some (i, s1)" "frame s s1" "get d s1 = Some (j, s2)"
    "wr j (setd j (data i s2) s2) = Some s3" "put i s3 = Some s4" "put j s4 = Some s5"
    "good s5" "frame s s5" "absf s5 = a_copy src d (absf s)"
proof -
  have q: "good s" "\<not> a_locked (absf s) src" "\<not> a_locked (absf s) d" "a_room (absf s)"
    using assms(1) by (auto simp: quiet_cache_def)
  obtain i j s1 s2 where g: "get src s = Some (i, s1)" "get d s1 = Some (j, s2)" "good s2" "frame s s1" "frame s s2"
    "own s2 i src" "own s2 j d" "i \<noteq> j" "absf s2 = a_get d (a_get src (absf s))"
    by (rule two_gets [OF q(1-3) assms(2)]) (use assms q in auto)
  obtain s3 where w: "wr j (setd j (data i s2) s2) = Some s3" "good s3" "frame s2 s3" "own s3 j d" "own s3 i src"
    "absf s3 = a_write d (a_set d (data i s2) (absf s2))"
    by (rule set_and_write [OF g(3,7,6) g(8) [symmetric]])
  have di: "data i s2 = a_view (absf s) src" using data_ok [OF g(3,6)] g(9) by (simp add: a_ops)
  have clean: "a_refs (absf s3) src = 1 \<longrightarrow> a_disk (absf s3) src = a_view (absf s3) src"
    using unused_clean [OF q(1) assms(3)] w(6) g(9) assms(2) by (simp add: a_ops)
  obtain s4 s5 where p: "put i s3 = Some s4" "put j s4 = Some s5" "good s5" "frame s3 s5"
    "absf s5 = a_put d (a_put src (absf s3))"
    by (rule two_puts [OF w(2,5,4) g(8) assms(2) clean]) (use w(6) g(9) assms in \<open>auto simp: a_ops\<close>)
  have "absf s5 = a_copy src d (absf s)"
    using p(5) w(6) g(9) di q(2,3) assms
    by (cases "absf s") (auto simp: a_ops a_copy_def fun_eq_iff)
  moreover have "frame s s5" by (rule frame_trans [OF frame_trans [OF g(5) w(3)] p(4)])
  ultimately show ?thesis by (intro that [OF g(1,4,2) w(1) p(1-3)])
qed

lemma change_in_place:
  assumes "quiet_cache s" "a_refs (absf s) b = 0"
  obtains i s1 where "get b s = Some (i, s1)" "frame s s1" "data i s1 = a_view (absf s) b" "good s1" "own s1 i b"
    "absf s1 = a_get b (absf s)"
    "\<And>e. \<exists>s2 s3. wr i (setd i e s1) = Some s2 \<and> put i s2 = Some s3 \<and> good s3 \<and> frame s s3 \<and>
      absf s3 = a_write b (a_set b e (absf s))"
proof -
  have q: "good s" "\<not> a_locked (absf s) b" "a_room (absf s)" using assms(1) by (auto simp: quiet_cache_def)
  obtain i s1 where s1: "get b s = Some (i, s1)" "good s1" "frame s s1" "own s1 i b" "absf s1 = a_get b (absf s)"
    using get_ok [OF q(1,2)] q(3) assms(2) by auto
  have "\<exists>s2 s3. wr i (setd i e s1) = Some s2 \<and> put i s2 = Some s3 \<and> good s3 \<and> frame s s3 \<and>
      absf s3 = a_write b (a_set b e (absf s))" for e
  proof -
    note sd = setd_ok [OF s1(2,4), of e]
    have "own (setd i e s1) i b" using sd s1(4) by blast
    from wr_ok [OF _ this] sd obtain s2 where s2: "wr i (setd i e s1) = Some s2" "good s2" "frame (setd i e s1) s2"
      "absf s2 = a_write b (a_set b e (a_get b (absf s)))" "own s2 i b"
      using s1(4,5) by (metis (no_types, lifting))
    have "a_refs (absf s2) b = 1 \<longrightarrow> a_disk (absf s2) b = a_view (absf s2) b"
      unfolding s2(4) by (simp add: a_ops)
    from put_ok [OF s2(2,5) this] obtain s3 where s3: "put i s2 = Some s3" "good s3" "frame s2 s3"
      "absf s3 = a_put b (absf s2)" by blast
    moreover have "a_put b (absf s2) = a_write b (a_set b e (absf s))"
      unfolding s2(4) using q(2) assms(2) by (cases "absf s") (auto simp: a_ops fun_eq_iff)
    moreover have "frame s s3" using frame_trans s1(3) s2(3) s3(3) sd by blast
    ultimately show ?thesis using s2(1) by auto
  qed
  moreover have "data i s1 = a_view (absf s) b" using data_ok [OF s1(2,4)] s1(5) by (simp add: a_ops)
  ultimately show ?thesis using that s1 by blast
qed

end

end
