(* ===== verification/BioView.thy ===== *)
theory BioView
  imports Bio BlockCache
begin

text \<open>
  The contract of the buffer cache. The abstract view of a cache state: the contents of every
  block as a reader sees them (\<open>bview\<close>), the reference count of every block (\<open>refs\<close>), and which
  buffer the running process has locked for which block (\<open>owns\<close>). Under the invariant \<open>cache_ok\<close>
  every operation has a simple effect on this view; the log and the file system rely on these
  lemmas only.
\<close>

section \<open>The sleep locks of the buffers\<close>

definition running :: "kstate \<Rightarrow> bool" where
  "running s \<longleftrightarrow> unlocked s \<and> length (procs s) = NPROC \<and> (\<exists>i<NPROC. curproc s = Some i)"

definition mypid :: "kstate \<Rightarrow> int" where
  "mypid s = p_pid (procs s ! the (curproc s))"

lemma runningE:
  assumes "running s"
  obtains i where "curproc s = Some i" "i < length (procs s)" "mypid s = p_pid (procs s ! i)"
    "unlocked s" "length (procs s) = NPROC"
  using assms by (auto simp: running_def mypid_def)

lemma running_updates [simp]:
  "running (s\<lparr>bufs := f\<rparr>) = running s" "running (s\<lparr>disk := d\<rparr>) = running s"
  "running (s\<lparr>dwrites := w\<rparr>) = running s" "running (s\<lparr>klog := l\<rparr>) = running s"
  "mypid (s\<lparr>bufs := f\<rparr>) = mypid s" "mypid (s\<lparr>disk := d\<rparr>) = mypid s"
  "mypid (s\<lparr>dwrites := w\<rparr>) = mypid s" "mypid (s\<lparr>klog := l\<rparr>) = mypid s"
  by (simp_all add: running_def unlocked_def mypid_def)

lemma unlockedD: "unlocked s \<Longrightarrow> free_lock l (lk s)" "unlocked s \<Longrightarrow> quiet (hart s) (lk s)"
  by (simp_all add: unlocked_def)

lemma acq_unlocked: "unlocked s \<Longrightarrow> acq l s = Some (s\<lparr>lk := acquired (hart s) l (lk s)\<rparr>)"
  by (simp add: acq_free unlockedD)

lemma rel_unlocked:
  "unlocked s \<Longrightarrow> hart t = hart s \<Longrightarrow> lk t = acquired (hart s) l (lk s) \<Longrightarrow> rel l t = Some (t\<lparr>lk := lk s\<rparr>)"
  using rel_acquired [of t "lk s" l] by (simp add: unlockedD)

lemma acquiresleep_buf_result:
  assumes "running s" "\<not> sl_locked (b_lock (bufs s b))"
  shows "acquiresleep_buf b s = Some (upd_buf b (\<lambda>x. x\<lparr>b_lock := \<lparr>sl_locked = True, sl_pid = mypid s\<rparr>\<rparr>) s)"
  using assms(1)
proof (rule runningE)
  fix i
  assume i: "curproc s = Some i" "mypid s = p_pid (procs s ! i)" "unlocked s"
  show ?thesis
    using assms(2) i
    by (simp add: acquiresleep_buf_def acquiresleep_def myproc_def acq_unlocked rel_unlocked [of s] upd_buf_def)
qed

lemma holdingsleep_buf_result:
  assumes "running s"
  shows "holdingsleep_buf b s = Some (sl_locked (b_lock (bufs s b)) \<and> sl_pid (b_lock (bufs s b)) = mypid s, s)"
  using assms
proof (rule runningE)
  fix i
  assume i: "curproc s = Some i" "mypid s = p_pid (procs s ! i)" "unlocked s"
  then show ?thesis
    by (simp add: holdingsleep_buf_def holdingsleep_def myproc_def acq_unlocked rel_unlocked [of s])
qed

lemma releasesleep_buf_result:
  assumes "running s"
  shows "releasesleep_buf b s = Some (upd_buf b (\<lambda>x. x\<lparr>b_lock := \<lparr>sl_locked = False, sl_pid = 0\<rparr>\<rparr>)
    (s\<lparr>procs := woken (ChanBuf b) (curproc s) (procs s)\<rparr>))"
proof -
  have u: "unlocked s" "length (procs s) = NPROC" using assms by (auto simp: running_def)
  let ?t = "upd_buf b (\<lambda>x. x\<lparr>b_lock := \<lparr>sl_locked = False, sl_pid = 0\<rparr>\<rparr>)
    (s\<lparr>lk := acquired (hart s) (BufLock b) (lk s)\<rparr>)"
  have "plocks_free ?t"
    using u(1) by (simp add: plocks_free_def upd_buf_def unlocked_def quiet_acquired)
  from wakeup_result [OF this, of "ChanBuf b"] u show ?thesis
    by (simp add: releasesleep_buf_def releasesleep_def acq_unlocked rel_unlocked [of s] upd_buf_def)
qed

section \<open>The two searches\<close>

lemma bget_cached_nexts:
  assumes "nexts (\<lambda>i. b_next (bufs s i)) a xs NBUF" "NBUF \<notin> set xs"
  shows "bget_cached dev bn (b_next (bufs s a)) s
    = Some (find (\<lambda>i. b_dev (bufs s i) = dev \<and> b_blockno (bufs s i) = bn) xs)"
  using assms
proof (induction xs arbitrary: a)
  case Nil
  then show ?case by (subst bget_cached.simps) simp
next
  case (Cons x xs)
  then show ?case by (subst bget_cached.simps) auto
qed

lemma bget_unused_nexts:
  assumes "nexts (\<lambda>i. b_prev (bufs s i)) a xs NBUF" "NBUF \<notin> set xs"
  shows "bget_unused (b_prev (bufs s a)) s = Some (find (\<lambda>i. b_refcnt (bufs s i) = 0) xs)"
  using assms
proof (induction xs arbitrary: a)
  case Nil
  then show ?case by (subst bget_unused.simps) simp
next
  case (Cons x xs)
  then show ?case by (subst bget_unused.simps) auto
qed

section \<open>The abstract view\<close>

abbreviation holds_block :: "(nat \<Rightarrow> buf) \<Rightarrow> u32 \<Rightarrow> nat \<Rightarrow> bool" where
  "holds_block f b i \<equiv> b_dev (f i) = ROOTDEV \<and> b_blockno (f i) = b"

definition bview :: "kstate \<Rightarrow> u32 \<Rightarrow> block" where
  "bview s b = (case find (\<lambda>i. holds_block (bufs s) b i \<and> b_valid (bufs s i)) [0..<NBUF] of
     Some i \<Rightarrow> b_data (bufs s i) | None \<Rightarrow> disk s b)"

definition refs :: "kstate \<Rightarrow> u32 \<Rightarrow> u32" where
  "refs s b = (case find (holds_block (bufs s) b) [0..<NBUF] of
     Some i \<Rightarrow> b_refcnt (bufs s i) | None \<Rightarrow> 0)"

definition blocked :: "kstate \<Rightarrow> u32 \<Rightarrow> bool" where
  "blocked s b \<longleftrightarrow> (\<exists>i<NBUF. holds_block (bufs s) b i \<and> sl_locked (b_lock (bufs s i)))"

definition owns :: "kstate \<Rightarrow> nat \<Rightarrow> u32 \<Rightarrow> bool" where
  "owns s i b \<longleftrightarrow> i < NBUF \<and> holds_block (bufs s) b i \<and> b_valid (bufs s i) \<and> b_refcnt (bufs s i) \<noteq> 0 \<and>
     b_lock (bufs s i) = \<lparr>sl_locked = True, sl_pid = mypid s\<rparr>"

definition has_unused :: "kstate \<Rightarrow> bool" where
  "has_unused s \<longleftrightarrow> (\<exists>i<NBUF. b_refcnt (bufs s i) = 0)"

text \<open>One buffer per block, used buffers hold valid data, unused ones are clean and unlocked.\<close>

definition cache_ok :: "kstate \<Rightarrow> bool" where
  "cache_ok s \<longleftrightarrow>
     (\<exists>xs. lru (bufs s) xs \<and> set xs = {..<NBUF}) \<and>
     (\<forall>i<NBUF. \<forall>j<NBUF. \<forall>b. holds_block (bufs s) b i \<longrightarrow> holds_block (bufs s) b j \<longrightarrow> i = j) \<and>
     (\<forall>i<NBUF. b_refcnt (bufs s i) \<noteq> 0 \<longrightarrow> b_dev (bufs s i) = ROOTDEV \<and> b_valid (bufs s i)) \<and>
     (\<forall>i<NBUF. b_refcnt (bufs s i) = 0 \<longrightarrow> \<not> sl_locked (b_lock (bufs s i)) \<and>
        (b_valid (bufs s i) \<and> b_dev (bufs s i) = ROOTDEV \<longrightarrow> b_data (bufs s i) = disk s (b_blockno (bufs s i))))"

lemma cache_okD:
  assumes "cache_ok s"
  shows "\<exists>xs. lru (bufs s) xs \<and> set xs = {..<NBUF}"
    "i < NBUF \<Longrightarrow> j < NBUF \<Longrightarrow> holds_block (bufs s) b i \<Longrightarrow> holds_block (bufs s) b j \<Longrightarrow> i = j"
    "i < NBUF \<Longrightarrow> b_refcnt (bufs s i) \<noteq> 0 \<Longrightarrow> b_dev (bufs s i) = ROOTDEV"
    "i < NBUF \<Longrightarrow> b_refcnt (bufs s i) \<noteq> 0 \<Longrightarrow> b_valid (bufs s i)"
    "i < NBUF \<Longrightarrow> b_refcnt (bufs s i) = 0 \<Longrightarrow> \<not> sl_locked (b_lock (bufs s i))"
    "i < NBUF \<Longrightarrow> b_refcnt (bufs s i) = 0 \<Longrightarrow> holds_block (bufs s) b i \<Longrightarrow> b_valid (bufs s i) \<Longrightarrow>
       b_data (bufs s i) = disk s b"
  using assms unfolding cache_ok_def by blast+

lemma find_unique:
  assumes "i \<in> set xs" "P i" "\<forall>j\<in>set xs. P j \<longrightarrow> j = i"
  shows "find P xs = Some i"
proof (cases "find P xs")
  case None
  then show ?thesis using assms(1,2) by (simp add: find_None_iff)
next
  case (Some j)
  then have "P j" "j \<in> set xs" by (auto simp: find_Some_iff)
  then show ?thesis using assms(3) Some by simp
qed

lemma bview_cached:
  assumes "cache_ok s" "i < NBUF" "holds_block (bufs s) b i" "b_valid (bufs s i)"
  shows "bview s b = b_data (bufs s i)"
proof -
  have "find (\<lambda>i. holds_block (bufs s) b i \<and> b_valid (bufs s i)) [0..<NBUF] = Some i"
  proof (rule find_unique)
    show "\<forall>j\<in>set [0..<NBUF]. holds_block (bufs s) b j \<and> b_valid (bufs s j) \<longrightarrow> j = i"
    proof (intro ballI impI)
      fix j
      assume "j \<in> set [0..<NBUF]" "holds_block (bufs s) b j \<and> b_valid (bufs s j)"
      then show "j = i" using cache_okD(2) [OF assms(1) _ assms(2) _ assms(3), of j] by simp
    qed
  qed (use assms in simp_all)
  then show ?thesis by (simp add: bview_def)
qed

lemma bview_uncached:
  assumes "\<forall>i<NBUF. \<not> (holds_block (bufs s) b i \<and> b_valid (bufs s i))"
  shows "bview s b = disk s b"
proof -
  have "find (\<lambda>i. holds_block (bufs s) b i \<and> b_valid (bufs s i)) [0..<NBUF] = None"
    using assms unfolding find_None_iff by auto
  then show ?thesis by (simp add: bview_def)
qed

lemma refs_cached:
  assumes "cache_ok s" "i < NBUF" "holds_block (bufs s) b i"
  shows "refs s b = b_refcnt (bufs s i)"
proof -
  have "find (holds_block (bufs s) b) [0..<NBUF] = Some i"
  proof (rule find_unique)
    show "\<forall>j\<in>set [0..<NBUF]. holds_block (bufs s) b j \<longrightarrow> j = i"
    proof (intro ballI impI)
      fix j
      assume "j \<in> set [0..<NBUF]" "holds_block (bufs s) b j"
      then show "j = i" using cache_okD(2) [OF assms(1) _ assms(2) _ assms(3), of j] by simp
    qed
  qed (use assms in simp_all)
  then show ?thesis by (simp add: refs_def)
qed

lemma refs_uncached: "\<forall>i<NBUF. \<not> holds_block (bufs s) b i \<Longrightarrow> refs s b = 0"
proof -
  assume "\<forall>i<NBUF. \<not> holds_block (bufs s) b i"
  then have "find (holds_block (bufs s) b) [0..<NBUF] = None"
    unfolding find_None_iff by auto
  then show ?thesis by (simp add: refs_def)
qed

lemma owns_view: "cache_ok s \<Longrightarrow> owns s i b \<Longrightarrow> b_data (bufs s i) = bview s b"
  using bview_cached [of s i b] by (auto simp: owns_def)

lemma owns_refs: "cache_ok s \<Longrightarrow> owns s i b \<Longrightarrow> refs s b = b_refcnt (bufs s i) \<and> refs s b \<noteq> 0"
  using refs_cached [of s i b] by (auto simp: owns_def)

section \<open>Replacing one buffer\<close>

lemma lru_same_links:
  assumes "\<forall>j. b_next (g j) = b_next (f j) \<and> b_prev (g j) = b_prev (f j)"
  shows "lru g xs \<longleftrightarrow> lru f xs"
proof -
  have "(\<lambda>j. b_next (g j)) = (\<lambda>j. b_next (f j))" "(\<lambda>j. b_prev (g j)) = (\<lambda>j. b_prev (f j))"
    using assms by auto
  then show ?thesis by (simp only: lru_def)
qed

text \<open>
  Buffer \<open>i\<close> becomes \<open>x\<close>, which holds block \<open>b\<close>: it held \<open>b\<close> before, or it was unused and \<open>b\<close> was
  not cached. The links stay; a buffer given up (count 0) is clean and unlocked.
\<close>

definition replaces :: "kstate \<Rightarrow> nat \<Rightarrow> u32 \<Rightarrow> buf \<Rightarrow> bool" where
  "replaces s i b x \<longleftrightarrow> i < NBUF \<and>
     b_next x = b_next (bufs s i) \<and> b_prev x = b_prev (bufs s i) \<and>
     b_dev x = ROOTDEV \<and> b_blockno x = b \<and> b_valid x \<and>
     (b_refcnt x = 0 \<longrightarrow> \<not> sl_locked (b_lock x) \<and> b_data x = disk s b) \<and>
     (holds_block (bufs s) b i \<or> b_refcnt (bufs s i) = 0 \<and> (\<forall>j<NBUF. \<not> holds_block (bufs s) b j))"

abbreviation replaced :: "kstate \<Rightarrow> nat \<Rightarrow> buf \<Rightarrow> kstate" where
  "replaced s i x \<equiv> s\<lparr>bufs := (bufs s)(i := x)\<rparr>"

lemma replaced_no_other:
  assumes "cache_ok s" "replaces s i b x" "j < NBUF" "j \<noteq> i"
  shows "\<not> holds_block (bufs s) b j"
  using assms cache_okD(2) [OF assms(1) assms(3), of i b] unfolding replaces_def by blast

lemma cache_ok_replaced:
  assumes "cache_ok s" "replaces s i b x"
  shows "cache_ok (replaced s i x)"
proof -
  let ?f = "(bufs s)(i := x)"
  obtain xs where "lru (bufs s) xs" "set xs = {..<NBUF}" using cache_okD(1) [OF assms(1)] by blast
  moreover have "lru ?f xs \<longleftrightarrow> lru (bufs s) xs"
    by (rule lru_same_links) (use assms(2) in \<open>auto simp: replaces_def\<close>)
  ultimately have 1: "\<exists>xs. lru ?f xs \<and> set xs = {..<NBUF}" by blast
  have 2: "j = k" if "j < NBUF" "k < NBUF" "holds_block ?f c j" "holds_block ?f c k" for j k c
    using that replaced_no_other [OF assms, of j] replaced_no_other [OF assms, of k]
      cache_okD(2) [OF assms(1) that(1,2), of c] assms(2)
    by (auto simp: replaces_def split: if_splits)
  have 3: "b_dev (?f j) = ROOTDEV \<and> b_valid (?f j)" if "j < NBUF" "b_refcnt (?f j) \<noteq> 0" for j
    using that cache_okD(3,4) [OF assms(1) that(1)] assms(2) by (auto simp: replaces_def)
  have 4: "\<not> sl_locked (b_lock (?f j)) \<and> (b_valid (?f j) \<and> b_dev (?f j) = ROOTDEV \<longrightarrow>
      b_data (?f j) = disk s (b_blockno (?f j)))" if "j < NBUF" "b_refcnt (?f j) = 0" for j
    using that cache_okD(5,6) [OF assms(1) that(1)] assms(2) by (auto simp: replaces_def)
  show ?thesis unfolding cache_ok_def using 1 2 3 4 by simp
qed

lemma bview_replaced:
  assumes "cache_ok s" "replaces s i b x"
  shows "bview (replaced s i x) = (bview s)(b := b_data x)"
proof
  fix c
  let ?s = "replaced s i x"
  note ok = cache_ok_replaced [OF assms]
  have i: "i < NBUF" "holds_block (bufs ?s) b i" "b_valid (bufs ?s i)" "b_data (bufs ?s i) = b_data x"
    using assms(2) by (auto simp: replaces_def)
  consider "c = b" | j where "c \<noteq> b" "j < NBUF" "j \<noteq> i" "holds_block (bufs s) c j" "b_valid (bufs s j)"
    | "c \<noteq> b" "\<forall>j<NBUF. j \<noteq> i \<longrightarrow> \<not> (holds_block (bufs s) c j \<and> b_valid (bufs s j))"
    by blast
  then show "bview ?s c = ((bview s)(b := b_data x)) c"
  proof cases
    case 1
    then show ?thesis using bview_cached [OF ok i(1-3)] i(4) by simp
  next
    case 2
    then show ?thesis using bview_cached [OF ok, of j c] bview_cached [OF assms(1), of j c] by simp
  next
    case 3
    have "\<forall>j<NBUF. \<not> (holds_block (bufs ?s) c j \<and> b_valid (bufs ?s j))"
      using 3 i by auto
    then have "bview ?s c = disk s c" using bview_uncached [of ?s c] by simp
    moreover have "bview s c = disk s c"
    proof (cases "holds_block (bufs s) c i \<and> b_valid (bufs s i)")
      case True
      then have "b_refcnt (bufs s i) = 0" using 3(1) assms(2) by (auto simp: replaces_def)
      then show ?thesis
        using bview_cached [OF assms(1) i(1), of c] cache_okD(6) [OF assms(1) i(1), of c] True by simp
    next
      case False
      then show ?thesis using 3 by (intro bview_uncached) auto
    qed
    ultimately show ?thesis using 3 by simp
  qed
qed

lemma refs_replaced:
  assumes "cache_ok s" "replaces s i b x"
  shows "refs (replaced s i x) = (refs s)(b := b_refcnt x)"
proof
  fix c
  let ?s = "replaced s i x"
  note ok = cache_ok_replaced [OF assms]
  have i: "i < NBUF" "holds_block (bufs ?s) b i" "b_refcnt (bufs ?s i) = b_refcnt x"
    using assms(2) by (auto simp: replaces_def)
  consider "c = b" | j where "c \<noteq> b" "j < NBUF" "j \<noteq> i" "holds_block (bufs s) c j"
    | "c \<noteq> b" "\<forall>j<NBUF. j \<noteq> i \<longrightarrow> \<not> holds_block (bufs s) c j"
    by blast
  then show "refs ?s c = ((refs s)(b := b_refcnt x)) c"
  proof cases
    case 1
    then show ?thesis using refs_cached [OF ok i(1,2)] i(3) by simp
  next
    case 2
    then show ?thesis using refs_cached [OF ok, of j c] refs_cached [OF assms(1), of j c] by simp
  next
    case 3
    have "refs ?s c = 0" using 3 i by (intro refs_uncached) auto
    moreover have "refs s c = 0"
    proof (cases "holds_block (bufs s) c i")
      case True
      then have "b_refcnt (bufs s i) = 0" using 3(1) assms(2) by (auto simp: replaces_def)
      then show ?thesis using refs_cached [OF assms(1) i(1) True] by simp
    next
      case False
      then show ?thesis using 3 by (intro refs_uncached) auto
    qed
    ultimately show ?thesis using 3 by simp
  qed
qed

lemma blocked_replaced:
  assumes "cache_ok s" "replaces s i b x"
  shows "blocked (replaced s i x) = (blocked s)(b := sl_locked (b_lock x))"
proof
  fix c
  have i: "i < NBUF" "b_dev x = ROOTDEV" "b_blockno x = b" using assms(2) by (auto simp: replaces_def)
  have old: "\<not> sl_locked (b_lock (bufs s i))" if "holds_block (bufs s) c i" "c \<noteq> b"
    using that assms(2) cache_okD(5) [OF assms(1) i(1)] by (auto simp: replaces_def)
  show "blocked (replaced s i x) c = ((blocked s)(b := sl_locked (b_lock x))) c"
  proof (cases "c = b")
    case True
    then show ?thesis
      using i replaced_no_other [OF assms] by (auto simp: blocked_def split: if_splits)
  next
    case False
    then have "(holds_block ((bufs s)(i := x)) c j \<and> sl_locked (b_lock (((bufs s)(i := x)) j)))
        = (holds_block (bufs s) c j \<and> sl_locked (b_lock (bufs s j)))" for j
      using i old by (cases "j = i") auto
    then show ?thesis using False by (simp add: blocked_def)
  qed
qed

lemma owns_replaced:
  assumes "cache_ok s" "replaces s i b x" "owns s j c" "j \<noteq> i"
  shows "owns (replaced s i x) j c"
  using assms(3,4) by (simp add: owns_def)

section \<open>The operations on the view\<close>

text \<open>The parts of the kernel state that the cache does not touch.\<close>

definition bio_frame :: "kstate \<Rightarrow> kstate \<Rightarrow> bool" where
  "bio_frame s s' \<longleftrightarrow>
     s'\<lparr>bufs := bufs s, disk := disk s, dwrites := dwrites s, procs := procs s\<rparr> = s \<and>
     length (procs s') = length (procs s) \<and> (\<forall>i<length (procs s). p_pid (procs s' ! i) = p_pid (procs s ! i))"

lemma bio_frame_fields:
  assumes "bio_frame s s'"
  shows "lk s' = lk s" "hart s' = hart s" "curproc s' = curproc s" "klog s' = klog s" "sb s' = sb s"
    "itable s' = itable s" "ftable s' = ftable s" "mem s' = mem s"
    "running s' = running s" "running s \<Longrightarrow> mypid s' = mypid s"
proof -
  have e: "s'\<lparr>bufs := bufs s, disk := disk s, dwrites := dwrites s, procs := procs s\<rparr> = s"
    and l: "length (procs s') = length (procs s)"
    and p: "\<forall>i<length (procs s). p_pid (procs s' ! i) = p_pid (procs s ! i)"
    using assms by (auto simp: bio_frame_def)
  show f: "lk s' = lk s" "hart s' = hart s" "curproc s' = curproc s" "klog s' = klog s" "sb s' = sb s"
    "itable s' = itable s" "ftable s' = ftable s" "mem s' = mem s"
    using arg_cong [OF e, of lk] arg_cong [OF e, of hart] arg_cong [OF e, of curproc] arg_cong [OF e, of klog]
      arg_cong [OF e, of sb] arg_cong [OF e, of itable] arg_cong [OF e, of ftable] arg_cong [OF e, of mem]
    by simp_all
  show "running s' = running s" using f l by (simp add: running_def unlocked_def)
  show "running s \<Longrightarrow> mypid s' = mypid s" using f l p by (auto simp: running_def mypid_def)
qed

lemma bio_frame_refl [simp]: "bio_frame s s"
  by (simp add: bio_frame_def)

lemma bio_frame_trans:
  assumes "bio_frame s t" "bio_frame t u"
  shows "bio_frame s u"
proof -
  have "u\<lparr>bufs := bufs t, disk := disk t, dwrites := dwrites t, procs := procs t\<rparr>
      \<lparr>bufs := bufs s, disk := disk s, dwrites := dwrites s, procs := procs s\<rparr>
    = t\<lparr>bufs := bufs s, disk := disk s, dwrites := dwrites s, procs := procs s\<rparr>"
    using assms(2) by (simp only: bio_frame_def)
  then show ?thesis using assms by (auto simp: bio_frame_def)
qed

lemma bio_frame_updates [simp]:
  "bio_frame s (s\<lparr>bufs := f\<rparr>)" "bio_frame s (s\<lparr>disk := d, dwrites := w\<rparr>)"
  by (cases s; simp add: bio_frame_def)+

lemma unused_exists:
  assumes "lru f xs" "set xs = {..<NBUF}" "\<exists>i<NBUF. b_refcnt (f i) = 0"
  obtains i where "find (\<lambda>i. b_refcnt (f i) = 0) (rev xs) = Some i" "i < NBUF" "b_refcnt (f i) = 0"
proof (cases "find (\<lambda>i. b_refcnt (f i) = 0) (rev xs)")
  case None
  then show ?thesis using assms(2,3) by (auto simp: find_None_iff)
next
  case (Some i)
  then have "i \<in> set (rev xs)" "b_refcnt (f i) = 0" by (auto simp: find_Some_iff simp del: set_rev)
  then show ?thesis using that Some assms(2) by auto
qed

lemma running_lk: "running s \<Longrightarrow> running (s\<lparr>lk := acquired (hart s) l (lk s), bufs := f, lk := lk s\<rparr>)"
  by (simp add: running_def unlocked_def)

text \<open>\<open>bget\<close> through its locks: the search, then the update of one buffer.\<close>

lemma bget_result:
  assumes "running s" "cache_ok s" "lru (bufs s) xs" "set xs = {..<NBUF}"
  shows "find (\<lambda>i. b_dev (bufs s i) = dev \<and> b_blockno (bufs s i) = bn) xs = Some i \<Longrightarrow>
      \<not> sl_locked (b_lock (bufs s i)) \<Longrightarrow>
      bget dev bn s = Some (i, replaced s i ((bufs s i)\<lparr>b_refcnt := b_refcnt (bufs s i) + 1,
        b_lock := \<lparr>sl_locked = True, sl_pid = mypid s\<rparr>\<rparr>))"
    and "find (\<lambda>i. b_dev (bufs s i) = dev \<and> b_blockno (bufs s i) = bn) xs = None \<Longrightarrow>
      find (\<lambda>i. b_refcnt (bufs s i) = 0) (rev xs) = Some i \<Longrightarrow> \<not> sl_locked (b_lock (bufs s i)) \<Longrightarrow>
      bget dev bn s = Some (i, replaced s i ((bufs s i)\<lparr>b_dev := dev, b_blockno := bn, b_valid := False,
        b_refcnt := 1, b_lock := \<lparr>sl_locked = True, sl_pid = mypid s\<rparr>\<rparr>))"
proof -
  let ?k = "acquired (hart s) BcacheLock (lk s)"
  let ?t = "s\<lparr>lk := ?k\<rparr>"
  have u: "unlocked s" using assms(1) by (simp add: running_def)
  have n: "NBUF \<notin> set xs" using assms(4) by simp
  have c: "bget_cached dev bn (b_next (bufs s NBUF)) ?t = Some (find (\<lambda>i. b_dev (bufs s i) = dev \<and> b_blockno (bufs s i) = bn) xs)"
    using bget_cached_nexts [of ?t NBUF xs dev bn] assms(3) n by (simp add: lru_def)
  have v: "bget_unused (b_prev (bufs s NBUF)) ?t = Some (find (\<lambda>i. b_refcnt (bufs s i) = 0) (rev xs))"
    using bget_unused_nexts [of ?t NBUF "rev xs"] assms(3) n by (simp add: lru_def)
  have r: "rel BcacheLock (?t\<lparr>bufs := f\<rparr>) = Some (s\<lparr>bufs := f\<rparr>)" for f
    using rel_unlocked [OF u, of "?t\<lparr>bufs := f\<rparr>" BcacheLock] by simp
  have a: "acquiresleep_buf i (s\<lparr>bufs := f\<rparr>)
      = Some (s\<lparr>bufs := f(i := (f i)\<lparr>b_lock := \<lparr>sl_locked = True, sl_pid = mypid s\<rparr>\<rparr>)\<rparr>)"
    if "\<not> sl_locked (b_lock (f i))" for f i
    using acquiresleep_buf_result [of "s\<lparr>bufs := f\<rparr>" i] assms(1) that by (simp add: upd_buf_def)
  {
    assume "find (\<lambda>i. b_dev (bufs s i) = dev \<and> b_blockno (bufs s i) = bn) xs = Some i" "\<not> sl_locked (b_lock (bufs s i))"
    then show "bget dev bn s = Some (i, replaced s i ((bufs s i)\<lparr>b_refcnt := b_refcnt (bufs s i) + 1,
        b_lock := \<lparr>sl_locked = True, sl_pid = mypid s\<rparr>\<rparr>))"
      using acq_unlocked [OF u] c r a by (simp add: bget_def upd_buf_def)
  }
  {
    assume "find (\<lambda>i. b_dev (bufs s i) = dev \<and> b_blockno (bufs s i) = bn) xs = None"
      "find (\<lambda>i. b_refcnt (bufs s i) = 0) (rev xs) = Some i" "\<not> sl_locked (b_lock (bufs s i))"
    then show "bget dev bn s = Some (i, replaced s i ((bufs s i)\<lparr>b_dev := dev, b_blockno := bn, b_valid := False,
        b_refcnt := 1, b_lock := \<lparr>sl_locked = True, sl_pid = mypid s\<rparr>\<rparr>))"
      using acq_unlocked [OF u] c v r a by (simp add: bget_def upd_buf_def)
  }
qed

lemma bread_replaces:
  assumes "running s" "cache_ok s" "\<not> blocked s b" "refs s b + 1 \<noteq> 0" "has_unused s \<or> refs s b \<noteq> 0"
  obtains i x where "bread ROOTDEV b s = Some (i, replaced s i x)" "replaces s i b x"
    "b_data x = bview s b" "b_refcnt x = refs s b + 1" "b_lock x = \<lparr>sl_locked = True, sl_pid = mypid s\<rparr>"
    "holds_block (bufs s) b i \<or> b_refcnt (bufs s i) = 0"
proof -
  obtain xs where xs: "lru (bufs s) xs" "set xs = {..<NBUF}" using cache_okD(1) [OF assms(2)] by blast
  let ?P = "\<lambda>i. b_dev (bufs s i) = ROOTDEV \<and> b_blockno (bufs s i) = b"
  show thesis
  proof (cases "find ?P xs")
    case (Some i)
    then have i: "i < NBUF" "holds_block (bufs s) b i" using xs(2) by (auto simp: find_Some_iff)
    have free: "\<not> sl_locked (b_lock (bufs s i))" using assms(3) i by (auto simp: blocked_def)
    let ?y = "(bufs s i)\<lparr>b_refcnt := b_refcnt (bufs s i) + 1, b_lock := \<lparr>sl_locked = True, sl_pid = mypid s\<rparr>\<rparr>"
    let ?x = "if b_valid (bufs s i) then ?y else ?y\<lparr>b_data := disk s b, b_valid := True\<rparr>"
    have r: "refs s b = b_refcnt (bufs s i)" by (rule refs_cached [OF assms(2) i])
    have "bread ROOTDEV b s = Some (i, replaced s i ?x)"
      using bget_result(1) [OF assms(1,2) xs Some free] i(2)
      by (simp add: bread_def disk_transfer_def upd_buf_def Let_def)
    moreover have "b_data ?x = bview s b"
    proof (cases "b_valid (bufs s i)")
      case True
      then show ?thesis using bview_cached [OF assms(2) i] by simp
    next
      case False
      have "\<forall>j<NBUF. \<not> (holds_block (bufs s) b j \<and> b_valid (bufs s j))"
        using cache_okD(2) [OF assms(2) _ i(1) _ i(2)] False by blast
      then show ?thesis using False bview_uncached [of s b] by simp
    qed
    moreover have "replaces s i b ?x" using i r assms(4) by (auto simp: replaces_def)
    ultimately show ?thesis using that [of i ?x] r i by simp
  next
    case None
    then have no: "\<forall>j<NBUF. \<not> holds_block (bufs s) b j" using xs(2) by (auto simp: find_None_iff)
    have r: "refs s b = 0" by (rule refs_uncached [OF no])
    then have "\<exists>i<NBUF. b_refcnt (bufs s i) = 0" using assms(5) by (simp add: has_unused_def)
    with xs obtain i where i: "find (\<lambda>i. b_refcnt (bufs s i) = 0) (rev xs) = Some i" "i < NBUF" "b_refcnt (bufs s i) = 0"
      by (rule unused_exists)
    have free: "\<not> sl_locked (b_lock (bufs s i))" by (rule cache_okD(5) [OF assms(2) i(2,3)])
    let ?x = "(bufs s i)\<lparr>b_dev := ROOTDEV, b_blockno := b, b_refcnt := 1,
      b_lock := \<lparr>sl_locked = True, sl_pid = mypid s\<rparr>, b_data := disk s b, b_valid := True\<rparr>"
    have "bread ROOTDEV b s = Some (i, replaced s i ?x)"
      using bget_result(2) [OF assms(1,2) xs None i(1) free]
      by (simp add: bread_def disk_transfer_def upd_buf_def Let_def)
    moreover have "bview s b = disk s b" using no by (intro bview_uncached) auto
    moreover have "replaces s i b ?x" using i(2,3) no by (simp add: replaces_def)
    ultimately show ?thesis using that [of i ?x] r i(3) by simp
  qed
qed

text \<open>\<open>bread\<close>: a locked buffer with the block's contents, one more reference, no change of the view.\<close>

lemma bread_effect:
  assumes "running s" "cache_ok s" "\<not> blocked s b" "refs s b + 1 \<noteq> 0" "has_unused s \<or> refs s b \<noteq> 0"
  shows "\<exists>i s'. bread ROOTDEV b s = Some (i, s') \<and> cache_ok s' \<and> owns s' i b \<and> bio_frame s s' \<and>
    bview s' = bview s \<and> refs s' = (refs s)(b := refs s b + 1) \<and> blocked s' = (blocked s)(b := True) \<and>
    disk s' = disk s \<and> dwrites s' = dwrites s \<and> (\<forall>j c. owns s j c \<longrightarrow> owns s' j c)"
proof -
  obtain i x where x: "bread ROOTDEV b s = Some (i, replaced s i x)" "replaces s i b x"
    "b_data x = bview s b" "b_refcnt x = refs s b + 1" "b_lock x = \<lparr>sl_locked = True, sl_pid = mypid s\<rparr>"
    "holds_block (bufs s) b i \<or> b_refcnt (bufs s i) = 0"
    by (rule bread_replaces [OF assms])
  have "owns (replaced s i x) i b" using x(2-5) assms(4) by (simp add: replaces_def owns_def)
  moreover have "owns (replaced s i x) j c" if "owns s j c" for j c
  proof (rule owns_replaced [OF assms(2) x(2) that])
    show "j \<noteq> i" using that x(6) assms(3) by (auto simp: owns_def blocked_def)
  qed
  moreover have "bview (replaced s i x) = bview s" using bview_replaced [OF assms(2) x(2)] x(3) by auto
  ultimately show ?thesis
    using x cache_ok_replaced [OF assms(2) x(2)] refs_replaced [OF assms(2) x(2)] blocked_replaced [OF assms(2) x(2)]
    by (intro exI [of _ i] exI [of _ "replaced s i x"]) auto
qed

text \<open>A change of the data of a buffer that the process has locked.\<close>

lemma set_data_effect:
  assumes "cache_ok s" "owns s i b" "s' = upd_buf i (\<lambda>x. x\<lparr>b_data := d\<rparr>) s"
  shows "cache_ok s'" "bview s' = (bview s)(b := d)" "refs s' = refs s" "blocked s' = blocked s"
    "owns s j c \<Longrightarrow> owns s' j c"
proof -
  let ?x = "(bufs s i)\<lparr>b_data := d\<rparr>"
  have s': "s' = replaced s i ?x" by (simp add: assms(3) upd_buf_def)
  have r: "replaces s i b ?x" using assms(2) by (simp add: replaces_def owns_def)
  show "cache_ok s'" unfolding s' by (rule cache_ok_replaced [OF assms(1) r])
  show "bview s' = (bview s)(b := d)" unfolding s' bview_replaced [OF assms(1) r] by simp
  show "refs s' = refs s"
    unfolding s' refs_replaced [OF assms(1) r] using owns_refs [OF assms(1,2)] by auto
  show "blocked s' = blocked s"
    unfolding s' blocked_replaced [OF assms(1) r] using assms(2) by (auto simp: owns_def blocked_def fun_eq_iff)
  show "owns s j c \<Longrightarrow> owns s' j c" unfolding s' by (auto simp: owns_def)
qed

text \<open>\<open>bwrite\<close>: the disk has what the view has.\<close>

lemma bwrite_effect:
  assumes "running s" "cache_ok s" "owns s i b"
    and s': "s' = s\<lparr>disk := (disk s)(b := bview s b), dwrites := dwrites s @ [(b, bview s b)]\<rparr>"
  shows "bwrite i s = Some s'" "cache_ok s'" "bview s' = bview s" "refs s' = refs s" "blocked s' = blocked s"
    "owns s j c \<Longrightarrow> owns s' j c"
proof -
  have o: "i < NBUF" "holds_block (bufs s) b i" "b_valid (bufs s i)" "b_refcnt (bufs s i) \<noteq> 0"
    "b_lock (bufs s i) = \<lparr>sl_locked = True, sl_pid = mypid s\<rparr>" using assms(3) by (auto simp: owns_def)
  have d: "b_data (bufs s i) = bview s b" by (rule owns_view [OF assms(2,3)])
  show "bwrite i s = Some s'"
    using o d by (simp add: bwrite_def holdingsleep_buf_result [OF assms(1)] disk_transfer_def s')
  have other: "b_blockno (bufs s j) \<noteq> b" if "j < NBUF" "b_refcnt (bufs s j) = 0" "b_dev (bufs s j) = ROOTDEV" for j
    using cache_okD(2) [OF assms(2) that(1) o(1), of b] o that by auto
  show ok: "cache_ok s'"
    using assms(2) other unfolding s' cache_ok_def by simp
  show "bview s' = bview s"
  proof
    fix c
    show "bview s' c = bview s c"
    proof (cases "\<exists>j<NBUF. holds_block (bufs s) c j \<and> b_valid (bufs s j)")
      case True
      then obtain j where "j < NBUF" "holds_block (bufs s) c j" "b_valid (bufs s j)" by blast
      then show ?thesis using bview_cached [OF ok, of j c] bview_cached [OF assms(2), of j c] by (simp add: s')
    next
      case False
      then have "c \<noteq> b" using o by blast
      then show ?thesis
        using False bview_uncached [of s' c] bview_uncached [of s c] by (simp add: s')
    qed
  qed
  have e: "bufs s' = bufs s" by (simp add: s')
  show "refs s' = refs s" "blocked s' = blocked s"
    by (rule ext, simp only: refs_def blocked_def e)+
  show "owns s j c \<Longrightarrow> owns s' j c" by (simp add: s' owns_def)
qed

text \<open>Buffers that differ in their links only give the same view.\<close>

abbreviation unlinked :: "buf \<Rightarrow> buf" where
  "unlinked x \<equiv> x\<lparr>b_prev := 0, b_next := 0\<rparr>"

lemma unlinked_fields:
  assumes "unlinked x = unlinked y"
  shows "b_valid x = b_valid y" "b_dev x = b_dev y" "b_blockno x = b_blockno y" "b_lock x = b_lock y"
    "b_refcnt x = b_refcnt y" "b_data x = b_data y"
  using arg_cong [OF assms, of b_valid] arg_cong [OF assms, of b_dev] arg_cong [OF assms, of b_blockno]
    arg_cong [OF assms, of b_lock] arg_cong [OF assms, of b_refcnt] arg_cong [OF assms, of b_data] by simp_all

lemma same_contents:
  assumes "\<forall>j. unlinked (bufs s' j) = unlinked (bufs s j)" "disk s' = disk s" "mypid s' = mypid s"
  shows "bview s' = bview s" "refs s' = refs s" "blocked s' = blocked s" "owns s' i b = owns s i b"
    "cache_ok s \<Longrightarrow> \<exists>xs. lru (bufs s') xs \<and> set xs = {..<NBUF} \<Longrightarrow> cache_ok s'"
proof -
  note f [simp] = unlinked_fields [OF assms(1) [rule_format]]
  show "bview s' = bview s" "refs s' = refs s" "blocked s' = blocked s" "owns s' i b = owns s i b"
    using assms(2,3) by (auto simp: bview_def refs_def blocked_def owns_def intro!: ext split: option.splits)
  show "cache_ok s \<Longrightarrow> \<exists>xs. lru (bufs s') xs \<and> set xs = {..<NBUF} \<Longrightarrow> cache_ok s'"
    using assms(2) by (simp add: cache_ok_def)
qed

lemma unlinked_upd:
  "unlinked ((f(i := (f i)\<lparr>b_next := v\<rparr>)) j) = unlinked (f j)"
  "unlinked ((f(i := (f i)\<lparr>b_prev := v\<rparr>)) j) = unlinked (f j)"
  by (cases "j = i"; cases "f i"; simp)+

lemma unlinked_to_front: "unlinked (to_front b f j) = unlinked (f j)"
  by (simp only: to_front_def link_front_def Let_def unlinked_upd)

lemma lru_to_front_all:
  assumes "lru f xs" "set xs = {..<NBUF}" "b < NBUF"
  shows "\<exists>ys. lru (to_front b f) ys \<and> set ys = {..<NBUF}"
proof -
  have "distinct xs" using assms(1) by (simp add: lru_def)
  then have "set (b # remove1 b xs) = {..<NBUF}" using assms(2,3) by auto
  then show ?thesis using lru_to_front [OF assms(1), of b] assms(2,3) by blast
qed

lemma brelse_links:
  "(let s = upd_buf (b_next (bufs s b)) (\<lambda>x. x\<lparr>b_prev := b_prev (bufs s b)\<rparr>) s;
        s = upd_buf (b_prev (bufs s b)) (\<lambda>x. x\<lparr>b_next := b_next (bufs s b)\<rparr>) s;
        s = upd_buf b (\<lambda>x. x\<lparr>b_next := b_next (bufs s NBUF)\<rparr>) s;
        s = upd_buf b (\<lambda>x. x\<lparr>b_prev := NBUF\<rparr>) s;
        s = upd_buf (b_next (bufs s NBUF)) (\<lambda>x. x\<lparr>b_prev := b\<rparr>) s
    in upd_buf NBUF (\<lambda>x. x\<lparr>b_next := b\<rparr>) s) = s\<lparr>bufs := to_front b (bufs s)\<rparr>"
  by (simp add: upd_buf_def to_front_def link_front_def Let_def del: fun_upd_apply)

lemma brelse_result:
  assumes "running s" "owns s i b"
  shows "brelse i s = Some (let f = (bufs s)(i := (bufs s i)\<lparr>b_lock := \<lparr>sl_locked = False, sl_pid = 0\<rparr>,
      b_refcnt := b_refcnt (bufs s i) - 1\<rparr>) in
    s\<lparr>procs := woken (ChanBuf i) (curproc s) (procs s), bufs := if b_refcnt (f i) = 0 then to_front i f else f\<rparr>)"
proof -
  let ?s1 = "upd_buf i (\<lambda>x. x\<lparr>b_lock := \<lparr>sl_locked = False, sl_pid = 0\<rparr>\<rparr>)
    (s\<lparr>procs := woken (ChanBuf i) (curproc s) (procs s)\<rparr>)"
  have h: "holdingsleep_buf i s = Some (True, s)"
    using assms by (simp add: holdingsleep_buf_result owns_def)
  have u: "unlocked ?s1" using assms(1) by (simp add: running_def unlocked_def upd_buf_def)
  have r: "rel BcacheLock (?s1\<lparr>lk := acquired (hart s) BcacheLock (lk s), bufs := f\<rparr>) = Some (?s1\<lparr>bufs := f\<rparr>)" for f
    using rel_unlocked [OF u, of "?s1\<lparr>lk := acquired (hart s) BcacheLock (lk s), bufs := f\<rparr>" BcacheLock]
    by (simp add: upd_buf_def)
  have a: "acq BcacheLock ?s1 = Some (?s1\<lparr>lk := acquired (hart s) BcacheLock (lk s)\<rparr>)"
    using acq_unlocked [OF u, of BcacheLock] by (simp add: upd_buf_def)
  let ?f = "(bufs s)(i := (bufs s i)\<lparr>b_lock := \<lparr>sl_locked = False, sl_pid = 0\<rparr>,
      b_refcnt := b_refcnt (bufs s i) - 1\<rparr>)"
  have "upd_buf i (\<lambda>x. x\<lparr>b_refcnt := b_refcnt x - 1\<rparr>) (?s1\<lparr>lk := acquired (hart s) BcacheLock (lk s)\<rparr>)
      = ?s1\<lparr>lk := acquired (hart s) BcacheLock (lk s), bufs := ?f\<rparr>"
    by (simp add: upd_buf_def)
  moreover have "?s1\<lparr>bufs := g\<rparr> = s\<lparr>procs := woken (ChanBuf i) (curproc s) (procs s), bufs := g\<rparr>" for g
    by (simp add: upd_buf_def)
  ultimately show ?thesis
    unfolding brelse_def brelse_links using h releasesleep_buf_result [OF assms(1)] a r
    by (simp add: Let_def)
qed

text \<open>\<open>brelse\<close>: one reference less; the last one may go only when the disk is up to date.\<close>

lemma brelse_effect:
  assumes "running s" "cache_ok s" "owns s i b" "refs s b = 1 \<longrightarrow> disk s b = bview s b"
  shows "\<exists>s'. brelse i s = Some s' \<and> cache_ok s' \<and> bio_frame s s' \<and> bview s' = bview s \<and>
    refs s' = (refs s)(b := refs s b - 1) \<and> blocked s' = (blocked s)(b := False) \<and>
    disk s' = disk s \<and> dwrites s' = dwrites s \<and> (\<forall>j c. j \<noteq> i \<longrightarrow> owns s j c \<longrightarrow> owns s' j c)"
proof -
  let ?x = "(bufs s i)\<lparr>b_lock := \<lparr>sl_locked = False, sl_pid = 0\<rparr>, b_refcnt := b_refcnt (bufs s i) - 1\<rparr>"
  let ?t = "replaced s i ?x"
  let ?s' = "s\<lparr>procs := woken (ChanBuf i) (curproc s) (procs s),
    bufs := if b_refcnt ?x = 0 then to_front i (bufs ?t) else bufs ?t\<rparr>"
  have o: "i < NBUF" "holds_block (bufs s) b i" "b_valid (bufs s i)" using assms(3) by (auto simp: owns_def)
  have rf: "refs s b = b_refcnt (bufs s i)" using owns_refs [OF assms(2,3)] by simp
  have d: "b_data (bufs s i) = bview s b" by (rule owns_view [OF assms(2,3)])
  have rp: "replaces s i b ?x" using o rf d assms(4) by (auto simp: replaces_def)
  have res: "brelse i s = Some ?s'" using brelse_result [OF assms(1,3)] by (simp add: Let_def)
  have un: "\<forall>j. unlinked (bufs ?s' j) = unlinked (bufs ?t j)" by (simp add: unlinked_to_front)
  have pid: "mypid ?s' = mypid ?t"
    using assms(1) by (auto simp: mypid_def running_def)
  note same = same_contents [OF un _ pid]
  have "\<exists>xs. lru (bufs ?s') xs \<and> set xs = {..<NBUF}"
    using cache_okD(1) [OF cache_ok_replaced [OF assms(2) rp]] lru_to_front_all [of "bufs ?t" _ i] o(1) by auto
  then have ok: "cache_ok ?s'" using same(5) cache_ok_replaced [OF assms(2) rp] by simp
  have fr: "bio_frame s ?s'"
    using assms(1) by (cases s) (auto simp: bio_frame_def)
  have v: "bview ?s' = bview s" using same(1) bview_replaced [OF assms(2) rp] d by auto
  have r: "refs ?s' = (refs s)(b := refs s b - 1)" using same(2) refs_replaced [OF assms(2) rp] rf by auto
  have bl: "blocked ?s' = (blocked s)(b := False)" using same(3) blocked_replaced [OF assms(2) rp] by auto
  have ow: "\<forall>j c. j \<noteq> i \<longrightarrow> owns s j c \<longrightarrow> owns ?s' j c"
    using same(4) owns_replaced [OF assms(2) rp] by auto
  show ?thesis
    by (rule exI [of _ ?s']) (use res ok fr v r bl ow in simp)
qed

lemma bpin_effect:
  assumes "running s" "cache_ok s" "owns s i b" "refs s b + 1 \<noteq> 0"
  shows "\<exists>s'. bpin i s = Some s' \<and> cache_ok s' \<and> bio_frame s s' \<and> bview s' = bview s \<and>
    refs s' = (refs s)(b := refs s b + 1) \<and> blocked s' = blocked s \<and>
    disk s' = disk s \<and> dwrites s' = dwrites s \<and> (\<forall>j c. owns s j c \<longrightarrow> owns s' j c)"
proof -
  let ?x = "(bufs s i)\<lparr>b_refcnt := b_refcnt (bufs s i) + 1\<rparr>"
  have u: "unlocked s" using assms(1) by (simp add: running_def)
  have rf: "refs s b = b_refcnt (bufs s i)" using owns_refs [OF assms(2,3)] by simp
  have rp: "replaces s i b ?x" using assms(3,4) rf by (auto simp: replaces_def owns_def)
  have "bpin i s = Some (replaced s i ?x)"
    by (simp add: bpin_def acq_unlocked [OF u] upd_buf_def rel_unlocked [OF u])
  moreover have "bview (replaced s i ?x) = bview s"
    using bview_replaced [OF assms(2) rp] owns_view [OF assms(2,3)] by auto
  moreover have "blocked (replaced s i ?x) = blocked s"
    using blocked_replaced [OF assms(2) rp] assms(3) by (auto simp: owns_def blocked_def fun_eq_iff)
  moreover have "owns (replaced s i ?x) j c" if "owns s j c" for j c
    using that assms(4) rf by (auto simp: owns_def)
  ultimately show ?thesis
    using cache_ok_replaced [OF assms(2) rp] refs_replaced [OF assms(2) rp] rf by auto
qed

lemma bunpin_effect:
  assumes "running s" "cache_ok s" "owns s i b" "refs s b \<noteq> 1"
  shows "\<exists>s'. bunpin i s = Some s' \<and> cache_ok s' \<and> bio_frame s s' \<and> bview s' = bview s \<and>
    refs s' = (refs s)(b := refs s b - 1) \<and> blocked s' = blocked s \<and>
    disk s' = disk s \<and> dwrites s' = dwrites s \<and> (\<forall>j c. owns s j c \<longrightarrow> owns s' j c)"
proof -
  let ?x = "(bufs s i)\<lparr>b_refcnt := b_refcnt (bufs s i) - 1\<rparr>"
  have u: "unlocked s" using assms(1) by (simp add: running_def)
  have rf: "refs s b = b_refcnt (bufs s i)" using owns_refs [OF assms(2,3)] by simp
  have nz: "b_refcnt ?x \<noteq> 0" using assms(4) rf by auto
  have rp: "replaces s i b ?x" using assms(3) nz by (auto simp: replaces_def owns_def)
  have "bunpin i s = Some (replaced s i ?x)"
    by (simp add: bunpin_def acq_unlocked [OF u] upd_buf_def rel_unlocked [OF u])
  moreover have "bview (replaced s i ?x) = bview s"
    using bview_replaced [OF assms(2) rp] owns_view [OF assms(2,3)] by auto
  moreover have "blocked (replaced s i ?x) = blocked s"
    using blocked_replaced [OF assms(2) rp] assms(3) by (auto simp: owns_def blocked_def fun_eq_iff)
  moreover have "owns (replaced s i ?x) j c" if "owns s j c" for j c
    using that nz by (auto simp: owns_def)
  ultimately show ?thesis
    using cache_ok_replaced [OF assms(2) rp] refs_replaced [OF assms(2) rp] rf by auto
qed

section \<open>Room in the cache\<close>

lemma has_unused_if:
  assumes "cache_ok s" "card {b. refs s b \<noteq> 0} < NBUF"
  shows "has_unused s"
proof (rule ccontr)
  assume "\<not> has_unused s"
  then have nz: "b_refcnt (bufs s i) \<noteq> 0" if "i < NBUF" for i using that by (auto simp: has_unused_def)
  let ?g = "\<lambda>i. b_blockno (bufs s i)"
  have h: "holds_block (bufs s) (?g i) i" if "i < NBUF" for i
    using cache_okD(3) [OF assms(1) that nz [OF that]] by simp
  have "inj_on ?g {..<NBUF}"
    by (rule inj_onI) (use h cache_okD(2) [OF assms(1)] in \<open>metis lessThan_iff\<close>)
  moreover have "?g ` {..<NBUF} \<subseteq> {b. refs s b \<noteq> 0}"
    using refs_cached [OF assms(1) _ h] nz by auto
  ultimately have "NBUF \<le> card {b. refs s b \<noteq> 0}"
    by (metis card_image card_lessThan card_mono finite)
  then show False using assms(2) by simp
qed

section \<open>Initialisation\<close>

definition binit_step :: "nat \<Rightarrow> (nat \<Rightarrow> buf) \<Rightarrow> nat \<Rightarrow> buf" where
  "binit_step b f = link_front b (f(b := (f b)\<lparr>b_lock := \<lparr>sl_locked = False, sl_pid = 0\<rparr>\<rparr>))"

lemma binit_loop_Cons:
  assumes "b \<noteq> NBUF"
  shows "binit_loop (b # bs) s = binit_loop bs (s\<lparr>lk := initlock (BufLock b) (lk s), bufs := binit_step b (bufs s)\<rparr>)"
  using assms by (cases "bufs s b") (simp add: Let_def upd_buf_def binit_step_def link_front_def)

lemma unlinked_link_front: "unlinked (link_front b f j) = unlinked (f j)"
  by (simp only: link_front_def Let_def unlinked_upd)

definition blank :: "buf \<Rightarrow> bool" where
  "blank x \<longleftrightarrow> b_dev x = 0 \<and> b_refcnt x = 0"

lemma binit_loop_lru:
  assumes "lru (bufs s) xs" "distinct (rev xs @ bs)" "set bs \<subseteq> {..<NBUF}" "\<forall>i. blank (bufs s i)"
    "\<forall>i\<in>set xs. \<not> sl_locked (b_lock (bufs s i))"
  shows "lru (bufs (binit_loop bs s)) (rev bs @ xs) \<and> (\<forall>i. blank (bufs (binit_loop bs s) i)) \<and>
    (\<forall>i\<in>set (rev bs @ xs). \<not> sl_locked (b_lock (bufs (binit_loop bs s) i)))"
  using assms
proof (induction bs arbitrary: s xs)
  case (Cons b bs)
  let ?g = "(bufs s)(b := (bufs s b)\<lparr>b_lock := \<lparr>sl_locked = False, sl_pid = 0\<rparr>\<rparr>)"
  let ?s = "s\<lparr>lk := initlock (BufLock b) (lk s), bufs := binit_step b (bufs s)\<rparr>"
  have b: "b < NBUF" "b \<notin> set xs" using Cons(3,4) by auto
  have "lru ?g xs \<longleftrightarrow> lru (bufs s) xs" by (rule lru_same_links) auto
  then have "lru (bufs ?s) (b # xs)" using lru_link_front [of ?g xs b] Cons(2) b by (simp add: binit_step_def)
  moreover have "unlinked (binit_step b (bufs s) i) = unlinked (?g i)" for i
    by (simp add: binit_step_def unlinked_link_front del: fun_upd_apply)
  note f = unlinked_fields [OF this]
  have "\<forall>i. blank (bufs ?s i)" using Cons(5) by (simp add: blank_def f)
  moreover have "\<forall>i\<in>set (b # xs). \<not> sl_locked (b_lock (bufs ?s i))" using Cons(6) by (simp add: f)
  ultimately have "lru (bufs (binit_loop bs ?s)) (rev bs @ b # xs) \<and> (\<forall>i. blank (bufs (binit_loop bs ?s) i)) \<and>
    (\<forall>i\<in>set (rev bs @ b # xs). \<not> sl_locked (b_lock (bufs (binit_loop bs ?s) i)))"
    using Cons.IH [of ?s "b # xs"] Cons(3,4) by auto
  then show ?case using binit_loop_Cons [of b bs s] b(1) by simp
qed simp

lemma binit_lru:
  assumes "\<forall>i. blank (bufs s i)"
  shows "lru (bufs (binit s)) (rev [0..<NBUF])" "cache_ok (binit s)" "\<forall>i. blank (bufs (binit s) i)"
    "\<forall>i<NBUF. \<not> sl_locked (b_lock (bufs (binit s) i))"
proof -
  let ?s = "upd_buf NBUF (\<lambda>x. x\<lparr>b_next := NBUF\<rparr>) (upd_buf NBUF (\<lambda>x. x\<lparr>b_prev := NBUF\<rparr>)
    (s\<lparr>lk := initlock BcacheLock (lk s)\<rparr>))"
  have "lru (bufs ?s) []" by (simp add: lru_def upd_buf_def)
  moreover have "\<forall>i. blank (bufs ?s i)" using assms by (simp add: blank_def upd_buf_def)
  moreover have "binit s = binit_loop [0..<NBUF] ?s" by (simp add: binit_def Let_def)
  moreover have "set [0..<NBUF] \<subseteq> {..<NBUF}" by auto
  ultimately have r: "lru (bufs (binit s)) (rev [0..<NBUF])" "\<forall>i. blank (bufs (binit s) i)"
    "\<forall>i\<in>set (rev [0..<NBUF]). \<not> sl_locked (b_lock (bufs (binit s) i))"
    using binit_loop_lru [of ?s "[]" "[0..<NBUF]"] by simp_all
  show "lru (bufs (binit s)) (rev [0..<NBUF])" "\<forall>i. blank (bufs (binit s) i)" by (rule r)+
  show "\<forall>i<NBUF. \<not> sl_locked (b_lock (bufs (binit s) i))" using r(3) by simp
  have "\<exists>xs. lru (bufs (binit s)) xs \<and> set xs = {..<NBUF}"
    using r(1) by (intro exI [of _ "rev [0..<NBUF]"]) auto
  then show "cache_ok (binit s)"
    using r(2,3) by (auto simp: cache_ok_def blank_def ROOTDEV_def)
qed

lemma initlock_free: "free_lock l k \<Longrightarrow> initlock l k = k"
  by (cases k) (auto simp: initlock_def free_lock_def fun_eq_iff)

lemma binit_loop_frame:
  "(\<forall>l. free_lock l (lk s)) \<Longrightarrow> NBUF \<notin> set bs \<Longrightarrow> s\<lparr>bufs := bufs (binit_loop bs s)\<rparr> = binit_loop bs s"
proof (induction bs arbitrary: s)
  case (Cons b bs)
  let ?s = "s\<lparr>bufs := binit_step b (bufs s)\<rparr>"
  have "binit_loop (b # bs) s = binit_loop bs ?s"
    using Cons(2,3) by (subst binit_loop_Cons) (simp_all add: initlock_free)
  then show ?case using Cons(1) [of ?s] Cons(2,3) by simp
qed simp

lemma binit_frame:
  assumes "\<forall>l. free_lock l (lk s)"
  shows "s\<lparr>bufs := bufs (binit s)\<rparr> = binit s"
proof -
  let ?s = "upd_buf NBUF (\<lambda>x. x\<lparr>b_next := NBUF\<rparr>) (upd_buf NBUF (\<lambda>x. x\<lparr>b_prev := NBUF\<rparr>) s)"
  have "binit s = binit_loop [0..<NBUF] ?s" using assms by (simp add: binit_def initlock_free)
  then show ?thesis using binit_loop_frame [of ?s "[0..<NBUF]"] assms by (simp add: upd_buf_def)
qed

section \<open>The cache implements the interface\<close>

definition cabs_of :: "kstate \<Rightarrow> cabs" where
  "cabs_of s = \<lparr>a_view = bview s, a_refs = refs s, a_locked = blocked s, a_disk = disk s, a_writes = dwrites s\<rparr>"

definition cache_good :: "kstate \<Rightarrow> bool" where
  "cache_good s \<longleftrightarrow> running s \<and> cache_ok s"

definition set_data :: "nat \<Rightarrow> block \<Rightarrow> kstate \<Rightarrow> kstate" where
  "set_data i d s = upd_buf i (\<lambda>x. x\<lparr>b_data := d\<rparr>) s"

lemma cache_goodI: "running s \<Longrightarrow> bio_frame s s' \<Longrightarrow> cache_ok s' \<Longrightarrow> cache_good s'"
  using bio_frame_fields(9) by (simp add: cache_good_def)

lemma unused_block_clean:
  assumes "cache_ok s" "refs s b = 0"
  shows "disk s b = bview s b"
proof (cases "\<exists>i<NBUF. holds_block (bufs s) b i \<and> b_valid (bufs s i)")
  case True
  then obtain i where i: "i < NBUF" "holds_block (bufs s) b i" "b_valid (bufs s i)" by blast
  then show ?thesis
    using bview_cached [OF assms(1) i] refs_cached [OF assms(1) i(1,2)] cache_okD(6) [OF assms(1) i(1) _ i(2,3)] assms(2)
    by simp
next
  case False
  then show ?thesis using bview_uncached [of s b] by auto
qed

interpretation bio: block_cache cache_good cabs_of owns bio_frame "bread ROOTDEV" brelse set_data
  "\<lambda>i s. b_data (bufs s i)" bwrite bpin bunpin
proof (unfold_locales, goal_cases)
  case (1 s b)
  then have g: "running s" "cache_ok s" by (auto simp: cache_good_def)
  have "has_unused s \<or> refs s b \<noteq> 0"
    using 1 has_unused_if [OF g(2)] by (auto simp: cabs_of_def a_room_def)
  from bread_effect [OF g _ _ this] 1 show ?case
    using cache_goodI [OF g(1)] by (fastforce simp: cabs_of_def a_get_def)
next
  case (2 s i b)
  then have g: "running s" "cache_ok s" by (auto simp: cache_good_def)
  from brelse_effect [OF g 2(2)] 2 show ?case
    using cache_goodI [OF g(1)] by (fastforce simp: cabs_of_def a_put_def)
next
  case (3 s i b d)
  then have g: "running s" "cache_ok s" by (auto simp: cache_good_def)
  have f: "bio_frame s (set_data i d s)" by (simp add: set_data_def upd_buf_def)
  note e = set_data_effect [OF g(2) 3(2) set_data_def [of i d s]]
  show ?case
    using cache_goodI [OF g(1) f e(1)] f e(2-5) by (auto simp: cabs_of_def a_set_def set_data_def upd_buf_def)
next
  case (4 s i b)
  then show ?case using owns_view by (simp add: cache_good_def cabs_of_def)
next
  case (5 s i b)
  then have g: "running s" "cache_ok s" by (auto simp: cache_good_def)
  define s' where "s' = s\<lparr>disk := (disk s)(b := bview s b), dwrites := dwrites s @ [(b, bview s b)]\<rparr>"
  note e = bwrite_effect [OF g 5(2) s'_def]
  have f: "bio_frame s s'" by (simp add: s'_def)
  show ?case
    using cache_goodI [OF g(1) f e(2)] f e by (auto simp: cabs_of_def a_write_def) (auto simp: s'_def)
next
  case (6 s i b)
  then have g: "running s" "cache_ok s" by (auto simp: cache_good_def)
  from bpin_effect [OF g 6(2)] 6 show ?case
    using cache_goodI [OF g(1)] by (fastforce simp: cabs_of_def a_pin_def)
next
  case (7 s i b)
  then have g: "running s" "cache_ok s" by (auto simp: cache_good_def)
  from bunpin_effect [OF g 7(2)] 7 show ?case
    using cache_goodI [OF g(1)] by (fastforce simp: cabs_of_def a_unpin_def)
next
  case (8 s b)
  then show ?case using unused_block_clean by (simp add: cache_good_def cabs_of_def)
next
  case (9 s i b c)
  then show ?case by (simp add: owns_def)
next
  case (10 s t u)
  then show ?case by (rule bio_frame_trans)
qed

end
