(* ===== verification/Log.thy ===== *)
theory Log
  imports BioView
begin

text \<open>
  \<^verbatim>\<open>kernel/log.c\<close>: the redo log, on the buffer cache of theory \<open>Bio\<close>. \<open>begin_op\<close> that has to wait
  for a commit, or for space another system call gives back, is \<open>None\<close>; so is a header that announces
  more than \<open>LOGSIZE\<close> blocks, which the code reads beyond the end of its array.
\<close>

section \<open>Integers in a block\<close>

text \<open>A little-endian 32-bit integer at a byte offset.\<close>

definition ld32 :: "block \<Rightarrow> nat \<Rightarrow> u32" where
  "ld32 d i = ucast (d i) OR push_bit 8 (ucast (d (i + 1))) OR push_bit 16 (ucast (d (i + 2)))
     OR push_bit 24 (ucast (d (i + 3)))"

definition st32 :: "block \<Rightarrow> nat \<Rightarrow> u32 \<Rightarrow> block" where
  "st32 d i v = d(i := ucast v, i + 1 := ucast (drop_bit 8 v), i + 2 := ucast (drop_bit 16 v),
     i + 3 := ucast (drop_bit 24 v))"

section \<open>Operations\<close>

definition upd_log :: "(log \<Rightarrow> log) \<Rightarrow> kstate \<Rightarrow> kstate" where
  "upd_log f s = s\<lparr>klog := f (klog s)\<rparr>"

fun install_loop :: "nat list \<Rightarrow> bool \<Rightarrow> kstate \<Rightarrow> kstate option" where
  "install_loop [] recovering s = Some s"
| "install_loop (tail # ts) recovering s = do {
     (lbuf, s) \<leftarrow> bread (lg_dev (klog s)) (lg_start (klog s) + of_nat tail + 1) s;
     (dbuf, s) \<leftarrow> bread (lg_dev (klog s)) (lg_block (klog s) tail) s;
     let s = upd_buf dbuf (\<lambda>x. x\<lparr>b_data := b_data (bufs s lbuf)\<rparr>) s;
     s \<leftarrow> bwrite dbuf s;
     s \<leftarrow> (if \<not> recovering then bunpin dbuf s else Some s);
     s \<leftarrow> brelse lbuf s;
     s \<leftarrow> brelse dbuf s;
     install_loop ts recovering s
   }"

definition install_trans :: "bool \<Rightarrow> kstate \<Rightarrow> kstate option" where
  "install_trans recovering s = install_loop [0..<nat (lg_n (klog s))] recovering s"

definition read_head :: "kstate \<Rightarrow> kstate option" where
  "read_head s = do {
     (b, s) \<leftarrow> bread (lg_dev (klog s)) (lg_start (klog s)) s;
     let d = b_data (bufs s b);
     let n = sint (ld32 d 0);
     if n > LOGSIZE then None
     else do {
       let s = upd_log (\<lambda>l. l\<lparr>lg_n := n,
         lg_block := (\<lambda>i. if int i < n then ld32 d (4 + 4 * i) else lg_block l i)\<rparr>) s;
       brelse b s
     }
   }"

text \<open>The header as \<open>write_head\<close> puts it into the block that was there.\<close>

definition put_head :: "block \<Rightarrow> nat \<Rightarrow> (nat \<Rightarrow> u32) \<Rightarrow> block" where
  "put_head d n bl = fold (\<lambda>i d. st32 d (4 + 4 * i) (bl i)) [0..<n] (st32 d 0 (of_nat n))"

definition write_head :: "kstate \<Rightarrow> kstate option" where
  "write_head s = do {
     (b, s) \<leftarrow> bread (lg_dev (klog s)) (lg_start (klog s)) s;
     let s = upd_buf b (\<lambda>x. x\<lparr>b_data := put_head (b_data x) (nat (lg_n (klog s))) (lg_block (klog s))\<rparr>) s;
     s \<leftarrow> bwrite b s;
     brelse b s
   }"

definition recover_from_log :: "kstate \<Rightarrow> kstate option" where
  "recover_from_log s = do {
     s \<leftarrow> read_head s;
     s \<leftarrow> install_trans True s;
     let s = upd_log (\<lambda>l. l\<lparr>lg_n := 0\<rparr>) s;
     write_head s
   }"

definition initlog :: "u32 \<Rightarrow> superblock \<Rightarrow> kstate \<Rightarrow> kstate option" where
  "initlog dev sblk s =
     (let s = s\<lparr>lk := initlock LogLock (lk s)\<rparr>;
          s = upd_log (\<lambda>l. l\<lparr>lg_start := sb_logstart sblk, lg_size := uint (sb_nlog sblk), lg_dev := dev\<rparr>) s
      in recover_from_log s)"

definition begin_op :: "kstate \<Rightarrow> kstate option" where
  "begin_op s = do {
     s \<leftarrow> acq LogLock s;
     if lg_committing (klog s) then None
     else if lg_n (klog s) + (lg_outstanding (klog s) + 1) * MAXOPBLOCKS > LOGSIZE then None
     else
       let s = upd_log (\<lambda>l. l\<lparr>lg_outstanding := lg_outstanding l + 1\<rparr>) s
       in rel LogLock s
   }"

fun write_log_loop :: "nat list \<Rightarrow> kstate \<Rightarrow> kstate option" where
  "write_log_loop [] s = Some s"
| "write_log_loop (tail # ts) s = do {
     (to, s) \<leftarrow> bread (lg_dev (klog s)) (lg_start (klog s) + of_nat tail + 1) s;
     (from, s) \<leftarrow> bread (lg_dev (klog s)) (lg_block (klog s) tail) s;
     let s = upd_buf to (\<lambda>x. x\<lparr>b_data := b_data (bufs s from)\<rparr>) s;
     s \<leftarrow> bwrite to s;
     s \<leftarrow> brelse from s;
     s \<leftarrow> brelse to s;
     write_log_loop ts s
   }"

definition write_log :: "kstate \<Rightarrow> kstate option" where
  "write_log s = write_log_loop [0..<nat (lg_n (klog s))] s"

definition commit :: "kstate \<Rightarrow> kstate option" where
  "commit s =
     (if lg_n (klog s) > 0 then do {
        s \<leftarrow> write_log s;
        s \<leftarrow> write_head s;
        s \<leftarrow> install_trans False s;
        let s = upd_log (\<lambda>l. l\<lparr>lg_n := 0\<rparr>) s;
        write_head s
      } else Some s)"

definition end_op :: "kstate \<Rightarrow> kstate option" where
  "end_op s = do {
     s \<leftarrow> acq LogLock s;
     let s = upd_log (\<lambda>l. l\<lparr>lg_outstanding := lg_outstanding l - 1\<rparr>) s;
     if lg_committing (klog s) then panic ''log.committing''
     else do {
       let do_commit = (lg_outstanding (klog s) = 0);
       s \<leftarrow> (if do_commit then Some (upd_log (\<lambda>l. l\<lparr>lg_committing := True\<rparr>) s) else wakeup ChanLog s);
       s \<leftarrow> rel LogLock s;
       if do_commit then do {
         s \<leftarrow> commit s;
         s \<leftarrow> acq LogLock s;
         let s = upd_log (\<lambda>l. l\<lparr>lg_committing := False\<rparr>) s;
         s \<leftarrow> wakeup ChanLog s;
         rel LogLock s
       } else Some s
     }
   }"

text \<open>The search of \<open>log_write\<close> for a block that is already logged.\<close>

definition log_slot :: "u32 \<Rightarrow> log \<Rightarrow> nat" where
  "log_slot bn l = (case find (\<lambda>i. lg_block l i = bn) [0..<nat (lg_n l)] of Some i \<Rightarrow> i | None \<Rightarrow> nat (lg_n l))"

definition log_write :: "nat \<Rightarrow> kstate \<Rightarrow> kstate option" where
  "log_write b s = do {
     s \<leftarrow> acq LogLock s;
     if lg_n (klog s) \<ge> LOGSIZE \<or> lg_n (klog s) \<ge> lg_size (klog s) - 1 then panic ''too big a transaction''
     else if lg_outstanding (klog s) < 1 then panic ''log_write outside of trans''
     else do {
       let i = log_slot (b_blockno (bufs s b)) (klog s);
       let s = upd_log (\<lambda>l. l\<lparr>lg_block := (lg_block l)(i := b_blockno (bufs s b))\<rparr>) s;
       s \<leftarrow> (if int i = lg_n (klog s) then do {
                s \<leftarrow> bpin b s;
                Some (upd_log (\<lambda>l. l\<lparr>lg_n := lg_n l + 1\<rparr>) s)
              } else Some s);
       rel LogLock s
     }
   }"

end
