(* ===== verification/BioProps.thy ===== *)
theory BioProps
  imports BioView
begin

text \<open>
  The properties of the buffer cache that other components rely on, and concrete caches on which
  they are applied.
\<close>

section \<open>Concrete caches\<close>

text \<open>The cache after \<open>binit\<close>, and with buffer \<open>i\<close> in use for block \<open>b\<close>.\<close>

definition demo_cache :: kstate where
  "demo_cache = binit zero_state"

definition demo_use :: "nat \<Rightarrow> u32 \<Rightarrow> block \<Rightarrow> sleeplock \<Rightarrow> kstate" where
  "demo_use i b d l = upd_buf i (\<lambda>x. x\<lparr>b_valid := True, b_dev := ROOTDEV, b_blockno := b, b_lock := l,
     b_refcnt := 1, b_data := d\<rparr>) demo_cache"

lemma zero_blank: "\<forall>i. blank (bufs zero_state i)"
  by (simp add: zero_state_def zero_buf_def blank_def)

lemma demo_cache_frame: "zero_state\<lparr>bufs := bufs demo_cache\<rparr> = demo_cache"
  unfolding demo_cache_def by (rule binit_frame) (simp add: zero_state_def free_lock_def)

lemma zero_running: "running zero_state" "mypid zero_state = 1"
  using zero_state_unlocked by (simp_all add: running_def mypid_def zero_state_procs NPROC_def, simp_all add: zero_state_def NPROC_def)

lemma demo_cache_running: "running demo_cache" "mypid demo_cache = 1"
  by (subst demo_cache_frame [symmetric], simp add: zero_running)+

lemma demo_cache_ok: "cache_ok demo_cache" "lru (bufs demo_cache) (rev [0..<NBUF])"
  unfolding demo_cache_def by (rule binit_lru [OF zero_blank])+

lemma demo_cache_good: "cache_good demo_cache"
  by (simp add: cache_good_def demo_cache_running demo_cache_ok)

lemma demo_cache_unheld: "b_dev (bufs demo_cache i) = 0" "b_dev (bufs demo_cache i) \<noteq> ROOTDEV"
  using binit_lru(3) [OF zero_blank] by (simp_all add: demo_cache_def blank_def ROOTDEV_def)

lemma demo_cache_abs: "refs demo_cache b = 0" "\<not> blocked demo_cache b" "bview demo_cache b = disk demo_cache b"
  by (simp_all add: demo_cache_unheld(2) refs_uncached bview_uncached blocked_def)

lemma demo_use_replaces:
  "i < NBUF \<Longrightarrow> replaces demo_cache i b ((bufs demo_cache i)\<lparr>b_valid := True, b_dev := ROOTDEV, b_blockno := b,
     b_lock := l, b_refcnt := 1, b_data := d\<rparr>)"
  using binit_lru(3) [OF zero_blank] demo_cache_unheld(2) by (simp add: replaces_def blank_def demo_cache_def)

lemma demo_use_ok:
  assumes "i < NBUF"
  shows "cache_good (demo_use i b d l)" "refs (demo_use i b d l) c = (if c = b then 1 else 0)"
    "bview (demo_use i b d l) c = (if c = b then d else disk demo_cache c)"
    "blocked (demo_use i b d l) c = (c = b \<and> sl_locked l)"
  unfolding demo_use_def upd_buf_def cache_good_def
  using cache_ok_replaced [OF demo_cache_ok(1) demo_use_replaces [OF assms]]
    refs_replaced [OF demo_cache_ok(1) demo_use_replaces [OF assms]]
    bview_replaced [OF demo_cache_ok(1) demo_use_replaces [OF assms]]
    blocked_replaced [OF demo_cache_ok(1) demo_use_replaces [OF assms]]
  by (simp_all add: demo_cache_running demo_cache_abs)

lemma demo_use_owns:
  "i < NBUF \<Longrightarrow> owns (demo_use i b d \<lparr>sl_locked = True, sl_pid = 1\<rparr>) i b"
  by (simp add: owns_def demo_use_def upd_buf_def demo_cache_running)

lemma demo_use_lru: "lru (bufs (demo_use i b d l)) (rev [0..<NBUF])"
proof -
  have "lru (bufs (demo_use i b d l)) (rev [0..<NBUF]) \<longleftrightarrow> lru (bufs demo_cache) (rev [0..<NBUF])"
    by (rule lru_same_links) (simp add: demo_use_def upd_buf_def)
  then show ?thesis using demo_cache_ok(2) by simp
qed

section \<open>Properties\<close>

text \<open>
  C25. \<open>binit\<close> on zeroed buffers builds the cache: the list from the head runs through the buffers from
  the last to the first, forwards and backwards, and the cache's invariant holds.
\<close>

theorem binit_builds_cache:
  assumes "\<forall>i. blank (bufs s i)"
  shows "lru (bufs (binit s)) (rev [0..<NBUF]) \<and> cache_ok (binit s)"
  using binit_lru [OF assms] by blast

theorem binit_builds_cache_witness:
  "(\<forall>i. blank (bufs zero_state i)) \<and> lru (bufs (binit zero_state)) (rev [0..<NBUF]) \<and> cache_ok (binit zero_state)"
  using binit_builds_cache [OF zero_blank] zero_blank by blast

text \<open>
  C23. \<open>bread\<close> is transparent. With the block unlocked and a buffer to be had, it returns a buffer locked
  by the caller whose data are the block's current contents; what any block reads as, and the disk, stay
  the same, and so does the invariant.
\<close>

theorem bread_transparent:
  assumes "running s" "cache_ok s" "\<not> blocked s b" "refs s b + 1 \<noteq> 0" "has_unused s \<or> refs s b \<noteq> 0"
  shows "\<exists>i s'. bread ROOTDEV b s = Some (i, s') \<and> owns s' i b \<and> b_data (bufs s' i) = bview s b \<and>
    bview s' = bview s \<and> disk s' = disk s \<and> cache_ok s' \<and> running s'"
proof -
  obtain i s' where e: "bread ROOTDEV b s = Some (i, s')" "cache_ok s'" "owns s' i b" "bio_frame s s'"
      "bview s' = bview s" "disk s' = disk s"
    using bread_effect [OF assms] by blast
  moreover have "running s'" using bio_frame_fields(9) [OF e(4)] assms(1) by simp
  ultimately show ?thesis using owns_view [OF e(2,3)] by metis
qed

theorem bread_transparent_witness:
  "\<exists>i s'. bread ROOTDEV 5 demo_cache = Some (i, s') \<and> owns s' i 5 \<and> b_data (bufs s' i) = bview demo_cache 5 \<and>
    bview s' = bview demo_cache \<and> disk s' = disk demo_cache \<and> cache_ok s' \<and> running s'"
proof (rule bread_transparent)
  show "has_unused demo_cache \<or> refs demo_cache 5 \<noteq> 0"
    using has_unused_if [OF demo_cache_ok(1)] by (simp add: demo_cache_abs NBUF_def)
qed (simp_all add: demo_cache_running demo_cache_ok demo_cache_abs)

text \<open>
  C24. \<open>brelse\<close> of a buffer nobody else uses moves it to the front of the list of recently used buffers:
  the pointer surgery on the doubly linked list implements removing it and putting it first.
\<close>

theorem brelse_moves_to_front:
  assumes "running s" "owns s i b" "b_refcnt (bufs s i) = 1" "lru (bufs s) xs" "i \<in> set xs"
  shows "\<exists>s'. brelse i s = Some s' \<and> lru (bufs s') (i # remove1 i xs) \<and> b_refcnt (bufs s' i) = 0"
proof -
  let ?f = "(bufs s)(i := (bufs s i)\<lparr>b_lock := \<lparr>sl_locked = False, sl_pid = 0\<rparr>, b_refcnt := b_refcnt (bufs s i) - 1\<rparr>)"
  have "lru ?f xs \<longleftrightarrow> lru (bufs s) xs" by (rule lru_same_links) simp
  then have l: "lru (to_front i ?f) (i # remove1 i xs)" using assms(4,5) by (intro lru_to_front) simp_all
  have "unlinked (to_front i ?f i) = unlinked (?f i)" by (simp only: unlinked_to_front)
  from unlinked_fields(5) [OF this] have "b_refcnt (to_front i ?f i) = 0" using assms(3) by simp
  then show ?thesis using brelse_result [OF assms(1,2)] l assms(3) by simp
qed

theorem brelse_moves_to_front_witness:
  "\<exists>s'. brelse 3 (demo_use 3 7 (\<lambda>_. 1) \<lparr>sl_locked = True, sl_pid = 1\<rparr>) = Some s' \<and>
    lru (bufs s') (3 # remove1 3 (rev [0..<NBUF])) \<and> b_refcnt (bufs s' 3) = 0"
proof (rule brelse_moves_to_front)
  show "owns (demo_use 3 7 (\<lambda>_. 1) \<lparr>sl_locked = True, sl_pid = 1\<rparr>) 3 7"
    by (rule demo_use_owns) (simp add: NBUF_def)
  show "running (demo_use 3 7 (\<lambda>_. 1) \<lparr>sl_locked = True, sl_pid = 1\<rparr>)"
    using demo_use_ok(1) [of 3] by (simp add: cache_good_def NBUF_def)
qed (simp_all add: demo_use_lru, simp_all add: demo_use_def upd_buf_def NBUF_def)

end
