(* ===== verification/LogCrash.thy ===== *)
theory LogCrash
  imports Log BioProps
begin

text \<open>
  The log is atomic. The writes of a \<open>commit\<close> are computed exactly, through the buffer cache; a
  crash keeps a prefix of them on the disk; and \<open>recover_from_log\<close>, run after a reboot on that disk,
  leaves outside the log either the blocks as they were before the transaction or all of the
  transaction's blocks.
\<close>

section \<open>The header in its block\<close>

lemma st32_other: "p < i \<or> i + 3 < p \<Longrightarrow> st32 d i v p = d p"
  by (auto simp: st32_def)

lemma ld32_st32 [simp]: "ld32 (st32 d i v) i = v"
proof (rule bit_word_eqI)
  fix n
  assume "n < LENGTH(32)"
  then consider "n < 8" | "8 \<le> n" "n < 16" | "16 \<le> n" "n < 24" | "24 \<le> n" "n < 32" by fastforce
  then show "bit (ld32 (st32 d i v) i) n = bit v n"
    by cases (auto simp: ld32_def st32_def bit_simps)
qed

lemma ld32_cong:
  assumes "\<And>j. j < 4 \<Longrightarrow> d (i + j) = e (i + j)"
  shows "ld32 d i = ld32 e i"
  using assms [of 0] assms [of 1] assms [of 2] assms [of 3] by (simp add: ld32_def)

lemma ld32_st32_other: "i + 3 < j \<or> j + 3 < i \<Longrightarrow> ld32 (st32 d j v) i = ld32 d i"
  by (rule ld32_cong) (auto intro: st32_other)

lemma ld32_put_blocks:
  "(\<forall>k<n. i + 3 < 4 + 4 * k \<or> 4 + 4 * k + 3 < i) \<Longrightarrow>
   ld32 (fold (\<lambda>k d. st32 d (4 + 4 * k) (bl k)) [0..<n] d) i = ld32 d i"
  by (induction n) (auto simp: ld32_st32_other)

lemma put_head_n: "ld32 (put_head d n bl) 0 = of_nat n"
  by (simp add: put_head_def ld32_put_blocks)

lemma put_head_block:
  assumes "k < n"
  shows "ld32 (put_head d n bl) (4 + 4 * k) = bl k"
proof -
  have "ld32 (fold (\<lambda>k d. st32 d (4 + 4 * k) (bl k)) [0..<n] e) (4 + 4 * k) = bl k" for e
    using assms by (induction n) (auto simp: less_Suc_eq ld32_st32_other)
  then show ?thesis by (simp add: put_head_def)
qed

section \<open>Sequences of block copies\<close>

definition upds :: "(u32 \<Rightarrow> block) \<Rightarrow> (u32 \<times> block) list \<Rightarrow> u32 \<Rightarrow> block" where
  "upds f ws = fold (\<lambda>(b, x) g. g(b := x)) ws f"

lemma upds_simps [simp]:
  "upds f [] = f" "upds f ((b, x) # ws) = upds (f(b := x)) ws" "upds f (ws @ vs) = upds (upds f ws) vs"
  by (simp_all add: upds_def)

lemma upds_other: "b \<notin> fst ` set ws \<Longrightarrow> upds f ws b = f b"
  by (induction ws arbitrary: f) auto

lemma upds_distinct: "distinct (map fst ws) \<Longrightarrow> (b, x) \<in> set ws \<Longrightarrow> upds f ws b = x"
proof (induction ws arbitrary: f)
  case (Cons w ws)
  then show ?case by (cases w) (auto simp: upds_other)
qed simp

text \<open>A run of copies whose sources are no destinations.\<close>

definition copies :: "(nat \<Rightarrow> u32) \<Rightarrow> (nat \<Rightarrow> u32) \<Rightarrow> nat list \<Rightarrow> cabs \<Rightarrow> cabs" where
  "copies src dst ks a = (let ws = map (\<lambda>k. (dst k, a_view a (src k))) ks in
     a\<lparr>a_view := upds (a_view a) ws, a_disk := upds (a_disk a) ws, a_writes := a_writes a @ ws\<rparr>)"

lemma copies_Nil [simp]: "copies src dst [] a = a"
  by (simp add: copies_def)

lemma copies_Cons:
  assumes "\<forall>j\<in>set ks. src j \<noteq> dst k"
  shows "copies src dst (k # ks) a = copies src dst ks (a_copy (src k) (dst k) a)"
proof -
  have e: "map (\<lambda>j. (dst j, a_view (a_copy (src k) (dst k) a) (src j))) ks = map (\<lambda>j. (dst j, a_view a (src j))) ks"
    using assms by (simp add: a_copy_def)
  show ?thesis unfolding copies_def Let_def e by (simp add: a_copy_def)
qed

text \<open>The blocks of the log: header and copies.\<close>

definition logblk :: "u32 \<Rightarrow> nat \<Rightarrow> u32" where
  "logblk st k = st + of_nat k + 1"

definition log_region :: "u32 \<Rightarrow> u32 set" where
  "log_region st = insert st (logblk st ` {..<30})"

lemma logblk_in_region: "k < 30 \<Longrightarrow> logblk st k \<in> log_region st"
  by (simp add: log_region_def)

lemma logblk_inj: "j < 30 \<Longrightarrow> k < 30 \<Longrightarrow> logblk st j = logblk st k \<longleftrightarrow> j = k"
proof -
  assume "j < 30" "k < 30"
  then have "(of_nat j :: u32) = of_nat k \<longleftrightarrow> j = k"
    by (subst word_of_nat_eq_iff) (simp add: take_bit_nat_eq_self)
  then show ?thesis by (simp add: logblk_def)
qed

lemma logblk_start: "k < 30 \<Longrightarrow> logblk st k \<noteq> st"
proof -
  assume "k < 30"
  then have "(of_nat (Suc k) :: u32) \<noteq> of_nat 0"
    by (subst word_of_nat_eq_iff) (simp add: take_bit_nat_eq_self)
  then show ?thesis by (simp add: logblk_def add.assoc add.commute)
qed

section \<open>Between the operations\<close>

text \<open>No block is locked and \<open>P\<close> are the pinned blocks, once each.\<close>

definition idle_cache :: "u32 set \<Rightarrow> kstate \<Rightarrow> bool" where
  "idle_cache P s \<longleftrightarrow> cache_good s \<and> (\<forall>b. \<not> blocked s b) \<and> (\<forall>b. refs s b = (if b \<in> P then 1 else 0)) \<and> card P < 30"

lemma idle_quiet: "idle_cache P s \<Longrightarrow> bio.quiet_cache s"
  by (auto simp: idle_cache_def bio.quiet_cache_def cabs_of_def a_room_def NBUF_def)

lemma idle_cacheI:
  assumes "idle_cache P s" "cache_good s'" "a_refs (cabs_of s') = refs s" "a_locked (cabs_of s') = blocked s"
  shows "idle_cache P s'"
  using assms by (simp add: idle_cache_def cabs_of_def)

lemma write_log_loop_result:
  assumes "idle_cache P s" "lg_dev (klog s) = ROOTDEV" "lg_start (klog s) = st"
    "\<forall>k\<in>set ks. k < 30 \<and> lg_block (klog s) k \<in> P" "P \<inter> log_region st = {}"
  shows "\<exists>s'. write_log_loop ks s = Some s' \<and> idle_cache P s' \<and> bio_frame s s' \<and>
    cabs_of s' = copies (lg_block (klog s)) (logblk st) ks (cabs_of s)"
  using assms
proof (induction ks arbitrary: s)
  case (Cons k ks)
  let ?a = "lg_block (klog s) k" and ?d = "logblk st k"
  have k: "k < 30" "?a \<in> P" using Cons(5) by auto
  then have d: "?d \<in> log_region st" "?d \<notin> P" "?a \<noteq> ?d" using Cons(6) by (auto simp: log_region_def)
  have r: "a_refs (cabs_of s) ?a = 1" "a_refs (cabs_of s) ?d = 0"
    using Cons(2) k d by (auto simp: idle_cache_def cabs_of_def)
  obtain i j s1 s2 s3 s4 s5 where e: "bread ROOTDEV ?d s = Some (i, s1)" "bio_frame s s1" "bread ROOTDEV ?a s1 = Some (j, s2)"
    "bwrite i (set_data i (b_data (bufs s2 j)) s2) = Some s3" "brelse j s3 = Some s4" "brelse i s4 = Some s5"
    "cache_good s5" "bio_frame s s5" "cabs_of s5 = a_copy ?a ?d (cabs_of s)"
    by (rule bio.copy_to_log [OF idle_quiet [OF Cons(2)] d(3) r])
  have "write_log_loop (k # ks) s = write_log_loop ks s5"
    using e Cons(3,4) bio_frame_fields(4) [OF e(2)] by (simp add: logblk_def set_data_def [symmetric])
  moreover have "idle_cache P s5"
    by (rule idle_cacheI [OF Cons(2) e(7)]) (simp_all add: e(9) a_copy_def, simp_all add: cabs_of_def)
  moreover have "klog s5 = klog s" by (rule bio_frame_fields(4) [OF e(8)])
  moreover have "\<forall>j\<in>set ks. lg_block (klog s) j \<noteq> ?d" using Cons(5) d by auto
  ultimately show ?case
    using Cons.IH [of s5] Cons(3-6) e(8,9) copies_Cons [of ks "lg_block (klog s)" "logblk st" k] bio_frame_trans [OF e(8)] by auto
qed simp

lemma install_recover_result:
  assumes "idle_cache {} s" "lg_dev (klog s) = ROOTDEV" "lg_start (klog s) = st"
    "\<forall>k\<in>set ks. k < 30 \<and> lg_block (klog s) k \<notin> log_region st"
  shows "\<exists>s'. install_loop ks True s = Some s' \<and> idle_cache {} s' \<and> bio_frame s s' \<and>
    cabs_of s' = copies (logblk st) (lg_block (klog s)) ks (cabs_of s)"
  using assms
proof (induction ks arbitrary: s)
  case (Cons k ks)
  let ?a = "logblk st k" and ?d = "lg_block (klog s) k"
  have home: "?d \<notin> log_region st" "\<forall>j\<in>set (k # ks). logblk st j \<in> log_region st"
    using Cons(5) logblk_in_region by auto
  then have k: "?a \<noteq> ?d" by (metis list.set_intros(1))
  have r: "a_refs (cabs_of s) ?a = 0" "a_refs (cabs_of s) ?d = 0" "a_room (a_get ?a (cabs_of s))"
    using Cons(2) by (auto simp: idle_cache_def cabs_of_def a_room_def a_get_def NBUF_def)
  obtain i j s1 s2 s3 s4 s5 where e: "bread ROOTDEV ?a s = Some (i, s1)" "bio_frame s s1" "bread ROOTDEV ?d s1 = Some (j, s2)"
    "bwrite j (set_data j (b_data (bufs s2 i)) s2) = Some s3" "brelse i s3 = Some s4" "brelse j s4 = Some s5"
    "cache_good s5" "bio_frame s s5" "cabs_of s5 = a_copy ?a ?d (cabs_of s)"
    by (rule bio.copy_home_recovering [OF idle_quiet [OF Cons(2)] k r])
  have "install_loop (k # ks) True s = install_loop ks True s5"
    using e Cons(3,4) bio_frame_fields(4) [OF e(2)] by (simp add: logblk_def set_data_def [symmetric])
  moreover have "idle_cache {} s5"
    by (rule idle_cacheI [OF Cons(2) e(7)]) (simp_all add: e(9) a_copy_def, simp_all add: cabs_of_def)
  moreover have "klog s5 = klog s" by (rule bio_frame_fields(4) [OF e(8)])
  moreover have "\<forall>j\<in>set ks. logblk st j \<noteq> ?d" using home by (metis list.set_intros(2))
  ultimately show ?case
    using Cons.IH [of s5] Cons(3-5) e(8,9) copies_Cons [of ks "logblk st" "lg_block (klog s)" k] bio_frame_trans [OF e(8)] by auto
qed simp

text \<open>At a commit the home blocks are unpinned as they are installed.\<close>

lemma install_commit_result:
  assumes "idle_cache (lg_block (klog s) ` set ks) s" "lg_dev (klog s) = ROOTDEV" "lg_start (klog s) = st"
    "\<forall>k\<in>set ks. k < 30 \<and> lg_block (klog s) k \<notin> log_region st" "distinct (map (lg_block (klog s)) ks)"
  shows "\<exists>s'. install_loop ks False s = Some s' \<and> idle_cache {} s' \<and> bio_frame s s' \<and>
    (\<exists>R. cabs_of s' = (copies (logblk st) (lg_block (klog s)) ks (cabs_of s))\<lparr>a_refs := R\<rparr>)"
  using assms
proof (induction ks arbitrary: s)
  case Nil
  then show ?case by (cases "cabs_of s") auto
next
  case (Cons k ks)
  let ?b = "lg_block (klog s)" let ?a = "logblk st k" and ?d = "?b k"
  have home: "?d \<notin> log_region st" "\<forall>j\<in>set (k # ks). logblk st j \<in> log_region st" "?d \<notin> ?b ` set ks"
    using Cons(5,6) logblk_in_region by auto
  then have k: "?a \<noteq> ?d" by (metis list.set_intros(1))
  have "?a \<notin> ?b ` set (k # ks)" using home(2) Cons(5) by (metis imageE list.set_intros(1))
  then have r: "a_refs (cabs_of s) ?a = 0" "a_refs (cabs_of s) ?d = 1"
    using Cons(2) by (auto simp: idle_cache_def cabs_of_def)
  obtain i j s1 s2 s3 s4 s5 s6 where e: "bread ROOTDEV ?a s = Some (i, s1)" "bio_frame s s1" "bread ROOTDEV ?d s1 = Some (j, s2)"
    "bwrite j (set_data j (b_data (bufs s2 i)) s2) = Some s3" "bunpin j s3 = Some s4" "brelse i s4 = Some s5" "brelse j s5 = Some s6"
    "cache_good s6" "bio_frame s s6" "cabs_of s6 = a_unpin ?d (a_copy ?a ?d (cabs_of s))"
    by (rule bio.copy_home [OF idle_quiet [OF Cons(2)] k r])
  have step: "install_loop (k # ks) False s = install_loop ks False s6"
    using e Cons(3,4) bio_frame_fields(4) [OF e(2)] by (simp add: logblk_def set_data_def [symmetric])
  have kl: "klog s6 = klog s" by (rule bio_frame_fields(4) [OF e(9)])
  have "refs s6 = (refs s)(?d := refs s ?d - 1)" "blocked s6 = blocked s"
    using e(10) by (simp_all add: cabs_of_def a_unpin_def a_copy_def)
  then have "idle_cache (?b ` set ks) s6"
    using Cons(2) e(8) home(3) card_image_le [of "set (k # ks)" ?b] by (auto simp: idle_cache_def card_insert_if)
  from Cons.IH [of s6] this Cons(3-6) obtain s' R where s': "install_loop ks False s6 = Some s'" "idle_cache {} s'"
    "bio_frame s6 s'" "cabs_of s' = (copies (logblk st) ?b ks (cabs_of s6))\<lparr>a_refs := R\<rparr>"
    unfolding kl by auto
  have "\<forall>j\<in>set ks. logblk st j \<noteq> ?d" using home by (metis list.set_intros(2))
  with copies_Cons [of ks "logblk st" ?b k "cabs_of s"] s'(4)
  have "cabs_of s' = (copies (logblk st) ?b (k # ks) (cabs_of s))\<lparr>a_refs := R\<rparr>"
    unfolding e(10) by (simp add: copies_def a_unpin_def Let_def)
  then show ?case using step s' bio_frame_trans [OF e(9) s'(3)] by auto
qed

lemma write_head_result:
  assumes "idle_cache P s" "lg_dev (klog s) = ROOTDEV" "lg_start (klog s) = st" "st \<notin> P"
  shows "\<exists>s'. write_head s = Some s' \<and> idle_cache P s' \<and> bio_frame s s' \<and>
    cabs_of s' = a_write st (a_set st (put_head (bview s st) (nat (lg_n (klog s))) (lg_block (klog s))) (cabs_of s))"
proof -
  have r: "a_refs (cabs_of s) st = 0" using assms(1,4) by (simp add: idle_cache_def cabs_of_def)
  let ?h = "put_head (bview s st) (nat (lg_n (klog s))) (lg_block (klog s))"
  obtain i s1 where e: "bread ROOTDEV st s = Some (i, s1)" "bio_frame s s1" "b_data (bufs s1 i) = a_view (cabs_of s) st"
    and w: "\<exists>s2 s3. bwrite i (set_data i ?h s1) = Some s2 \<and> brelse i s2 = Some s3 \<and> cache_good s3 \<and> bio_frame s s3 \<and>
      cabs_of s3 = a_write st (a_set st ?h (cabs_of s))"
    by (rule bio.change_in_place [OF idle_quiet [OF assms(1)] r]) blast
  then obtain s2 s3 where w: "bwrite i (set_data i ?h s1) = Some s2" "brelse i s2 = Some s3" "cache_good s3" "bio_frame s s3"
      "cabs_of s3 = a_write st (a_set st ?h (cabs_of s))" by blast
  have "upd_buf i (\<lambda>x. x\<lparr>b_data := put_head (b_data x) (nat (lg_n (klog s1))) (lg_block (klog s1))\<rparr>) s1 = set_data i ?h s1"
    using e(3) bio_frame_fields(4) [OF e(2)] by (simp add: set_data_def upd_buf_def cabs_of_def)
  then have "write_head s = Some s3"
    using e(1) w(1,2) assms(2,3) by (simp add: write_head_def)
  moreover have "idle_cache P s3"
    by (rule idle_cacheI [OF assms(1) w(3)]) (simp_all add: w(5) a_write_def a_set_def, simp_all add: cabs_of_def)
  ultimately show ?thesis using w(4,5) by blast
qed

text \<open>Changes of the log's own record are invisible to the cache.\<close>

lemma cabs_of_upd_log [simp]: "cabs_of (upd_log f s) = cabs_of s"
  unfolding upd_log_def cabs_of_def fun_eq_iff by (simp add: bview_def refs_def blocked_def fun_eq_iff cong: option.case_cong)

lemma idle_cache_upd_log [simp]: "idle_cache P (upd_log f s) = idle_cache P s"
proof -
  have "refs (upd_log f s) = refs s" "blocked (upd_log f s) = blocked s"
    using cabs_of_upd_log [of f s] by (simp_all add: cabs_of_def)
  then show ?thesis by (simp add: idle_cache_def cache_good_def upd_log_def cache_ok_def running_def unlocked_def)
qed

lemma idle_view:
  assumes "idle_cache P s" "b \<notin> P"
  shows "bview s b = disk s b"
proof (cases "find (\<lambda>i. holds_block (bufs s) b i \<and> b_valid (bufs s i)) [0..<NBUF]")
  case (Some i)
  then have i: "i < NBUF" "holds_block (bufs s) b i" "b_valid (bufs s i)" by (auto simp: find_Some_iff)
  have ok: "cache_ok s" using assms(1) by (simp add: idle_cache_def cache_good_def)
  then have "b_refcnt (bufs s i) = 0"
    using refs_cached [OF ok i(1,2)] assms by (simp add: idle_cache_def)
  then show ?thesis using Some cache_okD(6) [OF ok i(1) _ i(2,3)] by (simp add: bview_def)
qed (simp add: bview_def)

section \<open>Recovery\<close>

text \<open>What a header on the disk announces, and the disk that its replay gives.\<close>

definition logged :: "u32 \<Rightarrow> (u32 \<Rightarrow> block) \<Rightarrow> nat" where
  "logged st D = nat (sint (ld32 (D st) 0))"

definition home :: "u32 \<Rightarrow> (u32 \<Rightarrow> block) \<Rightarrow> nat \<Rightarrow> u32" where
  "home st D k = ld32 (D st) (4 + 4 * k)"

definition header_ok :: "u32 \<Rightarrow> (u32 \<Rightarrow> block) \<Rightarrow> bool" where
  "header_ok st D \<longleftrightarrow> sint (ld32 (D st) 0) \<le> LOGSIZE \<and> (\<forall>k<logged st D. home st D k \<notin> log_region st)"

definition redo_writes :: "u32 \<Rightarrow> (u32 \<Rightarrow> block) \<Rightarrow> (u32 \<times> block) list" where
  "redo_writes st D = map (\<lambda>k. (home st D k, D (logblk st k))) [0..<logged st D]"

definition log_of :: "u32 \<Rightarrow> kstate \<Rightarrow> bool" where
  "log_of st s \<longleftrightarrow> lg_dev (klog s) = ROOTDEV \<and> lg_start (klog s) = st"

lemma idle_disk: "idle_cache {} s \<Longrightarrow> bview s = disk s"
  by (rule ext) (simp add: idle_view)

lemma read_head_result:
  assumes "idle_cache {} s" "log_of st s" "sint (ld32 (disk s st) 0) \<le> LOGSIZE"
  shows "\<exists>s'. read_head s = Some s' \<and> idle_cache {} s' \<and> log_of st s' \<and> cabs_of s' = cabs_of s \<and>
    nat (lg_n (klog s')) = logged st (disk s) \<and> (\<forall>k<logged st (disk s). lg_block (klog s') k = home st (disk s) k)"
proof -
  let ?n = "sint (ld32 (disk s st) 0)"
  let ?f = "\<lambda>l. l\<lparr>lg_n := ?n, lg_block := (\<lambda>i. if int i < ?n then ld32 (disk s st) (4 + 4 * i) else lg_block l i)\<rparr>"
  have r: "a_refs (cabs_of s) st = 0" using assms(1) by (simp add: idle_cache_def cabs_of_def)
  obtain i s1 where e: "bread ROOTDEV st s = Some (i, s1)" "bio_frame s s1" "b_data (bufs s1 i) = a_view (cabs_of s) st"
    "cache_good s1" "owns s1 i st" "cabs_of s1 = a_get st (cabs_of s)"
    by (rule bio.change_in_place [OF idle_quiet [OF assms(1)] r]) blast
  have d: "b_data (bufs s1 i) = disk s st" using e(3) idle_disk [OF assms(1)] by (simp add: cabs_of_def)
  have g: "cache_good (upd_log ?f s1)" "owns (upd_log ?f s1) i st"
    using e(4,5) by (simp_all add: cache_good_def upd_log_def cache_ok_def running_def unlocked_def owns_def mypid_def)
  have "a_refs (cabs_of (upd_log ?f s1)) st = 1 \<longrightarrow> a_disk (cabs_of (upd_log ?f s1)) st = a_view (cabs_of (upd_log ?f s1)) st"
    using idle_disk [OF assms(1)] by (simp add: e(6) a_get_def, simp add: cabs_of_def)
  from bio.put_ok [OF g this] obtain s2 where s2: "brelse i (upd_log ?f s1) = Some s2" "cache_good s2"
    "bio_frame (upd_log ?f s1) s2" "cabs_of s2 = a_put st (cabs_of (upd_log ?f s1))" by blast
  have c: "cabs_of s2 = cabs_of s"
    using assms(1) by (simp add: s2(4) e(6) a_put_def a_get_def, simp add: cabs_of_def idle_cache_def fun_eq_iff)
  have k: "klog s2 = ?f (klog s)"
    using bio_frame_fields(4) [OF e(2)] bio_frame_fields(4) [OF s2(3)] by (simp add: upd_log_def cong: if_cong)
  have "read_head s = Some s2"
    using e(1) d s2(1) assms(2,3) by (simp add: read_head_def log_of_def)
  moreover have "idle_cache {} s2"
    by (rule idle_cacheI [OF assms(1) s2(2)]) (simp_all add: c, simp_all add: cabs_of_def)
  ultimately show ?thesis
    using c k assms(2) by (auto simp: log_of_def logged_def home_def)
qed

lemma clear_head_result:
  assumes "idle_cache P s" "log_of st s" "st \<notin> P"
  shows "\<exists>s'. write_head (upd_log (\<lambda>l. l\<lparr>lg_n := 0\<rparr>) s) = Some s' \<and> idle_cache P s' \<and>
    cabs_of s' = a_write st (a_set st (st32 (bview s st) 0 0) (cabs_of s))"
proof -
  let ?s = "upd_log (\<lambda>l. l\<lparr>lg_n := 0\<rparr>) s"
  have l: "lg_dev (klog ?s) = ROOTDEV" "lg_start (klog ?s) = st" "lg_n (klog ?s) = 0"
    using assms(2) by (simp_all add: log_of_def upd_log_def)
  have v: "bview ?s = bview s" using cabs_of_upd_log [of _ s] by (simp add: cabs_of_def)
  have "idle_cache P ?s" using assms(1) by simp
  from write_head_result [OF this l(1,2) assms(3)] show ?thesis unfolding v l(3) cabs_of_upd_log
    by (auto simp: put_head_def)
qed

lemma copies_cong: "\<forall>k\<in>set ks. f k = g k \<Longrightarrow> copies src f ks a = copies src g ks a"
  by (simp add: copies_def cong: map_cong)

lemma recover_result:
  assumes "idle_cache {} r" "log_of st r" "header_ok st (disk r)"
  shows "\<exists>r'. recover_from_log r = Some r' \<and> idle_cache {} r' \<and>
    dwrites r' = dwrites r @ redo_writes st (disk r) @ [(st, st32 (disk r st) 0 0)] \<and>
    disk r' = (upds (disk r) (redo_writes st (disk r)))(st := st32 (disk r st) 0 0)"
proof -
  let ?n = "logged st (disk r)" and ?h = "home st (disk r)"
  obtain s1 where s1: "read_head r = Some s1" "idle_cache {} s1" "log_of st s1" "cabs_of s1 = cabs_of r"
    "nat (lg_n (klog s1)) = ?n" "\<forall>k<?n. lg_block (klog s1) k = ?h k"
    using read_head_result [OF assms(1,2)] assms(3) by (auto simp: header_ok_def)
  have n: "?n \<le> 30" using assms(3) unfolding header_ok_def logged_def LOGSIZE_def by linarith
  have "\<forall>k\<in>set [0..<?n]. k < 30 \<and> lg_block (klog s1) k \<notin> log_region st"
    using s1(6) assms(3) n by (simp add: header_ok_def)
  from install_recover_result [OF s1(2) _ _ this] s1(3) obtain s2 where s2: "install_loop [0..<?n] True s1 = Some s2"
    "idle_cache {} s2" "bio_frame s1 s2" "cabs_of s2 = copies (logblk st) (lg_block (klog s1)) [0..<?n] (cabs_of s1)"
    by (auto simp: log_of_def)
  let ?s3 = "upd_log (\<lambda>l. l\<lparr>lg_n := 0\<rparr>) s2"
  have l2: "log_of st s2" using s1(3) bio_frame_fields(4) [OF s2(3)] by (simp add: log_of_def)
  obtain s4 where s4: "write_head ?s3 = Some s4" "idle_cache {} s4"
    "cabs_of s4 = a_write st (a_set st (st32 (bview s2 st) 0 0) (cabs_of s2))"
    using clear_head_result [OF s2(2) l2] by blast
  have c: "cabs_of s2 = copies (logblk st) ?h [0..<?n] (cabs_of r)"
    unfolding s2(4) s1(4) by (rule copies_cong) (simp add: s1(6))
  have nst: "st \<notin> fst ` set (redo_writes st (disk r))"
    using assms(3) by (force simp: redo_writes_def header_ok_def log_region_def)
  have v: "bview s2 = upds (disk r) (redo_writes st (disk r))"
    using c idle_disk [OF assms(1)]
    by (simp add: cabs_of_def copies_def Let_def redo_writes_def)
  have e: "recover_from_log r = Some s4"
    using s1(1,5) s2(1) s4(1) by (simp add: recover_from_log_def install_trans_def)
  have d: "dwrites s4 = dwrites r @ redo_writes st (disk r) @ [(st, st32 (disk r st) 0 0)]"
      "disk s4 = (upds (disk r) (redo_writes st (disk r)))(st := st32 (disk r st) 0 0)"
    using s4(3) c v idle_disk [OF assms(1)] nst
    by (simp_all add: cabs_of_def a_write_def a_set_def copies_def Let_def redo_writes_def upds_other)
  show ?thesis using e s4(2) d by blast
qed

section \<open>A commit and a crash\<close>

text \<open>
  A transaction ready to commit: its blocks are pinned and in the log's record, none of them is a
  block of the log, and the header on the disk announces nothing.
\<close>

definition txn_blocks :: "kstate \<Rightarrow> u32 list" where
  "txn_blocks s = map (lg_block (klog s)) [0..<nat (lg_n (klog s))]"

definition txn :: "u32 \<Rightarrow> kstate \<Rightarrow> bool" where
  "txn st s \<longleftrightarrow> log_of st s \<and> 0 < lg_n (klog s) \<and> lg_n (klog s) < 30 \<and> distinct (txn_blocks s) \<and>
     set (txn_blocks s) \<inter> log_region st = {} \<and> idle_cache (set (txn_blocks s)) s \<and> ld32 (disk s st) 0 = 0"

definition full_head :: "u32 \<Rightarrow> kstate \<Rightarrow> block" where
  "full_head st s = put_head (disk s st) (nat (lg_n (klog s))) (lg_block (klog s))"

definition log_writes :: "u32 \<Rightarrow> kstate \<Rightarrow> (u32 \<times> block) list" where
  "log_writes st s = map (\<lambda>k. (logblk st k, bview s (lg_block (klog s) k))) [0..<nat (lg_n (klog s))]"

definition home_writes :: "kstate \<Rightarrow> (u32 \<times> block) list" where
  "home_writes s = map (\<lambda>k. (lg_block (klog s) k, bview s (lg_block (klog s) k))) [0..<nat (lg_n (klog s))]"

definition commit_writes :: "u32 \<Rightarrow> kstate \<Rightarrow> (u32 \<times> block) list" where
  "commit_writes st s = log_writes st s @ [(st, full_head st s)] @ home_writes s @ [(st, st32 (full_head st s) 0 0)]"

lemma txnD:
  assumes "txn st s"
  shows "log_of st s" "idle_cache (set (txn_blocks s)) s" "set (txn_blocks s) \<inter> log_region st = {}"
    "nat (lg_n (klog s)) < 30" "st \<notin> set (txn_blocks s)" "ld32 (disk s st) 0 = 0" "lg_n (klog s) > 0"
    "distinct (txn_blocks s)"
    "\<forall>k<nat (lg_n (klog s)). lg_block (klog s) k \<notin> log_region st"
proof -
  have t: "log_of st s" "0 < lg_n (klog s)" "lg_n (klog s) < 30" "distinct (txn_blocks s)"
    "set (txn_blocks s) \<inter> log_region st = {}" "idle_cache (set (txn_blocks s)) s" "ld32 (disk s st) 0 = 0"
    using assms by (simp_all add: txn_def)
  show "log_of st s" "idle_cache (set (txn_blocks s)) s" "set (txn_blocks s) \<inter> log_region st = {}"
    "ld32 (disk s st) 0 = 0" "lg_n (klog s) > 0" "distinct (txn_blocks s)" by fact+
  show "nat (lg_n (klog s)) < 30" using t(3) by simp
  show "st \<notin> set (txn_blocks s)" using t(5) by (auto simp: log_region_def)
  have "lg_block (klog s) k \<in> set (txn_blocks s)" if "k < nat (lg_n (klog s))" for k
    using that by (simp add: txn_blocks_def)
  then show "\<forall>k<nat (lg_n (klog s)). lg_block (klog s) k \<notin> log_region st" using t(5) by blast
qed

lemma log_writes_view:
  assumes "n < 30" "k < n"
  shows "upds D (map (\<lambda>k. (logblk st k, V k)) [0..<n]) (logblk st k) = V k"
proof (rule upds_distinct)
  show "distinct (map fst (map (\<lambda>k. (logblk st k, V k)) [0..<n]))"
    using assms(1) logblk_inj by (auto simp: distinct_map inj_on_def)
qed (use assms(2) in auto)

lemma log_writes_start: "nat (lg_n (klog s)) < 30 \<Longrightarrow> st \<notin> fst ` set (log_writes st s)"
proof
  assume n: "nat (lg_n (klog s)) < 30" and "st \<in> fst ` set (log_writes st s)"
  then obtain k where k: "k < nat (lg_n (klog s))" "st = logblk st k" by (auto simp: log_writes_def)
  then show False using logblk_start [of k st] n by simp
qed

lemma commit_result:
  assumes "txn st s"
  shows "\<exists>s'. commit s = Some s' \<and> idle_cache {} s' \<and>
    dwrites s' = dwrites s @ commit_writes st s \<and> disk s' = upds (disk s) (commit_writes st s)"
proof -
  note t = txnD [OF assms]
  let ?n = "nat (lg_n (klog s))" and ?b = "lg_block (klog s)" and ?P = "set (txn_blocks s)"
  have l: "lg_dev (klog s) = ROOTDEV" "lg_start (klog s) = st" using t(1) by (simp_all add: log_of_def)
  have "\<forall>k\<in>set [0..<?n]. k < 30 \<and> ?b k \<in> ?P" using t(4) by (auto simp: txn_blocks_def)
  from write_log_loop_result [OF t(2) l this t(3)] obtain s1 where s1: "write_log s = Some s1" "idle_cache ?P s1"
    "klog s1 = klog s" "cabs_of s1 = copies ?b (logblk st) [0..<?n] (cabs_of s)"
    by (auto simp: write_log_def dest: bio_frame_fields(4))
  have c1: "bview s1 = upds (bview s) (log_writes st s)" "disk s1 = upds (disk s) (log_writes st s)"
      "dwrites s1 = dwrites s @ log_writes st s"
    using s1(4) by (simp_all add: cabs_of_def copies_def Let_def log_writes_def)
  have "st \<notin> fst ` set (log_writes st s)" by (rule log_writes_start [OF t(4)])
  then have h: "bview s1 st = disk s st"
    by (simp add: c1 upds_other idle_view [OF t(2,5)])
  from write_head_result [OF s1(2) _ _ t(5)] l obtain s2 where s2: "write_head s1 = Some s2" "idle_cache ?P s2"
    "klog s2 = klog s" "cabs_of s2 = a_write st (a_set st (full_head st s) (cabs_of s1))"
    unfolding s1(3) h full_head_def [symmetric] by (metis bio_frame_fields(4) s1(3))
  have c2: "bview s2 = (bview s1)(st := full_head st s)" "disk s2 = (disk s1)(st := full_head st s)"
      "dwrites s2 = dwrites s1 @ [(st, full_head st s)]"
    using s2(4) by (simp_all add: cabs_of_def a_write_def a_set_def)
  have P: "?b ` set [0..<?n] = ?P" by (simp add: txn_blocks_def)
  have "\<forall>k\<in>set [0..<?n]. k < 30 \<and> lg_block (klog s2) k \<notin> log_region st" using t(4,9) s2(3) by auto
  from install_commit_result [of s2 "[0..<?n]" st, unfolded s2(3) P, OF s2(2) l this [unfolded s2(3)]] t(8)
  obtain s3 R where s3: "install_loop [0..<?n] False s2 = Some s3" "idle_cache {} s3" "bio_frame s2 s3"
    "cabs_of s3 = (copies (logblk st) ?b [0..<?n] (cabs_of s2))\<lparr>a_refs := R\<rparr>"
    by (auto simp: txn_blocks_def)
  have "map (\<lambda>k. (?b k, bview s2 (logblk st k))) [0..<?n] = home_writes s"
    using t(4) logblk_start by (simp add: home_writes_def c1 c2 log_writes_def log_writes_view)
  then have c3: "bview s3 = upds (bview s2) (home_writes s)" "disk s3 = upds (disk s2) (home_writes s)"
      "dwrites s3 = dwrites s2 @ home_writes s"
    using s3(4) by (simp_all add: cabs_of_def copies_def Let_def)
  have "st \<notin> fst ` set (home_writes s)"
    using t(5) by (auto simp: home_writes_def txn_blocks_def)
  then have h3: "bview s3 st = full_head st s" by (simp add: c3 c2 upds_other)
  have "log_of st s3" using t(1) bio_frame_fields(4) [OF s3(3)] s2(3) by (simp add: log_of_def)
  from clear_head_result [OF s3(2) this] obtain s4 where
    s4: "write_head (upd_log (\<lambda>l. l\<lparr>lg_n := 0\<rparr>) s3) = Some s4" "idle_cache {} s4"
    "cabs_of s4 = a_write st (a_set st (st32 (full_head st s) 0 0) (cabs_of s3))"
    unfolding h3 by blast
  have "commit s = Some s4"
    using t(7) s1(1) s2(1,3) s3(1) s4(1) by (simp add: commit_def install_trans_def)
  moreover have "dwrites s4 = dwrites s @ commit_writes st s" "disk s4 = upds (disk s) (commit_writes st s)"
    using s4(3) c1 c2 c3 by (simp_all add: cabs_of_def a_write_def a_set_def commit_writes_def)
  ultimately show ?thesis using s4(2) by blast
qed

text \<open>The disks a recovery reads: nothing announced, or the whole transaction.\<close>

lemma recover_nothing:
  assumes "idle_cache {} r" "log_of st r" "ld32 (disk r st) 0 = 0"
  shows "\<exists>r'. recover_from_log r = Some r' \<and> (\<forall>b. b \<notin> log_region st \<longrightarrow> disk r' b = disk r b)"
proof -
  have l: "logged st (disk r) = 0" using assms(3) by (simp add: logged_def)
  then have "header_ok st (disk r)" "redo_writes st (disk r) = []"
    using assms(3) by (simp_all add: header_ok_def LOGSIZE_def redo_writes_def)
  with recover_result [OF assms(1,2)] show ?thesis by (auto simp: log_region_def)
qed

lemma sint_of_nat_small:
  assumes "n < 30"
  shows "sint (of_nat n :: u32) = int n"
proof -
  have "sint (word_of_int (int n) :: u32) = signed_take_bit 31 (int n)"
    by (simp only: sint_sbintrunc') simp
  also have "\<dots> = int n" using assms by (intro signed_take_bit_int_eq_self) auto
  finally show ?thesis by simp
qed

lemma redo_full:
  assumes "txn st s" "D st = full_head st s"
    "\<forall>k<nat (lg_n (klog s)). D (logblk st k) = bview s (lg_block (klog s) k)"
  shows "redo_writes st D = home_writes s" "header_ok st D"
proof -
  note t = txnD [OF assms(1)]
  have n: "sint (ld32 (D st) 0) = lg_n (klog s)"
    using t(4,7) sint_of_nat_small [OF t(4)] unfolding assms(2) full_head_def put_head_n by simp
  have h: "\<forall>k<nat (lg_n (klog s)). home st D k = lg_block (klog s) k"
    by (simp add: home_def assms(2) full_head_def put_head_block)
  show "redo_writes st D = home_writes s"
    using h assms(3) by (simp add: redo_writes_def home_writes_def logged_def n)
  show "header_ok st D"
    using h t(4,9) n by (simp add: header_ok_def logged_def LOGSIZE_def)
qed

lemma homes_final:
  assumes "txn st s" "b \<notin> log_region st" "b \<notin> set (txn_blocks s) \<Longrightarrow> D b = disk s b"
  shows "upds D (home_writes s) b = bview s b"
proof (cases "b \<in> set (txn_blocks s)")
  case True
  then show ?thesis using txnD(8) [OF assms(1)]
    by (intro upds_distinct) (auto simp: home_writes_def txn_blocks_def comp_def)
next
  case False
  then show ?thesis using assms(3) idle_view [OF txnD(2) [OF assms(1)]]
    by (subst upds_other) (auto simp: home_writes_def txn_blocks_def)
qed

lemma fst_take_subset: "x \<in> fst ` set (take j ws) \<Longrightarrow> x \<in> fst ` set ws"
  by (meson image_mono in_mono set_take_subset)

lemma log_writes_outside: "nat (lg_n (klog s)) < 30 \<Longrightarrow> b \<notin> log_region st \<Longrightarrow> b \<notin> fst ` set (log_writes st s)"
  by (auto simp: log_writes_def log_region_def)

lemma home_writes_keys: "fst ` set (home_writes s) = set (txn_blocks s)"
  by (simp add: home_writes_def txn_blocks_def image_image)

lemma home_writes_outside: "txn st s \<Longrightarrow> b \<in> log_region st \<Longrightarrow> b \<notin> fst ` set (home_writes s)"
  using txnD(3) unfolding home_writes_keys by blast

text \<open>After the header is on the disk, every crash is recovered to the committed state.\<close>

lemma recover_committed:
  assumes "txn st s" "idle_cache {} r" "log_of st r" "j \<le> nat (lg_n (klog s))"
    "disk r = upds ((upds (disk s) (log_writes st s))(st := full_head st s)) (take j (home_writes s))"
  shows "\<exists>r'. recover_from_log r = Some r' \<and> (\<forall>b. b \<notin> log_region st \<longrightarrow> disk r' b = bview s b)"
proof -
  note t = txnD [OF assms(1)]
  have o: "b \<notin> fst ` set (take j (home_writes s))" if "b \<in> log_region st \<or> b \<notin> set (txn_blocks s)" for b
    using that home_writes_outside [OF assms(1), of b] fst_take_subset [of b j "home_writes s"]
    unfolding home_writes_keys by blast
  have st: "disk r st = full_head st s"
    unfolding assms(5) by (subst upds_other [OF o]) (simp_all add: log_region_def)
  have "disk r (logblk st k) = bview s (lg_block (klog s) k)" if "k < nat (lg_n (klog s))" for k
    unfolding assms(5)
  proof (subst upds_other [OF o])
    show "logblk st k \<in> log_region st \<or> logblk st k \<notin> set (txn_blocks s)"
      using logblk_in_region [of k st] t(4) that by simp
    show "((upds (disk s) (log_writes st s))(st := full_head st s)) (logblk st k) = bview s (lg_block (klog s) k)"
      using logblk_start [of k st] t(4) that by (simp add: log_writes_def log_writes_view)
  qed
  then have full: "redo_writes st (disk r) = home_writes s" "header_ok st (disk r)"
    using redo_full [OF assms(1), of "disk r"] st by auto
  have "upds (disk r) (home_writes s) b = bview s b" if "b \<notin> log_region st" for b
  proof (rule homes_final [OF assms(1) that])
    assume "b \<notin> set (txn_blocks s)"
    then show "disk r b = disk s b" unfolding assms(5)
      using that t(4) by (subst upds_other [OF o]) (auto simp: log_region_def upds_other log_writes_outside)
  qed
  then show ?thesis
    using recover_result [OF assms(2,3) full(2)] full(1) by (auto simp: log_region_def)
qed

lemma commit_writes_split:
  assumes "k \<le> length (commit_writes st s)"
  obtains (before) "k \<le> nat (lg_n (klog s))" "take k (commit_writes st s) = take k (log_writes st s)"
  | (during) j where "j \<le> nat (lg_n (klog s))" "k = Suc (nat (lg_n (klog s)) + j)"
      "take k (commit_writes st s) = log_writes st s @ [(st, full_head st s)] @ take j (home_writes s)"
  | (after) "nat (lg_n (klog s)) < k" "take k (commit_writes st s) = commit_writes st s"
proof -
  let ?n = "nat (lg_n (klog s))"
  have len: "length (log_writes st s) = ?n" "length (home_writes s) = ?n"
    by (simp_all add: log_writes_def home_writes_def)
  consider "k \<le> ?n" | "?n < k" "k \<le> Suc (?n + ?n)" | "k = Suc (Suc (?n + ?n))"
    using assms len by (fastforce simp: commit_writes_def)
  then show thesis
  proof cases
    case 1
    then show thesis by (intro before) (simp_all add: commit_writes_def len)
  next
    case 2
    then obtain j where "k = Suc (?n + j)" by (metis add_Suc less_imp_Suc_add)
    then show thesis using 2 by (intro during [of j]) (simp_all add: commit_writes_def len)
  next
    case 3
    then show thesis by (intro after) (simp_all add: commit_writes_def len)
  qed
qed

text \<open>
  C18. A commit is atomic. The writes it puts on the disk, in this order, are such that after a crash
  that keeps any prefix of them, the recovery at the next boot returns and leaves every block outside
  the log as it was before the transaction, when the crash came before the header was written, and
  otherwise every block as the transaction made it.
\<close>

theorem commit_atomic:
  assumes "txn st s"
  shows "\<exists>s' W. commit s = Some s' \<and> dwrites s' = dwrites s @ W \<and> disk s' = upds (disk s) W \<and>
    (\<forall>k\<le>length W. \<forall>r. idle_cache {} r \<and> log_of st r \<and> disk r = upds (disk s) (take k W) \<longrightarrow>
      (\<exists>r'. recover_from_log r = Some r' \<and> (\<forall>b. b \<notin> log_region st \<longrightarrow>
        disk r' b = (if k \<le> nat (lg_n (klog s)) then disk s b else bview s b))))"
proof -
  note t = txnD [OF assms]
  let ?W = "commit_writes st s" and ?n = "nat (lg_n (klog s))"
  have "\<exists>r'. recover_from_log r = Some r' \<and> (\<forall>b. b \<notin> log_region st \<longrightarrow>
        disk r' b = (if k \<le> ?n then disk s b else bview s b))"
    if k: "k \<le> length ?W" and r: "idle_cache {} r" "log_of st r" "disk r = upds (disk s) (take k ?W)" for k r
    using k
  proof (cases rule: commit_writes_split)
    case before
    have "b \<notin> fst ` set (take k (log_writes st s))" if "b = st \<or> b \<notin> log_region st" for b
      using that log_writes_start [OF t(4)] log_writes_outside [OF t(4)] fst_take_subset by metis
    then show ?thesis using recover_nothing [OF r(1,2)] t(6) before by (simp add: r(3) upds_other)
  next
    case (during j)
    then show ?thesis using recover_committed [OF assms r(1,2) during(1)] r(3) by simp
  next
    case after
    let ?D = "(upds (disk s) (log_writes st s))(st := full_head st s)"
    have d: "disk r = (upds ?D (home_writes s))(st := st32 (full_head st s) 0 0)"
      unfolding r(3) after(2) unfolding commit_writes_def by simp
    have "disk r b = bview s b" if "b \<notin> log_region st" for b
      using that homes_final [OF assms that, of ?D] log_writes_outside [OF t(4) that]
      by (auto simp: d log_region_def upds_other)
    then show ?thesis using recover_nothing [OF r(1,2)] after by (simp add: d)
  qed
  then show ?thesis using commit_result [OF assms] by blast
qed

text \<open>A transaction of one block, number 100, with the log at block 2.\<close>

definition demo_log :: log where
  "demo_log = \<lparr>lg_start = 2, lg_size = 30, lg_outstanding = 0, lg_committing = True, lg_dev = ROOTDEV, lg_n = 1,
     lg_block = (\<lambda>_. 100)\<rparr>"

definition demo_txn :: kstate where
  "demo_txn = upd_log (\<lambda>_. demo_log) (demo_use 0 100 (\<lambda>_. 7) \<lparr>sl_locked = False, sl_pid = 0\<rparr>)"

lemma demo_disk: "disk demo_cache = (\<lambda>_ _. 0)"
  by (subst demo_cache_frame [symmetric]) (simp add: zero_state_def)

lemma demo_region: "100 \<notin> log_region 2"
proof -
  have "{..<30 :: nat} = set [0..<30]" by auto
  then show ?thesis by (simp add: log_region_def logblk_def upt_rec)
qed

lemma demo_txn_ok: "txn 2 demo_txn"
proof -
  let ?u = "demo_use 0 100 (\<lambda>_. 7) \<lparr>sl_locked = False, sl_pid = 0\<rparr>"
  have n: "0 < NBUF" by (simp add: NBUF_def)
  have "idle_cache {100} ?u" using demo_use_ok [OF n] by (simp add: idle_cache_def)
  then have "idle_cache {100} demo_txn" by (simp add: demo_txn_def)
  moreover have "klog demo_txn = demo_log" by (simp add: demo_txn_def upd_log_def)
  moreover have "disk demo_txn = (\<lambda>_ _. 0)" by (simp add: demo_txn_def upd_log_def demo_use_def upd_buf_def demo_disk)
  ultimately show ?thesis
    using demo_region by (simp add: txn_def txn_blocks_def log_of_def demo_log_def ld32_def)
qed

theorem commit_atomic_witness:
  "\<exists>s' W. commit demo_txn = Some s' \<and> dwrites s' = dwrites demo_txn @ W \<and> disk s' = upds (disk demo_txn) W \<and>
    (\<forall>k\<le>length W. \<forall>r. idle_cache {} r \<and> log_of 2 r \<and> disk r = upds (disk demo_txn) (take k W) \<longrightarrow>
      (\<exists>r'. recover_from_log r = Some r' \<and> (\<forall>b. b \<notin> log_region 2 \<longrightarrow>
        disk r' b = (if k \<le> nat (lg_n (klog demo_txn)) then disk demo_txn b else bview demo_txn b))))"
  by (rule commit_atomic [OF demo_txn_ok])

lemma upds_again: "upds (upds f (take k ws)) ws = upds f ws"
proof
  fix b
  have indep: "b \<in> fst ` set ws \<Longrightarrow> upds f ws b = upds g ws b" for f g
  proof (induction ws arbitrary: f g)
    case (Cons w ws)
    then show ?case by (cases w; cases "b \<in> fst ` set ws") (auto simp: upds_other)
  qed simp
  show "upds (upds f (take k ws)) ws b = upds f ws b"
  proof (cases "b \<in> fst ` set ws")
    case False
    then have "b \<notin> fst ` set (take k ws)" using fst_take_subset by metis
    then show ?thesis unfolding upds_other [OF False] by (rule upds_other)
  qed (rule indep)
qed

lemma redo_writes_again:
  assumes "header_ok st D" "b \<in> log_region st"
  shows "upds D (take k (redo_writes st D)) b = D b"
proof (rule upds_other)
  have "b \<notin> fst ` set (redo_writes st D)" using assms by (auto simp: redo_writes_def header_ok_def)
  then show "b \<notin> fst ` set (take k (redo_writes st D))" using fst_take_subset by metis
qed

lemma redo_writes_cong:
  assumes "header_ok st D" "\<forall>b\<in>log_region st. E b = D b"
  shows "redo_writes st E = redo_writes st D" "header_ok st E"
proof -
  have st: "E st = D st" using assms(2) by (simp add: log_region_def)
  have l: "E (logblk st k) = D (logblk st k)" if "k < logged st D" for k
  proof -
    have "k < 30" using that assms(1) unfolding header_ok_def logged_def LOGSIZE_def by linarith
    then show ?thesis using assms(2) logblk_in_region by blast
  qed
  show "redo_writes st E = redo_writes st D" using l by (simp add: redo_writes_def logged_def home_def st)
  show "header_ok st E" using assms(1) by (simp add: header_ok_def logged_def home_def st)
qed

text \<open>
  C19. Recovery can itself be interrupted. If the machine stops after any prefix of the recovery's writes,
  the next recovery returns and leaves outside the log exactly what the uninterrupted one leaves.
\<close>

theorem recovery_restartable:
  assumes "idle_cache {} r" "log_of st r" "header_ok st (disk r)"
  shows "\<exists>r' W. recover_from_log r = Some r' \<and> dwrites r' = dwrites r @ W \<and>
    (\<forall>k q. idle_cache {} q \<and> log_of st q \<and> disk q = upds (disk r) (take k W) \<longrightarrow>
      (\<exists>q'. recover_from_log q = Some q' \<and> (\<forall>b. b \<notin> log_region st \<longrightarrow> disk q' b = disk r' b)))"
proof -
  let ?R = "redo_writes st (disk r)" and ?h = "(st, st32 (disk r st) 0 0)"
  obtain r' where r': "recover_from_log r = Some r'" "dwrites r' = dwrites r @ ?R @ [?h]"
      "disk r' = (upds (disk r) ?R)(st := st32 (disk r st) 0 0)"
    using recover_result [OF assms] by blast
  have "\<exists>q'. recover_from_log q = Some q' \<and> (\<forall>b. b \<notin> log_region st \<longrightarrow> disk q' b = disk r' b)"
    if q: "idle_cache {} q" "log_of st q" "disk q = upds (disk r) (take k (?R @ [?h]))" for k q
  proof (cases "k \<le> length ?R")
    case True
    then have d: "disk q = upds (disk r) (take k ?R)" using q(3) by simp
    have "\<forall>b\<in>log_region st. disk q b = disk r b" using redo_writes_again [OF assms(3)] by (simp add: d)
    note same = redo_writes_cong [OF assms(3) this]
    show ?thesis using recover_result [OF q(1,2) same(2)]
      unfolding same(1) by (auto simp: d upds_again r'(3) log_region_def)
  next
    case False
    then have "disk q = disk r'" using q(3) by (simp add: r'(3))
    then show ?thesis using recover_nothing [OF q(1,2)] by (simp add: r'(3))
  qed
  then show ?thesis using r'(1,2) by blast
qed

text \<open>The disk of a machine that stopped after the header was written.\<close>

definition demo_crashed :: kstate where
  "demo_crashed = upd_log (\<lambda>_. demo_log)
     (demo_cache\<lparr>disk := (disk demo_cache)(2 := put_head (\<lambda>_. 0) 1 (\<lambda>_. 100), 3 := (\<lambda>_. 7))\<rparr>)"

lemma demo_crashed_ok: "idle_cache {} demo_crashed" "log_of 2 demo_crashed" "header_ok 2 (disk demo_crashed)"
proof -
  let ?d = "demo_cache\<lparr>disk := (disk demo_cache)(2 := put_head (\<lambda>_. 0) 1 (\<lambda>_. 100), 3 := (\<lambda>_. 7))\<rparr>"
  have a: "refs ?d b = 0" "\<not> blocked ?d b" for b
    by (simp_all add: demo_cache_unheld(2) refs_uncached blocked_def)
  have "cache_ok ?d" using demo_cache_ok(1) demo_cache_unheld(2) by (simp add: cache_ok_def)
  then have "idle_cache {} ?d"
    using demo_cache_running(1) a by (simp add: idle_cache_def cache_good_def)
  then show "idle_cache {} demo_crashed" by (simp add: demo_crashed_def)
  show "log_of 2 demo_crashed" by (simp add: demo_crashed_def upd_log_def log_of_def demo_log_def)
  have st: "disk demo_crashed 2 = put_head (\<lambda>_. 0) 1 (\<lambda>_. 100)" by (simp add: demo_crashed_def upd_log_def)
  have "home 2 (disk demo_crashed) 0 = 100"
    using put_head_block [of 0 1 "\<lambda>_. 0" "\<lambda>_. 100"] by (simp add: home_def st)
  then show "header_ok 2 (disk demo_crashed)"
    using demo_region by (simp add: header_ok_def logged_def st put_head_n LOGSIZE_def)
qed

theorem recovery_restartable_witness:
  "\<exists>r' W. recover_from_log demo_crashed = Some r' \<and> dwrites r' = dwrites demo_crashed @ W \<and>
    (\<forall>k q. idle_cache {} q \<and> log_of 2 q \<and> disk q = upds (disk demo_crashed) (take k W) \<longrightarrow>
      (\<exists>q'. recover_from_log q = Some q' \<and> (\<forall>b. b \<notin> log_region 2 \<longrightarrow> disk q' b = disk r' b)))"
  by (rule recovery_restartable [OF demo_crashed_ok])

end
