(* ===== verification/Console.thy ===== *)
theory Console
  imports State
begin

text \<open>
  \<^verbatim>\<open>kernel/uart.c\<close>, \<^verbatim>\<open>kernel/console.c\<close>, \<^verbatim>\<open>kernel/printf.c\<close> and \<open>procdump\<close> of
  \<^verbatim>\<open>kernel/proc.c\<close>: the transmit ring of the UART, the console's line editor and the kernel's
  formatted output.

  The UART is a device: a byte written to its transmit register is appended to \<open>tx_sent\<close>; it takes
  \<open>tx_room\<close> more bytes before it reports itself busy. A loop that polls the device until it is idle
  ends when the device has drained.
\<close>

section \<open>UART (uart.c)\<close>

definition UART_TX_BUF_SIZE :: u64 where "UART_TX_BUF_SIZE = 32"

definition WriteReg :: "nat \<Rightarrow> u8 \<Rightarrow> kstate \<Rightarrow> kstate" where
  "WriteReg reg v s = s\<lparr>uart_cfg := uart_cfg s @ [(reg, v)]\<rparr>"

definition write_THR :: "u8 \<Rightarrow> kstate \<Rightarrow> kstate" where
  "write_THR c s = s\<lparr>tx_sent := tx_sent s @ [c], tx_room := tx_room s - 1\<rparr>"

definition uartinit :: "kstate \<Rightarrow> kstate" where
  "uartinit s =
     (let s = WriteReg 1 0x00 s;
          s = WriteReg 3 0x80 s;
          s = WriteReg 0 0x03 s;
          s = WriteReg 1 0x00 s;
          s = WriteReg 3 0x03 s;
          s = WriteReg 2 0x07 s;
          s = WriteReg 1 0x03 s
      in s\<lparr>lk := initlock UartLock (lk s)\<rparr>)"

partial_function (option) uartstart :: "kstate \<Rightarrow> kstate option" where
  "uartstart s =
     (if tx_w (uart s) = tx_r (uart s) then Some s
      else if tx_room s = 0 then Some s
      else do {
        let c = tx_buf (uart s) (unat (tx_r (uart s) mod UART_TX_BUF_SIZE));
        let s = s\<lparr>uart := (uart s)\<lparr>tx_r := tx_r (uart s) + 1\<rparr>\<rparr>;
        s \<leftarrow> wakeup ChanUartR s;
        uartstart (write_THR c s)
      })"

text \<open>\<open>uartputc\<close> from its test of the ring on, and after it has slept.\<close>

definition uartputc_wait :: "u8 \<Rightarrow> kstate \<Rightarrow> (unit, unit) outcome option" where
  "uartputc_wait c s =
     (if tx_w (uart s) = tx_r (uart s) + UART_TX_BUF_SIZE then do {
        s \<leftarrow> sleep ChanUartR UartLock s;
        Some (Asleep () s)
      } else do {
        let u = uart s;
        let u = u\<lparr>tx_buf := (tx_buf u)(unat (tx_w u mod UART_TX_BUF_SIZE) := c)\<rparr>;
        let u = u\<lparr>tx_w := tx_w u + 1\<rparr>;
        s \<leftarrow> uartstart (s\<lparr>uart := u\<rparr>);
        s \<leftarrow> rel UartLock s;
        Some (Returned () s)
      })"

definition uartputc :: "u8 \<Rightarrow> kstate \<Rightarrow> (unit, unit) outcome option" where
  "uartputc c s = do {
     s \<leftarrow> acq UartLock s;
     if panicked s then None else uartputc_wait c s
   }"

definition uartputc_resumed :: "u8 \<Rightarrow> kstate \<Rightarrow> (unit, unit) outcome option" where
  "uartputc_resumed c s = do { s \<leftarrow> sleep_resumed UartLock s; uartputc_wait c s }"

definition uartputc_sync :: "int \<Rightarrow> kstate \<Rightarrow> kstate option" where
  "uartputc_sync c s =
     (let s = s\<lparr>lk := push_off (hart s) (lk s)\<rparr> in
      if panicked s then None
      else
        let s = s\<lparr>tx_room := max 1 (tx_room s)\<rparr>;
            s = write_THR (word_of_int c) s
        in do { k \<leftarrow> pop_off (hart s) (lk s); Some (s\<lparr>lk := k\<rparr>) })"

definition uartgetc :: "kstate \<Rightarrow> int \<times> kstate" where
  "uartgetc s = (case rx_bytes s of [] \<Rightarrow> (-1, s) | c # cs \<Rightarrow> (uint c, s\<lparr>rx_bytes := cs\<rparr>))"

section \<open>Console output\<close>

definition BACKSPACE :: int where "BACKSPACE = 0x100"
definition INPUT_BUF_SIZE :: u32 where "INPUT_BUF_SIZE = 128"

definition consputc :: "int \<Rightarrow> kstate \<Rightarrow> kstate option" where
  "consputc c s =
     (if c = BACKSPACE then do {
        s \<leftarrow> uartputc_sync 8 s;
        s \<leftarrow> uartputc_sync 32 s;
        uartputc_sync 8 s
      } else uartputc_sync c s)"

fun consputs :: "u8 list \<Rightarrow> kstate \<Rightarrow> kstate option" where
  "consputs [] s = Some s"
| "consputs (c # cs) s = do { s \<leftarrow> consputc (uint c) s; consputs cs s }"

text \<open>\<open>consolewrite\<close> over the indices still to be written; asleep, it has the byte and the rest.\<close>

fun consolewrite_loop :: "bool \<Rightarrow> u64 \<Rightarrow> nat \<Rightarrow> nat list \<Rightarrow> kstate \<Rightarrow> (u8 \<times> nat list, int) outcome option" where
  "consolewrite_loop user_src src n [] s = Some (Returned (int n) s)"
| "consolewrite_loop user_src src n (i # is) s = do {
     (r, bs) \<leftarrow> either_copyin user_src (src + of_nat i) 1 s;
     if r = -1 then Some (Returned (int i) s)
     else do {
       p \<leftarrow> uartputc (hd bs) s;
       case p of
         Returned _ s \<Rightarrow> consolewrite_loop user_src src n is s
       | Asleep _ s \<Rightarrow> Some (Asleep (hd bs, is) s)
     }
   }"

definition consolewrite :: "bool \<Rightarrow> u64 \<Rightarrow> int \<Rightarrow> kstate \<Rightarrow> (u8 \<times> nat list, int) outcome option" where
  "consolewrite user_src src n s = consolewrite_loop user_src src (nat n) [0..<nat n] s"

definition consolewrite_resumed ::
  "bool \<Rightarrow> u64 \<Rightarrow> int \<Rightarrow> u8 \<times> nat list \<Rightarrow> kstate \<Rightarrow> (u8 \<times> nat list, int) outcome option"
where
  "consolewrite_resumed user_src src n v s = do {
     p \<leftarrow> uartputc_resumed (fst v) s;
     case p of
       Returned _ s \<Rightarrow> consolewrite_loop user_src src (nat n) (snd v) s
     | Asleep _ s \<Rightarrow> Some (Asleep v s)
   }"

section \<open>Formatted output (printf.c)\<close>

text \<open>The variable arguments; \<open>None\<close> is a null string.\<close>

datatype va_arg = AInt u32 | APtr u64 | AStr "u8 list option"

abbreviation bytes_of :: "string \<Rightarrow> u8 list" where
  "bytes_of cs \<equiv> map of_char cs"

definition digits :: "u8 list" where
  "digits = bytes_of ''0123456789abcdef''"

text \<open>The digits \<open>printint\<close> puts into its buffer, last digit first.\<close>

partial_function (option) printint_digits :: "u32 \<Rightarrow> u32 \<Rightarrow> u8 list option" where
  "printint_digits base x =
     (let d = digits ! unat (x mod base) in
      if x div base \<noteq> 0 then do { ds \<leftarrow> printint_digits base (x div base); Some (d # ds) } else Some [d])"

definition printint_buf :: "u32 \<Rightarrow> u32 \<Rightarrow> bool \<Rightarrow> u8 list option" where
  "printint_buf xx base sign =
     (let neg = (sign \<and> sint xx < 0);
          x = (if neg then - xx else xx)
      in do {
        buf \<leftarrow> printint_digits base x;
        let buf = (if neg then buf @ bytes_of ''-'' else buf);
        if length buf > 16 then None else Some buf
      })"

definition printint :: "u32 \<Rightarrow> u32 \<Rightarrow> bool \<Rightarrow> kstate \<Rightarrow> kstate option" where
  "printint xx base sign s = do { buf \<leftarrow> printint_buf xx base sign; consputs (rev buf) s }"

fun printptr_loop :: "nat \<Rightarrow> u64 \<Rightarrow> kstate \<Rightarrow> kstate option" where
  "printptr_loop 0 x s = Some s"
| "printptr_loop (Suc i) x s = do {
     s \<leftarrow> consputc (uint (digits ! unat (drop_bit 60 x))) s;
     printptr_loop i (push_bit 4 x) s
   }"

definition printptr :: "u64 \<Rightarrow> kstate \<Rightarrow> kstate option" where
  "printptr x s = do {
     s \<leftarrow> consputc (of_char CHR ''0'') s;
     s \<leftarrow> consputc (of_char CHR ''x'') s;
     printptr_loop 16 x s
   }"

text \<open>A format that asks for more arguments than there are, or for one of another type, is \<open>None\<close>.\<close>

fun printf_loop :: "u8 list \<Rightarrow> va_arg list \<Rightarrow> kstate \<Rightarrow> kstate option" where
  "printf_loop [] ap s = Some s"
| "printf_loop (c # fmt) ap s =
     (if c \<noteq> of_char CHR ''%'' then do { s \<leftarrow> consputc (uint c) s; printf_loop fmt ap s }
      else case fmt of
        [] \<Rightarrow> Some s
      | c # fmt \<Rightarrow>
          if c = of_char CHR ''d'' then
            (case ap of AInt x # ap \<Rightarrow> do { s \<leftarrow> printint x 10 True s; printf_loop fmt ap s } | _ \<Rightarrow> None)
          else if c = of_char CHR ''x'' then
            (case ap of AInt x # ap \<Rightarrow> do { s \<leftarrow> printint x 16 True s; printf_loop fmt ap s } | _ \<Rightarrow> None)
          else if c = of_char CHR ''p'' then
            (case ap of APtr x # ap \<Rightarrow> do { s \<leftarrow> printptr x s; printf_loop fmt ap s } | _ \<Rightarrow> None)
          else if c = of_char CHR ''s'' then
            (case ap of
               AStr x # ap \<Rightarrow> do {
                 s \<leftarrow> consputs (case x of None \<Rightarrow> bytes_of ''(null)'' | Some str \<Rightarrow> str) s;
                 printf_loop fmt ap s }
             | _ \<Rightarrow> None)
          else if c = of_char CHR ''%'' then do { s \<leftarrow> consputc (uint c) s; printf_loop fmt ap s }
          else do {
            s \<leftarrow> consputc (of_char CHR ''%'') s;
            s \<leftarrow> consputc (uint c) s;
            printf_loop fmt ap s })"

definition printf :: "u8 list \<Rightarrow> va_arg list \<Rightarrow> kstate \<Rightarrow> kstate option" where
  "printf fmt ap s = do {
     let locking = pr_locking s;
     s \<leftarrow> (if locking then acq PrLock s else Some s);
     s \<leftarrow> printf_loop fmt ap s;
     if locking then rel PrLock s else Some s
   }"

text \<open>What \<open>panic\<close> does before it spins for ever.\<close>

definition panic_print :: "u8 list \<Rightarrow> kstate \<Rightarrow> kstate option" where
  "panic_print msg s = do {
     let s = s\<lparr>pr_locking := False\<rparr>;
     s \<leftarrow> printf (bytes_of ''panic: '') [] s;
     s \<leftarrow> printf msg [] s;
     s \<leftarrow> printf [10] [] s;
     Some (s\<lparr>panicked := True\<rparr>)
   }"

definition printfinit :: "kstate \<Rightarrow> kstate" where
  "printfinit s = s\<lparr>lk := initlock PrLock (lk s), pr_locking := True\<rparr>"

section \<open>Process listing (proc.c)\<close>

definition procdump_state :: "procstate \<Rightarrow> u8 list" where
  "procdump_state st = bytes_of (case st of UNUSED \<Rightarrow> ''unused'' | USED \<Rightarrow> ''used'' | SLEEPING \<Rightarrow> ''sleep ''
     | RUNNABLE \<Rightarrow> ''runble'' | RUNNING \<Rightarrow> ''run   '' | ZOMBIE \<Rightarrow> ''zombie'')"

fun procdump_loop :: "proc list \<Rightarrow> kstate \<Rightarrow> kstate option" where
  "procdump_loop [] s = Some s"
| "procdump_loop (p # ps) s =
     (if p_state p = UNUSED then procdump_loop ps s
      else do {
        s \<leftarrow> printf (bytes_of ''%d %s %s'') [AInt (word_of_int (p_pid p)), AStr (Some (procdump_state (p_state p))),
               AStr (Some (p_name p))] s;
        s \<leftarrow> printf [10] [] s;
        procdump_loop ps s
      })"

definition procdump :: "kstate \<Rightarrow> kstate option" where
  "procdump s = do { s \<leftarrow> printf [10] [] s; procdump_loop (procs s) s }"

section \<open>Console input\<close>

definition upd_cons :: "(cons \<Rightarrow> cons) \<Rightarrow> kstate \<Rightarrow> kstate" where
  "upd_cons f s = s\<lparr>cons := f (cons s)\<rparr>"

text \<open>The loop of control-U.\<close>

partial_function (option) kill_line :: "kstate \<Rightarrow> kstate option" where
  "kill_line s =
     (if cons_e (cons s) \<noteq> cons_w (cons s) \<and>
         cons_buf (cons s) (unat ((cons_e (cons s) - 1) mod INPUT_BUF_SIZE)) \<noteq> 10
      then do {
        let s = upd_cons (\<lambda>c. c\<lparr>cons_e := cons_e c - 1\<rparr>) s;
        s \<leftarrow> consputc BACKSPACE s;
        kill_line s
      } else Some s)"

definition consoleintr :: "int \<Rightarrow> kstate \<Rightarrow> kstate option" where
  "consoleintr c s = do {
     s \<leftarrow> acq ConsLock s;
     s \<leftarrow>
       (if c = 16 then procdump s
        else if c = 21 then kill_line s
        else if c = 8 \<or> c = 0x7f then
          (if cons_e (cons s) \<noteq> cons_w (cons s)
           then consputc BACKSPACE (upd_cons (\<lambda>c. c\<lparr>cons_e := cons_e c - 1\<rparr>) s)
           else Some s)
        else if c \<noteq> 0 \<and> cons_e (cons s) - cons_r (cons s) < INPUT_BUF_SIZE then do {
          let c = (if c = 13 then 10 else c);
          s \<leftarrow> consputc c s;
          let s = upd_cons (\<lambda>k. k\<lparr>cons_buf := (cons_buf k)(unat (cons_e k mod INPUT_BUF_SIZE) := word_of_int c),
                    cons_e := cons_e k + 1\<rparr>) s;
          if c = 10 \<or> c = 4 \<or> cons_e (cons s) - cons_r (cons s) = INPUT_BUF_SIZE
          then wakeup ChanConsR (upd_cons (\<lambda>k. k\<lparr>cons_w := cons_e k\<rparr>) s)
          else Some s
        } else Some s);
     rel ConsLock s
   }"

partial_function (option) uartintr_loop :: "kstate \<Rightarrow> kstate option" where
  "uartintr_loop s =
     (let (c, s) = uartgetc s in
      if c = -1 then Some s else do { s \<leftarrow> consoleintr c s; uartintr_loop s })"

definition uartintr :: "kstate \<Rightarrow> kstate option" where
  "uartintr s = do {
     s \<leftarrow> uartintr_loop s;
     s \<leftarrow> acq UartLock s;
     s \<leftarrow> uartstart s;
     rel UartLock s
   }"

text \<open>\<open>consoleread\<close> with the lock held, \<open>n\<close> of \<open>target\<close> bytes still wanted.\<close>

definition consoleread_done :: "nat \<Rightarrow> nat \<Rightarrow> kstate \<Rightarrow> ('v, int) outcome option" where
  "consoleread_done target n s = do { s \<leftarrow> rel ConsLock s; Some (Returned (int target - int n) s) }"

fun consoleread_loop :: "bool \<Rightarrow> nat \<Rightarrow> u64 \<Rightarrow> nat \<Rightarrow> kstate \<Rightarrow> (u64 \<times> nat, int) outcome option" where
  "consoleread_loop user_dst target dst 0 s = consoleread_done target 0 s"
| "consoleread_loop user_dst target dst (Suc n) s =
     (if cons_r (cons s) = cons_w (cons s) then
        (case myproc s of
           None \<Rightarrow> None
         | Some i \<Rightarrow> do {
             (k, s) \<leftarrow> killed i s;
             if k \<noteq> 0 then do { s \<leftarrow> rel ConsLock s; Some (Returned (-1) s) }
             else do { s \<leftarrow> sleep ChanConsR ConsLock s; Some (Asleep (dst, Suc n) s) }
           })
      else do {
        let c = cons_buf (cons s) (unat (cons_r (cons s) mod INPUT_BUF_SIZE));
        let s = upd_cons (\<lambda>k. k\<lparr>cons_r := cons_r k + 1\<rparr>) s;
        if c = 4 then
          consoleread_done target (Suc n)
            (if Suc n < target then upd_cons (\<lambda>k. k\<lparr>cons_r := cons_r k - 1\<rparr>) s else s)
        else do {
          (r, s) \<leftarrow> either_copyout user_dst dst [c] s;
          if r = -1 then consoleread_done target (Suc n) s
          else if c = 10 then consoleread_done target n s
          else consoleread_loop user_dst target (dst + 1) n s
        }
      })"

definition consoleread :: "bool \<Rightarrow> u64 \<Rightarrow> int \<Rightarrow> kstate \<Rightarrow> (u64 \<times> nat, int) outcome option" where
  "consoleread user_dst dst n s = do {
     s \<leftarrow> acq ConsLock s;
     consoleread_loop user_dst (nat n) dst (nat n) s
   }"

definition consoleread_resumed ::
  "bool \<Rightarrow> int \<Rightarrow> u64 \<times> nat \<Rightarrow> kstate \<Rightarrow> (u64 \<times> nat, int) outcome option"
where
  "consoleread_resumed user_dst n v s = do {
     s \<leftarrow> sleep_resumed ConsLock s;
     consoleread_loop user_dst (nat n) (fst v) (snd v) s
   }"

definition consoleinit :: "kstate \<Rightarrow> kstate" where
  "consoleinit s =
     (let s = s\<lparr>lk := initlock ConsLock (lk s)\<rparr>;
          s = uartinit s
      in s\<lparr>dev_console := True\<rparr>)"

end
