(* ===== verification/Fs.thy ===== *)
theory Fs
  imports Log Console
begin

text \<open>
  \<^verbatim>\<open>kernel/fs.c\<close>: blocks, inodes, directories and path names, on the log and the buffer cache. A
  pointer to an entry of the inode table is its index, a null pointer of a result is \<open>None\<close>. Strings
  are byte lists without their terminator.

  A buffer that a call reads into or writes from is user memory, kernel memory by physical address, or a
  local variable of the caller, whose bytes are passed and returned as lists.
\<close>

section \<open>Layout (fs.h)\<close>

definition FSMAGIC :: u32 where "FSMAGIC = 0x10203040"
definition NDIRECT :: nat where "NDIRECT = 12"
definition NINDIRECT :: nat where "NINDIRECT = 256"
definition MAXFILE :: u32 where "MAXFILE = 268"
definition IPB :: u32 where "IPB = 16"
definition BPB :: u32 where "BPB = 8192"
definition DIRSIZ :: nat where "DIRSIZ = 14"
definition T_DIR :: u16 where "T_DIR = 1"
definition T_FILE :: u16 where "T_FILE = 2"
definition T_DEVICE :: u16 where "T_DEVICE = 3"

definition IBLOCK :: "u32 \<Rightarrow> superblock \<Rightarrow> u32" where
  "IBLOCK i sblk = i div IPB + sb_inodestart sblk"

definition BBLOCK :: "u32 \<Rightarrow> superblock \<Rightarrow> u32" where
  "BBLOCK b sblk = b div BPB + sb_bmapstart sblk"

definition ld16 :: "block \<Rightarrow> nat \<Rightarrow> u16" where
  "ld16 d i = ucast (d i) OR push_bit 8 (ucast (d (i + 1)))"

definition st16 :: "block \<Rightarrow> nat \<Rightarrow> u16 \<Rightarrow> block" where
  "st16 d i v = d(i := ucast v, i + 1 := ucast (drop_bit 8 v))"

definition block_bytes :: "block \<Rightarrow> nat \<Rightarrow> nat \<Rightarrow> u8 list" where
  "block_bytes d i n = map d [i..<i + n]"

definition put_block :: "block \<Rightarrow> nat \<Rightarrow> u8 list \<Rightarrow> block" where
  "put_block d i bs = (\<lambda>j. if i \<le> j \<and> j < i + length bs then bs ! (j - i) else d j)"

text \<open>The inode at byte offset \<open>i\<close> of a block.\<close>

record dinode =
  di_type :: u16
  di_major :: u16
  di_minor :: u16
  di_nlink :: u16
  di_size :: u32
  di_addrs :: "u32 list"

definition get_dinode :: "block \<Rightarrow> nat \<Rightarrow> dinode" where
  "get_dinode d i = \<lparr>di_type = ld16 d i, di_major = ld16 d (i + 2), di_minor = ld16 d (i + 4),
     di_nlink = ld16 d (i + 6), di_size = ld32 d (i + 8),
     di_addrs = map (\<lambda>k. ld32 d (i + 12 + 4 * k)) [0..<NDIRECT + 1]\<rparr>"

definition put_dinode :: "dinode \<Rightarrow> block \<Rightarrow> nat \<Rightarrow> block" where
  "put_dinode x d i =
     (let d = st16 d i (di_type x);
          d = st16 d (i + 2) (di_major x);
          d = st16 d (i + 4) (di_minor x);
          d = st16 d (i + 6) (di_nlink x);
          d = st32 d (i + 8) (di_size x)
      in fold (\<lambda>k d. st32 d (i + 12 + 4 * k) (di_addrs x ! k)) [0..<NDIRECT + 1] d)"

definition dinode_off :: "u32 \<Rightarrow> nat" where
  "dinode_off inum = unat (inum mod IPB) * 64"

section \<open>Superblock and blocks\<close>

definition readsb :: "u32 \<Rightarrow> kstate \<Rightarrow> kstate option" where
  "readsb dev s = do {
     (bp, s) \<leftarrow> bread dev 1 s;
     let d = b_data (bufs s bp);
     let s = s\<lparr>sb := \<lparr>sb_magic = ld32 d 0, sb_size = ld32 d 4, sb_nblocks = ld32 d 8, sb_ninodes = ld32 d 12,
       sb_nlog = ld32 d 16, sb_logstart = ld32 d 20, sb_inodestart = ld32 d 24, sb_bmapstart = ld32 d 28\<rparr>\<rparr>;
     brelse bp s
   }"

definition fsinit :: "u32 \<Rightarrow> kstate \<Rightarrow> kstate option" where
  "fsinit dev s = do {
     s \<leftarrow> readsb dev s;
     if sb_magic (sb s) \<noteq> FSMAGIC then panic ''invalid file system''
     else initlog dev (sb s) s
   }"

definition set_block :: "nat \<Rightarrow> (block \<Rightarrow> block) \<Rightarrow> kstate \<Rightarrow> kstate" where
  "set_block bp f s = upd_buf bp (\<lambda>x. x\<lparr>b_data := f (b_data x)\<rparr>) s"

definition bzero :: "u32 \<Rightarrow> u32 \<Rightarrow> kstate \<Rightarrow> kstate option" where
  "bzero dev bno s = do {
     (bp, s) \<leftarrow> bread dev bno s;
     let s = set_block bp (\<lambda>d i. if i < BSIZE then 0 else d i) s;
     s \<leftarrow> log_write bp s;
     brelse bp s
   }"

text \<open>The inner loop of \<open>balloc\<close>: the first free bit of a bitmap block, below the size of the file system.\<close>

fun balloc_scan :: "block \<Rightarrow> u32 \<Rightarrow> u32 \<Rightarrow> nat list \<Rightarrow> nat option" where
  "balloc_scan d sz b [] = None"
| "balloc_scan d sz b (bi # bis) =
     (if b + of_nat bi < sz then
        let m = push_bit (bi mod 8) 1 in
        if d (bi div 8) AND m = 0 then Some bi else balloc_scan d sz b bis
      else None)"

text \<open>
  The outer loop. Its counter is a C int that starts at 0: the addition that would exceed the largest int is
  undefined and \<open>None\<close> here, so the counter is never negative, and comparing it with the unsigned size
  and dividing it by \<open>BPB\<close> are the operations on words.
\<close>

definition INT_MAX :: u32 where "INT_MAX = 0x7FFFFFFF"

partial_function (option) balloc_from :: "u32 \<Rightarrow> u32 \<Rightarrow> kstate \<Rightarrow> (u32 \<times> kstate) option" where
  "balloc_from dev b s =
     (if b < sb_size (sb s) then do {
        (bp, s) \<leftarrow> bread dev (BBLOCK b (sb s)) s;
        case balloc_scan (b_data (bufs s bp)) (sb_size (sb s)) b [0..<unat BPB] of
          Some bi \<Rightarrow> do {
            let m = push_bit (bi mod 8) 1;
            let s = set_block bp (\<lambda>d. d(bi div 8 := d (bi div 8) OR m)) s;
            s \<leftarrow> log_write bp s;
            s \<leftarrow> brelse bp s;
            s \<leftarrow> bzero dev (b + of_nat bi) s;
            Some (b + of_nat bi, s)
          }
        | None \<Rightarrow> do {
            s \<leftarrow> brelse bp s;
            if INT_MAX - BPB < b then None else balloc_from dev (b + BPB) s
          }
      } else do {
        s \<leftarrow> printf (bytes_of ''balloc: out of blocks'' @ [10]) [] s;
        Some (0, s)
      })"

definition balloc :: "u32 \<Rightarrow> kstate \<Rightarrow> (u32 \<times> kstate) option" where
  "balloc dev s = balloc_from dev 0 s"

definition bfree :: "u32 \<Rightarrow> u32 \<Rightarrow> kstate \<Rightarrow> kstate option" where
  "bfree dev b s = do {
     (bp, s) \<leftarrow> bread dev (BBLOCK b (sb s)) s;
     let bi = unat (b mod BPB);
     let m = push_bit (bi mod 8) 1;
     if b_data (bufs s bp) (bi div 8) AND m = 0 then panic ''freeing free block''
     else do {
       let s = set_block bp (\<lambda>d. d(bi div 8 := d (bi div 8) AND NOT m)) s;
       s \<leftarrow> log_write bp s;
       brelse bp s
     }
   }"

section \<open>The inode table\<close>

definition upd_inode :: "nat \<Rightarrow> (inode \<Rightarrow> inode) \<Rightarrow> kstate \<Rightarrow> kstate" where
  "upd_inode ip f s = s\<lparr>itable := (itable s)[ip := f (itable s ! ip)]\<rparr>"

definition acquiresleep_inode :: "nat \<Rightarrow> kstate \<Rightarrow> kstate option" where
  "acquiresleep_inode i = acquiresleep (InodeLock i) (\<lambda>s. i_lock (itable s ! i)) (\<lambda>l. upd_inode i (\<lambda>x. x\<lparr>i_lock := l\<rparr>))"

definition releasesleep_inode :: "nat \<Rightarrow> kstate \<Rightarrow> kstate option" where
  "releasesleep_inode i = releasesleep (InodeLock i) (ChanInode i) (\<lambda>l. upd_inode i (\<lambda>x. x\<lparr>i_lock := l\<rparr>))"

definition holdingsleep_inode :: "nat \<Rightarrow> kstate \<Rightarrow> (bool \<times> kstate) option" where
  "holdingsleep_inode i = holdingsleep (InodeLock i) (\<lambda>s. i_lock (itable s ! i))"

definition iinit :: "kstate \<Rightarrow> kstate" where
  "iinit s =
     (let s = s\<lparr>lk := initlock ItableLock (lk s)\<rparr>
      in fold (\<lambda>i s. upd_inode i (\<lambda>x. x\<lparr>i_lock := \<lparr>sl_locked = False, sl_pid = 0\<rparr>\<rparr>)
           (s\<lparr>lk := initlock (InodeLock i) (lk s)\<rparr>)) [0..<NINODE] s)"

text \<open>
  The scan of \<open>iget\<close> from entry \<open>i\<close> on: the entry that holds the inode, and the first empty one before
  it.
\<close>

fun iget_scan :: "u32 \<Rightarrow> u32 \<Rightarrow> inode list \<Rightarrow> nat \<Rightarrow> nat option \<Rightarrow> nat option \<times> nat option" where
  "iget_scan dev inum [] i free = (None, free)"
| "iget_scan dev inum (ip # ips) i free =
     (if i_ref ip > 0 \<and> i_dev ip = dev \<and> i_inum ip = inum then (Some i, free)
      else iget_scan dev inum ips (i + 1) (if free = None \<and> i_ref ip = 0 then Some i else free))"

definition iget :: "u32 \<Rightarrow> u32 \<Rightarrow> kstate \<Rightarrow> (nat \<times> kstate) option" where
  "iget dev inum s = do {
     s \<leftarrow> acq ItableLock s;
     case iget_scan dev inum (itable s) 0 None of
       (Some ip, _) \<Rightarrow> do {
         let s = upd_inode ip (\<lambda>x. x\<lparr>i_ref := i_ref x + 1\<rparr>) s;
         s \<leftarrow> rel ItableLock s;
         Some (ip, s)
       }
     | (None, None) \<Rightarrow> panic ''iget: no inodes''
     | (None, Some ip) \<Rightarrow> do {
         let s = upd_inode ip (\<lambda>x. x\<lparr>i_dev := dev, i_inum := inum, i_ref := 1, i_valid := False\<rparr>) s;
         s \<leftarrow> rel ItableLock s;
         Some (ip, s)
       }
   }"

text \<open>The loop of \<open>ialloc\<close>; its counter is a C int, too.\<close>

partial_function (option) ialloc_from :: "u32 \<Rightarrow> u16 \<Rightarrow> u32 \<Rightarrow> kstate \<Rightarrow> (nat option \<times> kstate) option" where
  "ialloc_from dev ty inum s =
     (if inum < sb_ninodes (sb s) then do {
        (bp, s) \<leftarrow> bread dev (IBLOCK inum (sb s)) s;
        if ld16 (b_data (bufs s bp)) (dinode_off inum) = 0 then do {
          let s = set_block bp (\<lambda>d. st16 (put_block d (dinode_off inum) (replicate 64 0)) (dinode_off inum) ty) s;
          s \<leftarrow> log_write bp s;
          s \<leftarrow> brelse bp s;
          (ip, s) \<leftarrow> iget dev inum s;
          Some (Some ip, s)
        } else do {
          s \<leftarrow> brelse bp s;
          if inum = INT_MAX then None else ialloc_from dev ty (inum + 1) s
        }
      } else do {
        s \<leftarrow> printf (bytes_of ''ialloc: no inodes'' @ [10]) [] s;
        Some (None, s)
      })"

definition ialloc :: "u32 \<Rightarrow> u16 \<Rightarrow> kstate \<Rightarrow> (nat option \<times> kstate) option" where
  "ialloc dev ty s = ialloc_from dev ty 1 s"

definition dinode_of :: "inode \<Rightarrow> dinode" where
  "dinode_of x = \<lparr>di_type = i_type x, di_major = i_major x, di_minor = i_minor x, di_nlink = i_nlink x,
     di_size = i_size x, di_addrs = i_addrs x\<rparr>"

definition iupdate :: "nat \<Rightarrow> kstate \<Rightarrow> kstate option" where
  "iupdate ip s = do {
     let x = itable s ! ip;
     (bp, s) \<leftarrow> bread (i_dev x) (IBLOCK (i_inum x) (sb s)) s;
     let s = set_block bp (\<lambda>d. put_dinode (dinode_of x) d (dinode_off (i_inum x))) s;
     s \<leftarrow> log_write bp s;
     brelse bp s
   }"

definition idup :: "nat \<Rightarrow> kstate \<Rightarrow> (nat \<times> kstate) option" where
  "idup ip s = do {
     s \<leftarrow> acq ItableLock s;
     let s = upd_inode ip (\<lambda>x. x\<lparr>i_ref := i_ref x + 1\<rparr>) s;
     s \<leftarrow> rel ItableLock s;
     Some (ip, s)
   }"

definition load_dinode :: "dinode \<Rightarrow> inode \<Rightarrow> inode" where
  "load_dinode d x = x\<lparr>i_type := di_type d, i_major := di_major d, i_minor := di_minor d, i_nlink := di_nlink d,
     i_size := di_size d, i_addrs := di_addrs d\<rparr>"

definition ilock :: "nat \<Rightarrow> kstate \<Rightarrow> kstate option" where
  "ilock ip s =
     (if i_ref (itable s ! ip) < 1 then panic ''ilock''
      else do {
        s \<leftarrow> acquiresleep_inode ip s;
        if \<not> i_valid (itable s ! ip) then do {
          let x = itable s ! ip;
          (bp, s) \<leftarrow> bread (i_dev x) (IBLOCK (i_inum x) (sb s)) s;
          let d = get_dinode (b_data (bufs s bp)) (dinode_off (i_inum x));
          let s = upd_inode ip (load_dinode d) s;
          s \<leftarrow> brelse bp s;
          let s = upd_inode ip (\<lambda>x. x\<lparr>i_valid := True\<rparr>) s;
          if i_type (itable s ! ip) = 0 then panic ''ilock: no type'' else Some s
        } else Some s
      })"

definition iunlock :: "nat \<Rightarrow> kstate \<Rightarrow> kstate option" where
  "iunlock ip s = do {
     (h, s) \<leftarrow> holdingsleep_inode ip s;
     if \<not> h \<or> i_ref (itable s ! ip) < 1 then panic ''iunlock'' else releasesleep_inode ip s
   }"

section \<open>Contents of an inode\<close>

text \<open>\<open>a[bn]\<close> of the indirect block is the 32-bit integer at byte \<open>4 * bn\<close>.\<close>

definition bmap_direct :: "nat \<Rightarrow> nat \<Rightarrow> kstate \<Rightarrow> (u32 \<times> kstate) option" where
  "bmap_direct ip k s =
     (let addr = i_addrs (itable s ! ip) ! k in
      if addr = 0 then do {
        (addr, s) \<leftarrow> balloc (i_dev (itable s ! ip)) s;
        if addr = 0 then Some (0, s)
        else Some (addr, upd_inode ip (\<lambda>x. x\<lparr>i_addrs := (i_addrs x)[k := addr]\<rparr>) s)
      } else Some (addr, s))"

definition bmap :: "nat \<Rightarrow> u32 \<Rightarrow> kstate \<Rightarrow> (u32 \<times> kstate) option" where
  "bmap ip bn s =
     (if bn < of_nat NDIRECT then bmap_direct ip (unat bn) s
      else let bn = bn - of_nat NDIRECT in
      if bn < of_nat NINDIRECT then do {
        (addr, s) \<leftarrow> bmap_direct ip NDIRECT s;
        if addr = 0 then Some (0, s)
        else do {
          (bp, s) \<leftarrow> bread (i_dev (itable s ! ip)) addr s;
          let addr = ld32 (b_data (bufs s bp)) (4 * unat bn);
          (addr, s) \<leftarrow>
            (if addr = 0 then do {
               (addr, s) \<leftarrow> balloc (i_dev (itable s ! ip)) s;
               if addr \<noteq> 0 then do {
                 let s = set_block bp (\<lambda>d. st32 d (4 * unat bn) addr) s;
                 s \<leftarrow> log_write bp s;
                 Some (addr, s)
               } else Some (addr, s)
             } else Some (addr, s));
          s \<leftarrow> brelse bp s;
          Some (addr, s)
        }
      } else panic ''bmap: out of range'')"

fun itrunc_direct :: "nat \<Rightarrow> nat list \<Rightarrow> kstate \<Rightarrow> kstate option" where
  "itrunc_direct ip [] s = Some s"
| "itrunc_direct ip (i # is) s =
     (if i_addrs (itable s ! ip) ! i \<noteq> 0 then do {
        s \<leftarrow> bfree (i_dev (itable s ! ip)) (i_addrs (itable s ! ip) ! i) s;
        let s = upd_inode ip (\<lambda>x. x\<lparr>i_addrs := (i_addrs x)[i := 0]\<rparr>) s;
        itrunc_direct ip is s
      } else itrunc_direct ip is s)"

fun itrunc_indirect :: "u32 \<Rightarrow> nat \<Rightarrow> nat list \<Rightarrow> kstate \<Rightarrow> kstate option" where
  "itrunc_indirect dev bp [] s = Some s"
| "itrunc_indirect dev bp (j # js) s =
     (if ld32 (b_data (bufs s bp)) (4 * j) \<noteq> 0 then do {
        s \<leftarrow> bfree dev (ld32 (b_data (bufs s bp)) (4 * j)) s;
        itrunc_indirect dev bp js s
      } else itrunc_indirect dev bp js s)"

definition itrunc :: "nat \<Rightarrow> kstate \<Rightarrow> kstate option" where
  "itrunc ip s = do {
     s \<leftarrow> itrunc_direct ip [0..<NDIRECT] s;
     s \<leftarrow> (if i_addrs (itable s ! ip) ! NDIRECT \<noteq> 0 then do {
              let x = itable s ! ip;
              (bp, s) \<leftarrow> bread (i_dev x) (i_addrs x ! NDIRECT) s;
              s \<leftarrow> itrunc_indirect (i_dev x) bp [0..<NINDIRECT] s;
              s \<leftarrow> brelse bp s;
              s \<leftarrow> bfree (i_dev x) (i_addrs x ! NDIRECT) s;
              Some (upd_inode ip (\<lambda>x. x\<lparr>i_addrs := (i_addrs x)[NDIRECT := 0]\<rparr>) s)
            } else Some s);
     let s = upd_inode ip (\<lambda>x. x\<lparr>i_size := 0\<rparr>) s;
     iupdate ip s
   }"

definition iput :: "nat \<Rightarrow> kstate \<Rightarrow> kstate option" where
  "iput ip s = do {
     s \<leftarrow> acq ItableLock s;
     let x = itable s ! ip;
     s \<leftarrow> (if i_ref x = 1 \<and> i_valid x \<and> i_nlink x = 0 then do {
              s \<leftarrow> acquiresleep_inode ip s;
              s \<leftarrow> rel ItableLock s;
              s \<leftarrow> itrunc ip s;
              let s = upd_inode ip (\<lambda>x. x\<lparr>i_type := 0\<rparr>) s;
              s \<leftarrow> iupdate ip s;
              let s = upd_inode ip (\<lambda>x. x\<lparr>i_valid := False\<rparr>) s;
              s \<leftarrow> releasesleep_inode ip s;
              acq ItableLock s
            } else Some s);
     let s = upd_inode ip (\<lambda>x. x\<lparr>i_ref := i_ref x - 1\<rparr>) s;
     rel ItableLock s
   }"

definition iunlockput :: "nat \<Rightarrow> kstate \<Rightarrow> kstate option" where
  "iunlockput ip s = do { s \<leftarrow> iunlock ip s; iput ip s }"

record stat =
  st_dev :: u32
  st_ino :: u32
  st_type :: u16
  st_nlink :: u16
  st_size :: u64

definition stati :: "nat \<Rightarrow> kstate \<Rightarrow> stat" where
  "stati ip s = (let x = itable s ! ip in
     \<lparr>st_dev = i_dev x, st_ino = i_inum x, st_type = i_type x, st_nlink = i_nlink x, st_size = ucast (i_size x)\<rparr>)"

datatype dst = DUser u64 | DKernel u64 | DLocal

fun dst_copy :: "dst \<Rightarrow> u8 list \<Rightarrow> kstate \<Rightarrow> (int \<times> kstate) option" where
  "dst_copy (DUser a) bs s = either_copyout True a bs s"
| "dst_copy (DKernel a) bs s = either_copyout False a bs s"
| "dst_copy DLocal bs s = Some (0, s)"

fun dst_add :: "dst \<Rightarrow> u32 \<Rightarrow> dst" where
  "dst_add (DUser a) m = DUser (a + ucast m)"
| "dst_add (DKernel a) m = DKernel (a + ucast m)"
| "dst_add DLocal m = DLocal"

text \<open>The bytes of one round: the rest of the request or the rest of the block.\<close>

definition chunk :: "u32 \<Rightarrow> u32 \<Rightarrow> u32 \<Rightarrow> u32" where
  "chunk n tot off = min (n - tot) (of_nat BSIZE - off mod of_nat BSIZE)"

lemma chunk_decr:
  assumes "tot < n"
  shows "unat (n - (tot + chunk n tot off)) < unat (n - tot)"
proof -
  let ?m = "chunk n tot off"
  have "off mod of_nat BSIZE < of_nat BSIZE" by (simp add: BSIZE_def word_less_nat_alt unat_mod)
  then have "0 < of_nat BSIZE - off mod of_nat BSIZE" by (simp add: word_less_nat_alt unat_sub less_imp_le)
  moreover have "0 < n - tot" using assms by (simp add: word_less_nat_alt unat_sub less_imp_le)
  ultimately have p: "0 < ?m" and le: "?m \<le> n - tot" by (auto simp: chunk_def min_def)
  have "unat (n - tot - ?m) = unat (n - tot) - unat ?m" using le by (rule unat_sub)
  moreover have "0 < unat ?m" "unat ?m \<le> unat (n - tot)" using p le by (simp_all add: word_less_nat_alt word_le_nat_alt)
  ultimately show ?thesis by (simp add: diff_diff_eq)
qed

function readi_loop ::
  "nat \<Rightarrow> dst \<Rightarrow> u32 \<Rightarrow> u32 \<Rightarrow> u32 \<Rightarrow> u8 list \<Rightarrow> kstate \<Rightarrow> (int \<times> u8 list \<times> kstate) option"
where
  "readi_loop ip d off n tot got s =
     (if tot < n then do {
        (addr, s) \<leftarrow> bmap ip (off div of_nat BSIZE) s;
        if addr = 0 then Some (sint tot, got, s)
        else do {
          (bp, s) \<leftarrow> bread (i_dev (itable s ! ip)) addr s;
          let m = chunk n tot off;
          let bs = block_bytes (b_data (bufs s bp)) (unat (off mod of_nat BSIZE)) (unat m);
          (r, s) \<leftarrow> dst_copy d bs s;
          if r = -1 then do { s \<leftarrow> brelse bp s; Some (-1, got, s) }
          else do {
            s \<leftarrow> brelse bp s;
            readi_loop ip (dst_add d (chunk n tot off)) (off + chunk n tot off) n (tot + chunk n tot off) (got @ bs) s
          }
        }
      } else Some (sint tot, got, s))"
  by pat_completeness auto
termination
  by (relation "measure (\<lambda>(ip, d, off, n, tot, got, s). unat (n - tot))") (auto intro: chunk_decr)

declare readi_loop.simps [simp del]

definition readi :: "nat \<Rightarrow> dst \<Rightarrow> u32 \<Rightarrow> u32 \<Rightarrow> kstate \<Rightarrow> (int \<times> u8 list \<times> kstate) option" where
  "readi ip d off n s =
     (let sz = i_size (itable s ! ip) in
      if off > sz \<or> off + n < off then Some (0, [], s)
      else readi_loop ip d off (if off + n > sz then sz - off else n) 0 [] s)"

datatype src = SUser u64 | SLocal "u8 list"

fun src_copy :: "src \<Rightarrow> u32 \<Rightarrow> kstate \<Rightarrow> (int \<times> u8 list) option" where
  "src_copy (SUser a) m s = either_copyin True a (ucast m) s"
| "src_copy (SLocal bs) m s = Some (0, take (unat m) bs)"

fun src_add :: "src \<Rightarrow> u32 \<Rightarrow> src" where
  "src_add (SUser a) m = SUser (a + ucast m)"
| "src_add (SLocal bs) m = SLocal (drop (unat m) bs)"

text \<open>The result is the number of bytes written and the offset reached.\<close>

function writei_loop :: "nat \<Rightarrow> src \<Rightarrow> u32 \<Rightarrow> u32 \<Rightarrow> u32 \<Rightarrow> kstate \<Rightarrow> (u32 \<times> u32 \<times> kstate) option" where
  "writei_loop ip d off n tot s =
     (if tot < n then do {
        (addr, s) \<leftarrow> bmap ip (off div of_nat BSIZE) s;
        if addr = 0 then Some (tot, off, s)
        else do {
          (bp, s) \<leftarrow> bread (i_dev (itable s ! ip)) addr s;
          (r, bs) \<leftarrow> src_copy d (chunk n tot off) s;
          let s = set_block bp (\<lambda>x. put_block x (unat (off mod of_nat BSIZE)) bs) s;
          if r = -1 then do { s \<leftarrow> brelse bp s; Some (tot, off, s) }
          else do {
            s \<leftarrow> log_write bp s;
            s \<leftarrow> brelse bp s;
            writei_loop ip (src_add d (chunk n tot off)) (off + chunk n tot off) n (tot + chunk n tot off) s
          }
        }
      } else Some (tot, off, s))"
  by pat_completeness auto
termination
  by (relation "measure (\<lambda>(ip, d, off, n, tot, s). unat (n - tot))") (auto intro: chunk_decr)

declare writei_loop.simps [simp del]

definition writei :: "nat \<Rightarrow> src \<Rightarrow> u32 \<Rightarrow> u32 \<Rightarrow> kstate \<Rightarrow> (int \<times> kstate) option" where
  "writei ip d off n s =
     (if off > i_size (itable s ! ip) \<or> off + n < off then Some (-1, s)
      else if off + n > MAXFILE * of_nat BSIZE then Some (-1, s)
      else do {
        (tot, off, s) \<leftarrow> writei_loop ip d off n 0 s;
        let s = (if off > i_size (itable s ! ip) then upd_inode ip (\<lambda>x. x\<lparr>i_size := off\<rparr>) s else s);
        s \<leftarrow> iupdate ip s;
        Some (sint tot, s)
      })"

section \<open>Directories\<close>

text \<open>\<open>strncmp\<close> and \<open>strncpy\<close> of \<^verbatim>\<open>string.c\<close> on strings that are not in the byte memory.\<close>

definition byte0 :: "u8 list \<Rightarrow> u8" where
  "byte0 p = (case p of [] \<Rightarrow> 0 | c # _ \<Rightarrow> c)"

fun strncmp_bytes :: "nat \<Rightarrow> u8 list \<Rightarrow> u8 list \<Rightarrow> int" where
  "strncmp_bytes 0 p q = 0"
| "strncmp_bytes (Suc n) p q =
     (if byte0 p \<noteq> 0 \<and> byte0 p = byte0 q then strncmp_bytes n (tl p) (tl q) else uint (byte0 p) - uint (byte0 q))"

fun strncpy_bytes :: "nat \<Rightarrow> u8 list \<Rightarrow> u8 list" where
  "strncpy_bytes 0 t = []"
| "strncpy_bytes (Suc n) t =
     (if byte0 t \<noteq> 0 then byte0 t # strncpy_bytes n (tl t) else replicate (Suc n) 0)"

definition namecmp :: "u8 list \<Rightarrow> u8 list \<Rightarrow> int" where
  "namecmp p q = strncmp_bytes DIRSIZ p q"

text \<open>A directory entry as the 16 bytes it is stored in.\<close>

definition de_inum :: "u8 list \<Rightarrow> u16" where
  "de_inum de = ucast (de ! 0) OR push_bit 8 (ucast (de ! 1))"

definition de_name :: "u8 list \<Rightarrow> u8 list" where
  "de_name de = drop 2 de"

definition dirent :: "u16 \<Rightarrow> u8 list \<Rightarrow> u8 list" where
  "dirent inum name = [ucast inum, ucast (drop_bit 8 inum)] @ name"

partial_function (option) dirlookup_from ::
  "nat \<Rightarrow> u8 list \<Rightarrow> u32 \<Rightarrow> kstate \<Rightarrow> ((nat \<times> u32) option \<times> kstate) option"
where
  "dirlookup_from dp name off s =
     (if off < i_size (itable s ! dp) then do {
        (r, de, s) \<leftarrow> readi dp DLocal off 16 s;
        if r \<noteq> 16 then panic ''dirlookup read''
        else if de_inum de = 0 then dirlookup_from dp name (off + 16) s
        else if namecmp name (de_name de) = 0 then do {
          (ip, s) \<leftarrow> iget (i_dev (itable s ! dp)) (ucast (de_inum de)) s;
          Some (Some (ip, off), s)
        }
        else dirlookup_from dp name (off + 16) s
      } else Some (None, s))"

text \<open>The inode and the offset of the entry.\<close>

definition dirlookup :: "nat \<Rightarrow> u8 list \<Rightarrow> kstate \<Rightarrow> ((nat \<times> u32) option \<times> kstate) option" where
  "dirlookup dp name s =
     (if i_type (itable s ! dp) \<noteq> T_DIR then panic ''dirlookup not DIR'' else dirlookup_from dp name 0 s)"

partial_function (option) dirlink_free :: "nat \<Rightarrow> u32 \<Rightarrow> kstate \<Rightarrow> (u32 \<times> kstate) option" where
  "dirlink_free dp off s =
     (if off < i_size (itable s ! dp) then do {
        (r, de, s) \<leftarrow> readi dp DLocal off 16 s;
        if r \<noteq> 16 then panic ''dirlink read''
        else if de_inum de = 0 then Some (off, s)
        else dirlink_free dp (off + 16) s
      } else Some (off, s))"

definition dirlink :: "nat \<Rightarrow> u8 list \<Rightarrow> u32 \<Rightarrow> kstate \<Rightarrow> (int \<times> kstate) option" where
  "dirlink dp name inum s = do {
     (found, s) \<leftarrow> dirlookup dp name s;
     case found of
       Some (ip, _) \<Rightarrow> do { s \<leftarrow> iput ip s; Some (-1, s) }
     | None \<Rightarrow> do {
         (off, s) \<leftarrow> dirlink_free dp 0 s;
         (r, s) \<leftarrow> writei dp (SLocal (dirent (ucast inum) (strncpy_bytes DIRSIZ name))) off 16 s;
         if r \<noteq> 16 then Some (-1, s) else Some (0, s)
       }
   }"

section \<open>Paths\<close>

text \<open>The rest of the path and the element; a name of more than 14 bytes is cut.\<close>

definition slash :: u8 where "slash = 47"

definition skipelem :: "u8 list \<Rightarrow> (u8 list \<times> u8 list) option" where
  "skipelem path =
     (let path = dropWhile (\<lambda>c. c = slash) path in
      if path = [] then None
      else
        let name = takeWhile (\<lambda>c. c \<noteq> slash) path;
            path = dropWhile (\<lambda>c. c \<noteq> slash) path
        in Some (dropWhile (\<lambda>c. c = slash) path, take DIRSIZ name))"

lemma skipelem_shorter:
  assumes "skipelem path = Some (rest, name)"
  shows "length rest < length path"
proof -
  obtain c cs where c: "dropWhile (\<lambda>c. c = slash) path = c # cs" "c \<noteq> slash"
    using assms unfolding skipelem_def Let_def by (metis (mono_tags, lifting) hd_dropWhile list.collapse option.discI)
  have "length rest \<le> length cs"
    using assms c length_dropWhile_le [of "\<lambda>c. c = slash" "dropWhile (\<lambda>c. c \<noteq> slash) cs"]
      length_dropWhile_le [of "\<lambda>c. c \<noteq> slash" cs]
    by (auto simp: skipelem_def Let_def)
  moreover have "length (c # cs) \<le> length path" unfolding c(1) [symmetric] by (rule length_dropWhile_le)
  ultimately show ?thesis by simp
qed

function namex_loop :: "nat \<Rightarrow> u8 list \<Rightarrow> bool \<Rightarrow> u8 list \<Rightarrow> kstate \<Rightarrow> (nat option \<times> u8 list \<times> kstate) option" where
  "namex_loop ip path nameiparent name s =
     (case skipelem path of
        None \<Rightarrow>
          if nameiparent then do { s \<leftarrow> iput ip s; Some (None, name, s) } else Some (Some ip, name, s)
      | Some (path', name) \<Rightarrow> do {
          s \<leftarrow> ilock ip s;
          if i_type (itable s ! ip) \<noteq> T_DIR then do { s \<leftarrow> iunlockput ip s; Some (None, name, s) }
          else if nameiparent \<and> path' = [] then do { s \<leftarrow> iunlock ip s; Some (Some ip, name, s) }
          else do {
            (found, s) \<leftarrow> dirlookup ip name s;
            case found of
              None \<Rightarrow> do { s \<leftarrow> iunlockput ip s; Some (None, name, s) }
            | Some (next, _) \<Rightarrow> do {
                s \<leftarrow> iunlockput ip s;
                namex_loop next path' nameiparent name s
              }
          }
        })"
  by pat_completeness auto
termination
  by (relation "measure (\<lambda>(ip, path, np, name, s). length path)") (auto intro: skipelem_shorter)

declare namex_loop.simps [simp del]

definition namex :: "u8 list \<Rightarrow> bool \<Rightarrow> kstate \<Rightarrow> (nat option \<times> u8 list \<times> kstate) option" where
  "namex path nameiparent s = do {
     (ip, s) \<leftarrow>
       (if path \<noteq> [] \<and> hd path = slash then iget ROOTDEV ROOTINO s
        else case myproc s of
          None \<Rightarrow> None
        | Some i \<Rightarrow> (case p_cwd (procs s ! i) of None \<Rightarrow> None | Some cwd \<Rightarrow> idup cwd s));
     namex_loop ip path nameiparent [] s
   }"

definition namei :: "u8 list \<Rightarrow> kstate \<Rightarrow> (nat option \<times> kstate) option" where
  "namei path s = do { (ip, _, s) \<leftarrow> namex path False s; Some (ip, s) }"

definition nameiparent :: "u8 list \<Rightarrow> kstate \<Rightarrow> (nat option \<times> u8 list \<times> kstate) option" where
  "nameiparent path s = namex path True s"

end
