(* ===== verification/Txn.thy ===== *)
theory Txn
  imports LogCrash Fs
begin

text \<open>
  Changing a block inside a transaction: the sequence \<open>bread\<close>, change, \<open>log_write\<close>, \<open>brelse\<close> that every
  operation of \<^verbatim>\<open>fs.c\<close> uses. Its effect is one block changed in what readers see, nothing changed on the
  disk, and the block among those that the commit (theory \<open>LogCrash\<close>) writes atomically.
\<close>

section \<open>log_write\<close>

lemma log_slot_cases:
  assumes "0 \<le> lg_n (klog s)"
  shows "bn \<in> set (txn_blocks s) \<Longrightarrow> log_slot bn (klog s) < nat (lg_n (klog s)) \<and> lg_block (klog s) (log_slot bn (klog s)) = bn"
    "bn \<notin> set (txn_blocks s) \<Longrightarrow> log_slot bn (klog s) = nat (lg_n (klog s))"
proof -
  let ?f = "find (\<lambda>i. lg_block (klog s) i = bn) [0..<nat (lg_n (klog s))]"
  show "log_slot bn (klog s) < nat (lg_n (klog s)) \<and> lg_block (klog s) (log_slot bn (klog s)) = bn"
    if "bn \<in> set (txn_blocks s)"
  proof (cases ?f)
    case None
    then show ?thesis using that by (auto simp: txn_blocks_def find_None_iff)
  next
    case (Some i)
    then have "i < nat (lg_n (klog s)) \<and> lg_block (klog s) i = bn" by (auto simp: find_Some_iff)
    then show ?thesis using Some by (simp add: log_slot_def)
  qed
  show "log_slot bn (klog s) = nat (lg_n (klog s))" if "bn \<notin> set (txn_blocks s)"
  proof -
    have "?f = None" using that by (auto simp: txn_blocks_def find_None_iff)
    then show ?thesis by (simp add: log_slot_def)
  qed
qed

definition log_room :: "kstate \<Rightarrow> bool" where
  "log_room s \<longleftrightarrow> 0 \<le> lg_n (klog s) \<and> lg_n (klog s) < 30 \<and> lg_n (klog s) < lg_size (klog s) - 1 \<and>
     1 \<le> lg_outstanding (klog s)"

definition log_append :: "u32 \<Rightarrow> kstate \<Rightarrow> kstate" where
  "log_append bn s = upd_log (\<lambda>l. l\<lparr>lg_block := (lg_block l)(nat (lg_n l) := bn), lg_n := lg_n l + 1\<rparr>) s"

lemma log_write_result:
  assumes "running s" "log_room s" "b_blockno (bufs s i) = b"
  shows "log_write i s = (if b \<in> set (txn_blocks s) then Some s else do { s' \<leftarrow> bpin i s; Some (log_append b s') })"
proof -
  have u: "unlocked s" using assms(1) by (simp add: running_def)
  let ?t = "s\<lparr>lk := acquired (hart s) LogLock (lk s)\<rparr>" and ?l = "klog s"
  have q: "quiet (hart s) (lk s)" "free_lock LogLock (lk s)" "free_lock BcacheLock (lk s)" using u by (simp_all add: unlocked_def)
  have a: "acq LogLock s = Some ?t" using acq_unlocked [OF u] by simp
  have guards: "\<not> (lg_n ?l \<ge> LOGSIZE \<or> lg_n ?l \<ge> lg_size ?l - 1)" "\<not> lg_outstanding ?l < 1" "0 \<le> lg_n ?l"
    using assms(2) by (auto simp: log_room_def LOGSIZE_def)
  show ?thesis
  proof (cases "b \<in> set (txn_blocks s)")
    case True
    note sl = log_slot_cases(1) [OF guards(3) True]
    have "(lg_block ?l)(log_slot b ?l := b) = lg_block ?l" using sl by auto
    then have "upd_log (\<lambda>l. l\<lparr>lg_block := (lg_block l)(log_slot b ?l := b)\<rparr>) ?t = ?t"
      by (simp add: upd_log_def)
    then show ?thesis
      using True sl a guards assms(3) rel_unlocked [OF u, of ?t LogLock] by (auto simp: log_write_def Let_def)
  next
    case False
    note sl = log_slot_cases(2) [OF guards(3) False]
    let ?u = "upd_buf i (\<lambda>x. x\<lparr>b_refcnt := b_refcnt x + 1\<rparr>) s"
    let ?v = "upd_log (\<lambda>l. l\<lparr>lg_block := (lg_block l)(nat (lg_n l) := b)\<rparr>) ?t"
    have p: "bpin i s = Some ?u"
      by (simp add: bpin_def acq_unlocked [OF u] upd_buf_def rel_unlocked [OF u])
    have r: "release (hart s) BcacheLock (acquired (hart s) BcacheLock (acquired (hart s) LogLock (lk s)))
        = Some (acquired (hart s) LogLock (lk s))"
      using q by (intro release_acquired) (simp_all add: quiet_acquired)
    have "bpin i ?v = Some (upd_buf i (\<lambda>x. x\<lparr>b_refcnt := b_refcnt x + 1\<rparr>) ?v)"
      using q r by (simp add: bpin_def acq_free rel_def upd_buf_def upd_log_def)
    then show ?thesis
      using False sl a guards assms(3) p q
      by (simp add: log_write_def Let_def log_append_def upd_log_def upd_buf_def rel_def release_acquired)
  qed
qed

section \<open>One block changed\<close>

text \<open>
  Inside a transaction on the log at block \<open>st\<close>: the changed blocks are pinned and in the log's record,
  none of them belongs to the log, and nothing has been committed yet.
\<close>

definition in_txn :: "u32 \<Rightarrow> kstate \<Rightarrow> bool" where
  "in_txn st s \<longleftrightarrow> log_of st s \<and> 0 \<le> lg_n (klog s) \<and> lg_n (klog s) < lg_size (klog s) \<and> lg_size (klog s) \<le> 30 \<and>
     1 \<le> lg_outstanding (klog s) \<and> distinct (txn_blocks s) \<and> set (txn_blocks s) \<inter> log_region st = {} \<and>
     idle_cache (set (txn_blocks s)) s \<and> ld32 (disk s st) 0 = 0"

lemma in_txn_txn: "in_txn st s \<Longrightarrow> 0 < lg_n (klog s) \<Longrightarrow> txn st s"
  by (simp add: in_txn_def txn_def)

text \<open>Room for \<open>n\<close> more blocks.\<close>

definition txn_room :: "nat \<Rightarrow> kstate \<Rightarrow> bool" where
  "txn_room n s \<longleftrightarrow> lg_n (klog s) + int n < lg_size (klog s)"

text \<open>What the operations of the cache and the log leave alone.\<close>

definition txn_frame :: "kstate \<Rightarrow> kstate \<Rightarrow> bool" where
  "txn_frame s s' \<longleftrightarrow> bio_frame (s\<lparr>klog := klog s'\<rparr>) s' \<and> disk s' = disk s \<and> dwrites s' = dwrites s \<and>
     lg_size (klog s') = lg_size (klog s)"

lemma txn_frame_trans: "txn_frame s t \<Longrightarrow> txn_frame t u \<Longrightarrow> txn_frame s u"
proof -
  assume a: "txn_frame s t" "txn_frame t u"
  have "bio_frame (s\<lparr>klog := klog u\<rparr>) (t\<lparr>klog := klog u\<rparr>)"
    using a(1) by (cases s, cases t) (simp add: txn_frame_def bio_frame_def)
  moreover have "bio_frame (t\<lparr>klog := klog u\<rparr>) u" using a(2) by (simp add: txn_frame_def)
  ultimately have "bio_frame (s\<lparr>klog := klog u\<rparr>) u" by (rule bio_frame_trans)
  then show ?thesis using a by (simp add: txn_frame_def)
qed

lemma txn_frame_fields:
  assumes "txn_frame s s'"
  shows "lk s' = lk s" "hart s' = hart s" "curproc s' = curproc s" "sb s' = sb s" "itable s' = itable s"
    "ftable s' = ftable s" "mem s' = mem s" "disk s' = disk s" "dwrites s' = dwrites s"
  using bio_frame_fields(1-3,5-8) [of "s\<lparr>klog := klog s'\<rparr>" s'] assms by (simp_all add: txn_frame_def)

definition txn_add :: "u32 \<Rightarrow> u32 list \<Rightarrow> u32 list" where
  "txn_add b bs = (if b \<in> set bs then bs else bs @ [b])"

lemma txn_blocks_append: "0 \<le> lg_n (klog s) \<Longrightarrow> txn_blocks (log_append b s) = txn_blocks s @ [b]"
  by (simp add: txn_blocks_def log_append_def upd_log_def nat_add_distrib) 

lemma txn_blocks_frame: "klog s' = klog s \<Longrightarrow> txn_blocks s' = txn_blocks s"
  by (simp add: txn_blocks_def)

lemma owns_blockno: "owns s i b \<Longrightarrow> b_blockno (bufs s i) = b"
  by (simp add: owns_def)

lemma owns_upd_log [simp]: "owns (upd_log f s) i b = owns s i b"
  by (simp add: owns_def upd_log_def mypid_def)

lemma cache_good_upd_log [simp]: "cache_good (upd_log f s) = cache_good s"
  by (simp add: cache_good_def upd_log_def cache_ok_def running_def unlocked_def)

lemma change_logged:
  assumes txn: "in_txn st s" and room: "txn_room 1 s" and b: "b \<notin> log_region st"
  obtains i s1 where "bread ROOTDEV b s = Some (i, s1)" "b_data (bufs s1 i) = bview s b" "bio_frame s s1"
    "\<exists>s2. brelse i s1 = Some s2 \<and> bio_frame s s2 \<and> in_txn st s2 \<and> bview s2 = bview s \<and> disk s2 = disk s \<and>
       dwrites s2 = dwrites s \<and> klog s2 = klog s"
    "\<And>d. \<exists>s2 s3. log_write i (set_data i d s1) = Some s2 \<and> brelse i s2 = Some s3 \<and> in_txn st s3 \<and>
       txn_frame s s3 \<and> bview s3 = (bview s)(b := d) \<and> txn_blocks s3 = txn_add b (txn_blocks s)"
proof -
  have t: "log_of st s" "0 \<le> lg_n (klog s)" "lg_n (klog s) < lg_size (klog s)" "lg_size (klog s) \<le> 30"
    "1 \<le> lg_outstanding (klog s)" "distinct (txn_blocks s)" "set (txn_blocks s) \<inter> log_region st = {}"
    "idle_cache (set (txn_blocks s)) s" "ld32 (disk s st) 0 = 0"
    using txn by (simp_all add: in_txn_def)
  let ?B = "txn_blocks s" and ?c = "cabs_of s"
  have q: "cache_good s" "\<not> a_locked ?c b" "a_refs ?c b + 1 \<noteq> 0" "a_room ?c" "a_refs ?c b = (if b \<in> set ?B then 1 else 0)"
    using t(8) idle_quiet [OF t(8)] by (auto simp: idle_cache_def cabs_of_def bio.quiet_cache_def)
  from bio.get_ok [OF q(1-3) disjI1 [OF q(4)]] obtain i s1 where s1: "bread ROOTDEV b s = Some (i, s1)" "cache_good s1"
    "bio_frame s s1" "owns s1 i b" "cabs_of s1 = a_get b ?c" by blast
  have put: "\<exists>s'. brelse i t = Some s' \<and> bio_frame t s' \<and> idle_cache P s' \<and> bview s' = d \<and> disk s' = disk s \<and> dwrites s' = dwrites s"
    if "cache_good t" "owns t i b" "cabs_of t = ?c\<lparr>a_view := d, a_refs := r, a_locked := (a_locked ?c)(b := True)\<rparr>"
      "r b = 1 \<longrightarrow> disk s b = d b" "\<And>x. r x = (if x = b then (if x \<in> P then 2 else 1) else if x \<in> P then 1 else 0)" "card P < 30"
    for t d r P
  proof -
    have "a_refs (cabs_of t) b = 1 \<longrightarrow> a_disk (cabs_of t) b = a_view (cabs_of t) b"
      using that(3,4) by (simp add: cabs_of_def)
    from bio.put_ok [OF that(1,2) this] obtain s' where s': "brelse i t = Some s'" "cache_good s'" "bio_frame t s'"
      "cabs_of s' = a_put b (cabs_of t)" by blast
    have e: "bview s' = d" "refs s' = r(b := r b - 1)" "blocked s' = (blocked s)(b := False)" "disk s' = disk s" "dwrites s' = dwrites s"
      using s'(4) that(3) by (simp_all add: a_put_def cabs_of_def)
    have "idle_cache P s'" using s'(2) that(5,6) t(8) by (auto simp: idle_cache_def e(2,3))
    then show ?thesis using s' e by blast
  qed
  have cardB: "card (set ?B) < 30" using t(8) by (simp add: idle_cache_def)
  have refs: "refs s x = (if x \<in> set ?B then 1 else 0)" for x using t(8) by (simp add: idle_cache_def)
  have clean: "disk s b = bview s b" if "b \<notin> set ?B"
    using that bio.unused_clean [OF q(1), of b] refs by (simp add: cabs_of_def)
  let ?r = "(refs s)(b := refs s b + 1)"
  have c1: "cabs_of s1 = ?c\<lparr>a_view := bview s, a_refs := ?r, a_locked := (a_locked ?c)(b := True)\<rparr>"
    using s1(5) by (simp add: a_get_def cabs_of_def)
  note fr = bio_frame_fields [OF s1(3)]
  show ?thesis
  proof (rule that [OF s1(1) _ s1(3)])
    show "b_data (bufs s1 i) = bview s b" using bio.data_ok [OF s1(2,4)] c1 by (simp add: cabs_of_def)
    obtain s2 where s2: "brelse i s1 = Some s2" "bio_frame s1 s2" "idle_cache (set ?B) s2" "bview s2 = bview s"
      "disk s2 = disk s" "dwrites s2 = dwrites s"
      using put [OF s1(2,4) c1, of "set ?B"] refs clean cardB by fastforce
    have "klog s2 = klog s" using bio_frame_fields(4) [OF s2(2)] fr(4) by simp
    then show "\<exists>s2. brelse i s1 = Some s2 \<and> bio_frame s s2 \<and> in_txn st s2 \<and> bview s2 = bview s \<and> disk s2 = disk s \<and>
       dwrites s2 = dwrites s \<and> klog s2 = klog s"
      using s2 t bio_frame_trans [OF s1(3) s2(2)] by (auto simp: in_txn_def log_of_def txn_blocks_def)
    fix d
    let ?t = "set_data i d s1"
    note sd = bio.setd_ok [OF s1(2,4), of d]
    have ct: "cabs_of ?t = ?c\<lparr>a_view := (bview s)(b := d), a_refs := ?r, a_locked := (a_locked ?c)(b := True)\<rparr>"
      using sd c1 by (simp add: a_set_def)
    have ot: "owns ?t i b" and gt: "cache_good ?t" and ft: "bio_frame s ?t"
      using sd s1(3,4) bio_frame_trans by blast+
    note frt = bio_frame_fields [OF ft]
    have "log_room ?t" using t(2-5) room frt(4) by (simp add: log_room_def txn_room_def)
    then have lw: "log_write i ?t = (if b \<in> set ?B then Some ?t else do { s' \<leftarrow> bpin i ?t; Some (log_append b s') })"
      using log_write_result [of ?t i b] gt owns_blockno [OF ot] txn_blocks_frame [OF frt(4)] by (simp add: cache_good_def)
    show "\<exists>s2 s3. log_write i ?t = Some s2 \<and> brelse i s2 = Some s3 \<and> in_txn st s3 \<and>
       txn_frame s s3 \<and> bview s3 = (bview s)(b := d) \<and> txn_blocks s3 = txn_add b ?B"
    proof (cases "b \<in> set ?B")
      case True
      obtain s3 where s3: "brelse i ?t = Some s3" "bio_frame ?t s3" "idle_cache (set ?B) s3" "bview s3 = (bview s)(b := d)"
        "disk s3 = disk s" "dwrites s3 = dwrites s"
        using put [OF gt ot ct, of "set ?B"] refs cardB True by fastforce
      have f3: "bio_frame s s3" by (rule bio_frame_trans [OF ft s3(2)])
      have k3: "klog s3 = klog s" using bio_frame_fields(4) [OF f3] .
      have "txn_frame s s3" using f3 s3(5,6) k3 by (simp add: txn_frame_def)
      then show ?thesis
        using lw True s3 t k3 txn_blocks_frame [OF k3] by (auto simp: in_txn_def log_of_def txn_add_def)
    next
      case False
      have "a_refs (cabs_of ?t) b + 1 \<noteq> 0" using ct refs False by simp
      from bio.pin_ok [OF gt ot this] obtain t2 where t2: "bpin i ?t = Some t2" "cache_good t2" "bio_frame ?t t2"
        "cabs_of t2 = a_pin b (cabs_of ?t)" "owns t2 i b" using ot by blast
      let ?t3 = "log_append b t2"
      have f2: "bio_frame s t2" by (rule bio_frame_trans [OF ft t2(3)])
      have k2: "klog t2 = klog s" using bio_frame_fields(4) [OF f2] .
      have B3: "txn_blocks ?t3 = ?B @ [b]" using txn_blocks_append [of t2 b] t(2) k2 txn_blocks_frame [OF k2] by simp
      have c3: "cabs_of ?t3 = ?c\<lparr>a_view := (bview s)(b := d), a_refs := ?r(b := ?r b + 1), a_locked := (a_locked ?c)(b := True)\<rparr>"
        using t2(4) ct by (simp add: log_append_def a_pin_def)
      have o3: "cache_good ?t3" "owns ?t3 i b" using t2(2,5) by (simp_all add: log_append_def)
      have "length ?B = nat (lg_n (klog s))" by (simp add: txn_blocks_def)
      then have "card (set (?B @ [b])) < 30" using card_length [of "?B @ [b]"] room t(2,4) by (simp add: txn_room_def)
      then obtain s3 where s3: "brelse i ?t3 = Some s3" "bio_frame ?t3 s3" "idle_cache (set (?B @ [b])) s3"
        "bview s3 = (bview s)(b := d)" "disk s3 = disk s" "dwrites s3 = dwrites s"
        using put [OF o3 c3, of "set (?B @ [b])"] refs False by fastforce
      have k3: "klog s3 = (klog s)\<lparr>lg_block := (lg_block (klog s))(nat (lg_n (klog s)) := b), lg_n := lg_n (klog s) + 1\<rparr>"
        using bio_frame_fields(4) [OF s3(2)] k2 by (simp add: log_append_def upd_log_def)
      have B: "txn_blocks s3 = ?B @ [b]" using B3 txn_blocks_frame [OF bio_frame_fields(4) [OF s3(2)]] by simp
      have "bio_frame (s\<lparr>klog := klog s3\<rparr>) ?t3"
        using f2 bio_frame_fields(4) [OF s3(2)] by (cases s, cases t2) (simp add: bio_frame_def log_append_def upd_log_def)
      then have "bio_frame (s\<lparr>klog := klog s3\<rparr>) s3" using s3(2) by (rule bio_frame_trans)
      then have "txn_frame s s3" using s3(5,6) k3 by (simp add: txn_frame_def)
      moreover have "in_txn st s3"
        using t(1-7,9) s3(3,5) B k3 False b room by (simp add: in_txn_def log_of_def txn_room_def)
      ultimately show ?thesis using lw False t2(1) s3 B by (simp add: txn_add_def)
    qed
  qed
qed

end
