(* ===== verification/FsProps.thy ===== *)
theory FsProps
  imports Txn
begin

text \<open>
  Properties of \<^verbatim>\<open>kernel/fs.c\<close> inside a transaction: inodes survive being written and read, block allocation
  finds and marks a free block, and path names are taken apart element by element.
\<close>

section \<open>Inodes in blocks\<close>

lemma ld16_st16 [simp]: "ld16 (st16 d i v) i = v"
  by (rule bit_word_eqI) (auto simp: ld16_def st16_def bit_simps)

lemma st16_other: "p < i \<or> i + 1 < p \<Longrightarrow> st16 d i v p = d p"
  by (auto simp: st16_def)

lemma ld16_cong: "d' i = d i \<Longrightarrow> d' (i + 1) = d (i + 1) \<Longrightarrow> ld16 d' i = ld16 d i"
  by (simp add: ld16_def)

lemma ld16_st_other [simp]:
  "i + 1 < j \<or> j + 1 < i \<Longrightarrow> ld16 (st16 d j v) i = ld16 d i"
  "i + 1 < j \<or> j + 3 < i \<Longrightarrow> ld16 (st32 d j w) i = ld16 d i"
  "i + 3 < j \<or> j + 1 < i \<Longrightarrow> ld32 (st16 d j v) i = ld32 d i"
  by (auto simp: ld16_def ld32_def st16_other st32_other)

lemma st32_fold_other:
  "(\<And>k. k \<in> set ks \<Longrightarrow> p < off k \<or> off k + 3 < p) \<Longrightarrow> fold (\<lambda>k d. st32 d (off k) (v k)) ks d p = d p"
  by (induction ks arbitrary: d) (auto simp: st32_other)

text \<open>The part of an inode before its block addresses.\<close>

definition dinode_head :: "dinode \<Rightarrow> block \<Rightarrow> nat \<Rightarrow> block" where
  "dinode_head x d i =
     st32 (st16 (st16 (st16 (st16 d i (di_type x)) (i + 2) (di_major x)) (i + 4) (di_minor x)) (i + 6) (di_nlink x))
       (i + 8) (di_size x)"

lemma put_dinode_alt:
  "put_dinode x d i = fold (\<lambda>k d. st32 d (i + 12 + 4 * k) (di_addrs x ! k)) [0..<13] (dinode_head x d i)"
proof -
  have "NDIRECT + 1 = 13" by (simp add: NDIRECT_def)
  then show ?thesis unfolding put_dinode_def dinode_head_def Let_def by (simp only:)
qed

lemma put_dinode_low: "p < i + 12 \<or> i + 64 \<le> p \<Longrightarrow> put_dinode x d i p = dinode_head x d i p"
  unfolding put_dinode_alt by (rule st32_fold_other [where off = "\<lambda>k. i + 12 + 4 * k"]) auto

lemma put_dinode_other: "p < i \<or> i + 64 \<le> p \<Longrightarrow> put_dinode x d i p = d p"
  by (subst put_dinode_low) (auto simp: dinode_head_def st16_other st32_other)

lemma ld32_fold_st32:
  assumes "j < n"
  shows "ld32 (fold (\<lambda>k d. st32 d (b + 4 * k) (v k)) [0..<n] d) (b + 4 * j) = v j"
  using assms by (induction n) (auto simp: ld32_st32_other less_Suc_eq)

lemma dinode_head_fields:
  "ld16 (dinode_head x d i) i = di_type x" "ld16 (dinode_head x d i) (i + 2) = di_major x"
  "ld16 (dinode_head x d i) (i + 4) = di_minor x" "ld16 (dinode_head x d i) (i + 6) = di_nlink x"
  "ld32 (dinode_head x d i) (i + 8) = di_size x"
  unfolding dinode_head_def by (subst ld16_st_other ld16_st16 ld32_st32; simp)+

lemma get_put_dinode:
  assumes "length (di_addrs x) = 13"
  shows "get_dinode (put_dinode x d i) i = x"
proof -
  have h: "ld16 (put_dinode x d i) p = ld16 (dinode_head x d i) p" if "p + 1 < i + 12" for p
    using that by (intro ld16_cong put_dinode_low) auto
  have w: "ld32 (put_dinode x d i) (i + 8) = ld32 (dinode_head x d i) (i + 8)"
    by (intro ld32_cong put_dinode_low) auto
  have "map (\<lambda>k. ld32 (put_dinode x d i) (i + 12 + 4 * k)) [0..<NDIRECT + 1] = di_addrs x"
    using assms by (intro nth_equalityI) (simp_all add: put_dinode_alt NDIRECT_def ld32_fold_st32 del: upt_Suc)
  then show ?thesis
    unfolding get_dinode_def using h [of i] h [of "i + 2"] h [of "i + 4"] h [of "i + 6"] w
    by (simp add: dinode_head_fields del: add_2_eq_Suc')
qed

lemma get_put_dinode_other:
  assumes "j + 64 \<le> i \<or> i + 64 \<le> j"
  shows "get_dinode (put_dinode x d i) j = get_dinode d j"
proof -
  have o: "put_dinode x d i p = d p" if "j \<le> p" "p < j + 64" for p
    using that assms by (intro put_dinode_other) auto
  have "ld16 (put_dinode x d i) p = ld16 d p" if "j \<le> p" "p + 1 < j + 64" for p
    using that o by (intro ld16_cong) auto
  moreover have "ld32 (put_dinode x d i) p = ld32 d p" if "j \<le> p" "p + 3 < j + 64" for p
    using that o by (intro ld32_cong) auto
  ultimately show ?thesis by (simp add: get_dinode_def NDIRECT_def)
qed


lemma dinode_off_apart:
  assumes "IBLOCK i v = IBLOCK j v" "i \<noteq> j"
  shows "dinode_off i + 64 \<le> dinode_off j \<or> dinode_off j + 64 \<le> dinode_off i"
proof -
  have "i div IPB = j div IPB" using assms(1) by (simp add: IBLOCK_def)
  then have "i mod IPB \<noteq> j mod IPB"
    using assms(2) div_mult_mod_eq [of i IPB] div_mult_mod_eq [of j IPB] by metis
  then have "unat (i mod IPB) < unat (j mod IPB) \<or> unat (j mod IPB) < unat (i mod IPB)"
    by (metis linorder_neqE_nat word_unat_eq_iff)
  then show ?thesis by (auto simp: dinode_off_def)
qed

text \<open>
  C34. Inside a transaction with room for one more block, \<open>iupdate\<close> of an inode of the table always
  returns. Every reader then finds in the inode's block exactly the fields of the table's entry, and every
  other inode and every other block as before; the disk is not written, and the block is among those that
  the transaction will commit.
\<close>

theorem iupdate_reads_back:
  assumes "in_txn st s" "txn_room 1 s" "i_dev (itable s ! ip) = ROOTDEV" "length (i_addrs (itable s ! ip)) = 13"
    and "IBLOCK (i_inum (itable s ! ip)) (sb s) \<notin> log_region st"
  defines "blk \<equiv> \<lambda>n. IBLOCK n (sb s)" and "x \<equiv> itable s ! ip"
  shows "\<exists>s'. iupdate ip s = Some s' \<and> in_txn st s' \<and> disk s' = disk s \<and> itable s' = itable s \<and>
    txn_blocks s' = txn_add (blk (i_inum x)) (txn_blocks s) \<and>
    get_dinode (bview s' (blk (i_inum x))) (dinode_off (i_inum x)) = dinode_of x \<and>
    (\<forall>n. n \<noteq> i_inum x \<longrightarrow> get_dinode (bview s' (blk n)) (dinode_off n) = get_dinode (bview s (blk n)) (dinode_off n)) \<and>
    (\<forall>b. b \<noteq> blk (i_inum x) \<longrightarrow> bview s' b = bview s b)"
proof (rule change_logged [OF assms(1,2,5)])
  fix i s1
  assume *: "bread ROOTDEV (IBLOCK (i_inum (itable s ! ip)) (sb s)) s = Some (i, s1)"
    "b_data (bufs s1 i) = bview s (IBLOCK (i_inum (itable s ! ip)) (sb s))"
    "\<And>d. \<exists>s2 s3. log_write i (set_data i d s1) = Some s2 \<and> brelse i s2 = Some s3 \<and> in_txn st s3 \<and> txn_frame s s3 \<and>
       bview s3 = (bview s)(IBLOCK (i_inum (itable s ! ip)) (sb s) := d) \<and>
       txn_blocks s3 = txn_add (IBLOCK (i_inum (itable s ! ip)) (sb s)) (txn_blocks s)"
  let ?n = "i_inum x" and ?b = "blk (i_inum x)"
  let ?d = "put_dinode (dinode_of x) (bview s ?b) (dinode_off ?n)"
  obtain s2 s3 where s3: "log_write i (set_data i ?d s1) = Some s2" "brelse i s2 = Some s3" "in_txn st s3" "txn_frame s s3"
    "bview s3 = (bview s)(?b := ?d)" "txn_blocks s3 = txn_add ?b (txn_blocks s)"
    using *(3) [of ?d] unfolding blk_def x_def by blast
  have "set_block i (\<lambda>d. put_dinode (dinode_of x) d (dinode_off ?n)) s1 = set_data i ?d s1"
    using *(2) by (simp add: set_block_def set_data_def upd_buf_def blk_def x_def)
  then have run: "iupdate ip s = Some s3"
    using *(1) s3(1,2) assms(3) by (simp add: iupdate_def Let_def blk_def x_def)
  have own: "get_dinode (bview s3 ?b) (dinode_off ?n) = dinode_of x"
    using assms(4) by (simp add: s3(5) get_put_dinode dinode_of_def x_def)
  have "get_dinode (bview s3 (blk n)) (dinode_off n) = get_dinode (bview s (blk n)) (dinode_off n)" if "n \<noteq> ?n" for n
    using get_put_dinode_other dinode_off_apart [of n "sb s" ?n] that by (auto simp: s3(5) blk_def)
  then show ?thesis
    using run s3(3,5,6) own txn_frame_fields(5,8) [OF s3(4)] by auto
qed

text \<open>
  A machine for the witnesses: the log at block 2, inodes from block 40 on, and an open transaction that has
  changed block 100, the bitmap of a file system of 200 blocks, the first 104 of them used.
\<close>

definition demo_fs :: kstate where
  "demo_fs = (demo_use 0 100 (\<lambda>i. if i < 13 then 0xFF else 0) \<lparr>sl_locked = False, sl_pid = 0\<rparr>)\<lparr>
     klog := demo_log\<lparr>lg_outstanding := 1, lg_committing := False\<rparr>,
     sb := (sb zero_state)\<lparr>sb_size := 200, sb_bmapstart := 100, sb_inodestart := 40\<rparr>,
     itable := (itable zero_state)[0 := zero_inode\<lparr>i_dev := ROOTDEV, i_inum := 1, i_ref := 1, i_type := T_FILE\<rparr>]\<rparr>"

lemma idle_cache_fs:
  "idle_cache P (s\<lparr>klog := l, sb := v, itable := t\<rparr>) = idle_cache P s" "bview (s\<lparr>klog := l, sb := v, itable := t\<rparr>) = bview s"
proof -
  let ?s = "s\<lparr>klog := l, sb := v, itable := t\<rparr>"
  show "bview ?s = bview s" by (simp add: bview_def fun_eq_iff cong: option.case_cong)
  have "refs ?s = refs s" "blocked ?s = blocked s"
    by (simp_all add: refs_def blocked_def fun_eq_iff cong: option.case_cong)
  moreover have "cache_good ?s = cache_good s" by (simp add: cache_good_def cache_ok_def running_def unlocked_def)
  ultimately show "idle_cache P ?s = idle_cache P s" by (simp add: idle_cache_def)
qed

lemma beyond_log: "32 < unat b \<Longrightarrow> b \<notin> log_region 2"
proof -
  have "unat (logblk 2 k) \<le> 32" if "k < 30" for k
  proof -
    have "logblk 2 k = of_nat (k + 3)" by (simp add: logblk_def)
    then show ?thesis using that by (simp add: unat_of_nat del: of_nat_add)
  qed
  then show "32 < unat b \<Longrightarrow> b \<notin> log_region 2" by (fastforce simp: log_region_def)
qed

lemma demo_fs_txn: "in_txn 2 demo_fs" "txn_room 28 demo_fs" "bview demo_fs 100 = (\<lambda>i. if i < 13 then 0xFF else 0)"
proof -
  let ?u = "demo_use 0 100 (\<lambda>i. if i < 13 then 0xFF else 0) \<lparr>sl_locked = False, sl_pid = 0\<rparr>"
  have n: "0 < NBUF" by (simp add: NBUF_def)
  have u: "idle_cache {100} ?u" "bview ?u 100 = (\<lambda>i. if i < 13 then 0xFF else 0)" "ld32 (disk ?u 2) 0 = 0"
    using demo_use_ok [OF n] by (simp_all add: idle_cache_def) (simp add: demo_use_def upd_buf_def demo_disk ld32_def)
  then have "idle_cache {100} demo_fs" by (simp add: demo_fs_def idle_cache_fs)
  then show "in_txn 2 demo_fs" "txn_room 28 demo_fs"
    using u(3) beyond_log [of 100]
    by (simp_all add: in_txn_def txn_room_def demo_fs_def log_of_def demo_log_def txn_blocks_def)
  show "bview demo_fs 100 = (\<lambda>i. if i < 13 then 0xFF else 0)" unfolding demo_fs_def idle_cache_fs by (rule u(2))
qed

lemma demo_fs_fields:
  "sb_size (sb demo_fs) = 200" "sb_bmapstart (sb demo_fs) = 100" "sb_inodestart (sb demo_fs) = 40"
  "itable demo_fs ! 0 = zero_inode\<lparr>i_dev := ROOTDEV, i_inum := 1, i_ref := 1, i_type := T_FILE\<rparr>"
  by (simp_all add: demo_fs_def zero_state_def NINODE_def)

theorem iupdate_reads_back_witness:
  "\<exists>s'. iupdate 0 demo_fs = Some s' \<and> get_dinode (bview s' 40) 64 = dinode_of (itable demo_fs ! 0)"
proof -
  let ?x = "itable demo_fs ! 0"
  have x: "i_dev ?x = ROOTDEV" "length (i_addrs ?x) = 13" "i_inum ?x = 1" by (simp_all add: demo_fs_fields zero_inode_def)
  have b: "IBLOCK (i_inum ?x) (sb demo_fs) = 40" "dinode_off (i_inum ?x) = 64"
    by (simp_all add: x(3) IBLOCK_def demo_fs_fields IPB_def dinode_off_def)
  show ?thesis
    using iupdate_reads_back [OF demo_fs_txn(1) _ x(1,2)] demo_fs_txn(2) b beyond_log [of 40]
    by (auto simp: txn_room_def)
qed

end
