(* ===== verification/Ring.thy ===== *)
theory Ring
  imports Prelude
begin

text \<open>
  Ring buffers: an array with a read and a write index that count up for ever, wrap at their machine
  width and are reduced modulo the array's size when the array is accessed. The transmit buffer of the
  UART, the input buffer of the console and the pipes are such rings, at different widths and sizes; the
  lemmas are proved once, for any size that divides the range of the indices.
\<close>

text \<open>The contents, oldest first.\<close>

definition ring :: "'w::len word \<Rightarrow> (nat \<Rightarrow> 'b) \<Rightarrow> 'w word \<Rightarrow> 'w word \<Rightarrow> 'b list" where
  "ring sz buf r w = map (\<lambda>i. buf (unat ((r + of_nat i) mod sz))) [0..<unat (w - r)]"

lemma length_ring [simp]: "length (ring sz buf r w) = unat (w - r)"
  by (simp add: ring_def)

lemma ring_empty [simp]: "ring sz buf r r = []"
  by (simp add: ring_def)

lemma ring_Nil_iff: "ring sz buf r w = [] \<longleftrightarrow> r = w"
  by (auto simp: ring_def unat_eq_0)

locale ring_buffer =
  fixes sz :: "'w::len word" and k :: nat
  assumes size_pow: "unat sz = 2 ^ k" and size_less: "k < LENGTH('w)"
begin

lemma size_pos: "0 < unat sz"
  by (simp add: size_pow)

lemma size_bound: "unat sz * 2 \<le> 2 ^ LENGTH('w)"
proof -
  have "unat sz * 2 = 2 ^ Suc k" by (simp add: size_pow)
  also have "\<dots> \<le> 2 ^ LENGTH('w)" using size_less by (intro power_increasing) auto
  finally show ?thesis .
qed

lemma slot: "unat ((r + of_nat i) mod sz) = (unat r + i) mod unat sz"
proof -
  have d: "unat sz dvd 2 ^ LENGTH('w)" using size_less by (simp add: size_pow le_imp_power_dvd)
  have "unat ((r + of_nat i) mod sz) = unat (r + of_nat i) mod unat sz" by (rule unat_mod)
  also have "unat (r + of_nat i) = (unat r + i) mod 2 ^ LENGTH('w)"
    by (simp add: unat_word_ariths unat_of_nat mod_simps)
  finally show ?thesis by (simp add: mod_mod_cancel [OF d])
qed

lemma slot_inj:
  assumes "i < j" "j < i + unat sz"
  shows "(unat r + i) mod unat sz \<noteq> (unat r + j) mod unat sz"
proof
  assume "(unat r + i) mod unat sz = (unat r + j) mod unat sz"
  then have "unat sz dvd (unat r + j) - (unat r + i)" using assms(1) by (metis mod_eq_dvd_iff_nat add_le_cancel_left less_imp_le)
  then have "unat sz dvd j - i" by simp
  then show False using assms by (auto dest: dvd_imp_le)
qed

lemma unat_succ:
  fixes n :: "'w word"
  assumes "unat n < unat sz"
  shows "unat (n + 1) = Suc (unat n)"
proof -
  have "unat n + 1 < 2 ^ LENGTH('w)" using assms size_bound size_pos by linarith
  then show ?thesis by (simp add: unat_word_ariths)
qed

text \<open>Appending when there is room.\<close>

lemma ring_push:
  assumes "unat (w - r) < unat sz"
  shows "ring sz (buf(unat (w mod sz) := c)) r (w + 1) = ring sz buf r w @ [c]"
proof -
  let ?n = "unat (w - r)"
  have w: "w = r + of_nat ?n" by simp
  have n: "unat (w + 1 - r) = Suc ?n" using unat_succ [OF assms] by (simp add: algebra_simps)
  have s: "unat (w mod sz) = (unat r + ?n) mod unat sz" using slot [of r ?n] by simp
  have "(unat r + i) mod unat sz \<noteq> unat (w mod sz)" if "i < ?n" for i
    using slot_inj [of i ?n r] that assms by (simp add: s)
  then show ?thesis unfolding ring_def n by (simp add: slot s)
qed

lemma ring_push_full:
  fixes w r :: "'w word"
  shows "unat (w - r) < unat sz \<Longrightarrow> unat (w + 1 - r) = Suc (unat (w - r))"
  using unat_succ [of "w - r"] by (simp add: algebra_simps)

text \<open>Taking the oldest element.\<close>

lemma ring_pop:
  assumes "r \<noteq> w"
  shows "ring sz buf r w = buf (unat (r mod sz)) # ring sz buf (r + 1) w"
proof -
  have "unat (w - r) \<noteq> 0" using assms by (simp add: unat_eq_0)
  then obtain n where n: "unat (w - r) = Suc n" by (cases "unat (w - r)") auto
  have "unat (w - (r + 1)) = n"
    using n unat_minus_one [of "w - r"] assms by (simp add: diff_diff_eq)
  moreover have "[0..<Suc n] = 0 # map Suc [0..<n]" by (simp add: map_Suc_upt upt_conv_Cons)
  ultimately show ?thesis unfolding ring_def n by (simp add: comp_def add.assoc)
qed

lemma ring_pop_length:
  fixes w r :: "'w word"
  shows "r \<noteq> w \<Longrightarrow> unat (w - r) = Suc (unat (w - (r + 1)))"
  using arg_cong [OF ring_pop, of r w length] by simp

text \<open>Taking back the newest element.\<close>

lemma ring_butlast:
  assumes "r \<noteq> w"
  shows "ring sz buf r (w - 1) = butlast (ring sz buf r w)"
proof -
  have "unat (w - r) \<noteq> 0" using assms by (simp add: unat_eq_0)
  then obtain n where n: "unat (w - r) = Suc n" by (cases "unat (w - r)") auto
  have "unat (w - 1 - r) = n" using n unat_minus_one [of "w - r"] assms by (simp add: algebra_simps)
  then show ?thesis unfolding ring_def n by simp
qed

lemma ring_last:
  assumes "r \<noteq> w"
  shows "buf (unat ((w - 1) mod sz)) = last (ring sz buf r w)"
proof -
  have "unat (w - r) \<noteq> 0" using assms by (simp add: unat_eq_0)
  then obtain n where n: "unat (w - r) = Suc n" by (cases "unat (w - r)") auto
  from n have "w - r = of_nat (Suc n)" unfolding n [symmetric] by simp
  then have "w - 1 = r + of_nat n" by (simp add: algebra_simps)
  then show ?thesis unfolding ring_def n by simp
qed

text \<open>A ring with a mark between its ends.\<close>

lemma ring_split:
  assumes "unat (m - r) \<le> unat (w - r)"
  shows "ring sz buf r w = ring sz buf r m @ ring sz buf m w" "unat (w - r) = unat (m - r) + unat (w - m)"
proof -
  have d: "w - m = (w - r) - (m - r)" by simp
  have "unat (w - m) = unat (w - r) - unat (m - r)" unfolding d using assms by (intro unat_sub) (simp add: word_le_nat_alt)
  then show len: "unat (w - r) = unat (m - r) + unat (w - m)" using assms by simp
  have "m + of_nat (i - unat (m - r)) = r + of_nat i" if "unat (m - r) \<le> i" for i
    using that by (simp add: of_nat_diff)
  then show "ring sz buf r w = ring sz buf r m @ ring sz buf m w"
    by (intro nth_equalityI) (auto simp: len nth_append ring_def add.commute)
qed

lemma ring_split_push:
  assumes "unat (m - r) \<le> unat (w - r)" "unat (w - r) < unat sz"
  shows "ring sz (buf(unat (w mod sz) := c)) r m = ring sz buf r m"
    "ring sz (buf(unat (w mod sz) := c)) m (w + 1) = ring sz buf m w @ [c]"
proof -
  note s = ring_split [OF assms(1)]
  have "unat (w - m) < unat sz" using s(2) assms(2) by simp
  then show p: "ring sz (buf(unat (w mod sz) := c)) m (w + 1) = ring sz buf m w @ [c]" by (rule ring_push)
  have "unat (m - r) \<le> unat (w + 1 - r)" using assms ring_push_full [of w r] by simp
  from ring_split(1) [OF this, of "buf(unat (w mod sz) := c)"] ring_push [OF assms(2), of buf c] s(1) [of buf] p
  show "ring sz (buf(unat (w mod sz) := c)) r m = ring sz buf r m" by (metis append_assoc append_same_eq)
qed

end

end
