(* ===== verification/ConsoleProps.thy ===== *)
theory ConsoleProps
  imports Console Ring
begin

text \<open>
  What the console does: its output functions append to what the UART was given; the input handler
  implements a line editor on an abstract pair of lists; the transmit ring is a queue; \<open>printint\<close> prints
  a number that reads back and \<open>printf\<close> what a pure formatting function gives.
\<close>

section \<open>Output\<close>

definition printed :: "u8 list \<Rightarrow> kstate \<Rightarrow> kstate" where
  "printed os s = s\<lparr>tx_sent := tx_sent s @ os, tx_room := tx_room s - length os\<rparr>"

lemma printed_Nil [simp]: "printed [] s = s"
  by (simp add: printed_def)

lemma printed_printed [simp]: "printed ps (printed os s) = printed (os @ ps) s"
  by (simp add: printed_def)

lemma printed_fields [simp]:
  "lk (printed os s) = lk s" "hart (printed os s) = hart s" "panicked (printed os s) = panicked s"
  "procs (printed os s) = procs s" "curproc (printed os s) = curproc s" "cons (printed os s) = cons s"
  "pr_locking (printed os s) = pr_locking s" "uart (printed os s) = uart s"
  by (simp_all add: printed_def)

lemma printed_updates [simp]:
  "(printed os s)\<lparr>lk := k\<rparr> = printed os (s\<lparr>lk := k\<rparr>)" "upd_cons f (printed os s) = printed os (upd_cons f s)"
  "(printed os s)\<lparr>procs := ps\<rparr> = printed os (s\<lparr>procs := ps\<rparr>)"
  by (simp_all add: printed_def upd_cons_def)

lemma upd_cons_fields [simp]:
  "cons (upd_cons f s) = f (cons s)" "lk (upd_cons f s) = lk s" "hart (upd_cons f s) = hart s"
  "procs (upd_cons f s) = procs s" "curproc (upd_cons f s) = curproc s" "uart (upd_cons f s) = uart s"
  "pr_locking (upd_cons f s) = pr_locking s" "upd_cons f (upd_cons g s) = upd_cons (f \<circ> g) s"
  by (simp_all add: upd_cons_def)

text \<open>The CPU's lock state is sane and the kernel has not panicked.\<close>

definition can_print :: "kstate \<Rightarrow> bool" where
  "can_print s \<longleftrightarrow> quiet (hart s) (lk s) \<and> \<not> panicked s"

lemma can_print_simps [simp]:
  "can_print (printed os s) = can_print s" "can_print (upd_cons f s) = can_print s"
  "can_print (s\<lparr>procs := ps\<rparr>) = can_print s" "can_print (s\<lparr>lk := acquired (hart s) l (lk s)\<rparr>) \<longleftrightarrow>
     quiet (hart s) (acquired (hart s) l (lk s)) \<and> \<not> panicked s"
  by (simp_all add: can_print_def upd_cons_def)

lemma uartputc_sync_result:
  assumes "can_print s"
  shows "uartputc_sync c s = Some (printed [word_of_int c] s)"
proof -
  have "pop_off (hart s) (push_off (hart s) (lk s)) = Some (lk s)"
    using pop_push_off [of "hart s" "lk s" "locks (lk s)"] assms
    by (simp add: can_print_def push_off_def Let_def)
  then show ?thesis
    using assms by (simp add: uartputc_sync_def can_print_def Let_def write_THR_def printed_def max_def)
qed

definition echo :: "int \<Rightarrow> u8 list" where
  "echo c = (if c = BACKSPACE then [8, 32, 8] else [word_of_int c])"

lemma consputc_result: "can_print s \<Longrightarrow> consputc c s = Some (printed (echo c) s)"
  by (simp add: consputc_def uartputc_sync_result echo_def)

lemma echo_byte [simp]: "echo (uint (c :: u8)) = [c]"
proof -
  have "uint c < 256" using uint_lt2p [of c] by simp
  then show ?thesis by (simp add: echo_def BACKSPACE_def)
qed

lemma echo_char [simp]: "echo (of_char c) = [of_char c]"
proof -
  have "(of_char c :: int) < 256" by (cases c) (simp add: of_char_def)
  then show ?thesis by (simp add: echo_def BACKSPACE_def of_int_of_char)
qed

lemma echo_percent [simp]: "echo 37 = [37]"
  by (simp add: echo_def BACKSPACE_def)

lemma consputs_result: "can_print s \<Longrightarrow> consputs cs s = Some (printed cs s)"
  by (induction cs arbitrary: s) (simp_all add: consputc_result)

section \<open>Numbers\<close>

text \<open>Digits, last one first, and the number they stand for.\<close>

fun digits_rev :: "nat \<Rightarrow> nat \<Rightarrow> nat list" where
  "digits_rev base n = (if n < base \<or> base \<le> 1 then [n] else n mod base # digits_rev base (n div base))"

declare digits_rev.simps [simp del]

fun value_rev :: "nat \<Rightarrow> nat list \<Rightarrow> nat" where
  "value_rev base [] = 0"
| "value_rev base (d # ds) = d + base * value_rev base ds"

lemma value_digits: "1 < base \<Longrightarrow> value_rev base (digits_rev base n) = n"
proof (induction base n rule: digits_rev.induct)
  case (1 base n)
  then show ?case by (subst digits_rev.simps) auto
qed

lemma digits_less: "1 < base \<Longrightarrow> d \<in> set (digits_rev base n) \<Longrightarrow> d < base"
proof (induction base n rule: digits_rev.induct)
  case (1 base n)
  then show ?case by (subst (asm) (2) digits_rev.simps) (auto split: if_splits)
qed

lemma digits_length: "1 < base \<Longrightarrow> n < base ^ Suc k \<Longrightarrow> length (digits_rev base n) \<le> Suc k"
proof (induction k arbitrary: n)
  case 0
  then show ?case by (subst digits_rev.simps) simp
next
  case (Suc k)
  then show ?case by (subst digits_rev.simps) (auto simp: less_mult_imp_div_less mult.commute)
qed

definition digit_byte :: "nat \<Rightarrow> u8" where
  "digit_byte d = digits ! d"

lemma printint_digits_result:
  assumes "1 < unat base"
  shows "printint_digits base x = Some (map digit_byte (digits_rev (unat base) (unat x)))"
proof (induction "unat x" arbitrary: x rule: less_induct)
  case less
  have d: "x div base = 0 \<longleftrightarrow> unat x < unat base"
    by (metis assms div_eq_0_iff less_numeral_extra(4) not_one_less_zero unat_div unat_eq_0)
  show ?case
  proof (cases "unat x < unat base")
    case True
    then show ?thesis using d
      by (subst printint_digits.simps, subst digits_rev.simps) (simp add: digit_byte_def unat_mod Let_def)
  next
    case False
    then have "unat (x div base) < unat x" using assms by (simp add: unat_div)
    from less [OF this] False d show ?thesis using assms
      by (subst printint_digits.simps, subst digits_rev.simps) (simp add: digit_byte_def unat_mod unat_div Let_def)
  qed
qed

definition number_text :: "u32 \<Rightarrow> nat \<Rightarrow> u8 list" where
  "number_text xx base = (if sint xx < 0 then [45] else []) @
     rev (map digit_byte (digits_rev base (nat \<bar>sint xx\<bar>)))"

lemma unat_abs:
  fixes x :: u32
  shows "unat (if sint x < 0 then - x else x) = nat \<bar>sint x\<bar>"
proof -
  have "- (2 ^ 31) \<le> sint x" "sint x < 2 ^ 31" using sint_greater_eq [of x] sint_less [of x] by simp_all
  then have u: "uint (word_of_int \<bar>sint x\<bar> :: u32) = \<bar>sint x\<bar>"
    by (simp only: uint_word_of_int) (simp add: take_bit_int_eq_self)
  have e: "(if sint x < 0 then - x else x) = word_of_int \<bar>sint x\<bar>"
    by (simp add: abs_if)
  show ?thesis unfolding e nat_uint_eq [symmetric] u ..
qed

lemma printint_result:
  assumes "base = 10 \<or> base = 16" "can_print s"
  shows "printint xx base True s = Some (printed (number_text xx (unat base)) s)"
    "length (number_text xx (unat base)) \<le> 11"
proof -
  let ?d = "map digit_byte (digits_rev (unat base) (nat \<bar>sint xx\<bar>))"
  have b: "1 < unat base" using assms(1) by auto
  have "nat \<bar>sint xx\<bar> < unat base ^ Suc 9"
  proof -
    have "\<bar>sint xx\<bar> \<le> 2 ^ 31" using sint_greater_eq [of xx] sint_less [of xx] by simp
    then show ?thesis using assms(1) by auto
  qed
  from digits_length [OF b this] have l: "length ?d \<le> 10" by simp
  have "printint_digits base (if sint xx < 0 then - xx else xx) = Some ?d"
    unfolding printint_digits_result [OF b] unat_abs ..
  then have "printint_buf xx base True = Some (rev (number_text xx (unat base)))"
    using l by (auto simp: printint_buf_def number_text_def Let_def)
  then show "printint xx base True s = Some (printed (number_text xx (unat base)) s)"
    using consputs_result [OF assms(2)] by (simp add: printint_def)
  show "length (number_text xx (unat base)) \<le> 11" using l by (cases "sint xx < 0") (simp_all add: number_text_def)
qed

definition read_digit :: "u8 \<Rightarrow> nat" where
  "read_digit b = (if b < 58 then unat b - 48 else unat b - 87)"

definition read_number :: "nat \<Rightarrow> u8 list \<Rightarrow> int" where
  "read_number base t = (case t of
     [] \<Rightarrow> 0
   | c # ds \<Rightarrow> if c = 45 then - int (value_rev base (map read_digit (rev ds)))
               else int (value_rev base (map read_digit (rev t))))"

lemma read_digit_byte:
  assumes "d < 16"
  shows "read_digit (digit_byte d) = d" "digit_byte d \<noteq> 45"
proof -
  have "d \<in> set [0..<16]" using assms by simp
  then have "read_digit (digit_byte d) = d \<and> digit_byte d \<noteq> 45"
    by (simp add: upt_rec) (elim disjE; simp add: read_digit_def digit_byte_def digits_def)
  then show "read_digit (digit_byte d) = d" "digit_byte d \<noteq> 45" by blast+
qed

lemma read_number_pos:
  "t \<noteq> [] \<Longrightarrow> hd t \<noteq> 45 \<Longrightarrow> read_number base t = int (value_rev base (map read_digit (rev t)))"
  by (cases t) (simp_all add: read_number_def)

lemma read_number_text:
  assumes "1 < base" "base \<le> 16"
  shows "read_number base (number_text xx base) = sint xx"
proof -
  let ?ds = "digits_rev base (nat \<bar>sint xx\<bar>)"
  have d: "\<forall>d\<in>set ?ds. d < 16" using digits_less [OF assms(1)] assms(2) by (meson order_less_le_trans)
  then have m: "map (read_digit \<circ> digit_byte) ?ds = ?ds" by (intro map_idI) (simp add: read_digit_byte)
  then have v: "value_rev base (map (read_digit \<circ> digit_byte) ?ds) = nat \<bar>sint xx\<bar>" by (simp add: value_digits [OF assms(1)])
  have ne: "?ds \<noteq> []" by (subst digits_rev.simps) simp
  then have h: "last ?ds < 16" using d by simp
  show ?thesis
  proof (cases "sint xx < 0")
    case True
    then show ?thesis using v by (simp add: read_number_def number_text_def rev_map [symmetric])
  next
    case False
    have "hd (rev (map digit_byte ?ds)) \<noteq> 45" using read_digit_byte(2) [OF h] ne by (simp add: hd_rev last_map)
    with read_number_pos [of "rev (map digit_byte ?ds)" base] show ?thesis
      using False v ne by (simp add: number_text_def)
  qed
qed

text \<open>
  C28. \<open>printint\<close> returns for both bases that \<open>printf\<close> uses, never runs over its 16-byte buffer (at
  most 11 bytes are used), and the text it sends, read as a signed number in that base, is the argument,
  the most negative integer included.
\<close>

theorem printint_reads_back:
  assumes "base = 10 \<or> base = 16" "can_print s"
  shows "\<exists>t. printint xx base True s = Some (printed t s) \<and> length t \<le> 11 \<and> read_number (unat base) t = sint xx"
  using printint_result [OF assms] read_number_text [of "unat base" xx] assms(1) by auto

lemma zero_can_print: "can_print zero_state"
  by (simp add: can_print_def zero_state_def quiet_def)

theorem printint_reads_back_witness:
  "can_print zero_state \<and> (\<exists>t. printint 0x80000000 10 True zero_state = Some (printed t zero_state) \<and>
     length t \<le> 11 \<and> read_number (unat (10 :: u32)) t = sint (0x80000000 :: u32))"
  using printint_reads_back [of 10 zero_state "0x80000000"] zero_can_print by simp

section \<open>Formatting\<close>

text \<open>The text of a format, as a function.\<close>

definition ptr_text :: "u64 \<Rightarrow> u8 list" where
  "ptr_text x = bytes_of ''0x'' @ map (\<lambda>i. digits ! unat (drop_bit 60 (push_bit (4 * i) x))) [0..<16]"

fun format :: "u8 list \<Rightarrow> va_arg list \<Rightarrow> u8 list option" where
  "format [] ap = Some []"
| "format [c] ap = (if c = of_char CHR ''%'' then Some [] else Some [c])"
| "format (c # k # fmt) ap =
     (if c \<noteq> of_char CHR ''%'' then map_option (Cons c) (format (k # fmt) ap)
      else if k = of_char CHR ''d'' then
        (case ap of AInt x # ap \<Rightarrow> map_option (append (number_text x 10)) (format fmt ap) | _ \<Rightarrow> None)
      else if k = of_char CHR ''x'' then
        (case ap of AInt x # ap \<Rightarrow> map_option (append (number_text x 16)) (format fmt ap) | _ \<Rightarrow> None)
      else if k = of_char CHR ''p'' then
        (case ap of APtr x # ap \<Rightarrow> map_option (append (ptr_text x)) (format fmt ap) | _ \<Rightarrow> None)
      else if k = of_char CHR ''s'' then
        (case ap of AStr x # ap \<Rightarrow> map_option (append (case x of None \<Rightarrow> bytes_of ''(null)'' | Some t \<Rightarrow> t)) (format fmt ap)
         | _ \<Rightarrow> None)
      else if k = of_char CHR ''%'' then map_option (Cons k) (format fmt ap)
      else map_option (append [of_char CHR ''%'', k]) (format fmt ap))"

lemma printptr_loop_result:
  "can_print s \<Longrightarrow> printptr_loop n (push_bit (4 * j) x) s =
     Some (printed (map (\<lambda>i. digits ! unat (drop_bit 60 (push_bit (4 * i) x))) [j..<j + n]) s)"
proof (induction n arbitrary: j s)
  case (Suc n)
  have "push_bit 4 (push_bit (4 * j) x) = push_bit (4 * Suc j) x" by (simp add: push_bit_push_bit)
  moreover have "[j..<j + Suc n] = j # [Suc j..<Suc j + n]" by (simp add: upt_conv_Cons del: upt_Suc)
  ultimately show ?case using Suc.IH [of _ "Suc j"] Suc.prems
    by (simp add: consputc_result del: upt_Suc)
qed simp

lemma printptr_result: "can_print s \<Longrightarrow> printptr x s = Some (printed (ptr_text x) s)"
  using printptr_loop_result [of _ 16 0 x] by (simp add: printptr_def consputc_result ptr_text_def echo_def BACKSPACE_def)

declare printf_loop.simps(2) [simp del] format.simps(3) [simp del]

lemma printf_plain:
  "c \<noteq> of_char CHR ''%'' \<Longrightarrow> printf_loop (c # fmt) ap s = Option.bind (consputc (uint c) s) (printf_loop fmt ap)"
  by (simp add: printf_loop.simps(2))

lemma printf_loop_result:
  "can_print s \<Longrightarrow> printf_loop fmt ap s = map_option (\<lambda>t. printed t s) (format fmt ap)"
proof (induction fmt ap arbitrary: s rule: format.induct)
  case (2 c ap)
  then show ?case by (simp add: printf_loop.simps(2) consputc_result)
next
  case (3 c k fmt ap)
  consider "c \<noteq> of_char CHR ''%''" | "c = of_char CHR ''%''" "k = of_char CHR ''d''" | "c = of_char CHR ''%''" "k = of_char CHR ''x''"
    | "c = of_char CHR ''%''" "k = of_char CHR ''p''" | "c = of_char CHR ''%''" "k = of_char CHR ''s''" | "c = of_char CHR ''%''" "k = of_char CHR ''%''"
    | "c = of_char CHR ''%''" "k \<notin> {of_char CHR ''d'', of_char CHR ''x'', of_char CHR ''p'', of_char CHR ''s'', of_char CHR ''%''}" by auto
  then show ?case
  proof cases
    case 1
    then show ?thesis using 3(1) [OF 1, of "printed [c] s"] 3(8)
      by (simp add: printf_plain format.simps(3) consputc_result option.map_comp comp_def)
  next
    case 2
    then show ?thesis using 3(2) 3(8)
      by (cases ap) (auto simp: printf_loop.simps(2) format.simps(3) printint_result(1) option.map_comp comp_def split: va_arg.splits)
  next
    case 3
    then show ?thesis using "3.IH"(3) "3.prems"
      by (cases ap) (auto simp: printf_loop.simps(2) format.simps(3) printint_result(1) option.map_comp comp_def split: va_arg.splits)
  next
    case 4
    then show ?thesis using "3.IH"(4) "3.prems"
      by (cases ap) (auto simp: printf_loop.simps(2) format.simps(3) printptr_result option.map_comp comp_def split: va_arg.splits)
  next
    case 5
    then show ?thesis using "3.IH"(5) "3.prems"
      by (cases ap) (auto simp: printf_loop.simps(2) format.simps(3) consputs_result option.map_comp comp_def split: va_arg.splits)
  next
    case 6
    then show ?thesis using "3.IH"(6) "3.prems"
      by (simp add: printf_loop.simps(2) format.simps(3) consputc_result option.map_comp comp_def)
  next
    case 7
    then show ?thesis using "3.IH"(7) "3.prems"
      by (simp add: printf_loop.simps(2) format.simps(3) consputc_result option.map_comp comp_def)
  qed
qed simp

lemma printf_result:
  assumes "can_print s" "pr_locking s \<longrightarrow> free_lock PrLock (lk s)" "format fmt ap = Some t"
  shows "printf fmt ap s = Some (printed t s)"
proof (cases "pr_locking s")
  case True
  have q: "quiet (hart s) (lk s)" using assms(1) by (simp add: can_print_def)
  let ?k = "acquired (hart s) PrLock (lk s)"
  have c: "can_print (s\<lparr>lk := ?k\<rparr>)" using assms(1) q by (simp add: quiet_acquired can_print_def)
  have "rel PrLock (printed t (s\<lparr>lk := ?k\<rparr>)) = Some (printed t s)"
    using rel_acquired [of "printed t (s\<lparr>lk := ?k\<rparr>)" "lk s" PrLock] q assms(2) True by simp
  then show ?thesis
    using True assms(2) printf_loop_result [OF c] assms(3) by (simp add: printf_def acq_free)
next
  case False
  then show ?thesis using printf_loop_result [OF assms(1)] assms(3) by (simp add: printf_def)
qed

lemma procdump_result:
  assumes "can_print s" "pr_locking s \<longrightarrow> free_lock PrLock (lk s)"
  shows "\<exists>t. procdump s = Some (printed t s)"
proof -
  have "\<exists>t. procdump_loop ps s = Some (printed t s)"
    if "can_print s" "pr_locking s \<longrightarrow> free_lock PrLock (lk s)" for ps s
    using that
  proof (induction ps arbitrary: s)
    case (Cons p ps)
    have "\<exists>t. format (bytes_of ''%d %s %s'') [AInt (word_of_int (p_pid p)), AStr (Some (procdump_state (p_state p))),
        AStr (Some (p_name p))] = Some t"
      by (simp add: format.simps(3))
    then obtain t where t: "format (bytes_of ''%d %s %s'') [AInt (word_of_int (p_pid p)),
        AStr (Some (procdump_state (p_state p))), AStr (Some (p_name p))] = Some t" by blast
    note r = printf_result [OF Cons.prems t] printf_result [of "printed t s" "[10]" "[]" "[10]"]
    show ?case
      using r Cons.IH [of s] Cons.IH [of "printed (t @ [10]) s"] Cons.prems
      by (simp del: list.map) fastforce
  qed (metis printed_Nil procdump_loop.simps(1))
  from this [of "printed [10] s" "procs s"] show ?thesis
    using assms printf_result [of s "[10]" "[]" "[10]"] by (auto simp: procdump_def)
qed

section \<open>The line editor\<close>

interpretation cons_ring: ring_buffer INPUT_BUF_SIZE 7
  by unfold_locales (simp_all add: INPUT_BUF_SIZE_def)

interpretation uart_ring: ring_buffer UART_TX_BUF_SIZE 5
  by unfold_locales (simp_all add: UART_TX_BUF_SIZE_def)

text \<open>
  The console's input as two lists: the complete lines a reader may take, and the line being edited.
\<close>

definition lines :: "cons \<Rightarrow> u8 list" where
  "lines k = ring INPUT_BUF_SIZE (cons_buf k) (cons_r k) (cons_w k)"

definition editing :: "cons \<Rightarrow> u8 list" where
  "editing k = ring INPUT_BUF_SIZE (cons_buf k) (cons_w k) (cons_e k)"

definition cons_ok :: "cons \<Rightarrow> bool" where
  "cons_ok k \<longleftrightarrow> unat (cons_w k - cons_r k) \<le> unat (cons_e k - cons_r k) \<and>
     unat (cons_e k - cons_r k) \<le> 128 \<and> 10 \<notin> set (editing k)"

fun edit :: "int \<Rightarrow> u8 list \<times> u8 list \<Rightarrow> u8 list \<times> u8 list" where
  "edit c (com, ed) =
     (if c = 16 \<or> c = 0 then (com, ed)
      else if c = 21 then (com, [])
      else if c = 8 \<or> c = 127 then (com, butlast ed)
      else if length com + length ed < 128 then
        let b = (if c = 13 then 10 else word_of_int c) in
        if b = 10 \<or> b = 4 \<or> length com + length ed = 127 then (com @ ed @ [b], []) else (com, ed @ [b])
      else (com, ed))"

lemma cons_len:
  assumes "cons_ok k"
  shows "length (lines k) + length (editing k) = unat (cons_e k - cons_r k)"
  using assms cons_ring.ring_split(2) [of "cons_w k" "cons_r k" "cons_e k"]
  by (simp add: cons_ok_def lines_def editing_def)

lemma lines_simps [simp]:
  "lines (k\<lparr>cons_e := e\<rparr>) = lines k" by (simp add: lines_def)

lemma editing_back:
  assumes "cons_e k \<noteq> cons_w k"
  shows "editing (k\<lparr>cons_e := cons_e k - 1\<rparr>) = butlast (editing k)"
    "cons_buf k (unat ((cons_e k - 1) mod INPUT_BUF_SIZE)) = last (editing k)" "editing k \<noteq> []"
proof -
  have n: "cons_w k \<noteq> cons_e k" using assms by simp
  show "editing (k\<lparr>cons_e := cons_e k - 1\<rparr>) = butlast (editing k)"
    unfolding editing_def by (simp add: cons_ring.ring_butlast [OF n])
  show "cons_buf k (unat ((cons_e k - 1) mod INPUT_BUF_SIZE)) = last (editing k)"
    unfolding editing_def by (rule cons_ring.ring_last [OF n])
  show "editing k \<noteq> []" unfolding editing_def ring_Nil_iff by (rule n)
qed

lemma cons_ok_back:
  assumes "cons_ok k" "cons_e k \<noteq> cons_w k"
  shows "cons_ok (k\<lparr>cons_e := cons_e k - 1\<rparr>)"
proof -
  have "unat (cons_e k - cons_w k) \<noteq> 0" using assms(2) by (simp add: unat_eq_0)
  then have le: "unat (cons_w k - cons_r k) < unat (cons_e k - cons_r k)"
    using assms(1) cons_ring.ring_split(2) [of "cons_w k" "cons_r k" "cons_e k"] unfolding cons_ok_def by linarith
  then have "cons_e k - cons_r k \<noteq> 0" by auto
  then have "unat (cons_e k - 1 - cons_r k) = unat (cons_e k - cons_r k) - 1"
    using unat_minus_one [of "cons_e k - cons_r k"] by (simp add: algebra_simps)
  then show ?thesis
    using assms le editing_back(1) [OF assms(2)] by (auto simp: cons_ok_def dest: in_set_butlastD)
qed

lemma kill_line_result:
  assumes "can_print s" "cons_ok (cons s)"
  shows "\<exists>t. kill_line s = Some (printed t (upd_cons (\<lambda>k. k\<lparr>cons_e := cons_w k\<rparr>) s))"
  using assms
proof (induction "length (editing (cons s))" arbitrary: s rule: less_induct)
  case less
  show ?case
  proof (cases "cons_e (cons s) = cons_w (cons s)")
    case True
    then have "upd_cons (\<lambda>k. k\<lparr>cons_e := cons_w k\<rparr>) s = s" by (simp add: upd_cons_def flip: True)
    then show ?thesis using True by (subst kill_line.simps) (metis printed_Nil)
  next
    case False
    let ?t = "upd_cons (\<lambda>k. k\<lparr>cons_e := cons_e k - 1\<rparr>) s"
    note b = editing_back [OF False]
    have "last (editing (cons s)) \<noteq> 10" using b(3) less.prems(2) last_in_set by (fastforce simp: cons_ok_def)
    then have step: "kill_line s = kill_line (printed (echo BACKSPACE) ?t)"
      using False b(2) less.prems(1) by (subst kill_line.simps) (simp add: consputc_result)
    have "length (editing (cons (printed (echo BACKSPACE) ?t))) < length (editing (cons s))"
      using b by (simp add: upd_cons_def)
    from less.hyps [OF this] obtain t where
      "kill_line (printed (echo BACKSPACE) ?t) = Some (printed (echo BACKSPACE @ t) (upd_cons (\<lambda>k. k\<lparr>cons_e := cons_w k\<rparr>) ?t))"
      using less.prems cons_ok_back [OF less.prems(2) False] by auto
    then show ?thesis unfolding step by (auto simp: comp_def)
  qed
qed

text \<open>A byte typed when there is room, before and when it completes a line.\<close>

definition put_byte :: "u8 \<Rightarrow> cons \<Rightarrow> cons" where
  "put_byte b k = k\<lparr>cons_buf := (cons_buf k)(unat (cons_e k mod INPUT_BUF_SIZE) := b), cons_e := cons_e k + 1\<rparr>"

lemma put_byte_view:
  assumes "cons_ok k" "cons_e k - cons_r k < INPUT_BUF_SIZE"
  shows "lines (put_byte b k) = lines k" "editing (put_byte b k) = editing k @ [b]"
    "unat (cons_e (put_byte b k) - cons_r k) = Suc (unat (cons_e k - cons_r k))"
    "lines ((put_byte b k)\<lparr>cons_w := cons_e (put_byte b k)\<rparr>) = lines k @ editing k @ [b]"
proof -
  have l: "unat (cons_e k - cons_r k) < unat INPUT_BUF_SIZE" using assms(2) by (simp add: word_less_nat_alt)
  have w: "unat (cons_w k - cons_r k) \<le> unat (cons_e k - cons_r k)" using assms(1) by (simp add: cons_ok_def)
  show v: "lines (put_byte b k) = lines k" "editing (put_byte b k) = editing k @ [b]"
    using cons_ring.ring_split_push [OF w l, of "cons_buf k" b] by (simp_all add: lines_def editing_def put_byte_def)
  show n: "unat (cons_e (put_byte b k) - cons_r k) = Suc (unat (cons_e k - cons_r k))"
    using cons_ring.ring_push_full [OF l] by (simp add: put_byte_def)
  have "lines ((put_byte b k)\<lparr>cons_w := cons_e (put_byte b k)\<rparr>) =
      ring INPUT_BUF_SIZE (cons_buf (put_byte b k)) (cons_r k) (cons_e (put_byte b k))"
    by (simp add: lines_def put_byte_def)
  also have "\<dots> = lines (put_byte b k) @ editing (put_byte b k)"
    using cons_ring.ring_split(1) [of "cons_w k" "cons_r k" "cons_e (put_byte b k)"] w n
    by (simp add: lines_def editing_def put_byte_def)
  finally show "lines ((put_byte b k)\<lparr>cons_w := cons_e (put_byte b k)\<rparr>) = lines k @ editing k @ [b]" by (simp add: v)
qed

text \<open>The handler's switch, run with the lock held.\<close>

definition intr_body :: "int \<Rightarrow> kstate \<Rightarrow> kstate option" where
  "intr_body c s =
     (if c = 16 then procdump s
      else if c = 21 then kill_line s
      else if c = 8 \<or> c = 0x7f then
        (if cons_e (cons s) \<noteq> cons_w (cons s)
         then consputc BACKSPACE (upd_cons (\<lambda>c. c\<lparr>cons_e := cons_e c - 1\<rparr>) s)
         else Some s)
      else if c \<noteq> 0 \<and> cons_e (cons s) - cons_r (cons s) < INPUT_BUF_SIZE then do {
        let c = (if c = 13 then 10 else c);
        s \<leftarrow> consputc c s;
        let s = upd_cons (put_byte (word_of_int c)) s;
        if c = 10 \<or> c = 4 \<or> cons_e (cons s) - cons_r (cons s) = INPUT_BUF_SIZE
        then wakeup ChanConsR (upd_cons (\<lambda>k. k\<lparr>cons_w := cons_e k\<rparr>) s)
        else Some s
      } else Some s)"

lemma consoleintr_body: "consoleintr c s = do { s \<leftarrow> acq ConsLock s; s \<leftarrow> intr_body c s; rel ConsLock s }"
proof -
  have e: "upd_cons (\<lambda>k. k\<lparr>cons_buf := (cons_buf k)(unat (cons_e k mod INPUT_BUF_SIZE) := b), cons_e := cons_e k + 1\<rparr>) t
      = upd_cons (put_byte b) t" for b t
    by (simp add: upd_cons_def put_byte_def)
  show ?thesis unfolding consoleintr_def intr_body_def e ..
qed

lemma type_byte:
  assumes "can_print s" "plocks_free s" "length (procs s) = NPROC" "cons_ok (cons s)"
    "cons_e (cons s) - cons_r (cons s) < INPUT_BUF_SIZE" "0 < c" "c < 256" "c \<notin> {8, 16, 21, 127}"
  shows "\<exists>s'. intr_body c s = Some s' \<and> cons_ok (cons s') \<and> lk s' = lk s \<and> hart s' = hart s \<and>
    (lines (cons s'), editing (cons s')) = edit c (lines (cons s), editing (cons s))"
proof -
  let ?c = "if c = 13 then 10 else c" let ?b = "word_of_int ?c :: u8" and ?k = "cons s"
  note v = put_byte_view [OF assms(4,5), of ?b]
  have inj: "word_of_int c = (word_of_int d :: u8) \<longleftrightarrow> c = d" if "0 \<le> d" "d < 256" for d
    using that assms(6,7) by (auto simp: word_of_int_eq_iff take_bit_int_eq_self)
  have b: "?b = 10 \<longleftrightarrow> ?c = 10" "?b = 4 \<longleftrightarrow> ?c = 4" using inj [of 10] inj [of 4] by auto
  have b': "(if c = 13 then 10 else word_of_int c) = ?b" by simp
  have len: "length (lines ?k) + length (editing ?k) = unat (cons_e ?k - cons_r ?k)" by (rule cons_len [OF assms(4)])
  have less: "unat (cons_e ?k - cons_r ?k) < 128" using assms(5) by (simp add: word_less_nat_alt INPUT_BUF_SIZE_def)
  have full: "cons_e (put_byte ?b ?k) - cons_r ?k = INPUT_BUF_SIZE \<longleftrightarrow> unat (cons_e ?k - cons_r ?k) = 127"
    using v(3) by (simp add: word_unat_eq_iff INPUT_BUF_SIZE_def)
  have r: "cons_r (put_byte ?b ?k) = cons_r ?k" "cons_w (put_byte ?b ?k) = cons_w ?k" by (simp_all add: put_byte_def)
  let ?done = "?c = 10 \<or> ?c = 4 \<or> unat (cons_e ?k - cons_r ?k) = 127"
  have ed: "edit c (lines ?k, editing ?k) = (if ?done then (lines ?k @ editing ?k @ [?b], []) else (lines ?k, editing ?k @ [?b]))"
    using assms(6,8) len less b unfolding edit.simps b' Let_def by auto
  have p: "consputc ?c s = Some (printed (echo ?c) s)" by (rule consputc_result [OF assms(1)])
  show ?thesis
  proof (cases ?done)
    case True
    let ?t = "printed (echo ?c) (upd_cons (\<lambda>k. k\<lparr>cons_w := cons_e k\<rparr>) (upd_cons (put_byte ?b) s))"
    have "intr_body c s = wakeup ChanConsR ?t"
      using assms(5,6,8) True p full r by (auto simp: intr_body_def)
    moreover have "wakeup ChanConsR ?t = Some (?t\<lparr>procs := woken ChanConsR (curproc s) (procs s)\<rparr>)"
      using wakeup_result [of ?t] assms(2,3) by (simp add: plocks_free_def)
    moreover have "cons_ok ((put_byte ?b ?k)\<lparr>cons_w := cons_e (put_byte ?b ?k)\<rparr>)"
      using v(3) less r by (simp add: cons_ok_def editing_def)
    ultimately show ?thesis
      using ed True v(4) by (simp add: editing_def)
  next
    case False
    then have "intr_body c s = Some (printed (echo ?c) (upd_cons (put_byte ?b) s))"
      using assms(5,6,8) p full r by (auto simp: intr_body_def)
    moreover have "cons_ok (put_byte ?b ?k)"
      using v less r assms(4) False b by (simp add: cons_ok_def)
    ultimately show ?thesis using ed False v(1,2) by simp
  qed
qed

lemma intr_body_result:
  assumes "can_print s" "plocks_free s" "length (procs s) = NPROC" "cons_ok (cons s)"
    "pr_locking s \<longrightarrow> free_lock PrLock (lk s)" "0 \<le> c" "c < 256"
  shows "\<exists>s'. intr_body c s = Some s' \<and> cons_ok (cons s') \<and> lk s' = lk s \<and> hart s' = hart s \<and>
    (lines (cons s'), editing (cons s')) = edit c (lines (cons s), editing (cons s))"
proof -
  let ?k = "cons s"
  have len: "length (lines ?k) + length (editing ?k) = unat (cons_e ?k - cons_r ?k)" by (rule cons_len [OF assms(4)])
  consider "c = 16" | "c = 21" | "c = 8 \<or> c = 127" | "c = 0"
    | "0 < c" "c \<notin> {8, 16, 21, 127}" "\<not> cons_e ?k - cons_r ?k < INPUT_BUF_SIZE"
    | "0 < c" "c \<notin> {8, 16, 21, 127}" "cons_e ?k - cons_r ?k < INPUT_BUF_SIZE" using assms(6) by fastforce
  then show ?thesis
  proof cases
    case 1
    then show ?thesis using procdump_result [OF assms(1,5)] assms(4) by (auto simp: intr_body_def)
  next
    case 2
    obtain t where "kill_line s = Some (printed t (upd_cons (\<lambda>k. k\<lparr>cons_e := cons_w k\<rparr>) s))"
      using kill_line_result [OF assms(1,4)] by blast
    then show ?thesis using 2 assms(4) by (auto simp: intr_body_def cons_ok_def editing_def)
  next
    case 3
    show ?thesis
    proof (cases "cons_e ?k = cons_w ?k")
      case True
      then show ?thesis using 3 assms(4) by (auto simp: intr_body_def editing_def)
    next
      case False
      then show ?thesis
        using 3 assms(1) cons_ok_back [OF assms(4) False] editing_back(1) [OF False]
        by (auto simp: intr_body_def consputc_result)
    qed
  next
    case 4
    then show ?thesis using assms(4) by (simp add: intr_body_def)
  next
    case 5
    then show ?thesis using assms(4) len by (simp add: intr_body_def word_less_nat_alt INPUT_BUF_SIZE_def)
  next
    case 6
    then show ?thesis using type_byte [OF assms(1-4) 6(3,1) assms(7) 6(2)] by blast
  qed
qed

text \<open>
  C26. The console's interrupt handler implements a line editor. For every byte received, \<open>consoleintr\<close>
  returns with all locks free and has changed the ring buffer exactly as the editor changes its two
  lists: a byte is added to the line being edited, newline, end of file or a full buffer hands the line
  over to the readers, backspace and control-U erase from the line being edited only, and with 128
  bytes waiting input is dropped. The indices keep their order and distance.
\<close>

theorem consoleintr_refines_editor:
  assumes "unlocked s" "\<not> panicked s" "length (procs s) = NPROC" "cons_ok (cons s)" "0 \<le> c" "c < 256"
  shows "\<exists>s'. consoleintr c s = Some s' \<and> unlocked s' \<and> cons_ok (cons s') \<and>
    (lines (cons s'), editing (cons s')) = edit c (lines (cons s), editing (cons s))"
proof -
  let ?t = "s\<lparr>lk := acquired (hart s) ConsLock (lk s)\<rparr>"
  have u: "quiet (hart s) (lk s)" "\<And>l. free_lock l (lk s)" using assms(1) by (auto simp: unlocked_def)
  have "can_print ?t" using u assms(2) by (simp add: can_print_def quiet_acquired)
  moreover have "plocks_free ?t" using assms(1) by (intro plocks_free_acquired) simp_all
  moreover have "pr_locking ?t \<longrightarrow> free_lock PrLock (lk ?t)" using u by simp
  ultimately obtain s' where s': "intr_body c ?t = Some s'" "cons_ok (cons s')" "lk s' = lk ?t" "hart s' = hart ?t"
      "(lines (cons s'), editing (cons s')) = edit c (lines (cons s), editing (cons s))"
    using intr_body_result [of ?t c] assms(3-6) by auto
  then have "rel ConsLock s' = Some (s'\<lparr>lk := lk s\<rparr>)" using rel_acquired [of s' "lk s" ConsLock] u by simp
  then have "consoleintr c s = Some (s'\<lparr>lk := lk s\<rparr>)"
    using s'(1) u(2) by (simp add: consoleintr_body acq_free)
  then show ?thesis using s' assms(1) by (simp add: unlocked_def)
qed

theorem consoleintr_refines_editor_witness:
  "\<exists>s'. consoleintr 104 zero_state = Some s' \<and> unlocked s' \<and> cons_ok (cons s') \<and>
    (lines (cons s'), editing (cons s')) = edit 104 (lines (cons zero_state), editing (cons zero_state))"
proof (rule consoleintr_refines_editor)
  show "cons_ok (cons zero_state)" by (simp add: cons_ok_def zero_state_def editing_def)
  show "\<not> panicked zero_state" by (simp add: zero_state_def)
qed (simp_all add: zero_state_unlocked zero_state_procs)

section \<open>The transmit ring\<close>

definition tx_queue :: "kstate \<Rightarrow> u8 list" where
  "tx_queue s = ring UART_TX_BUF_SIZE (tx_buf (uart s)) (tx_r (uart s)) (tx_w (uart s))"

definition tx_ok :: "kstate \<Rightarrow> bool" where
  "tx_ok s \<longleftrightarrow> unat (tx_w (uart s) - tx_r (uart s)) \<le> 32"

lemma uartstart_result:
  assumes "plocks_free s" "length (procs s) = NPROC" "tx_ok s"
  shows "\<exists>s'. uartstart s = Some s' \<and> tx_ok s' \<and> tx_sent s' @ tx_queue s' = tx_sent s @ tx_queue s \<and>
    lk s' = lk s \<and> hart s' = hart s \<and> tx_w (uart s') = tx_w (uart s) \<and> (tx_queue s' = [] \<or> tx_room s' = 0)"
  using assms
proof (induction "tx_room s" arbitrary: s)
  case 0
  then show ?case by (subst uartstart.simps) (auto simp: tx_queue_def)
next
  case (Suc n)
  show ?case
  proof (cases "tx_w (uart s) = tx_r (uart s)")
    case True
    then show ?thesis using Suc.prems(3) by (subst uartstart.simps) (simp add: tx_queue_def)
  next
    case False
    let ?c = "tx_buf (uart s) (unat (tx_r (uart s) mod UART_TX_BUF_SIZE))"
    let ?t = "s\<lparr>uart := (uart s)\<lparr>tx_r := tx_r (uart s) + 1\<rparr>\<rparr>"
    let ?u = "write_THR ?c (?t\<lparr>procs := woken ChanUartR (curproc s) (procs s)\<rparr>)"
    have "wakeup ChanUartR ?t = Some (?t\<lparr>procs := woken ChanUartR (curproc s) (procs s)\<rparr>)"
      using wakeup_result [of ?t] Suc.prems by (simp add: plocks_free_def)
    then have step: "uartstart s = uartstart ?u"
      using False Suc.hyps(2) by (subst uartstart.simps) simp
    have n: "tx_r (uart s) \<noteq> tx_w (uart s)" using False by simp
    have q: "tx_queue s = ?c # tx_queue ?u"
      using uart_ring.ring_pop [OF n, of "tx_buf (uart s)"] by (simp add: tx_queue_def write_THR_def)
    have "tx_ok ?u" using Suc.prems(3) uart_ring.ring_pop_length [OF n] by (simp add: tx_ok_def write_THR_def)
    moreover have "n = tx_room ?u" using Suc.hyps(2) by (simp add: write_THR_def)
    moreover have "plocks_free ?u" "length (procs ?u) = NPROC"
      using Suc.prems(1,2) by (simp_all add: plocks_free_def write_THR_def)
    ultimately obtain s' where "uartstart ?u = Some s'" "tx_ok s'" "tx_sent s' @ tx_queue s' = tx_sent ?u @ tx_queue ?u"
        "lk s' = lk ?u" "hart s' = hart ?u" "tx_w (uart s') = tx_w (uart ?u)" "tx_queue s' = [] \<or> tx_room s' = 0"
      using Suc.hyps(1) by blast
    then show ?thesis unfolding step using q by (auto simp: write_THR_def)
  qed
qed

text \<open>
  C27. The transmit ring is a queue that loses nothing: with room in the ring \<open>uartputc\<close> returns with its
  byte last in the stream of bytes sent and queued, all others before it in their order; and it leaves
  bytes queued only when the device is busy.
\<close>

theorem uartputc_keeps_stream:
  assumes "unlocked s" "\<not> panicked s" "length (procs s) = NPROC" "tx_ok s" "length (tx_queue s) < 32"
  shows "\<exists>s'. uartputc c s = Some (Returned () s') \<and> tx_sent s' @ tx_queue s' = tx_sent s @ tx_queue s @ [c] \<and>
    unlocked s' \<and> tx_ok s' \<and> (tx_queue s' = [] \<or> tx_room s' = 0)"
proof -
  let ?u = "uart s"
  let ?v = "?u\<lparr>tx_buf := (tx_buf ?u)(unat (tx_w ?u mod UART_TX_BUF_SIZE) := c), tx_w := tx_w ?u + 1\<rparr>"
  let ?t = "s\<lparr>lk := acquired (hart s) UartLock (lk s), uart := ?v\<rparr>"
  have n: "unat (tx_w ?u - tx_r ?u) < unat UART_TX_BUF_SIZE"
    using assms(5) by (simp add: tx_queue_def UART_TX_BUF_SIZE_def)
  then have room: "tx_w ?u \<noteq> tx_r ?u + UART_TX_BUF_SIZE" by auto
  have u: "quiet (hart s) (lk s)" "\<And>l. free_lock l (lk s)" using assms(1) by (auto simp: unlocked_def)
  have q: "tx_queue ?t = tx_queue s @ [c]" "tx_ok ?t"
    using uart_ring.ring_push [OF n, of "tx_buf ?u" c] uart_ring.ring_push_full [OF n] n
    by (simp_all add: tx_queue_def tx_ok_def UART_TX_BUF_SIZE_def)
  have "plocks_free (s\<lparr>lk := acquired (hart s) UartLock (lk s)\<rparr>)" using assms(1) by (intro plocks_free_acquired) simp_all
  then have "plocks_free ?t" by (simp add: plocks_free_def)
  then obtain s' where s': "uartstart ?t = Some s'" "tx_ok s'" "tx_sent s' @ tx_queue s' = tx_sent s @ tx_queue s @ [c]"
      "lk s' = acquired (hart s) UartLock (lk s)" "hart s' = hart s" "tx_queue s' = [] \<or> tx_room s' = 0"
    using uartstart_result [of ?t] q assms(3) by auto
  then have "rel UartLock s' = Some (s'\<lparr>lk := lk s\<rparr>)" using rel_acquired [of s' "lk s" UartLock] u by simp
  then have "uartputc c s = Some (Returned () (s'\<lparr>lk := lk s\<rparr>))"
    using s'(1) room u(2) assms(2) by (simp add: uartputc_def uartputc_wait_def acq_free)
  moreover have "tx_queue (s'\<lparr>lk := lk s\<rparr>) = tx_queue s'" "tx_ok (s'\<lparr>lk := lk s\<rparr>) = tx_ok s'"
    by (simp_all add: tx_queue_def tx_ok_def)
  ultimately show ?thesis using s' assms(1) by (simp add: unlocked_def)
qed

theorem uartputc_keeps_stream_witness:
  "\<exists>s'. uartputc 104 zero_state = Some (Returned () s') \<and>
    tx_sent s' @ tx_queue s' = tx_sent zero_state @ tx_queue zero_state @ [104] \<and>
    unlocked s' \<and> tx_ok s' \<and> (tx_queue s' = [] \<or> tx_room s' = 0)"
proof (rule uartputc_keeps_stream)
  show "\<not> panicked zero_state" "tx_ok zero_state" "length (tx_queue zero_state) < 32"
    by (simp_all add: zero_state_def tx_ok_def tx_queue_def)
qed (simp_all add: zero_state_unlocked zero_state_procs)

end
