(* ===== verification/FsAlloc.thy ===== *)
theory FsAlloc
  imports FsProps ConsoleProps
begin

text \<open>
  Block allocation in \<^verbatim>\<open>kernel/fs.c\<close>: \<open>balloc\<close> always returns, with the first free block of the bitmap
  marked and zeroed, or with 0 when there is none.
\<close>

section \<open>The bitmap\<close>

definition block_used :: "kstate \<Rightarrow> u32 \<Rightarrow> bool" where
  "block_used s b \<longleftrightarrow> bit (bview s (BBLOCK b (sb s)) (unat (b mod BPB) div 8)) (unat (b mod BPB) mod 8)"

text \<open>
  The bitmap lies outside the log, the blocks of the log and of the bitmap are marked as used, and the
  number of blocks does not come so close to \<open>2 ^ 31\<close> that the loop's counter, a C int, overflows.
\<close>

definition bitmap_ok :: "u32 \<Rightarrow> kstate \<Rightarrow> bool" where
  "bitmap_ok st s \<longleftrightarrow> unat (sb_size (sb s)) + 8192 \<le> 2 ^ 31 \<and>
     (\<forall>b < sb_size (sb s). BBLOCK b (sb s) \<notin> log_region st \<and>
        (block_used s b \<or> b \<notin> log_region st \<and> (\<forall>c < sb_size (sb s). b \<noteq> BBLOCK c (sb s))))"

lemma and_bit_iff: "(w::u8) AND push_bit k 1 = 0 \<longleftrightarrow> \<not> bit w k"
  "(w::u8) AND 2 ^ k = 0 \<longleftrightarrow> \<not> bit w k"
  by (simp_all add: bit_iff_and_push_bit_not_eq_0)

lemma balloc_scan_Some:
  assumes "balloc_scan d sz b [i..<n] = Some bi"
  shows "i \<le> bi \<and> bi < n \<and> b + of_nat bi < sz \<and> \<not> bit (d (bi div 8)) (bi mod 8) \<and>
    (\<forall>j. i \<le> j \<longrightarrow> j < bi \<longrightarrow> bit (d (j div 8)) (j mod 8))"
  using assms
proof (induction "n - i" arbitrary: i)
  case (Suc m)
  then have i: "[i..<n] = i # [Suc i..<n]" by (simp add: upt_conv_Cons)
  show ?case
  proof (cases "bit (d (i div 8)) (i mod 8)")
    case True
    then have "balloc_scan d sz b [Suc i..<n] = Some bi" using Suc.prems by (simp add: i and_bit_iff split: if_splits)
    moreover have "m = n - Suc i" using Suc.hyps(2) by simp
    ultimately have ih: "Suc i \<le> bi \<and> bi < n \<and> b + of_nat bi < sz \<and> \<not> bit (d (bi div 8)) (bi mod 8) \<and>
        (\<forall>j. Suc i \<le> j \<longrightarrow> j < bi \<longrightarrow> bit (d (j div 8)) (j mod 8))" by (rule Suc.hyps(1) [rotated])
    have "bit (d (j div 8)) (j mod 8)" if "i \<le> j" "j < bi" for j
      using ih that True by (cases "j = i") auto
    with ih show ?thesis by auto
  next
    case False
    then have "bi = i" "b + of_nat i < sz" using Suc.prems by (auto simp: i and_bit_iff split: if_splits)
    then show ?thesis using Suc.hyps(2) False by auto
  qed
qed simp

lemma balloc_scan_None:
  assumes "balloc_scan d sz b [i..<n] = None" "i \<le> j" "j < n" "\<forall>k\<le>j. b + of_nat k < sz"
  shows "bit (d (j div 8)) (j mod 8)"
  using assms
proof (induction "n - i" arbitrary: i)
  case (Suc m)
  then have i: "[i..<n] = i # [Suc i..<n]" by (simp add: upt_conv_Cons)
  have "b + of_nat i < sz" using Suc.prems(2,4) by blast
  then have "bit (d (i div 8)) (i mod 8)" "balloc_scan d sz b [Suc i..<n] = None"
    using Suc.prems(1) by (auto simp: i and_bit_iff split: if_splits)
  moreover have "m = n - Suc i" using Suc.hyps(2) by simp
  ultimately show ?case using Suc.hyps(1) [of "Suc i"] Suc.prems(2-4) by (cases "j = i") auto
qed simp

text \<open>Block \<open>bi\<close> of the bitmap block that starts at \<open>b\<close>.\<close>

lemma bitmap_index:
  assumes "8192 dvd unat (b::u32)" "unat b + 8192 \<le> 2 ^ 32" "bi < 8192"
  shows "unat (b + of_nat bi) = unat b + bi" "BBLOCK (b + of_nat bi) v = BBLOCK b v" "unat ((b + of_nat bi) mod BPB) = bi"
proof -
  obtain k where k: "unat b = 8192 * k" using assms(1) by blast
  show u: "unat (b + of_nat bi) = unat b + bi"
    using assms(2,3) by (subst unat_add_no_overflow) (simp_all add: unat_of_nat)
  have "unat ((b + of_nat bi) div BPB) = unat (b div BPB)"
    using u k assms(3) by (simp add: unat_div_distrib BPB_def)
  then have "(b + of_nat bi) div BPB = b div BPB" by (simp only: word_unat_eq_iff)
  then show "BBLOCK (b + of_nat bi) v = BBLOCK b v" by (simp add: BBLOCK_def)
  show "unat ((b + of_nat bi) mod BPB) = bi" using u k assms(3) by (simp add: unat_mod BPB_def)
qed

section \<open>balloc\<close>

lemma set_block_data: "b_data (bufs s i) = d \<Longrightarrow> set_block i f s = set_data i (f d) s"
  by (simp add: set_block_def set_data_def upd_buf_def)

definition zeroed :: "block \<Rightarrow> block" where
  "zeroed d = (\<lambda>i. if i < BSIZE then 0 else d i)"

lemma bzero_result:
  assumes "in_txn st s" "txn_room 1 s" "b \<notin> log_region st"
  obtains s' where "bzero ROOTDEV b s = Some s'" "in_txn st s'" "txn_frame s s'" "bview s' = (bview s)(b := zeroed (bview s b))"
    "txn_blocks s' = txn_add b (txn_blocks s)"
proof (rule change_logged [OF assms])
  fix i s1
  assume *: "bread ROOTDEV b s = Some (i, s1)" "b_data (bufs s1 i) = bview s b"
    "\<And>d. \<exists>s2 s3. log_write i (set_data i d s1) = Some s2 \<and> brelse i s2 = Some s3 \<and> in_txn st s3 \<and> txn_frame s s3 \<and>
       bview s3 = (bview s)(b := d) \<and> txn_blocks s3 = txn_add b (txn_blocks s)"
  obtain s2 s3 where s3: "log_write i (set_data i (zeroed (bview s b)) s1) = Some s2" "brelse i s2 = Some s3" "in_txn st s3"
    "txn_frame s s3" "bview s3 = (bview s)(b := zeroed (bview s b))" "txn_blocks s3 = txn_add b (txn_blocks s)"
    using *(3) by blast
  moreover have "bzero ROOTDEV b s = Some s3"
    using *(1) s3(1,2) set_block_data [OF *(2), of zeroed] by (simp add: bzero_def zeroed_def [abs_def])
  ultimately show thesis using that by blast
qed

definition set_used :: "nat \<Rightarrow> block \<Rightarrow> block" where
  "set_used bi d = d(bi div 8 := d (bi div 8) OR push_bit (bi mod 8) 1)"

lemma bit_set_used: "bit (set_used bi d (j div 8)) (j mod 8) \<longleftrightarrow> bit (d (j div 8)) (j mod 8) \<or> j = bi"
proof -
  have "j = bi \<longleftrightarrow> j div 8 = bi div 8 \<and> j mod 8 = bi mod 8" by (metis div_mult_mod_eq)
  then show ?thesis by (auto simp: set_used_def bit_simps)
qed

text \<open>The state after block \<open>b\<close> has been taken.\<close>

definition took :: "u32 \<Rightarrow> u32 \<Rightarrow> kstate \<Rightarrow> kstate \<Rightarrow> bool" where
  "took st b s s' \<longleftrightarrow> in_txn st s' \<and> disk s' = disk s \<and> sb s' = sb s \<and> lg_size (klog s') = lg_size (klog s) \<and>
     bview s' = (bview s)(BBLOCK b (sb s) := set_used (unat (b mod BPB)) (bview s (BBLOCK b (sb s))), b := zeroed (bview s b)) \<and>
     set (txn_blocks s') = set (txn_blocks s) \<union> {BBLOCK b (sb s), b}"

lemma set_txn_add [simp]: "set (txn_add b bs) = insert b (set bs)"
  by (auto simp: txn_add_def)

lemma txn_room_mono: "txn_room n s \<Longrightarrow> m \<le> n \<Longrightarrow> txn_room m s"
  by (simp add: txn_room_def)

lemma length_txn_blocks: "in_txn st s \<Longrightarrow> lg_n (klog s) = int (length (txn_blocks s))"
  by (simp add: txn_blocks_def in_txn_def)

lemma txn_room_step:
  assumes "in_txn st s" "in_txn st s'" "txn_frame s s'" "txn_blocks s' = txn_add b (txn_blocks s)" "txn_room (Suc n) s"
  shows "txn_room n s'"
  using assms length_txn_blocks [OF assms(1)] length_txn_blocks [OF assms(2)]
  by (auto simp: txn_room_def txn_frame_def txn_add_def split: if_splits)

lemma take_block:
  assumes "in_txn st s" "txn_room 2 s" "bitmap_ok st s" "b < sb_size (sb s)" "\<not> block_used s b"
  obtains i s1 s2 s3 s4 where "bread ROOTDEV (BBLOCK b (sb s)) s = Some (i, s1)" "sb s1 = sb s"
    "b_data (bufs s1 i) = bview s (BBLOCK b (sb s))"
    "log_write i (set_block i (set_used (unat (b mod BPB))) s1) = Some s2" "brelse i s2 = Some s3"
    "bzero ROOTDEV b s3 = Some s4" "took st b s s4"
proof -
  let ?m = "BBLOCK b (sb s)"
  have b: "?m \<notin> log_region st" "b \<notin> log_region st" "b \<noteq> ?m"
    using assms(3-5) unfolding bitmap_ok_def by blast+
  show thesis
  proof (rule change_logged [OF assms(1) txn_room_mono [OF assms(2)] b(1)])
    fix i s1
    assume *: "bread ROOTDEV ?m s = Some (i, s1)" "b_data (bufs s1 i) = bview s ?m" "bio_frame s s1"
      "\<And>d. \<exists>s2 s3. log_write i (set_data i d s1) = Some s2 \<and> brelse i s2 = Some s3 \<and> in_txn st s3 \<and> txn_frame s s3 \<and>
         bview s3 = (bview s)(?m := d) \<and> txn_blocks s3 = txn_add ?m (txn_blocks s)"
    let ?d = "set_used (unat (b mod BPB)) (bview s ?m)"
    obtain s2 s3 where s3: "log_write i (set_data i ?d s1) = Some s2" "brelse i s2 = Some s3" "in_txn st s3"
      "txn_frame s s3" "bview s3 = (bview s)(?m := ?d)" "txn_blocks s3 = txn_add ?m (txn_blocks s)"
      using *(4) by blast
    have room: "txn_room 1 s3" using txn_room_step [OF assms(1) s3(3,4,6), of 1] assms(2) by (simp add: numeral_2_eq_2)
    show thesis
    proof (rule bzero_result [OF s3(3) room b(2)])
      fix s4
      assume h: "bzero ROOTDEV b s3 = Some s4" "in_txn st s4" "txn_frame s3 s4"
        "bview s4 = (bview s3)(b := zeroed (bview s3 b))" "txn_blocks s4 = txn_add b (txn_blocks s3)"
      have f: "txn_frame s s4" by (rule txn_frame_trans [OF s3(4) h(3)])
      have "took st b s s4"
        using h(2,4,5) s3(5,6) txn_frame_fields(4,8) [OF f] b(3) f by (auto simp: took_def txn_frame_def)
      then show thesis
        using that *(1,2) s3(1,2) h(1) set_block_data [OF *(2)] bio_frame_fields(5) [OF *(3)] by simp
    qed
  qed simp
qed

definition no_blocks :: "u8 list" where
  "no_blocks = bytes_of ''balloc: out of blocks'' @ [10]"

definition untouched :: "u32 \<Rightarrow> kstate \<Rightarrow> kstate \<Rightarrow> bool" where
  "untouched st s s' \<longleftrightarrow> in_txn st s' \<and> bview s' = bview s \<and> disk s' = disk s \<and> sb s' = sb s \<and> txn_blocks s' = txn_blocks s"

lemma in_txn_printed: "in_txn st (printed t s) = in_txn st s" "bview (printed t s) = bview s"
proof -
  have r: "refs (printed t s) = refs s" "blocked (printed t s) = blocked s" and v: "bview (printed t s) = bview s"
    by (simp_all add: printed_def refs_def blocked_def bview_def fun_eq_iff cong: option.case_cong)
  have "cache_good (printed t s) = cache_good s"
    by (simp add: printed_def cache_good_def cache_ok_def running_def unlocked_def)
  with r have "idle_cache P (printed t s) = idle_cache P s" for P by (simp add: idle_cache_def)
  then show "in_txn st (printed t s) = in_txn st s" by (simp add: in_txn_def log_of_def txn_blocks_def) (simp add: printed_def)
  show "bview (printed t s) = bview s" by (rule v)
qed

lemma format_plain: "37 \<notin> set fmt \<Longrightarrow> format fmt ap = Some fmt"
proof (induction fmt)
  case (Cons c fmt)
  then show ?case by (cases fmt) (auto simp: of_char_def format.simps(3))
qed simp

lemma format_no_blocks: "format no_blocks [] = Some no_blocks"
  by (rule format_plain) (simp add: no_blocks_def of_char_def)

lemma balloc_out:
  assumes "in_txn st s" "\<not> panicked s"
  shows "printf no_blocks [] s = Some (printed no_blocks s)" "untouched st s (printed no_blocks s)"
proof -
  have u: "unlocked s" using assms(1) by (auto simp: in_txn_def idle_cache_def cache_good_def running_def)
  have p: "can_print s" using u assms(2) by (simp add: can_print_def unlocked_def)
  have l: "pr_locking s \<longrightarrow> free_lock PrLock (lk s)" using u by (simp add: unlocked_def)
  show "printf no_blocks [] s = Some (printed no_blocks s)" using p l format_no_blocks by (rule printf_result)
  show "untouched st s (printed no_blocks s)"
    using assms(1) by (simp add: untouched_def in_txn_printed) (simp add: printed_def txn_blocks_def)
qed

lemma bio_frame_panicked:
  assumes "bio_frame s s'"
  shows "panicked s' = panicked s"
proof -
  have "s'\<lparr>bufs := bufs s, disk := disk s, dwrites := dwrites s, procs := procs s\<rparr> = s" using assms by (simp add: bio_frame_def)
  from arg_cong [OF this, of panicked] show ?thesis by simp
qed

lemma block_used_cong: "bview s' = bview s \<Longrightarrow> sb s' = sb s \<Longrightarrow> block_used s' = block_used s"
  by (rule ext) (simp only: block_used_def)

lemma bitmap_ok_cong: "bview s' = bview s \<Longrightarrow> sb s' = sb s \<Longrightarrow> bitmap_ok st s' = bitmap_ok st s"
  by (simp only: bitmap_ok_def block_used_cong [of s' s])

lemma balloc_from_result:
  assumes "in_txn st s" "txn_room 2 s" "bitmap_ok st s" "\<not> panicked s" "8192 dvd unat b"
    and "\<forall>c<b. c < sb_size (sb s) \<longrightarrow> block_used s c"
  shows "(\<exists>c s'. balloc_from ROOTDEV b s = Some (c, s') \<and> c < sb_size (sb s) \<and> \<not> block_used s c \<and>
      (\<forall>d<c. block_used s d) \<and> took st c s s') \<or>
    ((\<forall>c < sb_size (sb s). block_used s c) \<and> (\<exists>s'. balloc_from ROOTDEV b s = Some (0, s') \<and> untouched st s s'))"
  using assms
proof (induction "unat (sb_size (sb s)) - unat b" arbitrary: b s rule: less_induct)
  case less
  let ?sz = "sb_size (sb s)" and ?m = "BBLOCK b (sb s)"
  show ?case
  proof (cases "b < ?sz")
    case False
    then have "balloc_from ROOTDEV b s = Some (0, printed no_blocks s)"
      using balloc_out(1) [OF less.prems(1,4)] by (subst balloc_from.simps) (simp add: no_blocks_def)
    moreover have "block_used s c" if "c < ?sz" for c using that False less.prems(6) by force
    ultimately show ?thesis using balloc_out(2) [OF less.prems(1,4)] by blast
  next
    case True
    have size: "unat ?sz + 8192 \<le> 2 ^ 31" "unat b < unat ?sz"
      using less.prems(3) True by (auto simp: bitmap_ok_def word_less_nat_alt)
    then have "unat b + 8192 \<le> 2 ^ 32" by simp
    note idx = bitmap_index [OF less.prems(5) this]
    have used: "block_used s (b + of_nat bi) = bit (bview s ?m (bi div 8)) (bi mod 8)" if "bi < 8192" for bi
      using idx(2,3) [OF that] by (simp add: block_used_def)
    have m: "?m \<notin> log_region st" using less.prems(3) True by (simp add: bitmap_ok_def)
    have below: "\<exists>bi<n. c = b + of_nat bi" if "b \<le> c" "unat c < unat b + n" "n \<le> 8192" for c n
    proof -
      have "unat (c - b) = unat c - unat b" using that(1) by (rule unat_sub)
      then have "unat (c - b) < n" "c = b + of_nat (unat (c - b))" using that(1,2) by (simp_all add: word_le_nat_alt)
      then show ?thesis by blast
    qed
    let ?scan = "balloc_scan (bview s ?m) ?sz b [0..<8192]"
    show ?thesis
    proof (cases ?scan)
      case (Some bi)
      note sc = balloc_scan_Some [OF Some]
      let ?c = "b + of_nat bi"
      have c: "?c < ?sz" "\<not> block_used s ?c" using sc used [of bi] by auto
      have first: "block_used s d" if d: "d < ?c" for d
      proof (cases "d < b")
        case False
        then have "b \<le> d" "unat d < unat b + bi" using d idx(1) [of bi] sc by (simp_all add: word_less_nat_alt word_le_nat_alt)
        then obtain j where "j < bi" "d = b + of_nat j" using below [of d bi] sc by auto
        then show ?thesis using used [of j] sc by simp
      qed (use less.prems(6) d c(1) in auto)
      show ?thesis
      proof (rule take_block [OF less.prems(1,2,3) c])
        fix i s1 s2 s3 s4
        assume h: "bread ROOTDEV (BBLOCK ?c (sb s)) s = Some (i, s1)" "sb s1 = sb s"
          "b_data (bufs s1 i) = bview s (BBLOCK ?c (sb s))"
          "log_write i (set_block i (set_used (unat (?c mod BPB))) s1) = Some s2" "brelse i s2 = Some s3"
          "bzero ROOTDEV ?c s3 = Some s4" "took st ?c s s4"
        have "balloc_from ROOTDEV b s = Some (?c, s4)"
          using True h(1-6) Some sc idx(2,3) [of bi]
          by (subst balloc_from.simps) (simp add: BPB_def set_used_def [abs_def] Let_def)
        with c first h(7) show ?thesis by blast
      qed
    next
      case None
      have all: "block_used s c" if c: "c < ?sz" "unat c < unat b + 8192" for c
      proof (cases "c < b")
        case False
        then have "b \<le> c" by simp
        then obtain j where j: "j < 8192" "c = b + of_nat j" using below [of c 8192] c(2) by auto
        have "\<forall>k\<le>j. b + of_nat k < ?sz"
        proof (intro allI impI)
          fix k assume "k \<le> j"
          then have "unat (b + of_nat k) \<le> unat c" using idx(1) j by simp
          then show "b + of_nat k < ?sz" using c(1) by (simp add: word_less_nat_alt)
        qed
        then show ?thesis using balloc_scan_None [OF None, of j] used [of j] j by simp
      qed (use less.prems(6) c(1) in blast)
      show ?thesis
      proof (rule change_logged [OF less.prems(1) txn_room_mono [OF less.prems(2)] m])
        fix i s1
        assume h: "bread ROOTDEV ?m s = Some (i, s1)" "b_data (bufs s1 i) = bview s ?m" "bio_frame s s1"
          "\<exists>s2. brelse i s1 = Some s2 \<and> bio_frame s s2 \<and> in_txn st s2 \<and> bview s2 = bview s \<and> disk s2 = disk s \<and>
             dwrites s2 = dwrites s \<and> klog s2 = klog s"
        then obtain s2 where s2: "brelse i s1 = Some s2" "bio_frame s s2" "in_txn st s2" "bview s2 = bview s" "disk s2 = disk s"
          "klog s2 = klog s" by blast
        have sb2: "sb s2 = sb s" using bio_frame_fields(5) [OF s2(2)] .
        have "\<not> INT_MAX - BPB < b" using size by (simp add: INT_MAX_def BPB_def word_less_nat_alt)
        then have run: "balloc_from ROOTDEV b s = balloc_from ROOTDEV (b + BPB) s2"
          using True h(1,2) None s2(1) bio_frame_fields(5) [OF h(3)]
          by (subst balloc_from.simps) (simp add: BPB_def)
        have nb: "unat (b + BPB) = unat b + 8192" using size by (subst unat_add_no_overflow) (simp_all add: BPB_def)
        have P: "txn_room 2 s2" "bitmap_ok st s2" "\<not> panicked s2" "8192 dvd unat (b + BPB)"
          using less.prems(2-5) s2(4,6) sb2 bio_frame_panicked [OF s2(2)] bitmap_ok_cong [OF s2(4) sb2] nb
          by (simp_all add: txn_room_def)
        have Q: "\<forall>c<b + BPB. c < sb_size (sb s2) \<longrightarrow> block_used s2 c"
          using all nb unfolding sb2 block_used_cong [OF s2(4) sb2] by (simp add: word_less_nat_alt)
        have T: "took st c s2 s' = took st c s s'" "untouched st s2 s' = untouched st s s'" for c s'
          using s2(4-6) sb2 txn_blocks_frame [OF s2(6)] by (simp_all add: took_def untouched_def)
        have lt: "unat (sb_size (sb s2)) - unat (b + BPB) < unat ?sz - unat b" using size sb2 nb by simp
        from less.hyps [OF lt s2(3) P Q] show ?thesis
          unfolding run T sb2 block_used_cong [OF s2(4) sb2] by simp
      qed simp
    qed
  qed
qed

lemma took_used:
  assumes "took st b s s'" "bitmap_ok st s" "b < sb_size (sb s)" "\<not> block_used s b" "c < sb_size (sb s)"
  shows "block_used s' c \<longleftrightarrow> block_used s c \<or> c = b"
proof -
  let ?B = "\<lambda>b. BBLOCK b (sb s)" and ?n = "\<lambda>b. unat (b mod BPB)"
  have v: "bview s' = (bview s)(?B b := set_used (?n b) (bview s (?B b)), b := zeroed (bview s b))" "sb s' = sb s"
    using assms(1) by (simp_all add: took_def)
  have nb: "b \<noteq> ?B c" using assms(2-5) unfolding bitmap_ok_def by blast
  have same: "c = b \<longleftrightarrow> ?B c = ?B b \<and> ?n c = ?n b"
  proof
    assume "?B c = ?B b \<and> ?n c = ?n b"
    then have "c div BPB = b div BPB" "c mod BPB = b mod BPB"
      by (simp add: BBLOCK_def, simp only: word_unat_eq_iff)
    then show "c = b" by (metis div_mult_mod_eq)
  qed simp
  show ?thesis
    using nb same bit_set_used [of "?n b" "bview s (?B b)" "?n c"] unfolding block_used_def v by (cases "?B c = ?B b") auto
qed

text \<open>
  C35. Inside a transaction with room for two more blocks \<open>balloc\<close> always returns, for every bitmap of a file
  system of at most \<open>2 ^ 31 - 8192\<close> blocks (the loop's counter is a C int). If a block is free it returns the first free one: that block is then marked, no other mark
  has changed, it reads as zeroes, and every block but it and its bitmap block reads as before; both are
  part of the transaction and the disk is untouched. If none is free it prints a message and returns 0
  with no block changed.
\<close>

theorem balloc_returns_first_free:
  assumes "in_txn st s" "txn_room 2 s" "bitmap_ok st s" "\<not> panicked s"
  shows "\<exists>b s'. balloc ROOTDEV s = Some (b, s') \<and> in_txn st s' \<and> disk s' = disk s \<and>
    (if \<exists>c < sb_size (sb s). \<not> block_used s c
     then b < sb_size (sb s) \<and> \<not> block_used s b \<and> (\<forall>c<b. block_used s c) \<and>
       (\<forall>c < sb_size (sb s). block_used s' c \<longleftrightarrow> block_used s c \<or> c = b) \<and> (\<forall>i<BSIZE. bview s' b i = 0) \<and>
       (\<forall>c. c \<noteq> b \<and> c \<noteq> BBLOCK b (sb s) \<longrightarrow> bview s' c = bview s c) \<and> {b, BBLOCK b (sb s)} \<subseteq> set (txn_blocks s')
     else b = 0 \<and> bview s' = bview s \<and> txn_blocks s' = txn_blocks s)"
proof -
  have "\<forall>c<0. c < sb_size (sb s) \<longrightarrow> block_used s c" "8192 dvd unat (0::u32)" by simp_all
  from balloc_from_result [OF assms this(2,1)] show ?thesis
  proof
    assume "\<exists>c s'. balloc_from ROOTDEV 0 s = Some (c, s') \<and> c < sb_size (sb s) \<and> \<not> block_used s c \<and>
      (\<forall>d<c. block_used s d) \<and> took st c s s'"
    then obtain c s' where c: "balloc_from ROOTDEV 0 s = Some (c, s')" "c < sb_size (sb s)" "\<not> block_used s c"
      "\<forall>d<c. block_used s d" "took st c s s'" by blast
    have v: "in_txn st s'" "disk s' = disk s" "\<forall>i<BSIZE. bview s' c i = 0"
      "\<forall>d. d \<noteq> c \<and> d \<noteq> BBLOCK c (sb s) \<longrightarrow> bview s' d = bview s d" "{c, BBLOCK c (sb s)} \<subseteq> set (txn_blocks s')"
      using c(5) by (simp_all add: took_def zeroed_def)
    have "\<exists>c < sb_size (sb s). \<not> block_used s c" using c(2,3) by blast
    then show ?thesis
      using c v took_used [OF c(5) assms(3) c(2,3)] unfolding balloc_def by (intro exI [of _ c] exI [of _ s']) simp
  next
    assume a: "(\<forall>c < sb_size (sb s). block_used s c) \<and> (\<exists>s'. balloc_from ROOTDEV 0 s = Some (0, s') \<and> untouched st s s')"
    then obtain s' where "balloc_from ROOTDEV 0 s = Some (0, s')" "untouched st s s'" by blast
    with a show ?thesis
      unfolding balloc_def untouched_def by (intro exI [of _ 0] exI [of _ s']) auto
  qed
qed

lemma demo_fs_bitmap: "b < 200 \<Longrightarrow> block_used demo_fs b \<longleftrightarrow> b < 104" "bitmap_ok 2 demo_fs"
proof -
  have f: "BBLOCK b (sb demo_fs) = 100" "unat (b mod BPB) = unat b" if "b < 200" for b
  proof -
    have "unat b < 200" using that by (simp add: word_less_nat_alt)
    then have "unat (b div BPB) = 0" "unat (b mod BPB) = unat b" by (simp_all add: BPB_def unat_div_distrib unat_mod)
    then show "BBLOCK b (sb demo_fs) = 100" "unat (b mod BPB) = unat b"
      by (simp_all add: BBLOCK_def demo_fs_fields unat_eq_0)
  qed
  have ff: "bit (0xFF::u8) n" if "n < 8" for n
    using that by (auto simp: less_Suc_eq eval_nat_numeral)
  show used: "block_used demo_fs b \<longleftrightarrow> b < 104" if "b < 200" for b
  proof -
    have "unat b div 8 < 13 \<longleftrightarrow> b < 104" by (simp add: word_less_nat_alt div_less_iff_less_mult)
    then show ?thesis
      using f [OF that] ff [of "unat b mod 8"] by (simp add: block_used_def demo_fs_txn(3))
  qed
  have "b \<notin> log_region 2" "b \<noteq> 100" if "\<not> b < 104" for b using that beyond_log [of b] by (auto simp: word_less_nat_alt)
  then show "bitmap_ok 2 demo_fs"
    using f(1) used beyond_log [of 100] unfolding bitmap_ok_def demo_fs_fields by auto
qed

lemma demo_fs_runs: "\<not> panicked demo_fs"
proof -
  have "panicked demo_cache = panicked zero_state" by (subst demo_cache_frame [symmetric]) simp
  then show ?thesis by (simp add: demo_fs_def demo_use_def upd_buf_def) (simp add: zero_state_def)
qed

lemma demo_fs_free: "\<exists>c < sb_size (sb demo_fs). \<not> block_used demo_fs c"
  using demo_fs_bitmap(1) [of 104] by (intro exI [of _ 104]) (simp add: demo_fs_fields)

theorem balloc_returns_first_free_witness:
  "\<exists>s'. balloc ROOTDEV demo_fs = Some (104, s') \<and> bview s' 104 0 = 0"
proof -
  have room: "txn_room 2 demo_fs" using demo_fs_txn(2) by (rule txn_room_mono) simp
  obtain b s' where b: "balloc ROOTDEV demo_fs = Some (b, s')" "b < 200" "\<not> block_used demo_fs b"
    "\<forall>c<b. block_used demo_fs c" "\<forall>i<BSIZE. bview s' b i = 0"
    using balloc_returns_first_free [OF demo_fs_txn(1) room demo_fs_bitmap(2) demo_fs_runs] demo_fs_free by (auto simp: demo_fs_fields)
  have "\<not> b < 104" using b(2,3) demo_fs_bitmap(1) [of b] by simp
  moreover have "\<not> 104 < b" using b(4) demo_fs_bitmap(1) [of 104] by auto
  ultimately have "b = 104" by (simp only: not_less order_antisym)
  then show ?thesis using b(1,5) by (auto simp: BSIZE_def)
qed

end
