(* ===== verification/FsFree.thy ===== *)
theory FsFree
  imports FsAlloc
begin

text \<open>
  Freeing blocks in \<^verbatim>\<open>kernel/fs.c\<close>: \<open>bfree\<close> clears exactly the mark of its block, so it undoes what \<open>balloc\<close> did to
  the bitmap, and a second \<open>bfree\<close> of the same block panics.
\<close>

definition clear_used :: "nat \<Rightarrow> block \<Rightarrow> block" where
  "clear_used bi d = d(bi div 8 := d (bi div 8) AND NOT (push_bit (bi mod 8) 1))"

lemma clear_set_used: "\<not> bit (d (bi div 8)) (bi mod 8) \<Longrightarrow> clear_used bi (set_used bi d) = d"
  by (auto simp: clear_used_def set_used_def fun_eq_iff bit_simps intro!: bit_eqI)

lemma bit_clear_used: "\<not> bit (clear_used bi d (bi div 8)) (bi mod 8)"
  by (simp add: clear_used_def bit_simps)

lemma bfree_result:
  assumes "in_txn st s" "txn_room 1 s" "BBLOCK b (sb s) \<notin> log_region st" "block_used s b"
  obtains s' where "bfree ROOTDEV b s = Some s'" "in_txn st s'" "txn_frame s s'"
    "bview s' = (bview s)(BBLOCK b (sb s) := clear_used (unat (b mod BPB)) (bview s (BBLOCK b (sb s))))"
    "txn_blocks s' = txn_add (BBLOCK b (sb s)) (txn_blocks s)"
proof (rule change_logged [OF assms(1-3)])
  let ?B = "BBLOCK b (sb s)" and ?n = "unat (b mod BPB)"
  fix i s1
  assume *: "bread ROOTDEV ?B s = Some (i, s1)" "b_data (bufs s1 i) = bview s ?B"
    "\<And>d. \<exists>s2 s3. log_write i (set_data i d s1) = Some s2 \<and> brelse i s2 = Some s3 \<and> in_txn st s3 \<and> txn_frame s s3 \<and>
       bview s3 = (bview s)(?B := d) \<and> txn_blocks s3 = txn_add ?B (txn_blocks s)"
  obtain s2 s3 where s3: "log_write i (set_data i (clear_used ?n (bview s ?B)) s1) = Some s2" "brelse i s2 = Some s3" "in_txn st s3"
    "txn_frame s s3" "bview s3 = (bview s)(?B := clear_used ?n (bview s ?B))" "txn_blocks s3 = txn_add ?B (txn_blocks s)"
    using *(3) by blast
  have "bit (bview s ?B (?n div 8)) (?n mod 8)" using assms(4) by (simp add: block_used_def)
  then have "bfree ROOTDEV b s = Some s3"
    using *(1,2) s3(1,2) set_block_data [OF *(2), of "clear_used ?n"]
    by (simp add: bfree_def and_bit_iff clear_used_def [abs_def])
  then show thesis using that s3 by blast
qed

text \<open>\<open>bfree\<close> of a block that is free panics.\<close>

lemma bfree_free:
  assumes "in_txn st s" "txn_room 1 s" "BBLOCK b (sb s) \<notin> log_region st" "\<not> block_used s b"
  shows "bfree ROOTDEV b s = None"
proof (rule change_logged [OF assms(1-3)])
  fix i s1
  assume *: "bread ROOTDEV (BBLOCK b (sb s)) s = Some (i, s1)" "b_data (bufs s1 i) = bview s (BBLOCK b (sb s))"
  have "\<not> bit (bview s (BBLOCK b (sb s)) (unat (b mod BPB) div 8)) (unat (b mod BPB) mod 8)"
    using assms(4) by (simp add: block_used_def)
  then show ?thesis using * by (simp add: bfree_def and_bit_iff panic_def)
qed

lemma took_room:
  assumes "in_txn st s" "took st b s s'" "txn_room (Suc (Suc n)) s"
  shows "txn_room n s'"
proof -
  have t: "in_txn st s'" "lg_size (klog s') = lg_size (klog s)" "set (txn_blocks s') = set (txn_blocks s) \<union> {BBLOCK b (sb s), b}"
    using assms(2) by (auto simp: took_def)
  have "length (txn_blocks s') = card (set (txn_blocks s'))"
    using t(1) distinct_card [of "txn_blocks s'"] by (simp add: in_txn_def)
  also have "\<dots> \<le> card (set (txn_blocks s)) + card {BBLOCK b (sb s), b}" unfolding t(3) by (rule card_Un_le)
  also have "\<dots> \<le> length (txn_blocks s) + 2"
    using card_length [of "txn_blocks s"] card_length [of "[BBLOCK b (sb s), b]"] by simp
  finally show ?thesis
    using length_txn_blocks [OF assms(1)] length_txn_blocks [OF t(1)] t(2) assms(3) by (simp add: txn_room_def)
qed

text \<open>
  C21. \<open>bfree\<close> undoes \<open>balloc\<close>: inside a transaction with room for three more blocks, if a block is free, \<open>balloc\<close> returns one, and
  freeing it makes every block read as before, the bitmap included, but for the block itself, which
  reads as zeroes; the disk is untouched. Freeing it once more panics.
\<close>

theorem bfree_undoes_balloc:
  assumes "in_txn st s" "txn_room 3 s" "bitmap_ok st s" "\<not> panicked s" "\<exists>c < sb_size (sb s). \<not> block_used s c"
  shows "\<exists>b s' s''. balloc ROOTDEV s = Some (b, s') \<and> block_used s' b \<and> bfree ROOTDEV b s' = Some s'' \<and> in_txn st s'' \<and>
    disk s'' = disk s \<and> bview s'' = (bview s)(b := zeroed (bview s b)) \<and> (\<forall>c < sb_size (sb s). block_used s'' c = block_used s c) \<and>
    bfree ROOTDEV b s'' = None"
proof -
  have "txn_room 2 s" using assms(2) by (rule txn_room_mono) simp
  from balloc_from_result [OF assms(1) this assms(3,4), of 0] assms(5)
  obtain b s' where b: "balloc ROOTDEV s = Some (b, s')" "b < sb_size (sb s)" "\<not> block_used s b" and took: "took st b s s'"
    unfolding balloc_def by auto
  let ?B = "BBLOCK b (sb s)" and ?n = "unat (b mod BPB)"
  have B: "?B \<notin> log_region st" "b \<noteq> ?B" using assms(3) b(2,3) unfolding bitmap_ok_def by blast+
  have s': "in_txn st s'" "disk s' = disk s" "sb s' = sb s" and
    v': "bview s' = (bview s)(?B := set_used ?n (bview s ?B), b := zeroed (bview s b))"
    using took by (simp_all add: took_def)
  have room: "txn_room 1 s'" using took_room [OF assms(1) took, of 1] assms(2) by (simp add: numeral_3_eq_3)
  have used: "block_used s' b" using took_used [OF took assms(3) b(2,3,2)] by simp
  have free: "\<not> bit (bview s ?B (?n div 8)) (?n mod 8)" using b(3) by (simp add: block_used_def)
  show ?thesis
  proof (rule bfree_result [OF s'(1) room _ used, unfolded s'(3)])
    fix s''
    assume h: "bfree ROOTDEV b s' = Some s''" "in_txn st s''" "txn_frame s' s''"
      "bview s'' = (bview s')(?B := clear_used ?n (bview s' ?B))" "txn_blocks s'' = txn_add ?B (txn_blocks s')"
    have v: "bview s'' = (bview s)(b := zeroed (bview s b))"
      unfolding h(4) v' using B(2) clear_set_used [of "bview s ?B" ?n, OF free] by auto
    have sb: "sb s'' = sb s" "disk s'' = disk s" using txn_frame_fields(4,8) [OF h(3)] s'(2,3) by simp_all
    have marks: "block_used s'' c = block_used s c" if "c < sb_size (sb s)" for c
    proof -
      have "b \<noteq> BBLOCK c (sb s)" using assms(3) b(2,3) that unfolding bitmap_ok_def by blast
      then show ?thesis by (simp add: block_used_def v sb)
    qed
    have "txn_blocks s'' = txn_blocks s'" using h(5) took by (auto simp: txn_add_def took_def)
    then have "txn_room 1 s''"
      using room length_txn_blocks [OF h(2)] length_txn_blocks [OF s'(1)] h(3) by (simp add: txn_room_def txn_frame_def)
    then have "bfree ROOTDEV b s'' = None"
      using bfree_free [OF h(2), of b] marks [OF b(2)] b(3) B(1) sb(1) by simp
    then show ?thesis using b(1) used h(1,2) sb v marks by blast
  qed (rule B(1))
qed

theorem bfree_undoes_balloc_witness:
  "\<exists>b s' s''. balloc ROOTDEV demo_fs = Some (b, s') \<and> bfree ROOTDEV b s' = Some s'' \<and> bfree ROOTDEV b s'' = None"
proof -
  have room: "txn_room 3 demo_fs" using demo_fs_txn(2) by (rule txn_room_mono) simp
  from bfree_undoes_balloc [OF demo_fs_txn(1) room demo_fs_bitmap(2) demo_fs_runs demo_fs_free]
  show ?thesis by blast
qed

end
