(* ===== verification/PathProps.thy ===== *)
theory PathProps
  imports Fs
begin

text \<open>
  Path names (\<open>skipelem\<close> and \<open>namex\<close> of \<^verbatim>\<open>kernel/fs.c\<close>) against a specification on the list of a path's
  elements: the path cut at its slashes, without the empty pieces, each cut to the 14 bytes of a directory entry.
\<close>

section \<open>The elements of a path\<close>

fun pieces :: "u8 list \<Rightarrow> u8 list list" where
  "pieces [] = [[]]"
| "pieces (c # cs) = (if c = slash then [] # pieces cs else (c # hd (pieces cs)) # tl (pieces cs))"

definition elements :: "u8 list \<Rightarrow> u8 list list" where
  "elements path = map (take DIRSIZ) (filter (\<lambda>w. w \<noteq> []) (pieces path))"

lemma pieces_nonempty: "pieces cs \<noteq> []"
  by (induction cs) auto

lemma pieces_split:
  "pieces cs = takeWhile (\<lambda>c. c \<noteq> slash) cs #
     (case dropWhile (\<lambda>c. c \<noteq> slash) cs of [] \<Rightarrow> [] | _ # rest \<Rightarrow> pieces rest)"
  by (induction cs) auto

lemma elements_slash [simp]: "elements (slash # cs) = elements cs"
  by (simp add: elements_def)

lemma elements_dropWhile [simp]: "elements (dropWhile (\<lambda>c. c = slash) cs) = elements cs"
  by (induction cs) auto

lemma elements_Nil_iff: "elements cs = [] \<longleftrightarrow> dropWhile (\<lambda>c. c = slash) cs = []"
proof -
  have "elements (c # ds) \<noteq> []" if "c \<noteq> slash" for c ds using that by (simp add: elements_def)
  moreover have "hd (dropWhile (\<lambda>c. c = slash) cs) \<noteq> slash" if "dropWhile (\<lambda>c. c = slash) cs \<noteq> []"
    using hd_dropWhile [OF that] .
  ultimately have "elements (dropWhile (\<lambda>c. c = slash) cs) \<noteq> []" if "dropWhile (\<lambda>c. c = slash) cs \<noteq> []"
    using that by (cases "dropWhile (\<lambda>c. c = slash) cs") (auto simp del: elements_dropWhile)
  moreover have "elements [] = []" by (simp add: elements_def)
  ultimately show ?thesis by (metis elements_dropWhile)
qed

lemma pieces_no_slash: "\<forall>w\<in>set (pieces cs). slash \<notin> set w"
proof (induction cs)
  case (Cons c cs)
  obtain w ws where "pieces cs = w # ws" using pieces_nonempty [of cs] by (cases "pieces cs") auto
  with Cons show ?case by simp
qed simp

lemma elements_first:
  assumes "p \<noteq> []" "hd p \<noteq> slash"
  shows "elements p = take DIRSIZ (takeWhile (\<lambda>c. c \<noteq> slash) p) # elements (dropWhile (\<lambda>c. c \<noteq> slash) p)"
proof -
  have w: "takeWhile (\<lambda>c. c \<noteq> slash) p \<noteq> []" using assms by (cases p) auto
  show ?thesis
  proof (cases "dropWhile (\<lambda>c. c \<noteq> slash) p")
    case Nil
    have "elements p = [take DIRSIZ (takeWhile (\<lambda>c. c \<noteq> slash) p)]"
      unfolding elements_def pieces_split [of p] Nil using w by simp
    then show ?thesis by (simp only: Nil) (simp add: elements_def)
  next
    case (Cons c cs)
    then have "c = slash" using hd_dropWhile [of "\<lambda>c. c \<noteq> slash" p] by simp
    moreover have "elements p = take DIRSIZ (takeWhile (\<lambda>c. c \<noteq> slash) p) # elements cs"
      unfolding elements_def pieces_split [of p] Cons using w by simp
    ultimately show ?thesis by (simp only: Cons elements_slash)
  qed
qed

text \<open>\<open>skipelem\<close> takes the first element off, and leaves the empty path exactly when there is no other.\<close>

lemma skipelem_rest:
  assumes "skipelem path = Some (rest, e)"
  shows "elements path = e # elements rest" "rest = [] \<longleftrightarrow> elements rest = []"
proof -
  let ?p = "dropWhile (\<lambda>c. c = slash) path"
  let ?w = "takeWhile (\<lambda>c. c \<noteq> slash) ?p" and ?r = "dropWhile (\<lambda>c. c \<noteq> slash) ?p"
  have p: "?p \<noteq> []" "rest = dropWhile (\<lambda>c. c = slash) ?r" "e = take DIRSIZ ?w"
    using assms by (simp_all add: skipelem_def Let_def del: dropWhile_eq_Nil_conv split: if_splits)
  have "elements ?p = take DIRSIZ ?w # elements ?r" by (rule elements_first [OF p(1) hd_dropWhile [OF p(1)]])
  then have "elements ?p = e # elements ?r" by (simp only: p(3))
  then show "elements path = e # elements rest" by (simp add: p(2))
  show "rest = [] \<longleftrightarrow> elements rest = []" unfolding p(2) by (simp add: elements_Nil_iff)
qed

lemma skipelem_None: "skipelem path = None \<longleftrightarrow> elements path = []"
  by (simp add: elements_Nil_iff skipelem_def Let_def)

section \<open>Walking a list of elements\<close>

fun walk_names :: "nat \<Rightarrow> u8 list list \<Rightarrow> bool \<Rightarrow> u8 list \<Rightarrow> kstate \<Rightarrow> (nat option \<times> u8 list \<times> kstate) option" where
  "walk_names ip [] parent name s =
     (if parent then do { s \<leftarrow> iput ip s; Some (None, name, s) } else Some (Some ip, name, s))"
| "walk_names ip (e # es) parent name s = do {
     s \<leftarrow> ilock ip s;
     if i_type (itable s ! ip) \<noteq> T_DIR then do { s \<leftarrow> iunlockput ip s; Some (None, e, s) }
     else if parent \<and> es = [] then do { s \<leftarrow> iunlock ip s; Some (Some ip, e, s) }
     else do {
       (found, s) \<leftarrow> dirlookup ip e s;
       case found of
         None \<Rightarrow> do { s \<leftarrow> iunlockput ip s; Some (None, e, s) }
       | Some (next, _) \<Rightarrow> do { s \<leftarrow> iunlockput ip s; walk_names next es parent e s }
     }
   }"

text \<open>
  C36. Looking up a path is walking the list of its elements, one directory per element, for any number of
  leading, repeated and trailing slashes; the parent lookup stops in front of the last element and returns
  it. Every name that is looked up has between 1 and 14 bytes and no slash.
\<close>

theorem namex_walks_elements:
  "namex_loop ip path np name s = walk_names ip (elements path) np name s \<and>
   (\<forall>e\<in>set (elements path). 0 < length e \<and> length e \<le> DIRSIZ \<and> slash \<notin> set e)"
proof
  show "namex_loop ip path np name s = walk_names ip (elements path) np name s"
  proof (induction "length path" arbitrary: ip path name s rule: less_induct)
    case less
    show ?case
    proof (cases "skipelem path")
      case None
      then have "elements path = []" by (simp only: skipelem_None)
      with None show ?thesis by (simp add: namex_loop.simps)
    next
      case (Some x)
      then obtain rest e where x: "skipelem path = Some (rest, e)" by (cases x) auto
      note r = skipelem_rest [OF x]
      have ih: "namex_loop ip rest np name = walk_names ip (elements rest) np name" for ip name
        using skipelem_shorter [OF x] by (intro ext less)
      show ?thesis
        unfolding namex_loop.simps [of ip path] x r(1) walk_names.simps r(2) [symmetric]
        by (simp only: option.case prod.case) (simp add: ih cong: if_cong option.case_cong prod.case_cong)
    qed
  qed
  show "\<forall>e\<in>set (elements path). 0 < length e \<and> length e \<le> DIRSIZ \<and> slash \<notin> set e"
    using pieces_no_slash [of path] by (auto simp: elements_def DIRSIZ_def dest: in_set_takeD)
qed

theorem namex_walks_elements_witness:
  "namex_loop 0 [slash, slash, 97, slash, 98, 98, slash] True [] zero_state = walk_names 0 [[97], [98, 98]] True [] zero_state"
  using namex_walks_elements [of 0 "[slash, slash, 97, slash, 98, 98, slash]" True "[]" zero_state]
  by (simp add: elements_def slash_def DIRSIZ_def del: walk_names.simps)

end
