(* ===== verification/Pipe.thy ===== *)
theory Pipe
  imports State Ring
begin

text \<open>
  \<^verbatim>\<open>kernel/pipe.c\<close>: closing, writing and reading a pipe (\<open>pipealloc\<close> is in theory \<open>File\<close>, with the
  file table). A pipe is named by the address of its page. A write that finds the pipe full and a read
  that finds it empty are cut at \<open>sleep\<close>; what they do when they are scheduled again is a second
  definition.

  The lemmas: a pipe is a bounded queue of bytes. What a write does to the queue, what a read takes, and
  when they wait.
\<close>

section \<open>Operations\<close>

definition PIPESIZE :: u32 where "PIPESIZE = 512"

definition upd_pipe :: "u64 \<Rightarrow> (pipe \<Rightarrow> pipe) \<Rightarrow> kstate \<Rightarrow> kstate" where
  "upd_pipe pi f s = s\<lparr>pipes := (pipes s)(pi := f (pipes s pi))\<rparr>"

definition pipeclose :: "u64 \<Rightarrow> bool \<Rightarrow> kstate \<Rightarrow> kstate option" where
  "pipeclose pi writable s = do {
     s \<leftarrow> acq (PipeLock pi) s;
     s \<leftarrow> (if writable then wakeup (ChanNread pi) (upd_pipe pi (\<lambda>p. p\<lparr>pi_writeopen := False\<rparr>) s)
           else wakeup (ChanNwrite pi) (upd_pipe pi (\<lambda>p. p\<lparr>pi_readopen := False\<rparr>) s));
     if \<not> pi_readopen (pipes s pi) \<and> \<not> pi_writeopen (pipes s pi)
     then do { s \<leftarrow> rel (PipeLock pi) s; kfree pi s }
     else rel (PipeLock pi) s
   }"

text \<open>The loop of \<open>pipewrite\<close>, \<open>i\<close> of \<open>n\<close> bytes written; asleep, it has \<open>i\<close>.\<close>

definition pipewrite_done :: "u64 \<Rightarrow> nat \<Rightarrow> kstate \<Rightarrow> (nat, int) outcome option" where
  "pipewrite_done pi i s = do {
     s \<leftarrow> wakeup (ChanNread pi) s;
     s \<leftarrow> rel (PipeLock pi) s;
     Some (Returned (int i) s)
   }"

function pipewrite_loop :: "u64 \<Rightarrow> nat \<Rightarrow> u64 \<Rightarrow> nat \<Rightarrow> nat \<Rightarrow> kstate \<Rightarrow> (nat, int) outcome option" where
  "pipewrite_loop pi pr addr n i s =
     (if i < n then do {
        (dead, s) \<leftarrow> (if \<not> pi_readopen (pipes s pi) then Some (1, s) else killed pr s);
        if dead \<noteq> 0 then do { s \<leftarrow> rel (PipeLock pi) s; Some (Returned (-1) s) }
        else if pi_nwrite (pipes s pi) = pi_nread (pipes s pi) + PIPESIZE then do {
          s \<leftarrow> wakeup (ChanNread pi) s;
          s \<leftarrow> sleep (ChanNwrite pi) (PipeLock pi) s;
          Some (Asleep i s)
        } else do {
          (r, bs) \<leftarrow> copyin (p_pagetable (procs s ! pr)) (addr + of_nat i) 1 s;
          if r = -1 then pipewrite_done pi i s
          else do {
            let s = upd_pipe pi (\<lambda>p. p\<lparr>pi_data := (pi_data p)(unat (pi_nwrite p mod PIPESIZE) := hd bs),
                      pi_nwrite := pi_nwrite p + 1\<rparr>) s;
            pipewrite_loop pi pr addr n (i + 1) s
          }
        }
      } else pipewrite_done pi i s)"
  by pat_completeness auto
termination by (relation "measure (\<lambda>(pi, pr, addr, n, i, s). n - i)") auto

declare pipewrite_loop.simps [simp del]

definition pipewrite :: "u64 \<Rightarrow> u64 \<Rightarrow> int \<Rightarrow> kstate \<Rightarrow> (nat, int) outcome option" where
  "pipewrite pi addr n s =
     (case myproc s of
        None \<Rightarrow> None
      | Some pr \<Rightarrow> do { s \<leftarrow> acq (PipeLock pi) s; pipewrite_loop pi pr addr (nat n) 0 s })"

definition pipewrite_resumed :: "u64 \<Rightarrow> u64 \<Rightarrow> int \<Rightarrow> nat \<Rightarrow> kstate \<Rightarrow> (nat, int) outcome option" where
  "pipewrite_resumed pi addr n i s =
     (case myproc s of
        None \<Rightarrow> None
      | Some pr \<Rightarrow> do { s \<leftarrow> sleep_resumed (PipeLock pi) s; pipewrite_loop pi pr addr (nat n) i s })"

fun piperead_copy :: "u64 \<Rightarrow> nat \<Rightarrow> u64 \<Rightarrow> nat \<Rightarrow> nat list \<Rightarrow> kstate \<Rightarrow> (nat \<times> kstate) option" where
  "piperead_copy pi pr addr n [] s = Some (n, s)"
| "piperead_copy pi pr addr n (i # is) s =
     (if pi_nread (pipes s pi) = pi_nwrite (pipes s pi) then Some (i, s)
      else do {
        let ch = pi_data (pipes s pi) (unat (pi_nread (pipes s pi) mod PIPESIZE));
        let s = upd_pipe pi (\<lambda>p. p\<lparr>pi_nread := pi_nread p + 1\<rparr>) s;
        (r, s) \<leftarrow> copyout (p_pagetable (procs s ! pr)) (addr + of_nat i) [ch] s;
        if r = -1 then Some (i, s) else piperead_copy pi pr addr n is s
      })"

definition piperead_wait :: "u64 \<Rightarrow> nat \<Rightarrow> u64 \<Rightarrow> int \<Rightarrow> kstate \<Rightarrow> (unit, int) outcome option" where
  "piperead_wait pi pr addr n s =
     (if pi_nread (pipes s pi) = pi_nwrite (pipes s pi) \<and> pi_writeopen (pipes s pi) then do {
        (k, s) \<leftarrow> killed pr s;
        if k \<noteq> 0 then do { s \<leftarrow> rel (PipeLock pi) s; Some (Returned (-1) s) }
        else do { s \<leftarrow> sleep (ChanNread pi) (PipeLock pi) s; Some (Asleep () s) }
      } else do {
        (i, s) \<leftarrow> piperead_copy pi pr addr (nat n) [0..<nat n] s;
        s \<leftarrow> wakeup (ChanNwrite pi) s;
        s \<leftarrow> rel (PipeLock pi) s;
        Some (Returned (int i) s)
      })"

definition piperead :: "u64 \<Rightarrow> u64 \<Rightarrow> int \<Rightarrow> kstate \<Rightarrow> (unit, int) outcome option" where
  "piperead pi addr n s =
     (case myproc s of
        None \<Rightarrow> None
      | Some pr \<Rightarrow> do { s \<leftarrow> acq (PipeLock pi) s; piperead_wait pi pr addr n s })"

definition piperead_resumed :: "u64 \<Rightarrow> u64 \<Rightarrow> int \<Rightarrow> kstate \<Rightarrow> (unit, int) outcome option" where
  "piperead_resumed pi addr n s =
     (case myproc s of
        None \<Rightarrow> None
      | Some pr \<Rightarrow> do { s \<leftarrow> sleep_resumed (PipeLock pi) s; piperead_wait pi pr addr n s })"

section \<open>A pipe is a queue\<close>

interpretation pipe_ring: ring_buffer PIPESIZE 9
  by unfold_locales (simp_all add: PIPESIZE_def)

definition queue :: "pipe \<Rightarrow> u8 list" where
  "queue p = ring PIPESIZE (pi_data p) (pi_nread p) (pi_nwrite p)"

definition pipe_ok :: "pipe \<Rightarrow> bool" where
  "pipe_ok p \<longleftrightarrow> length (queue p) \<le> 512"

definition push :: "u8 \<Rightarrow> pipe \<Rightarrow> pipe" where
  "push b p = p\<lparr>pi_data := (pi_data p)(unat (pi_nwrite p mod PIPESIZE) := b), pi_nwrite := pi_nwrite p + 1\<rparr>"

lemma queue_push: "length (queue p) < 512 \<Longrightarrow> queue (push b p) = queue p @ [b]"
  using pipe_ring.ring_push [of "pi_nwrite p" "pi_nread p" "pi_data p" b]
  by (simp add: queue_def push_def PIPESIZE_def)

lemma queue_full: "pipe_ok p \<Longrightarrow> pi_nwrite p = pi_nread p + PIPESIZE \<longleftrightarrow> length (queue p) = 512"
proof -
  have "pi_nwrite p = pi_nread p + PIPESIZE \<longleftrightarrow> pi_nwrite p - pi_nread p = PIPESIZE" by (auto simp: algebra_simps)
  also have "\<dots> \<longleftrightarrow> unat (pi_nwrite p - pi_nread p) = 512" by (simp add: word_unat_eq_iff PIPESIZE_def)
  finally show ?thesis by (simp add: queue_def)
qed

lemma queue_pop:
  assumes "pi_nread p \<noteq> pi_nwrite p"
  shows "queue p = pi_data p (unat (pi_nread p mod PIPESIZE)) # queue (p\<lparr>pi_nread := pi_nread p + 1\<rparr>)"
  using pipe_ring.ring_pop [OF assms, of "pi_data p"] by (simp add: queue_def)

lemma queue_Nil: "queue p = [] \<longleftrightarrow> pi_nread p = pi_nwrite p"
  by (simp add: queue_def ring_Nil_iff)

end
