(* ===== verification/Frame.thy ===== *)
theory Frame
  imports State VmCopy
begin

text \<open>
  Lemmas that the proofs about the kernel's components share: the functions of the memory layer leave the
  rest of the kernel's state alone, and what \<open>killed\<close>, \<open>sleep\<close> and the locks around them do when no other
  process interferes.
\<close>

section \<open>Fields that the memory functions leave alone\<close>

lemma more_eqD:
  fixes s s' :: kstate
  assumes "kmem.more s' = kmem.more s"
  shows "lk s' = lk s" "hart s' = hart s" "procs s' = procs s" "initproc s' = initproc s" "nextpid s' = nextpid s"
    "curproc s' = curproc s" "ticks s' = ticks s" "itable s' = itable s" "ftable s' = ftable s" "pipes s' = pipes s"
  using assms by (cases s, cases s', simp)+

lemma vm_ok_cong:
  assumes "mem s' = mem s" "freelist s' = freelist s" "reference_counter s' = reference_counter s" "kend s' = kend s"
  shows "vm_ok R ps c s' = vm_ok R ps c s"
proof -
  have "ram_page s' = ram_page s" using assms(4) by (simp add: ram_page_def fun_eq_iff)
  moreover have "kinv ps s' = kinv ps s" using assms by (simp add: kinv_def ram_page_def)
  ultimately show ?thesis using assms by (simp add: vm_ok_def)
qed

lemma own_page_cong:
  assumes "mem s' = mem s" "reference_counter s' = reference_counter s" "kend s' = kend s"
  shows "own_page s' r va = own_page s r va"
  using assms by (cases "lookup (mem s) r va") (simp_all add: own_page_def ram_page_def)

section \<open>One byte of user memory\<close>

lemma walk_level_no_alloc:
  fixes s :: "'a kmem_scheme"
  obtains a where "\<And>s' :: 'a kmem_scheme. mem s' = mem s \<Longrightarrow> walk_level l pt va False s' = (a, s')"
proof -
  have "\<exists>a. \<forall>s' :: 'a kmem_scheme. mem s' = mem s \<longrightarrow> walk_level l pt va False s' = (a, s')"
  proof (induction l arbitrary: pt)
    case (Suc l)
    then show ?case by (cases "load64 (mem s) (pt + 8 * PX (Suc l) va) AND PTE_V = 0") (simp_all add: Let_def)
  qed simp
  then show thesis using that by blast
qed

lemma walkaddr_total:
  fixes s :: "'a kmem_scheme"
  obtains a where "\<And>s' :: 'a kmem_scheme. mem s' = mem s \<Longrightarrow> walkaddr pt va s' = Some a"
proof (rule walk_level_no_alloc [of s 2 pt va])
  fix a assume a: "\<And>s' :: 'a kmem_scheme. mem s' = mem s \<Longrightarrow> walk_level 2 pt va False s' = (a, s')"
  let ?e = "load64 (mem s) a"
  have "walkaddr pt va s' = Some (if MAXVA \<le> va \<or> a = 0 \<or> ?e AND PTE_V = 0 \<or> ?e AND PTE_U = 0 then 0 else PTE2PA ?e)"
    if "mem s' = mem s" for s' :: "'a kmem_scheme"
    using that a [OF that] by (simp add: walkaddr_def walk_def)
  then show thesis using that by blast
qed

text \<open>The byte at a user address, if the kernel finds it mapped for the user.\<close>

definition user_byte :: "u64 \<Rightarrow> u64 \<Rightarrow> 'a kmem_scheme \<Rightarrow> u8 option" where
  "user_byte pt va s =
     (case walkaddr pt (PGROUNDDOWN va) s of None \<Rightarrow> None
      | Some pa0 \<Rightarrow> if pa0 = 0 then None else Some (mem s (pa0 + (va - PGROUNDDOWN va))))"

lemma user_byte_cong:
  fixes s s' :: "'a kmem_scheme"
  shows "mem s' = mem s \<Longrightarrow> user_byte pt va s' = user_byte pt va s"
  by (rule walkaddr_total [of s pt "PGROUNDDOWN va"]) (simp add: user_byte_def)

lemma user_byte_uread:
  assumes "vm_ok R ps c s" "r \<in> R" "user_page s r va"
  shows "user_byte r va s = uread (mem s) r va"
proof -
  obtain e where e: "lookup (mem s) r va = Some e" "bit e 4" "ram_page s (PTE2PA e)"
    using assms(3) by (auto simp: user_page_def split: option.splits)
  then show ?thesis
    using walkaddr_lookup [OF assms(1,2), of "PGROUNDDOWN va" e]
      ram_pageD(2) [OF e(3) kinvD(1) [OF vm_okD(2) [OF assms(1)]]]
    by (simp add: user_byte_def uread_def uaddr_def)
qed

lemma copyin_0: "copyin pt va 0 s = Some (0, [])"
  by (simp add: copyin.simps)

lemma copyin_byte:
  fixes s :: "'a kmem_scheme"
  shows "copyin pt va 1 s = Some (case user_byte pt va s of None \<Rightarrow> (-1, []) | Some b \<Rightarrow> (0, [b]))"
proof (rule walkaddr_total [of s pt "PGROUNDDOWN va"])
  fix a assume a: "\<And>s' :: 'a kmem_scheme. mem s' = mem s \<Longrightarrow> walkaddr pt (PGROUNDDOWN va) s' = Some a"
  have pos: "(0::u64) < 1" by simp
  have n: "(if 1 < PGSIZE - (va - PGROUNDDOWN va) then 1 else PGSIZE - (va - PGROUNDDOWN va)) = 1"
    using chunk_pos(1,2) [OF pos refl refl, of va]
    by (cases "1 < PGSIZE - (va - PGROUNDDOWN va)") (auto simp: word_le_nat_alt word_less_nat_alt word_unat_eq_iff)
  show ?thesis
    using a [OF refl] n
    by (subst copyin.simps) (simp add: user_byte_def Let_def copyin_0 bytes_at_def)
qed

section \<open>Waiting\<close>

lemma killed_result: "plocks_free s \<Longrightarrow> killed i s = Some (p_killed (procs s ! i), s)"
  using acq_rel_proc(1) [of s i] acq_rel_proc(2) [of s i "procs s"] by (simp add: killed_def Let_def)

text \<open>No lock held at all, and interrupts not disabled by a count.\<close>

definition idle_cpu :: "kstate \<Rightarrow> bool" where
  "idle_cpu s \<longleftrightarrow> unlocked s \<and> noff (cpus (lk s) (hart s)) = 0"

lemma sched_acquired:
  assumes "idle_cpu s" "curproc s = Some i" "p_state (procs s ! i) \<noteq> RUNNING"
  shows "sched (s\<lparr>lk := acquired (hart s) (PLock i) (lk s)\<rparr>) = Some (s\<lparr>lk := acquired (hart s) (PLock i) (lk s)\<rparr>)"
proof -
  let ?k = "acquired (hart s) (PLock i) (lk s)"
  have "noff (cpus ?k (hart s)) = 1" "\<not> intr (cpus ?k (hart s))"
    using assms(1) by (simp_all add: acquired_def push_off_def Let_def idle_cpu_def)
  then show ?thesis using assms by (simp add: sched_def myproc_def)
qed

lemma sleep_result:
  assumes "idle_cpu s" "curproc s = Some i" "i < length (procs s)" "\<forall>j. l \<noteq> PLock j"
  shows "sleep ch l (s\<lparr>lk := acquired (hart s) l (lk s)\<rparr>) =
    Some (s\<lparr>lk := acquired (hart s) (PLock i) (lk s),
            procs := (procs s)[i := (procs s ! i)\<lparr>p_chan := ch, p_state := SLEEPING\<rparr>]\<rparr>)"
proof -
  let ?k = "lk s" and ?h = "hart s"
  have u: "quiet ?h ?k" "\<And>l. free_lock l ?k" using assms(1) by (simp_all add: idle_cpu_def unlocked_def)
  have a: "acq (PLock i) (s\<lparr>lk := acquired ?h l ?k\<rparr>) = Some (s\<lparr>lk := acquired ?h (PLock i) (acquired ?h l ?k)\<rparr>)"
    using assms(4) u(2) by (simp add: acq_free)
  have "release ?h l (acquired ?h (PLock i) (acquired ?h l ?k)) = Some (acquired ?h (PLock i) ?k)"
    using u assms(4) by (intro release_acquired_twice) auto
  then have r: "rel l (s\<lparr>lk := acquired ?h (PLock i) (acquired ?h l ?k)\<rparr>) = Some (s\<lparr>lk := acquired ?h (PLock i) ?k\<rparr>)"
    by (simp add: rel_def)
  let ?s = "s\<lparr>procs := (procs s)[i := (procs s ! i)\<lparr>p_chan := ch, p_state := SLEEPING\<rparr>]\<rparr>"
  have id: "idle_cpu ?s" using assms(1) by (simp add: idle_cpu_def unlocked_def)
  have "sched (?s\<lparr>lk := acquired ?h (PLock i) ?k\<rparr>) = Some (?s\<lparr>lk := acquired ?h (PLock i) ?k\<rparr>)"
    using sched_acquired [OF id, of i] assms(2,3) by simp
  moreover have "?s\<lparr>lk := acquired ?h (PLock i) ?k\<rparr> = s\<lparr>lk := acquired ?h (PLock i) ?k,
      procs := (procs s)[i := (procs s ! i)\<lparr>p_chan := ch, p_state := SLEEPING\<rparr>]\<rparr>" by simp
  ultimately show ?thesis
    using assms(2) a r by (simp add: sleep_def myproc_def upd_proc_def)
qed

end
