(* ===== verification/PipeProps.thy ===== *)
theory PipeProps
  imports Pipe Frame VmProps
begin

text \<open>
  A pipe is a bounded queue of bytes: what \<open>pipewrite\<close> appends and \<open>piperead\<close> takes, when they wait,
  and whom they wake.
\<close>

section \<open>Writing\<close>

text \<open>The bytes that a write of \<open>n\<close> bytes from \<open>addr\<close> can get, up to the first unmapped address.\<close>

fun readable :: "u64 \<Rightarrow> u64 \<Rightarrow> nat \<Rightarrow> 'a kmem_scheme \<Rightarrow> u8 list" where
  "readable pt addr 0 s = []"
| "readable pt addr (Suc n) s =
     (case user_byte pt addr s of None \<Rightarrow> [] | Some b \<Rightarrow> b # readable pt (addr + 1) n s)"

lemma readable_cong:
  fixes s s' :: "'a kmem_scheme"
  shows "mem s' = mem s \<Longrightarrow> readable pt addr n s' = readable pt addr n s"
  by (induction n arbitrary: addr) (auto simp: user_byte_cong [of s' s] split: option.splits)

lemma length_readable: "length (readable pt addr n s) \<le> n"
  by (induction n arbitrary: addr) (auto split: option.splits)

lemma upd_pipe_simps [simp]:
  "pipes (upd_pipe pi f s) = (pipes s)(pi := f (pipes s pi))" "procs (upd_pipe pi f s) = procs s"
  "lk (upd_pipe pi f s) = lk s" "hart (upd_pipe pi f s) = hart s" "mem (upd_pipe pi f s) = mem s"
  "curproc (upd_pipe pi f s) = curproc s"
  by (simp_all add: upd_pipe_def)

lemma plocks_free_upd_pipe [simp]: "plocks_free (upd_pipe pi f s) = plocks_free s"
  by (simp add: plocks_free_def)

lemma upd_pipe_id [simp]: "upd_pipe pi (\<lambda>p. p) s = s"
  by (simp add: upd_pipe_def)

lemma upd_pipe_twice [simp]: "upd_pipe pi f (upd_pipe pi g s) = upd_pipe pi (f \<circ> g) s"
  by (simp add: upd_pipe_def)

text \<open>The state of a pipe after bytes have been appended.\<close>

definition appended :: "pipe \<Rightarrow> u8 list \<Rightarrow> pipe" where
  "appended p bs = fold push bs p"

lemma appended_fields [simp]:
  "pi_nread (appended p bs) = pi_nread p" "pi_readopen (appended p bs) = pi_readopen p"
  "pi_writeopen (appended p bs) = pi_writeopen p"
  by (induction bs arbitrary: p) (simp_all add: appended_def push_def)

lemma appended_simps [simp]: "appended p [] = p" "appended p (b # bs) = appended (push b p) bs"
  by (simp_all add: appended_def)

lemma queue_appended: "length (queue p) + length bs \<le> 512 \<Longrightarrow> queue (appended p bs) = queue p @ bs"
  by (induction bs arbitrary: p) (simp_all add: queue_push)

text \<open>The bytes that a write moves before it has to wait or is done.\<close>

definition accepted :: "u64 \<Rightarrow> nat \<Rightarrow> u64 \<Rightarrow> nat \<Rightarrow> kstate \<Rightarrow> u8 list" where
  "accepted pi pr addr n s =
     take (512 - length (queue (pipes s pi))) (readable (p_pagetable (procs s ! pr)) addr n s)"

lemma pipewrite_loop_result:
  assumes "plocks_free s" "pi_readopen (pipes s pi)" "p_killed (procs s ! pr) = 0" "pipe_ok (pipes s pi)" "i \<le> n"
  shows "pipewrite_loop pi pr addr n i s =
    (let bs = accepted pi pr (addr + of_nat i) (n - i) s;
         s' = upd_pipe pi (\<lambda>p. appended p bs) s; j = i + length bs in
     if j < n \<and> length (queue (pipes s pi)) + length bs = 512
     then do { s' \<leftarrow> wakeup (ChanNread pi) s'; s' \<leftarrow> sleep (ChanNwrite pi) (PipeLock pi) s'; Some (Asleep j s') }
     else pipewrite_done pi j s')"
  using assms unfolding accepted_def
proof (induction "n - i" arbitrary: i s)
  case 0
  then show ?case by (subst pipewrite_loop.simps) (simp add: upd_pipe_def)
next
  case (Suc m)
  let ?q = "queue (pipes s pi)" and ?pt = "p_pagetable (procs s ! pr)" and ?a = "addr + of_nat i"
  have i: "i < n" "n - i = Suc m" "m = n - Suc i" using Suc.hyps(2) by auto
  note full = queue_full [OF Suc.prems(4)]
  consider "length ?q = 512" | "length ?q < 512" "user_byte ?pt ?a s = None"
    | b where "length ?q < 512" "user_byte ?pt ?a s = Some b"
    using Suc.prems(4) by (cases "user_byte ?pt ?a s") (auto simp: pipe_ok_def le_less)
  then show ?case
  proof cases
    case 1
    then show ?thesis
      using Suc.prems(1-3) i full by (subst pipewrite_loop.simps) (simp add: killed_result Let_def)
  next
    case 2
    then show ?thesis
      using Suc.prems(1-3) i full by (subst pipewrite_loop.simps) (simp add: killed_result Let_def copyin_byte)
  next
    case (3 b)
    let ?s = "upd_pipe pi (push b) s"
    have q: "queue (push b (pipes s pi)) = ?q @ [b]" using 3(1) by (rule queue_push)
    have step: "pipewrite_loop pi pr addr n i s = pipewrite_loop pi pr addr n (i + 1) ?s"
      using Suc.prems(1-3) i full 3
      by (subst pipewrite_loop.simps) (simp add: killed_result Let_def copyin_byte push_def [abs_def])
    have "readable ?pt (addr + (1 + of_nat i)) m ?s = readable ?pt (?a + 1) m s"
      using readable_cong [of ?s s] by (simp add: ac_simps)
    moreover have "512 - length ?q = Suc (512 - Suc (length ?q))" using 3(1) by simp
    moreover have "pi_readopen (push b (pipes s pi)) = pi_readopen (pipes s pi)" by (simp add: push_def)
    ultimately show ?thesis
      unfolding step using Suc.hyps(1) [of "i + 1" ?s] Suc.prems i 3 q
      by (simp add: pipe_ok_def Let_def comp_def add.assoc)
  qed
qed

text \<open>The running process, which holds no lock, on a complete process table.\<close>

definition process_at :: "nat \<Rightarrow> kstate \<Rightarrow> bool" where
  "process_at pr s \<longleftrightarrow> idle_cpu s \<and> length (procs s) = NPROC \<and> curproc s = Some pr \<and> pr < NPROC"

lemma wakeup_locked:
  assumes "process_at pr s" "\<forall>j. l \<noteq> PLock j" "t = s\<lparr>lk := acquired (hart s) l (lk s)\<rparr>"
  shows "wakeup ch (upd_pipe pi f t) = Some (upd_pipe pi f (t\<lparr>procs := woken ch (Some pr) (procs s)\<rparr>))"
proof -
  have "plocks_free (upd_pipe pi f t)"
    using assms plocks_free_acquired [of s l] by (simp add: process_at_def idle_cpu_def)
  then show ?thesis using assms by (subst wakeup_result) (auto simp: process_at_def upd_pipe_def)
qed

lemma rel_locked:
  assumes "idle_cpu s"
  shows "rel l (s\<lparr>lk := acquired (hart s) l (lk s), procs := ps, pipes := q\<rparr>) = Some (s\<lparr>procs := ps, pipes := q\<rparr>)"
  using assms by (simp add: idle_cpu_def unlocked_def rel_def release_acquired)

text \<open>
  C32. A write of \<open>n\<close> bytes to a pipe that is open for reading moves the longest prefix that can be read
  from user memory and for which there is room to the end of the queue, in order, changes no user memory
  and wakes exactly the processes that sleep on the pipe's read end. If the queue is full before all \<open>n\<close>
  bytes are moved the writer is left asleep on the write end, with the pipe's lock free; otherwise it
  returns the number of bytes moved, with every lock as it was.
\<close>

theorem pipewrite_appends:
  fixes addr :: u64 and n :: int
  assumes "process_at pr s" "pi_readopen (pipes s pi)" "p_killed (procs s ! pr) = 0" "length (queue (pipes s pi)) \<le> 512"
  defines "bs \<equiv> accepted pi pr addr (nat n) s"
  shows "\<exists>s'. pipewrite pi addr n s =
      Some (if length bs < nat n \<and> length (queue (pipes s pi)) + length bs = 512
            then Asleep (length bs) s' else Returned (int (length bs)) s') \<and>
    queue (pipes s' pi) = queue (pipes s pi) @ bs \<and> length (queue (pipes s' pi)) \<le> 512 \<and> mem s' = mem s \<and>
    (\<forall>j<NPROC. j \<noteq> pr \<longrightarrow> procs s' ! j = wake1 (ChanNread pi) (procs s ! j)) \<and>
    (if length bs < nat n \<and> length (queue (pipes s pi)) + length bs = 512
     then p_state (procs s' ! pr) = SLEEPING \<and> p_chan (procs s' ! pr) = ChanNwrite pi \<and> free_lock (PipeLock pi) (lk s')
     else procs s' ! pr = procs s ! pr \<and> lk s' = lk s)"
proof -
  let ?h = "hart s" and ?k = "lk s" and ?w = "woken (ChanNread pi) (Some pr) (procs s)"
  have R: "idle_cpu s" "length (procs s) = NPROC" "curproc s = Some pr" "pr < NPROC" "free_lock (PipeLock pi) ?k"
    using assms(1) by (simp_all add: process_at_def idle_cpu_def unlocked_def)
  let ?t = "s\<lparr>lk := acquired ?h (PipeLock pi) ?k\<rparr>" and ?f = "\<lambda>p. appended p bs"
  have bs: "accepted pi pr addr (nat n) ?t = bs"
    unfolding bs_def accepted_def using readable_cong [of ?t s] by simp
  have len: "length (queue (pipes s pi)) + length bs \<le> 512"
    using assms(4) by (simp add: bs_def accepted_def)
  have q: "queue (appended (pipes s pi) bs) = queue (pipes s pi) @ bs" using len by (rule queue_appended)
  have pf: "plocks_free ?t" using plocks_free_acquired [of s "PipeLock pi"] R(1) by (simp add: idle_cpu_def)
  note W = wakeup_locked [OF assms(1), of "PipeLock pi" ?t "ChanNread pi" pi ?f]
  have run: "pipewrite pi addr n s =
    (let s' = upd_pipe pi ?f ?t; j = length bs in
     if j < nat n \<and> length (queue (pipes s pi)) + length bs = 512
     then do { s' \<leftarrow> wakeup (ChanNread pi) s'; s' \<leftarrow> sleep (ChanNwrite pi) (PipeLock pi) s'; Some (Asleep j s') }
     else pipewrite_done pi j s')"
    using pipewrite_loop_result [OF pf, of pi pr 0 "nat n" addr] assms(2-4) R(3,5) bs
    by (simp add: pipewrite_def myproc_def acq_free pipe_ok_def Let_def)
  show ?thesis
  proof (cases "length bs < nat n \<and> length (queue (pipes s pi)) + length bs = 512")
    case True
    let ?s = "s\<lparr>procs := ?w, pipes := (pipes s)(pi := ?f (pipes s pi))\<rparr>"
    have id: "idle_cpu ?s" "i < length (procs ?s) \<longleftrightarrow> i < NPROC" for i
      using R(1,2) by (simp_all add: idle_cpu_def unlocked_def)
    have "upd_pipe pi ?f (?t\<lparr>procs := ?w\<rparr>) = ?s\<lparr>lk := acquired (hart ?s) (PipeLock pi) (lk ?s)\<rparr>"
      by (simp add: upd_pipe_def)
    then have "pipewrite pi addr n s = Some (Asleep (length bs) (?s\<lparr>lk := acquired ?h (PLock pr) ?k,
        procs := ?w[pr := (?w ! pr)\<lparr>p_chan := ChanNwrite pi, p_state := SLEEPING\<rparr>]\<rparr>))"
      using run True W sleep_result [OF id(1), of pr "PipeLock pi" "ChanNwrite pi"] R(2-4) by simp
    then show ?thesis using True len q R(2,4,5) by simp
  next
    case False
    have "pipewrite pi addr n s = Some (Returned (int (length bs)) (s\<lparr>procs := ?w, pipes := (pipes s)(pi := ?f (pipes s pi))\<rparr>))"
      using run False W rel_locked [OF R(1), where ps = ?w and l = "PipeLock pi"] by (simp add: pipewrite_done_def upd_pipe_def Let_def)
    then show ?thesis using False len q R(2,4) by auto
  qed
qed

text \<open>
  A machine for the witnesses: the process's page table is one page of RAM whose first entry points to the
  page itself, so that user address 0 is mapped to that page; the rest of memory is filled with one byte.
\<close>

definition demo_mem :: memory where
  "demo_mem a = (if a = 0x80023000 then 0x13 else if a = 0x80023001 then 0x8C else if a = 0x80023003 then 0x20
     else if a < 0x80023008 then 0 else 0x41)"

definition demo_pipe :: kstate where
  "demo_pipe = zero_state\<lparr>mem := demo_mem,
     procs := (procs zero_state)[0 := (procs zero_state ! 0)\<lparr>p_pagetable := 0x80023000\<rparr>],
     pipes := (\<lambda>_. zero_pipe\<lparr>pi_readopen := True, pi_writeopen := True\<rparr>)\<rparr>"

lemma demo_byte:
  fixes s :: "'a kmem_scheme"
  assumes "mem s = demo_mem" "va = 100 \<or> va = 101"
  shows "user_byte 0x80023000 va s = Some 0x41"
proof -
  have e: "load64 demo_mem 0x80023000 = 0x20008C13"
    by (simp add: load64_def demo_mem_def upt_rec)
  have v: "PTE2PA 0x20008C13 = 0x80023000" "(0x20008C13::u64) AND PTE_V \<noteq> 0" "(0x20008C13::u64) AND PTE_U \<noteq> 0"
    by (simp_all add: PTE2PA_def PTE_bits)
  have "walk_level 2 0x80023000 0 False s = (0x80023000, s)"
    unfolding numeral_2_eq_2 using assms(1) e v by (simp add: PX_def)
  then have w: "walkaddr 0x80023000 0 s = Some 0x80023000"
    using assms(1) e v by (simp add: walkaddr_def walk_def MAXVA_val)
  have "PGROUNDDOWN va = 0" "mem s (0x80023000 + va) = 0x41"
    using assms by (auto simp: PGROUNDDOWN_def demo_mem_def)
  with w show ?thesis by (simp add: user_byte_def)
qed

lemma demo_pipe_running: "process_at 0 demo_pipe"
  using zero_state_unlocked
  by (simp add: process_at_def idle_cpu_def demo_pipe_def unlocked_def zero_state_procs NPROC_def) (simp add: zero_state_def)

theorem pipewrite_appends_witness:
  "\<exists>s'. pipewrite 0 100 2 demo_pipe = Some (Returned 2 s') \<and> queue (pipes s' 0) = [0x41, 0x41]"
proof -
  have "mem demo_pipe = demo_mem" "p_pagetable (procs demo_pipe ! 0) = 0x80023000" "p_killed (procs demo_pipe ! 0) = 0"
    "queue (pipes demo_pipe 0) = []" "pi_readopen (pipes demo_pipe 0)"
    by (simp_all add: demo_pipe_def zero_state_def zero_proc_def zero_pipe_def queue_Nil NPROC_def)
  then show ?thesis
    using pipewrite_appends [OF demo_pipe_running, of 0 100 2]
    by (auto simp: accepted_def demo_byte numeral_2_eq_2)
qed

section \<open>Reading\<close>

definition popped :: "nat \<Rightarrow> pipe \<Rightarrow> pipe" where
  "popped d p = p\<lparr>pi_nread := pi_nread p + of_nat d\<rparr>"

lemma popped_simps [simp]:
  "popped 0 = (\<lambda>p. p)" "popped d (popped e p) = popped (e + d) p"
  "pi_nwrite (popped d p) = pi_nwrite p" "pi_readopen (popped d p) = pi_readopen p" "pi_writeopen (popped d p) = pi_writeopen p"
  by (simp_all add: popped_def [abs_def] add.assoc)

lemma queue_popped: "queue p \<noteq> [] \<Longrightarrow> queue (popped 1 p) = tl (queue p)"
  "queue p \<noteq> [] \<Longrightarrow> pi_data p (unat (pi_nread p mod PIPESIZE)) = hd (queue p)"
  using queue_pop [of p] by (simp_all add: queue_Nil popped_def)

lemma more_upd_pipe:
  fixes s s' :: kstate
  assumes "kmem.more s' = kmem.more s"
  shows "kmem.more (upd_pipe pi f s') = kmem.more (upd_pipe pi f s)"
  using assms by (cases s, cases s') (simp add: upd_pipe_def)

text \<open>
  Copying \<open>n\<close> bytes out of the queue, \<open>i\<close> of them done: \<open>k\<close> more arrive, \<open>d\<close> more leave the queue.
\<close>

lemma piperead_copy_result:
  assumes "vm_ok R ps c s" "\<And>p. 0 \<le> c p" "p_pagetable (procs s ! pr) = pt" "pt \<in> R" "unat addr + n \<le> 2 ^ 38" "i \<le> n"
    and "\<And>j. i \<le> j \<Longrightarrow> j < n \<Longrightarrow> own_page s pt (addr + of_nat j)"
  obtains k d ps' s' where "piperead_copy pi pr addr n [i..<n] s = Some (i + k, s')" "vm_ok R ps' c s'"
    "kmem.more s' = kmem.more (upd_pipe pi (popped d) s)" "queue (popped d (pipes s pi)) = drop d (queue (pipes s pi))"
    "d = k \<and> k = min (n - i) (length (queue (pipes s pi))) \<or> d = Suc k \<and> ps' = []"
    "d \<le> min (n - i) (length (queue (pipes s pi)))"
    "\<And>j. j < k \<Longrightarrow> uread (mem s') pt (addr + of_nat (i + j)) = Some (queue (pipes s pi) ! j)"
    "\<And>r va. r \<in> R \<Longrightarrow> r \<noteq> pt \<or> \<not> in_chunk (addr + of_nat i) (n - i) va \<Longrightarrow> uread (mem s') r va = uread (mem s) r va"
  using assms
proof (induction "n - i" arbitrary: i s ps thesis)
  case 0
  then show ?case by (intro 0(2) [of 0 s ps 0]) auto
next
  case (Suc m)
  let ?q = "queue (pipes s pi)"
  have i: "i < n" "n - Suc i = m" "[i..<n] = i # [Suc i..<n]" using Suc.hyps(2) by (auto simp: upt_conv_Cons)
  show ?case
  proof (cases "?q = []")
    case True
    then have "piperead_copy pi pr addr n [i..<n] s = Some (i, s)" by (simp add: i(3) queue_Nil)
    then show ?thesis using True Suc.prems(2) by (intro Suc.prems(1) [of 0 s ps 0]) auto
  next
    case False
    let ?s = "upd_pipe pi (popped 1) s" and ?b = "hd ?q" and ?a = "addr + of_nat i"
    have ok: "vm_ok R ps c ?s" using Suc.prems(2) vm_ok_cong [of ?s s] by (simp add: upd_pipe_def)
    have own: "own_page ?s pt va = own_page s pt va" for va
      by (rule own_page_cong) (simp_all add: upd_pipe_def)
    have bound: "unat ?a = unat addr + i" using Suc.prems(6) i(1) by (intro unat_chunk [of addr n]) auto
    have pop: "upd_pipe pi (\<lambda>p. p\<lparr>pi_nread := pi_nread p + 1\<rparr>) s = ?s" by (simp add: popped_def [abs_def])
    have step: "piperead_copy pi pr addr n [i..<n] s = do {
        (r, s) \<leftarrow> copyout pt ?a [?b] ?s;
        if r = -1 then Some (i, s) else piperead_copy pi pr addr n [Suc i..<n] s }"
      using False queue_popped(2) [OF False] Suc.prems(4) by (simp add: i(3) queue_Nil pop)
    show ?thesis
    proof (rule copyout_delivers [OF ok Suc.prems(3,5), of ?a "[?b]"])
      show "unat ?a + length [?b] \<le> 2 ^ 38" using bound Suc.prems(6) i(1) by simp
      show "own_page ?s pt (?a + of_nat j)" if "j < length [?b]" for j
        using that Suc.prems(8) [of i] i(1) own by simp
      fix x ps1 s1
      assume *: "copyout pt ?a [?b] ?s = Some (x, s1)" "vm_ok R ps1 c s1" "kmem.more s1 = kmem.more ?s"
        "\<And>va'. own_page ?s pt va' \<Longrightarrow> own_page s1 pt va'"
        "x = 0 \<and> (\<forall>i<length [?b]. uread (mem s1) pt (?a + of_nat i) = Some ([?b] ! i)) \<or> x = -1 \<and> ps1 = []"
        "\<And>r' va'. r' \<in> R \<Longrightarrow> r' \<noteq> pt \<or> \<not> in_chunk ?a (length [?b]) va' \<Longrightarrow> uread (mem s1) r' va' = uread (mem ?s) r' va'"
      note more = more_eqD [OF *(3)]
      have chunk: "in_chunk ?a (n - i) va \<longleftrightarrow> unat addr + i \<le> unat va \<and> unat va < unat addr + n"
        "in_chunk ?a (length [?b]) va \<longleftrightarrow> unat va = unat addr + i" for va
        using in_chunk_iff [of ?a "n - i" va] in_chunk_iff [of ?a 1 va] bound Suc.prems(6) i(1) by auto
      have q1: "queue (pipes s1 pi) = tl ?q" using more(10) queue_popped(1) [OF False] by simp
      show ?thesis
      proof (cases "x = -1")
        case True
        show ?thesis
        proof (rule Suc.prems(1) [of 0 s1 ps1 1])
          show "piperead_copy pi pr addr n [i..<n] s = Some (i + 0, s1)" using step *(1) True by simp
          show "1 \<le> min (n - i) (length ?q)" using i(1) False by (simp add: Suc_le_eq)
          show "uread (mem s1) r va = uread (mem s) r va" if "r \<in> R" "r \<noteq> pt \<or> \<not> in_chunk ?a (n - i) va" for r va
            using *(6) [OF that(1), of va] that(2) i(1) unfolding chunk by auto
        qed (use *(2,3,5) True queue_popped(1) [OF False] in \<open>simp_all add: drop_Suc\<close>)
      next
        case x: False
        then have rb: "uread (mem s1) pt ?a = Some ?b" using *(5) by simp
        have own1: "own_page s1 pt (addr + of_nat j)" if "Suc i \<le> j" "j < n" for j
          using that *(4) own Suc.prems(8) [of j] by simp
        have pt1: "p_pagetable (procs s1 ! pr) = pt" using more(3) Suc.prems(4) by simp
        show ?thesis
        proof (rule Suc.hyps(1) [OF i(2) [symmetric] _ *(2) Suc.prems(3) pt1 Suc.prems(5,6) _ own1])
          fix k d ps' s'
          assume h: "piperead_copy pi pr addr n [Suc i..<n] s1 = Some (Suc i + k, s')" "vm_ok R ps' c s'"
            "kmem.more s' = kmem.more (upd_pipe pi (popped d) s1)"
            "queue (popped d (pipes s1 pi)) = drop d (queue (pipes s1 pi))"
            "d = k \<and> k = min (n - Suc i) (length (queue (pipes s1 pi))) \<or> d = Suc k \<and> ps' = []"
            "d \<le> min (n - Suc i) (length (queue (pipes s1 pi)))"
            "\<And>j. j < k \<Longrightarrow> uread (mem s') pt (addr + of_nat (Suc i + j)) = Some (queue (pipes s1 pi) ! j)"
            "\<And>r va. r \<in> R \<Longrightarrow> r \<noteq> pt \<or> \<not> in_chunk (addr + of_nat (Suc i)) (n - Suc i) va \<Longrightarrow>
               uread (mem s') r va = uread (mem s1) r va"
          have bound1: "unat (addr + of_nat (Suc i)) = unat addr + Suc i"
            using Suc.prems(6) i(1) by (intro unat_chunk [of addr n]) auto
          have chunk1: "in_chunk (addr + of_nat (Suc i)) (n - Suc i) va \<longleftrightarrow>
              unat addr + Suc i \<le> unat va \<and> unat va < unat addr + n" for va
            using in_chunk_iff [of "addr + of_nat (Suc i)" "n - Suc i" va] bound1 Suc.prems(6) i(1) by auto
          have pc: "popped d \<circ> popped 1 = popped (Suc d)" by (simp add: fun_eq_iff)
          have p1: "pipes s1 pi = popped 1 (pipes s pi)" using more(10) by simp
          obtain b q where q: "?q = b # q" using False by (cases ?q) auto
          show ?thesis
          proof (rule Suc.prems(1) [of "Suc k" s' ps' "Suc d"])
            show "piperead_copy pi pr addr n [i..<n] s = Some (i + Suc k, s')" using step *(1) x h(1) by simp
            show "kmem.more s' = kmem.more (upd_pipe pi (popped (Suc d)) s)"
              using h(3) more_upd_pipe [OF *(3), of pi "popped d"] pc by simp
            show "queue (popped (Suc d) (pipes s pi)) = drop (Suc d) ?q"
              using h(4) q1 p1 q by simp
            show "Suc d = Suc k \<and> Suc k = min (n - i) (length ?q) \<or> Suc d = Suc (Suc k) \<and> ps' = []"
              using h(5) q1 q i(1) by (auto simp: min_def)
            show "Suc d \<le> min (n - i) (length ?q)" using h(6) q1 q i(1) by auto
            show "uread (mem s') pt (addr + of_nat (i + j)) = Some (?q ! j)" if "j < Suc k" for j
            proof (cases j)
              case 0
              have "\<not> in_chunk (addr + of_nat (Suc i)) (n - Suc i) ?a" unfolding chunk1 bound by simp
              then show ?thesis using h(8) [OF Suc.prems(5), of ?a] rb 0 q by simp
            next
              case (Suc j')
              then show ?thesis using h(7) [of j'] that q q1 by simp
            qed
            show "uread (mem s') r va = uread (mem s) r va" if "r \<in> R" "r \<noteq> pt \<or> \<not> in_chunk ?a (n - i) va" for r va
              using h(8) [OF that(1), of va] *(6) [OF that(1), of va] that(2) i(1) unfolding chunk chunk1 by auto
          qed (rule h(2))
        qed (use i(1) in simp)
      qed
    qed
  qed
qed

text \<open>
  C33. A read of \<open>n\<close> bytes from an empty pipe that is still open for writing goes to sleep on the read end
  and leaves the pipe and its lock alone. Otherwise it returns the number \<open>k\<close> of bytes delivered: the first \<open>k\<close> bytes
  of the queue stand, in order, at the user addresses from \<open>addr\<close> on, and nothing else that any process
  reads has changed; exactly the processes asleep on the write end are woken. \<open>k\<close> is all that was asked
  for or available, and the queue has lost exactly those bytes, unless memory for a private copy of a
  destination page ran out; then one byte more has left the queue.
\<close>

theorem piperead_takes:
  fixes n :: int
  assumes "process_at pr s" "p_killed (procs s ! pr) = 0" "p_pagetable (procs s ! pr) = pt"
    and "vm_ok R ps c s" "\<forall>p. 0 \<le> c p" "pt \<in> R" "unat addr + nat n \<le> 2 ^ 38"
    and "\<forall>j<nat n. own_page s pt (addr + of_nat j)"
  shows "if queue (pipes s pi) = [] \<and> pi_writeopen (pipes s pi)
    then \<exists>s'. piperead pi addr n s = Some (Asleep () s') \<and> pipes s' = pipes s \<and> mem s' = mem s \<and>
      p_state (procs s' ! pr) = SLEEPING \<and> p_chan (procs s' ! pr) = ChanNread pi \<and> free_lock (PipeLock pi) (lk s')
    else \<exists>k d ps' s'. piperead pi addr n s = Some (Returned (int k) s') \<and> vm_ok R ps' c s' \<and>
      (d = k \<and> k = min (nat n) (length (queue (pipes s pi))) \<or> d = Suc k \<and> ps' = []) \<and>
      queue (pipes s' pi) = drop d (queue (pipes s pi)) \<and>
      (\<forall>j<k. uread (mem s') pt (addr + of_nat j) = Some (queue (pipes s pi) ! j)) \<and>
      (\<forall>r\<in>R. \<forall>va. r \<noteq> pt \<or> \<not> in_chunk addr (nat n) va \<longrightarrow> uread (mem s') r va = uread (mem s) r va) \<and>
      procs s' = woken (ChanNwrite pi) (Some pr) (procs s) \<and> lk s' = lk s"
proof -
  let ?h = "hart s" and ?k = "lk s" and ?t = "s\<lparr>lk := acquired (hart s) (PipeLock pi) (lk s)\<rparr>"
  have R: "idle_cpu s" "length (procs s) = NPROC" "curproc s = Some pr" "pr < NPROC" "free_lock (PipeLock pi) ?k"
    using assms(1) by (simp_all add: process_at_def idle_cpu_def unlocked_def)
  have pf: "plocks_free ?t" using plocks_free_acquired [of s "PipeLock pi"] R(1) by (simp add: idle_cpu_def)
  have run: "piperead pi addr n s = piperead_wait pi pr addr n ?t"
    using R(3,5) by (simp add: piperead_def myproc_def acq_free)
  show ?thesis
  proof (cases "queue (pipes s pi) = [] \<and> pi_writeopen (pipes s pi)")
    case True
    then have "piperead pi addr n s = Some (Asleep () (s\<lparr>lk := acquired ?h (PLock pr) ?k,
        procs := (procs s)[pr := (procs s ! pr)\<lparr>p_chan := ChanNread pi, p_state := SLEEPING\<rparr>]\<rparr>))"
      using run assms(2) R killed_result [OF pf, of pr] sleep_result [OF R(1,3), of "PipeLock pi" "ChanNread pi"]
      by (simp add: piperead_wait_def queue_Nil)
    then show ?thesis using True R(2,4,5) by simp
  next
    case False
    have ok: "vm_ok R ps c ?t" using assms(4) vm_ok_cong [of ?t s] by simp
    have own: "own_page ?t pt va = own_page s pt va" for va by (rule own_page_cong) simp_all
    show ?thesis
    proof (rule piperead_copy_result [OF ok, where pr = pr and pt = pt and addr = addr and n = "nat n" and i = 0 and pi = pi])
      fix k d ps' s1
      assume *: "piperead_copy pi pr addr (nat n) [0..<nat n] ?t = Some (0 + k, s1)" "vm_ok R ps' c s1"
        "kmem.more s1 = kmem.more (upd_pipe pi (popped d) ?t)"
        "queue (popped d (pipes ?t pi)) = drop d (queue (pipes ?t pi))"
        "d = k \<and> k = min (nat n - 0) (length (queue (pipes ?t pi))) \<or> d = Suc k \<and> ps' = []"
        "\<And>j. j < k \<Longrightarrow> uread (mem s1) pt (addr + of_nat (0 + j)) = Some (queue (pipes ?t pi) ! j)"
        "\<And>r va. r \<in> R \<Longrightarrow> r \<noteq> pt \<or> \<not> in_chunk (addr + of_nat 0) (nat n - 0) va \<Longrightarrow> uread (mem s1) r va = uread (mem ?t) r va"
      note more = more_eqD [OF *(3), simplified]
      let ?w = "woken (ChanNwrite pi) (Some pr) (procs s)"
      have w: "wakeup (ChanNwrite pi) s1 = Some (s1\<lparr>procs := ?w\<rparr>)"
        using pf more R(2,3) by (subst wakeup_result) (simp_all add: plocks_free_def)
      have "release ?h (PipeLock pi) (acquired ?h (PipeLock pi) ?k) = Some ?k"
        using R(1,5) by (simp add: idle_cpu_def unlocked_def release_acquired)
      then have "rel (PipeLock pi) (s1\<lparr>procs := ?w\<rparr>) = Some (s1\<lparr>procs := ?w, lk := ?k\<rparr>)"
        using more by (simp add: rel_def)
      then have res: "piperead pi addr n s = Some (Returned (int k) (s1\<lparr>procs := ?w, lk := ?k\<rparr>))"
        using run False *(1) w by (auto simp: piperead_wait_def queue_Nil)
      have "vm_ok R ps' c (s1\<lparr>procs := ?w, lk := ?k\<rparr>)" using *(2) vm_ok_cong [of "s1\<lparr>procs := ?w, lk := ?k\<rparr>" s1] by simp
      then show ?thesis
        unfolding if_not_P [OF False]
        by (intro exI [of _ k] exI [of _ d] exI [of _ ps'] exI [of _ "s1\<lparr>procs := ?w, lk := ?k\<rparr>"])
          (use res *(4-7) more(10) in \<open>simp add: fun_eq_iff\<close>)
    qed (use assms(3,5-8) own in auto)
  qed
qed

text \<open>The kernel with the memory of a machine \<open>m\<close>, process 0 executing in the address space \<open>pt\<close>, and a byte in each pipe.\<close>

definition kernel_on :: "u64 \<Rightarrow> kmem \<Rightarrow> kstate" where
  "kernel_on pt m = zero_state\<lparr>mem := mem m, freelist := freelist m, reference_counter := reference_counter m,
     kend := kend m, procs := (procs zero_state)[0 := (procs zero_state ! 0)\<lparr>p_pagetable := pt\<rparr>],
     pipes := (\<lambda>_. push 0x41 (zero_pipe\<lparr>pi_readopen := True, pi_writeopen := True\<rparr>))\<rparr>"

lemma kernel_on_running: "process_at 0 (kernel_on pt m)"
  using zero_state_unlocked
  by (simp add: process_at_def idle_cpu_def kernel_on_def unlocked_def zero_state_procs NPROC_def) (simp add: zero_state_def)

theorem piperead_takes_witness:
  "\<exists>old new m k s'. demo_fork = Some (old, new, m) \<and> piperead 0 17 1 (kernel_on new m) = Some (Returned k s') \<and>
     uread (mem s') old 17 = uread (mem m) old 17"
proof (rule demo_shared)
  fix old new m ps e
  assume d: "demo_fork = Some (old, new, m)" "vm_ok {old, new} ps (\<lambda>_. 0) m" "old \<noteq> new"
    "lookup (mem m) new 17 = Some e" "bit e 8" "bit e 4" "ram_page m (PTE2PA e)"
  let ?s = "kernel_on new m"
  have f: "mem ?s = mem m" "freelist ?s = freelist m" "reference_counter ?s = reference_counter m" "kend ?s = kend m"
    by (simp_all add: kernel_on_def)
  let ?p = "zero_pipe\<lparr>pi_readopen := True, pi_writeopen := True\<rparr>"
  have "queue ?p = []" by (simp add: queue_Nil zero_pipe_def)
  then have p: "p_pagetable (procs ?s ! 0) = new" "p_killed (procs ?s ! 0) = 0" "queue (pipes ?s 0) = [0x41]"
    using queue_push [of ?p "0x41"] by (simp_all add: kernel_on_def zero_state_def zero_proc_def NPROC_def)
  have ok: "vm_ok {old, new} ps (\<lambda>_. 0) ?s" using d(2) vm_ok_cong [OF f] by simp
  have own: "\<forall>j<nat 1. own_page ?s new (17 + of_nat j)"
    using d(4-7) own_page_cong [OF f(1,3,4)] by (simp add: own_page_def)
  have "\<exists>k s'. piperead 0 17 1 ?s = Some (Returned k s') \<and> uread (mem s') old 17 = uread (mem m) old 17"
    using piperead_takes [OF kernel_on_running p(2,1) ok _ _ _ own, of 0] p(3) d(3) f(1) by auto
  with d(1) show ?thesis by blast
qed

end
