(* ===== verification/Virtio.thy ===== *)
theory Virtio
  imports Bio Frame
begin

text \<open>
  \<^verbatim>\<open>kernel/virtio_disk.c\<close>: the driver of the virtio disk. Its three queue pages and its book-keeping are the
  record \<open>vdisk\<close>; an address that the driver gives to the device is one of the few objects it points to
  (\<open>vaddr\<close>). \<open>b_disk\<close> is the field \<open>disk\<close> of every \<^verbatim>\<open>struct buf\<close>.

  \<open>virtio_disk_rw\<close> sleeps until the device has answered; it is cut there, with a second definition for what
  follows when the process runs again. The device's answers to reads of its registers are a parameter of
  \<open>virtio_disk_init\<close>, a function of the register and of the writes so far.
\<close>

section \<open>Structures (virtio.h)\<close>

definition NUM :: nat where "NUM = 8"

definition VRING_DESC_F_NEXT :: u16 where "VRING_DESC_F_NEXT = 1"
definition VRING_DESC_F_WRITE :: u16 where "VRING_DESC_F_WRITE = 2"
definition VIRTIO_BLK_T_IN :: u32 where "VIRTIO_BLK_T_IN = 0"
definition VIRTIO_BLK_T_OUT :: u32 where "VIRTIO_BLK_T_OUT = 1"

text \<open>The objects a descriptor points to: \<open>ops[i]\<close>, the data of buffer \<open>b\<close>, \<open>info[i].status\<close>.\<close>

datatype vaddr = VNull | VOps nat | VData nat | VStatus nat

record virtq_desc =
  vq_addr :: vaddr
  vq_len :: u32
  vq_flags :: u16
  vq_next :: u16

record virtio_blk_req =
  vr_type :: u32
  vr_reserved :: u32
  vr_sector :: u64

record vdisk =
  v_desc :: "nat \<Rightarrow> virtq_desc"
  avail_idx :: u16
  avail_ring :: "nat \<Rightarrow> u16"
  used_cnt :: u16
  used_ring :: "nat \<Rightarrow> u32"
  v_free :: "bool list"
  used_idx :: u16
  info_b :: "nat \<Rightarrow> nat option"
  info_status :: "nat \<Rightarrow> u8"
  v_ops :: "nat \<Rightarrow> virtio_blk_req"
  b_disk :: "nat \<Rightarrow> bool"
  mmio :: "(u32 \<times> u32) list"
  queue_pages :: "u64 list"

record dstate =
  kst :: kstate
  vdk :: vdisk

definition upd_vdk :: "(vdisk \<Rightarrow> vdisk) \<Rightarrow> dstate \<Rightarrow> dstate" where
  "upd_vdk f d = d\<lparr>vdk := f (vdk d)\<rparr>"

definition on_kst :: "(kstate \<Rightarrow> kstate option) \<Rightarrow> dstate \<Rightarrow> dstate option" where
  "on_kst f d = do { s \<leftarrow> f (kst d); Some (d\<lparr>kst := s\<rparr>) }"

text \<open>\<open>*R(r) = v\<close>.\<close>

definition mmio_write :: "u32 \<Rightarrow> u32 \<Rightarrow> dstate \<Rightarrow> dstate" where
  "mmio_write r v = upd_vdk (\<lambda>k. k\<lparr>mmio := mmio k @ [(r, v)]\<rparr>)"

section \<open>Initialisation\<close>

text \<open>The feature bits the driver does not want.\<close>

definition unwanted :: u32 where
  "unwanted = push_bit 5 1 OR push_bit 7 1 OR push_bit 11 1 OR push_bit 12 1 OR push_bit 27 1 OR push_bit 29 1 OR push_bit 28 1"

definition set_pages :: "u64 \<Rightarrow> u64 \<Rightarrow> u64 \<Rightarrow> dstate \<Rightarrow> dstate" where
  "set_pages desc avail used d =
     (let d = mmio_write 0x080 (ucast desc) d;
          d = mmio_write 0x084 (ucast (drop_bit 32 desc)) d;
          d = mmio_write 0x090 (ucast avail) d;
          d = mmio_write 0x094 (ucast (drop_bit 32 avail)) d;
          d = mmio_write 0x0a0 (ucast used) d
      in mmio_write 0x0a4 (ucast (drop_bit 32 used)) d)"

definition queue_init :: "dstate \<Rightarrow> dstate option" where
  "queue_init d =
     (let (desc, s) = kalloc (kst d);
          (avail, s) = kalloc s;
          (used, s) = kalloc s
      in if desc = 0 \<or> avail = 0 \<or> used = 0 then panic ''virtio disk kalloc''
      else
        let s = s\<lparr>mem := memset (mem s) desc 0 4096\<rparr>;
            s = s\<lparr>mem := memset (mem s) avail 0 4096\<rparr>;
            s = s\<lparr>mem := memset (mem s) used 0 4096\<rparr>;
            d = d\<lparr>kst := s\<rparr>;
            d = upd_vdk (\<lambda>k. k\<lparr>queue_pages := [desc, avail, used],
                  v_desc := (\<lambda>_. \<lparr>vq_addr = VNull, vq_len = 0, vq_flags = 0, vq_next = 0\<rparr>),
                  avail_idx := 0, avail_ring := (\<lambda>_. 0), used_cnt := 0, used_ring := (\<lambda>_. 0)\<rparr>) d;
            d = mmio_write 0x038 (of_nat NUM) d;
            d = set_pages desc avail used d;
            d = mmio_write 0x044 1 d
        in Some (upd_vdk (\<lambda>k. k\<lparr>v_free := replicate NUM True\<rparr>) d))"

definition virtio_disk_init :: "((u32 \<times> u32) list \<Rightarrow> u32 \<Rightarrow> u32) \<Rightarrow> dstate \<Rightarrow> dstate option" where
  "virtio_disk_init rd d =
     (let d = d\<lparr>kst := (kst d)\<lparr>lk := initlock VdiskLock (lk (kst d))\<rparr>\<rparr>;
          R = (\<lambda>r d. rd (mmio (vdk d)) r)
      in if R 0x000 d \<noteq> 0x74726976 \<or> R 0x004 d \<noteq> 2 \<or> R 0x008 d \<noteq> 2 \<or> R 0x00c d \<noteq> 0x554d4551
      then panic ''could not find virtio disk''
      else
        let d = mmio_write 0x070 0 d;
            d = mmio_write 0x070 1 d;
            d = mmio_write 0x070 (1 OR 2) d;
            features = R 0x010 d AND NOT unwanted;
            d = mmio_write 0x020 features d;
            d = mmio_write 0x070 (1 OR 2 OR 8) d;
            status = R 0x070 d
        in if status AND 8 = 0 then panic ''virtio disk FEATURES_OK unset''
        else
          let d = mmio_write 0x030 0 d in
          if R 0x044 d \<noteq> 0 then panic ''virtio disk should not be ready''
          else if R 0x034 d = 0 then panic ''virtio disk has no queue 0''
          else if R 0x034 d < of_nat NUM then panic ''virtio disk max queue too short''
          else do {
            d \<leftarrow> queue_init d;
            Some (mmio_write 0x070 (status OR 4) d)
          })"

section \<open>Descriptors\<close>

definition alloc_desc :: "dstate \<Rightarrow> nat option \<times> dstate" where
  "alloc_desc d =
     (case find (\<lambda>i. v_free (vdk d) ! i) [0..<NUM] of
        Some i \<Rightarrow> (Some i, upd_vdk (\<lambda>k. k\<lparr>v_free := (v_free k)[i := False]\<rparr>) d)
      | None \<Rightarrow> (None, d))"

definition free_desc :: "nat \<Rightarrow> dstate \<Rightarrow> dstate option" where
  "free_desc i d =
     (if NUM \<le> i then panic ''free_desc 1''
      else if v_free (vdk d) ! i then panic ''free_desc 2''
      else
        let d = upd_vdk (\<lambda>k. k\<lparr>v_desc := (v_desc k)(i := \<lparr>vq_addr = VNull, vq_len = 0, vq_flags = 0, vq_next = 0\<rparr>),
                  v_free := (v_free k)[i := True]\<rparr>) d
        in on_kst (wakeup ChanDescs) d)"

partial_function (option) free_chain :: "nat \<Rightarrow> dstate \<Rightarrow> dstate option" where
  "free_chain i d =
     (let flag = vq_flags (v_desc (vdk d) i);
          nxt = vq_next (v_desc (vdk d) i)
      in do {
        d \<leftarrow> free_desc i d;
        if flag AND VRING_DESC_F_NEXT \<noteq> 0 then free_chain (unat nxt) d else Some d
      })"

fun free_all :: "nat list \<Rightarrow> dstate \<Rightarrow> dstate option" where
  "free_all [] d = Some d"
| "free_all (i # is) d = do { d \<leftarrow> free_desc i d; free_all is d }"

text \<open>The loop of \<open>alloc3_desc\<close> with \<open>n\<close> rounds to go; \<open>None\<close> in the result is its return value \<open>-1\<close>.\<close>

fun alloc3_loop :: "nat \<Rightarrow> nat list \<Rightarrow> dstate \<Rightarrow> (nat list option \<times> dstate) option" where
  "alloc3_loop 0 idx d = Some (Some idx, d)"
| "alloc3_loop (Suc n) idx d =
     (case alloc_desc d of
        (None, d) \<Rightarrow> do { d \<leftarrow> free_all idx d; Some (None, d) }
      | (Some i, d) \<Rightarrow> alloc3_loop n (idx @ [i]) d)"

definition alloc3_desc :: "dstate \<Rightarrow> (nat list option \<times> dstate) option" where
  "alloc3_desc d = alloc3_loop 3 [] d"

section \<open>Reading and writing a block\<close>

text \<open>What a sleeping \<open>virtio_disk_rw\<close> waits for: descriptors, or its request.\<close>

datatype rw_wait = ForDescs | ForDisk "nat list"

datatype rw_result = RwReturned dstate | RwAsleep rw_wait dstate

definition put_desc :: "nat \<Rightarrow> vaddr \<Rightarrow> u32 \<Rightarrow> u16 \<Rightarrow> u16 \<Rightarrow> dstate \<Rightarrow> dstate" where
  "put_desc i a len flags nxt =
     upd_vdk (\<lambda>k. k\<lparr>v_desc := (v_desc k)(i := \<lparr>vq_addr = a, vq_len = len, vq_flags = flags, vq_next = nxt\<rparr>)\<rparr>)"

text \<open>The request as the three descriptors \<open>i0\<close>, \<open>i1\<close>, \<open>i2\<close>, and the announcement to the device.\<close>

definition submit :: "nat \<Rightarrow> nat \<Rightarrow> nat \<Rightarrow> nat \<Rightarrow> bool \<Rightarrow> dstate \<Rightarrow> dstate" where
  "submit i0 i1 i2 b write d =
     (let sector = ucast (b_blockno (bufs (kst d) b) * 2) :: u64;
          d = upd_vdk (\<lambda>k. k\<lparr>v_ops := (v_ops k)(i0 := \<lparr>vr_type = if write then VIRTIO_BLK_T_OUT else VIRTIO_BLK_T_IN,
                vr_reserved = 0, vr_sector = sector\<rparr>)\<rparr>) d;
          d = put_desc i0 (VOps i0) 16 VRING_DESC_F_NEXT (of_nat i1) d;
          d = put_desc i1 (VData b) (of_nat BSIZE)
                ((if write then 0 else VRING_DESC_F_WRITE) OR VRING_DESC_F_NEXT) (of_nat i2) d;
          d = upd_vdk (\<lambda>k. k\<lparr>info_status := (info_status k)(i0 := 0xff)\<rparr>) d;
          d = put_desc i2 (VStatus i0) 1 VRING_DESC_F_WRITE 0 d;
          d = upd_vdk (\<lambda>k. k\<lparr>b_disk := (b_disk k)(b := True), info_b := (info_b k)(i0 := Some b)\<rparr>) d;
          d = upd_vdk (\<lambda>k. k\<lparr>avail_ring := (avail_ring k)(unat (avail_idx k) mod NUM := of_nat i0)\<rparr>) d;
          d = upd_vdk (\<lambda>k. k\<lparr>avail_idx := avail_idx k + 1\<rparr>) d
      in mmio_write 0x050 0 d)"

definition rw_await :: "nat list \<Rightarrow> nat \<Rightarrow> dstate \<Rightarrow> rw_result option" where
  "rw_await idx b d =
     (if b_disk (vdk d) b then do {
        d \<leftarrow> on_kst (sleep (ChanDisk b) VdiskLock) d;
        Some (RwAsleep (ForDisk idx) d)
      } else do {
        let d = upd_vdk (\<lambda>k. k\<lparr>info_b := (info_b k)(hd idx := None)\<rparr>) d;
        d \<leftarrow> free_chain (hd idx) d;
        d \<leftarrow> on_kst (rel VdiskLock) d;
        Some (RwReturned d)
      })"

definition rw_begin :: "nat \<Rightarrow> bool \<Rightarrow> dstate \<Rightarrow> rw_result option" where
  "rw_begin b write d = do {
     (idx, d) \<leftarrow> alloc3_desc d;
     case idx of
       None \<Rightarrow> do { d \<leftarrow> on_kst (sleep ChanDescs VdiskLock) d; Some (RwAsleep ForDescs d) }
     | Some idx \<Rightarrow> rw_await idx b (submit (idx ! 0) (idx ! 1) (idx ! 2) b write d)
   }"

definition virtio_disk_rw :: "nat \<Rightarrow> bool \<Rightarrow> dstate \<Rightarrow> rw_result option" where
  "virtio_disk_rw b write d = do { d \<leftarrow> on_kst (acq VdiskLock) d; rw_begin b write d }"

definition virtio_disk_rw_resumed :: "rw_wait \<Rightarrow> nat \<Rightarrow> bool \<Rightarrow> dstate \<Rightarrow> rw_result option" where
  "virtio_disk_rw_resumed v b write d = do {
     d \<leftarrow> on_kst (sleep_resumed VdiskLock) d;
     case v of ForDescs \<Rightarrow> rw_begin b write d | ForDisk idx \<Rightarrow> rw_await idx b d
   }"

section \<open>The interrupt\<close>

partial_function (option) intr_loop :: "dstate \<Rightarrow> dstate option" where
  "intr_loop d =
     (if used_idx (vdk d) \<noteq> used_cnt (vdk d) then
        let id = unat (used_ring (vdk d) (unat (used_idx (vdk d)) mod NUM)) in
        if info_status (vdk d) id \<noteq> 0 then panic ''virtio_disk_intr status''
        else do {
          b \<leftarrow> info_b (vdk d) id;
          let d = upd_vdk (\<lambda>k. k\<lparr>b_disk := (b_disk k)(b := False)\<rparr>) d;
          d \<leftarrow> on_kst (wakeup (ChanDisk b)) d;
          intr_loop (upd_vdk (\<lambda>k. k\<lparr>used_idx := used_idx k + 1\<rparr>) d)
        }
      else Some d)"

text \<open>\<open>istatus\<close> is the value of the register \<^verbatim>\<open>VIRTIO_MMIO_INTERRUPT_STATUS\<close>.\<close>

definition virtio_disk_intr :: "u32 \<Rightarrow> dstate \<Rightarrow> dstate option" where
  "virtio_disk_intr istatus d = do {
     d \<leftarrow> on_kst (acq VdiskLock) d;
     let d = mmio_write 0x064 (istatus AND 3) d;
     d \<leftarrow> intr_loop d;
     on_kst (rel VdiskLock) d
   }"

end
