(* ===== verification/VirtioProps.thy ===== *)
theory VirtioProps
  imports Virtio PipeProps
begin

text \<open>
  The disk driver implements the contract \<open>disk_transfer\<close> that the buffer cache uses: a request that
  \<open>virtio_disk_rw\<close> submits, the device serves and \<open>virtio_disk_intr\<close> reports transfers exactly the buffer's block.
\<close>

section \<open>What the device does\<close>

text \<open>
  The request that the device takes next: the head of its chain, and the following descriptors. A chain is
  well formed if it consists of a header, a block of data in the direction of the request and a status byte.
\<close>

definition head_of :: "vdisk \<Rightarrow> nat" where
  "head_of k = unat (avail_ring k (unat (used_cnt k) mod NUM))"

definition data_of :: "vdisk \<Rightarrow> nat" where
  "data_of k = unat (vq_next (v_desc k (head_of k)))"

definition status_of :: "vdisk \<Rightarrow> nat" where
  "status_of k = unat (vq_next (v_desc k (data_of k)))"

definition well_formed :: "vdisk \<Rightarrow> bool" where
  "well_formed k \<longleftrightarrow>
     used_cnt k \<noteq> avail_idx k \<and>
     v_desc k (head_of k) = \<lparr>vq_addr = VOps (head_of k), vq_len = 16, vq_flags = VRING_DESC_F_NEXT, vq_next = of_nat (data_of k)\<rparr> \<and>
     (\<exists>b. vq_addr (v_desc k (data_of k)) = VData b) \<and> vq_len (v_desc k (data_of k)) = of_nat BSIZE \<and>
     (vr_type (v_ops k (head_of k)) = VIRTIO_BLK_T_OUT \<and> vq_flags (v_desc k (data_of k)) = VRING_DESC_F_NEXT \<or>
      vr_type (v_ops k (head_of k)) = VIRTIO_BLK_T_IN \<and>
        vq_flags (v_desc k (data_of k)) = VRING_DESC_F_WRITE OR VRING_DESC_F_NEXT) \<and>
     vq_addr (v_desc k (status_of k)) = VStatus (head_of k) \<and> vq_len (v_desc k (status_of k)) = 1 \<and>
     vq_flags (v_desc k (status_of k)) = VRING_DESC_F_WRITE"

text \<open>Serving it: transfer the sectors, write the status, put the head into the used ring.\<close>

definition serve :: "dstate \<Rightarrow> dstate" where
  "serve d =
     (let k = vdk d; r = v_ops k (head_of k); bn = ucast (vr_sector r div 2) :: u32; s = kst d
      in case vq_addr (v_desc k (data_of k)) of
           VData b \<Rightarrow>
             d\<lparr>kst := (if vr_type r = VIRTIO_BLK_T_OUT
                       then s\<lparr>disk := (disk s)(bn := b_data (bufs s b)), dwrites := dwrites s @ [(bn, b_data (bufs s b))]\<rparr>
                       else upd_buf b (\<lambda>x. x\<lparr>b_data := disk s bn\<rparr>) s),
               vdk := k\<lparr>info_status := (info_status k)(head_of k := 0),
                        used_ring := (used_ring k)(unat (used_cnt k) mod NUM := of_nat (head_of k)),
                        used_cnt := used_cnt k + 1\<rparr>\<rparr>
         | _ \<Rightarrow> d)"

text \<open>The documented behaviour of the device: it serves every well-formed request.\<close>

definition serves :: "(dstate \<Rightarrow> dstate) \<Rightarrow> bool" where
  "serves dev \<longleftrightarrow> (\<forall>d. well_formed (vdk d) \<longrightarrow> dev d = serve d)"

section \<open>An idle driver\<close>

definition driver_idle :: "vdisk \<Rightarrow> bool" where
  "driver_idle k \<longleftrightarrow>
     v_free k = replicate NUM True \<and> used_idx k = used_cnt k \<and> used_cnt k = avail_idx k \<and> (\<forall>b. \<not> b_disk k b)"

text \<open>Nobody sleeps on the driver's channels.\<close>

definition no_sleeper :: "chan \<Rightarrow> proc list \<Rightarrow> bool" where
  "no_sleeper ch ps \<longleftrightarrow> (\<forall>p\<in>set ps. \<not> (p_state p = SLEEPING \<and> p_chan p = ch))"

lemma woken_none: "no_sleeper ch ps \<Longrightarrow> woken ch cur ps = ps"
  by (intro nth_equalityI) (auto simp: no_sleeper_def wake1_def)

lemma alloc3_idle:
  assumes "v_free (vdk d) = replicate NUM True"
  shows "alloc3_desc d = Some (Some [0, 1, 2],
    upd_vdk (\<lambda>k. k\<lparr>v_free := [False, False, False, True, True, True, True, True]\<rparr>) d)"
proof -
  have "v_free (vdk d) = [True, True, True, True, True, True, True, True]"
    using assms by (simp add: NUM_def numeral_eq_Suc)
  then show ?thesis
    by (simp add: alloc3_desc_def alloc_desc_def NUM_def upt_rec upd_vdk_def numeral_eq_Suc)
qed

section \<open>One request\<close>

lemma submit_kst [simp]: "kst (submit i0 i1 i2 b w d) = kst d"
  by (simp add: submit_def put_desc_def upd_vdk_def mmio_write_def Let_def)

lemma submit_vdk:
  "vdk (submit i0 i1 i2 b w d) =
     (vdk d)\<lparr>v_ops := (v_ops (vdk d))(i0 := \<lparr>vr_type = if w then VIRTIO_BLK_T_OUT else VIRTIO_BLK_T_IN, vr_reserved = 0,
                vr_sector = ucast (b_blockno (bufs (kst d) b) * 2)\<rparr>),
             v_desc := (v_desc (vdk d))(
                i0 := \<lparr>vq_addr = VOps i0, vq_len = 16, vq_flags = VRING_DESC_F_NEXT, vq_next = of_nat i1\<rparr>,
                i1 := \<lparr>vq_addr = VData b, vq_len = of_nat BSIZE,
                       vq_flags = (if w then 0 else VRING_DESC_F_WRITE) OR VRING_DESC_F_NEXT, vq_next = of_nat i2\<rparr>,
                i2 := \<lparr>vq_addr = VStatus i0, vq_len = 1, vq_flags = VRING_DESC_F_WRITE, vq_next = 0\<rparr>),
             info_status := (info_status (vdk d))(i0 := 0xff), b_disk := (b_disk (vdk d))(b := True),
             info_b := (info_b (vdk d))(i0 := Some b),
             avail_ring := (avail_ring (vdk d))(unat (avail_idx (vdk d)) mod NUM := of_nat i0),
             avail_idx := avail_idx (vdk d) + 1, mmio := mmio (vdk d) @ [(0x050, 0)]\<rparr>"
  by (simp add: submit_def put_desc_def upd_vdk_def mmio_write_def Let_def)

text \<open>The driver's state after the request has been submitted with descriptors 0, 1 and 2.\<close>

definition submitted :: "nat \<Rightarrow> bool \<Rightarrow> kstate \<Rightarrow> vdisk \<Rightarrow> vdisk" where
  "submitted b w s k = vdk (submit 0 1 2 b w \<lparr>kst = s, vdk = k\<lparr>v_free := [False, False, False, True, True, True, True, True]\<rparr>\<rparr>)"

lemma submitted_head:
  assumes "used_cnt k = avail_idx k"
  shows "head_of (submitted b w s k) = 0" "data_of (submitted b w s k) = 1" "status_of (submitted b w s k) = 2"
  using assms by (simp_all add: submitted_def submit_vdk head_of_def data_of_def status_of_def)

lemma submitted_well_formed:
  assumes "used_cnt k = avail_idx k"
  shows "well_formed (submitted b w s k)"
  unfolding well_formed_def submitted_head [OF assms]
  using assms by (auto simp: submitted_def submit_vdk VIRTIO_BLK_T_OUT_def VIRTIO_BLK_T_IN_def)

lemma sector_block:
  assumes "unat bn < 2 ^ 31"
  shows "ucast ((ucast (bn * 2 :: u32) :: u64) div 2) = bn"
proof -
  have u: "unat (bn * 2) = unat bn * 2" using assms by (simp add: unat_word_ariths)
  have "unat ((ucast (bn * 2) :: u64) div 2) = unat bn"
    using u by (simp add: unat_div)
  then have "(ucast (bn * 2) :: u64) div 2 = of_nat (unat bn)" by (metis of_nat_unat_word)
  then have "(ucast (bn * 2) :: u64) div 2 = ucast bn" by simp
  moreover have "ucast (ucast bn :: u64) = bn" by (rule bit_word_eqI) (simp add: bit_ucast_iff)
  ultimately show ?thesis by simp
qed

lemma serve_submitted:
  assumes "used_cnt k = avail_idx k" "unat (b_blockno (bufs s b)) < 2 ^ 31" "bufs t = bufs s"
  shows "serve \<lparr>kst = t, vdk = submitted b w s k\<rparr> =
    \<lparr>kst = disk_transfer b w t,
     vdk = (submitted b w s k)\<lparr>info_status := (info_status k)(0 := 0),
       used_ring := (used_ring k)(unat (used_cnt k) mod NUM := 0), used_cnt := used_cnt k + 1\<rparr>\<rparr>"
  unfolding serve_def Let_def dstate.simps submitted_head [OF assms(1)]
  using sector_block [OF assms(2)] assms
  by (simp add: submitted_def submit_vdk disk_transfer_def VIRTIO_BLK_T_OUT_def VIRTIO_BLK_T_IN_def Let_def)

lemma free_desc_result:
  assumes "i < NUM" "\<not> v_free (vdk d) ! i" "plocks_free (kst d)" "length (procs (kst d)) = NPROC"
    "no_sleeper ChanDescs (procs (kst d))"
  shows "free_desc i d = Some (upd_vdk (\<lambda>k. k\<lparr>v_desc := (v_desc k)(i := \<lparr>vq_addr = VNull, vq_len = 0, vq_flags = 0, vq_next = 0\<rparr>),
    v_free := (v_free k)[i := True]\<rparr>) d)"
  using assms by (simp add: free_desc_def on_kst_def upd_vdk_def wakeup_result woken_none)

lemma free_chain_result:
  assumes "v_free (vdk d) = [False, False, False, True, True, True, True, True]"
    "vq_flags (v_desc (vdk d) 0) AND 1 \<noteq> 0" "vq_next (v_desc (vdk d) 0) = 1"
    "vq_flags (v_desc (vdk d) 1) AND 1 \<noteq> 0" "vq_next (v_desc (vdk d) 1) = 2" "vq_flags (v_desc (vdk d) 2) AND 1 = 0"
    and k: "plocks_free (kst d)" "length (procs (kst d)) = NPROC" "no_sleeper ChanDescs (procs (kst d))"
  shows "\<exists>dt. free_chain 0 d = Some (upd_vdk (\<lambda>k. k\<lparr>v_desc := dt, v_free := replicate NUM True\<rparr>) d)"
proof -
  let ?z = "\<lparr>vq_addr = VNull, vq_len = 0, vq_flags = 0, vq_next = 0\<rparr>"
  have f: "free_chain i e = (do { e' \<leftarrow> free_desc i e;
      if vq_flags (v_desc (vdk e) i) AND 1 \<noteq> 0 then free_chain (unat (vq_next (v_desc (vdk e) i))) e' else Some e' })" for i e
    by (subst free_chain.simps) (simp add: Let_def VRING_DESC_F_NEXT_def)
  have r: "replicate NUM True = [True, True, True, True, True, True, True, True]" by (simp add: NUM_def numeral_eq_Suc)
  define d1 where "d1 = upd_vdk (\<lambda>k. k\<lparr>v_desc := (v_desc k)(0 := ?z), v_free := [True, False, False, True, True, True, True, True]\<rparr>) d"
  define d2 where "d2 = upd_vdk (\<lambda>k. k\<lparr>v_desc := (v_desc k)(1 := ?z), v_free := [True, True, False, True, True, True, True, True]\<rparr>) d1"
  have same: "kst d1 = kst d" "kst d2 = kst d" by (simp_all add: d1_def d2_def upd_vdk_def)
  have "free_desc 0 d = Some d1" "free_desc 1 d1 = Some d2"
    "free_desc 2 d2 = Some (upd_vdk (\<lambda>k. k\<lparr>v_desc := (v_desc k)(2 := ?z), v_free := replicate NUM True\<rparr>) d2)"
    using assms(1) k
    by (simp_all add: free_desc_result same NUM_def d1_def d2_def upd_vdk_def r [unfolded NUM_def] numeral_2_eq_2)
  moreover have "vq_flags (v_desc (vdk d1) 1) AND 1 \<noteq> 0" "vq_next (v_desc (vdk d1) 1) = 2" "vq_flags (v_desc (vdk d2) 2) AND 1 = 0"
    using assms(4-6) by (simp_all add: d1_def d2_def upd_vdk_def)
  ultimately have "free_chain 0 d = Some (upd_vdk (\<lambda>k. k\<lparr>v_desc := (v_desc k)(2 := ?z), v_free := replicate NUM True\<rparr>) d2)"
    using assms(2,3) f [of 0 d] f [of 1 d1] f [of 2 d2] by simp
  then show ?thesis by (auto simp: upd_vdk_def d1_def d2_def)
qed

lemma idle_cpuD:
  assumes "idle_cpu s"
  shows "acq l s = Some (s\<lparr>lk := acquired (hart s) l (lk s)\<rparr>)" "plocks_free s"
    "rel l (s\<lparr>lk := acquired (hart s) l (lk s), procs := ps\<rparr>) = Some (s\<lparr>procs := ps\<rparr>)"
  using assms by (simp_all add: idle_cpu_def unlocked_def acq_free rel_def release_acquired)

lemma rw_submits:
  assumes "driver_idle k" "process_at i s"
  shows "virtio_disk_rw b w \<lparr>kst = s, vdk = k\<rparr> = Some (RwAsleep (ForDisk [0, 1, 2])
    \<lparr>kst = s\<lparr>lk := acquired (hart s) (PLock i) (lk s),
               procs := (procs s)[i := (procs s ! i)\<lparr>p_chan := ChanDisk b, p_state := SLEEPING\<rparr>]\<rparr>,
     vdk = submitted b w s k\<rparr>)"
proof -
  let ?t = "s\<lparr>lk := acquired (hart s) VdiskLock (lk s)\<rparr>"
  have i: "idle_cpu s" "curproc s = Some i" "i < length (procs s)" using assms(2) by (simp_all add: process_at_def)
  let ?d = "submit 0 1 2 b w \<lparr>kst = ?t, vdk = k\<lparr>v_free := [False, False, False, True, True, True, True, True]\<rparr>\<rparr>"
  have d: "vdk ?d = submitted b w s k" "kst ?d = ?t" "b_disk (vdk ?d) b" by (simp_all add: submitted_def submit_vdk)
  have "?d = \<lparr>kst = ?t, vdk = submitted b w s k\<rparr>" using d(1,2) by (metis dstate.surjective old.unit.exhaust)
  moreover have "rw_await [0, 1, 2] b ?d = Some (RwAsleep (ForDisk [0, 1, 2]) (?d\<lparr>kst := s\<lparr>lk := acquired (hart s) (PLock i) (lk s),
      procs := (procs s)[i := (procs s ! i)\<lparr>p_chan := ChanDisk b, p_state := SLEEPING\<rparr>]\<rparr>\<rparr>))"
    using d(2,3) sleep_result [OF i, of VdiskLock "ChanDisk b"] by (simp add: rw_await_def on_kst_def)
  moreover have "alloc3_desc \<lparr>kst = ?t, vdk = k\<rparr> = Some (Some [0, 1, 2],
      \<lparr>kst = ?t, vdk = k\<lparr>v_free := [False, False, False, True, True, True, True, True]\<rparr>\<rparr>)"
    using alloc3_idle [of "\<lparr>kst = ?t, vdk = k\<rparr>"] assms(1) by (simp add: driver_idle_def upd_vdk_def)
  ultimately show ?thesis
    by (simp add: virtio_disk_rw_def rw_begin_def on_kst_def idle_cpuD(1) [OF i(1)])
qed

lemma intr_reports:
  assumes "idle_cpu t" "length (procs t) = NPROC" "used_cnt k = used_idx k + 1"
    "used_ring k (unat (used_idx k) mod NUM) = 0" "info_status k 0 = 0" "info_b k 0 = Some b"
  shows "virtio_disk_intr ist \<lparr>kst = t, vdk = k\<rparr> = Some \<lparr>kst = t\<lparr>procs := woken (ChanDisk b) (curproc t) (procs t)\<rparr>,
    vdk = k\<lparr>mmio := mmio k @ [(0x064, ist AND 3)], b_disk := (b_disk k)(b := False), used_idx := used_idx k + 1\<rparr>\<rparr>"
proof -
  let ?t = "t\<lparr>lk := acquired (hart t) VdiskLock (lk t)\<rparr>"
  have "plocks_free ?t" using idle_cpuD(2) [OF assms(1)] by (intro plocks_free_acquired) auto
  then have w: "wakeup (ChanDisk b) ?t = Some (?t\<lparr>procs := woken (ChanDisk b) (curproc t) (procs t)\<rparr>)"
    using assms(2) by (simp add: wakeup_result)
  have fin: "intr_loop e = Some e" if "used_idx (vdk e) = used_cnt (vdk e)" for e
    using that by (subst intr_loop.simps) simp
  have "intr_loop \<lparr>kst = ?t, vdk = k\<lparr>mmio := mmio k @ [(0x064, ist AND 3)]\<rparr>\<rparr> =
      Some \<lparr>kst = ?t\<lparr>procs := woken (ChanDisk b) (curproc t) (procs t)\<rparr>,
        vdk = k\<lparr>mmio := mmio k @ [(0x064, ist AND 3)], b_disk := (b_disk k)(b := False), used_idx := used_idx k + 1\<rparr>\<rparr>"
    using assms(3-6) w by (subst intr_loop.simps) (simp add: on_kst_def upd_vdk_def fin)
  then show ?thesis
    by (simp add: virtio_disk_intr_def on_kst_def mmio_write_def upd_vdk_def idle_cpuD [OF assms(1)])
qed

lemma resumed_returns:
  assumes "process_at i t" "\<not> b_disk k b" "p_chan (procs t ! i) = NoChan" "no_sleeper ChanDescs (procs t)"
    "v_free k = [False, False, False, True, True, True, True, True]"
    "vq_flags (v_desc k 0) AND 1 \<noteq> 0" "vq_next (v_desc k 0) = 1"
    "vq_flags (v_desc k 1) AND 1 \<noteq> 0" "vq_next (v_desc k 1) = 2" "vq_flags (v_desc k 2) AND 1 = 0"
  shows "\<exists>dt. virtio_disk_rw_resumed (ForDisk [0, 1, 2]) b w
      \<lparr>kst = t\<lparr>lk := acquired (hart t) (PLock i) (lk t), procs := (procs t)[i := (procs t ! i)\<lparr>p_chan := c\<rparr>]\<rparr>, vdk = k\<rparr> =
    Some (RwReturned \<lparr>kst = t, vdk = k\<lparr>info_b := (info_b k)(0 := None), v_desc := dt, v_free := replicate NUM True\<rparr>\<rparr>)"
proof -
  have i: "idle_cpu t" "curproc t = Some i" "i < length (procs t)" "length (procs t) = NPROC"
    using assms(1) by (simp_all add: process_at_def)
  let ?s = "t\<lparr>lk := acquired (hart t) (PLock i) (lk t), procs := (procs t)[i := (procs t ! i)\<lparr>p_chan := c\<rparr>]\<rparr>"
  let ?t = "t\<lparr>lk := acquired (hart t) VdiskLock (lk t)\<rparr>"
  have "(procs t ! i)\<lparr>p_chan := NoChan\<rparr> = procs t ! i" using assms(3) by (cases "procs t ! i") simp
  then have "(procs t)[i := (procs t ! i)\<lparr>p_chan := NoChan\<rparr>] = procs t" by simp
  then have r: "sleep_resumed VdiskLock ?s = Some ?t"
    using i(2,3) idle_cpuD(1) [OF i(1), of VdiskLock] idle_cpuD(3) [OF i(1), of "PLock i" "procs t"]
    by (simp add: sleep_resumed_def myproc_def upd_proc_def)
  have "plocks_free ?t" using idle_cpuD(2) [OF i(1)] by (intro plocks_free_acquired) auto
  then obtain dt where f: "free_chain 0 \<lparr>kst = ?t, vdk = k\<lparr>info_b := (info_b k)(0 := None)\<rparr>\<rparr> =
      Some \<lparr>kst = ?t, vdk = k\<lparr>info_b := (info_b k)(0 := None), v_desc := dt, v_free := replicate NUM True\<rparr>\<rparr>"
    using free_chain_result [of "\<lparr>kst = ?t, vdk = k\<lparr>info_b := (info_b k)(0 := None)\<rparr>\<rparr>"] assms(4-10) i(4)
    by (auto simp: upd_vdk_def)
  have "rel VdiskLock ?t = Some t" using idle_cpuD(3) [OF i(1), of VdiskLock "procs t"] by simp
  then show ?thesis
    using r f assms(2) by (auto simp: virtio_disk_rw_resumed_def rw_await_def on_kst_def upd_vdk_def)
qed

section \<open>The driver implements the contract of the buffer cache\<close>

lemma disk_transfer_frame:
  "lk (disk_transfer b w s) = lk s" "hart (disk_transfer b w s) = hart s" "procs (disk_transfer b w s) = procs s"
  "curproc (disk_transfer b w s) = curproc s"
  "disk_transfer b w (s\<lparr>lk := l, procs := ps\<rparr>) = (disk_transfer b w s)\<lparr>lk := l, procs := ps\<rparr>"
  by (simp_all add: disk_transfer_def upd_buf_def Let_def)

text \<open>Scheduling a process that was asleep on \<open>ch\<close> once it has been woken.\<close>

lemma woken_scheduled:
  assumes "process_at i t" "p_state (procs t ! i) = RUNNING" "no_sleeper ch (procs t)"
  defines "ps \<equiv> (procs t)[i := (procs t ! i)\<lparr>p_chan := ch, p_state := SLEEPING\<rparr>]"
  shows "scheduler_back i (t\<lparr>lk := acquired (hart t) (PLock i) (lk t), procs := ps\<rparr>) = Some (t\<lparr>procs := ps, curproc := None\<rparr>)"
    "scheduler_try i (t\<lparr>procs := woken ch None ps, curproc := None\<rparr>) =
       Some (True, t\<lparr>lk := acquired (hart t) (PLock i) (lk t), procs := (procs t)[i := (procs t ! i)\<lparr>p_chan := ch\<rparr>]\<rparr>)"
proof -
  have i: "idle_cpu t" "curproc t = Some i" "i < length (procs t)" using assms(1) by (simp_all add: process_at_def)
  then have u: "quiet (hart t) (lk t)" "\<And>l. free_lock l (lk t)" by (simp_all add: idle_cpu_def unlocked_def)
  show "scheduler_back i (t\<lparr>lk := acquired (hart t) (PLock i) (lk t), procs := ps\<rparr>) = Some (t\<lparr>procs := ps, curproc := None\<rparr>)"
    using u by (simp add: scheduler_back_def rel_def release_acquired)
  have w: "woken ch None ps = (procs t)[i := (procs t ! i)\<lparr>p_chan := ch, p_state := RUNNABLE\<rparr>]"
  proof (rule nth_equalityI)
    fix j assume "j < length (woken ch None ps)"
    then have j: "j < length (procs t)" by (simp add: ps_def)
    then have "wake1 ch (procs t ! j) = procs t ! j" using assms(3) by (auto simp: no_sleeper_def wake1_def)
    then show "woken ch None ps ! j = (procs t)[i := (procs t ! i)\<lparr>p_chan := ch, p_state := RUNNABLE\<rparr>] ! j"
      using j i(3) by (cases "j = i") (simp_all add: ps_def, simp add: wake1_def)
  qed (simp add: ps_def)
  have r: "(procs t ! i)\<lparr>p_chan := ch, p_state := RUNNING\<rparr> = (procs t ! i)\<lparr>p_chan := ch\<rparr>"
    using assms(2) by (cases "procs t ! i") simp
  have c: "t\<lparr>lk := l, procs := qs, curproc := Some i\<rparr> = t\<lparr>lk := l, procs := qs\<rparr>" for l qs
    using i(2) by (cases t) simp
  show "scheduler_try i (t\<lparr>procs := woken ch None ps, curproc := None\<rparr>) =
       Some (True, t\<lparr>lk := acquired (hart t) (PLock i) (lk t), procs := (procs t)[i := (procs t ! i)\<lparr>p_chan := ch\<rparr>]\<rparr>)"
    using u i(3) r c by (simp add: scheduler_try_def acq_free w upd_proc_def)
qed

text \<open>
  C40. For an idle driver and a device that serves well-formed requests, \<open>virtio_disk_rw\<close> refines the contract
  that the buffer cache relies on. The call submits its request and goes to sleep; the device serves it; while the
  CPU is in the scheduler the device's interrupt wakes the process; scheduled again, the call returns with exactly the buffer's
  block transferred between buffer and disk, nothing else in the kernel's state changed, and the driver idle again.
\<close>

theorem virtio_disk_rw_transfers:
  assumes "serves dev" "driver_idle (vdk d)" "process_at i (kst d)" "p_state (procs (kst d) ! i) = RUNNING"
    "p_chan (procs (kst d) ! i) = NoChan" "no_sleeper ChanDescs (procs (kst d))" "no_sleeper (ChanDisk b) (procs (kst d))"
    "unat (b_blockno (bufs (kst d) b)) < 2 ^ 31"
  shows "\<exists>d1 k1 d2 k2 d3.
    virtio_disk_rw b w d = Some (RwAsleep (ForDisk [0, 1, 2]) d1) \<and>
    scheduler_back i (kst (dev d1)) = Some k1 \<and>
    virtio_disk_intr ist ((dev d1)\<lparr>kst := k1\<rparr>) = Some d2 \<and>
    scheduler_try i (kst d2) = Some (True, k2) \<and>
    virtio_disk_rw_resumed (ForDisk [0, 1, 2]) b w (d2\<lparr>kst := k2\<rparr>) = Some (RwReturned d3) \<and>
    kst d3 = disk_transfer b w (kst d) \<and> driver_idle (vdk d3)"
proof -
  obtain s k where d: "d = \<lparr>kst = s, vdk = k\<rparr>" by (cases d) auto
  let ?t = "disk_transfer b w s" and ?ps = "(procs s)[i := (procs s ! i)\<lparr>p_chan := ChanDisk b, p_state := SLEEPING\<rparr>]"
  let ?sub = "submitted b w s k" and ?l = "acquired (hart s) (PLock i) (lk s)"
  let ?k1 = "?sub\<lparr>info_status := (info_status k)(0 := 0), used_ring := (used_ring k)(unat (used_cnt k) mod NUM := 0), used_cnt := used_cnt k + 1\<rparr>"
  have idle: "used_cnt k = avail_idx k" "used_idx k = used_cnt k" using assms(2) by (simp_all add: d driver_idle_def)
  have p: "process_at i ?t" using assms(3) by (simp add: d process_at_def idle_cpu_def unlocked_def disk_transfer_frame)
  note sch = woken_scheduled [OF p, of "ChanDisk b", unfolded disk_transfer_frame]
  let ?d1 = "\<lparr>kst = s\<lparr>lk := ?l, procs := ?ps\<rparr>, vdk = ?sub\<rparr>"
  have 1: "virtio_disk_rw b w d = Some (RwAsleep (ForDisk [0, 1, 2]) ?d1)"
    using rw_submits assms(2,3) by (simp add: d)
  have 2: "dev ?d1 = \<lparr>kst = ?t\<lparr>lk := ?l, procs := ?ps\<rparr>, vdk = ?k1\<rparr>"
    using assms(1,8) submitted_well_formed [OF idle(1), of b w s] serve_submitted [OF idle(1), of s b "s\<lparr>lk := ?l, procs := ?ps\<rparr>" w]
    by (simp add: serves_def d disk_transfer_frame)
  let ?k2 = "?k1\<lparr>mmio := mmio ?k1 @ [(0x064, ist AND 3)], b_disk := (b_disk ?k1)(b := False), used_idx := used_idx ?k1 + 1\<rparr>"
  let ?d2 = "\<lparr>kst = ?t\<lparr>procs := woken (ChanDisk b) None ?ps, curproc := None\<rparr>, vdk = ?k2\<rparr>"
  have "idle_cpu (?t\<lparr>procs := ?ps, curproc := None\<rparr>)" using p by (simp add: process_at_def idle_cpu_def unlocked_def)
  then have 3: "virtio_disk_intr ist \<lparr>kst = ?t\<lparr>procs := ?ps, curproc := None\<rparr>, vdk = ?k1\<rparr> = Some ?d2"
    using assms(3) idle by (subst intr_reports [where b = b]) (auto simp: d process_at_def submitted_def submit_vdk)
  obtain dt where 4: "virtio_disk_rw_resumed (ForDisk [0, 1, 2]) b w
      \<lparr>kst = ?t\<lparr>lk := ?l, procs := (procs s)[i := (procs s ! i)\<lparr>p_chan := ChanDisk b\<rparr>]\<rparr>, vdk = ?k2\<rparr> =
    Some (RwReturned \<lparr>kst = ?t, vdk = ?k2\<lparr>info_b := (info_b ?k2)(0 := None), v_desc := dt, v_free := replicate NUM True\<rparr>\<rparr>)"
    using resumed_returns [OF p, of ?k2 b w "ChanDisk b", unfolded disk_transfer_frame] assms(5,6)
    by (auto simp: d submitted_def submit_vdk VRING_DESC_F_NEXT_def VRING_DESC_F_WRITE_def)
  define k3 where "k3 = ?k2\<lparr>info_b := (info_b ?k2)(0 := None), v_desc := dt, v_free := replicate NUM True\<rparr>"
  have "driver_idle k3" using assms(2) by (simp add: k3_def d driver_idle_def submitted_def submit_vdk)
  then show ?thesis
    using 1 2 3 4 [folded k3_def] sch assms(4,7)
    by (intro exI [of _ ?d1] exI [of _ "?t\<lparr>procs := ?ps, curproc := None\<rparr>"] exI [of _ ?d2]
      exI [of _ "?t\<lparr>lk := ?l, procs := (procs s)[i := (procs s ! i)\<lparr>p_chan := ChanDisk b\<rparr>]\<rparr>"]
      exI [of _ "\<lparr>kst = ?t, vdk = k3\<rparr>"]) (simp add: d)
qed

definition demo_vdisk :: dstate where
  "demo_vdisk = \<lparr>kst = zero_state, vdk = \<lparr>v_desc = (\<lambda>_. \<lparr>vq_addr = VNull, vq_len = 0, vq_flags = 0, vq_next = 0\<rparr>),
     avail_idx = 0xffff, avail_ring = (\<lambda>_. 0), used_cnt = 0xffff, used_ring = (\<lambda>_. 0), v_free = replicate NUM True,
     used_idx = 0xffff, info_b = (\<lambda>_. None), info_status = (\<lambda>_. 0),
     v_ops = (\<lambda>_. \<lparr>vr_type = 0, vr_reserved = 0, vr_sector = 0\<rparr>), b_disk = (\<lambda>_. False), mmio = [], queue_pages = []\<rparr>\<rparr>"

theorem virtio_disk_rw_transfers_witness:
  "\<exists>d1 k1 d2 k2 d3.
    virtio_disk_rw 3 True demo_vdisk = Some (RwAsleep (ForDisk [0, 1, 2]) d1) \<and>
    scheduler_back 0 (kst (serve d1)) = Some k1 \<and>
    virtio_disk_intr 1 ((serve d1)\<lparr>kst := k1\<rparr>) = Some d2 \<and>
    scheduler_try 0 (kst d2) = Some (True, k2) \<and>
    virtio_disk_rw_resumed (ForDisk [0, 1, 2]) 3 True (d2\<lparr>kst := k2\<rparr>) = Some (RwReturned d3) \<and>
    kst d3 = disk_transfer 3 True (kst demo_vdisk) \<and> driver_idle (vdk d3)"
proof (rule virtio_disk_rw_transfers)
  show "serves serve" by (simp add: serves_def)
  show "driver_idle (vdk demo_vdisk)" by (simp add: driver_idle_def demo_vdisk_def)
  show "process_at 0 (kst demo_vdisk)"
    by (simp add: process_at_def idle_cpu_def demo_vdisk_def zero_state_unlocked) (simp add: zero_state_def NPROC_def)
  show "p_state (procs (kst demo_vdisk) ! 0) = RUNNING" "p_chan (procs (kst demo_vdisk) ! 0) = NoChan"
    by (simp_all add: demo_vdisk_def zero_state_def zero_proc_def NPROC_def)
  have "\<forall>p\<in>set (procs zero_state). p_state p \<noteq> SLEEPING"
    using set_update_subset_insert [of "replicate NPROC zero_proc" 0 "zero_proc\<lparr>p_state := RUNNING, p_pid := 1\<rparr>"]
    by (auto simp: zero_state_def zero_proc_def)
  then show "no_sleeper ChanDescs (procs (kst demo_vdisk))" "no_sleeper (ChanDisk 3) (procs (kst demo_vdisk))"
    by (auto simp: no_sleeper_def demo_vdisk_def)
  show "unat (b_blockno (bufs (kst demo_vdisk) 3)) < 2 ^ 31" by (simp add: demo_vdisk_def zero_state_def zero_buf_def)
qed

end
