(* ===== verification/File.thy ===== *)
theory File
  imports Fs Pipe
begin

text \<open>
  \<^verbatim>\<open>kernel/file.c\<close> and \<open>pipealloc\<close> of \<^verbatim>\<open>kernel/pipe.c\<close>: the file table. A file is its index
  in the table. Of the device switch only the console is connected, by \<open>consoleinit\<close>. A read or write
  of a pipe or of the console may fall asleep.
\<close>

text \<open>A call that fell asleep, without the local variables of the function that sleeps.\<close>

definition asleep :: "('v, 'r) outcome option \<Rightarrow> (unit, 'r) outcome option" where
  "asleep p = do { r \<leftarrow> p; case r of Returned x s \<Rightarrow> Some (Returned x s) | Asleep _ s \<Rightarrow> Some (Asleep () s) }"

definition upd_file :: "nat \<Rightarrow> (kfile \<Rightarrow> kfile) \<Rightarrow> kstate \<Rightarrow> kstate" where
  "upd_file f g s = s\<lparr>ftable := (ftable s)[f := g (ftable s ! f)]\<rparr>"

definition fileinit :: "kstate \<Rightarrow> kstate" where
  "fileinit s = s\<lparr>lk := initlock FtableLock (lk s)\<rparr>"

definition filealloc :: "kstate \<Rightarrow> (nat option \<times> kstate) option" where
  "filealloc s = do {
     s \<leftarrow> acq FtableLock s;
     case find (\<lambda>f. f_ref (ftable s ! f) = 0) [0..<NFILE] of
       Some f \<Rightarrow> do {
         let s = upd_file f (\<lambda>x. x\<lparr>f_ref := 1\<rparr>) s;
         s \<leftarrow> rel FtableLock s;
         Some (Some f, s)
       }
     | None \<Rightarrow> do { s \<leftarrow> rel FtableLock s; Some (None, s) }
   }"

definition filedup :: "nat \<Rightarrow> kstate \<Rightarrow> (nat \<times> kstate) option" where
  "filedup f s = do {
     s \<leftarrow> acq FtableLock s;
     if f_ref (ftable s ! f) < 1 then panic ''filedup''
     else do {
       let s = upd_file f (\<lambda>x. x\<lparr>f_ref := f_ref x + 1\<rparr>) s;
       s \<leftarrow> rel FtableLock s;
       Some (f, s)
     }
   }"

definition fileclose :: "nat \<Rightarrow> kstate \<Rightarrow> kstate option" where
  "fileclose f s = do {
     s \<leftarrow> acq FtableLock s;
     if f_ref (ftable s ! f) < 1 then panic ''fileclose''
     else do {
       let s = upd_file f (\<lambda>x. x\<lparr>f_ref := f_ref x - 1\<rparr>) s;
       if f_ref (ftable s ! f) > 0 then rel FtableLock s
       else do {
         let ff = ftable s ! f;
         let s = upd_file f (\<lambda>x. x\<lparr>f_ref := 0, f_type := FD_NONE\<rparr>) s;
         s \<leftarrow> rel FtableLock s;
         if f_type ff = FD_PIPE then pipeclose (f_pipe ff) (f_writable ff) s
         else if f_type ff = FD_INODE \<or> f_type ff = FD_DEVICE then do {
           s \<leftarrow> begin_op s;
           s \<leftarrow> iput (f_ip ff) s;
           end_op s
         } else Some s
       }
     }
   }"

text \<open>
  \<open>struct stat\<close> in memory; \<open>pad\<close> are the four bytes of padding, which the code never writes and
  copies out as they are on its stack.
\<close>

definition stat_bytes :: "u8 list \<Rightarrow> stat \<Rightarrow> u8 list" where
  "stat_bytes pad st =
     map (\<lambda>i. ucast (drop_bit (8 * i) (st_dev st))) [0..<4] @ map (\<lambda>i. ucast (drop_bit (8 * i) (st_ino st))) [0..<4] @
     map (\<lambda>i. ucast (drop_bit (8 * i) (st_type st))) [0..<2] @ map (\<lambda>i. ucast (drop_bit (8 * i) (st_nlink st))) [0..<2] @
     pad @ map (\<lambda>i. ucast (drop_bit (8 * i) (st_size st))) [0..<8]"

definition filestat :: "u8 list \<Rightarrow> nat \<Rightarrow> u64 \<Rightarrow> kstate \<Rightarrow> (int \<times> kstate) option" where
  "filestat pad f addr s =
     (case myproc s of
        None \<Rightarrow> None
      | Some p \<Rightarrow>
          let ff = ftable s ! f in
          if f_type ff = FD_INODE \<or> f_type ff = FD_DEVICE then do {
            s \<leftarrow> ilock (f_ip ff) s;
            let st = stati (f_ip ff) s;
            s \<leftarrow> iunlock (f_ip ff) s;
            (r, s) \<leftarrow> copyout (p_pagetable (procs s ! p)) addr (stat_bytes pad st) s;
            if r < 0 then Some (-1, s) else Some (0, s)
          } else Some (-1, s))"

definition dev_ok :: "u16 \<Rightarrow> kstate \<Rightarrow> bool" where
  "dev_ok major s \<longleftrightarrow> \<not> (sint major < 0 \<or> sint major \<ge> NDEV \<or> \<not> (major = 1 \<and> dev_console s))"

definition fileread :: "nat \<Rightarrow> u64 \<Rightarrow> int \<Rightarrow> kstate \<Rightarrow> (unit, int) outcome option" where
  "fileread f addr n s =
     (let ff = ftable s ! f in
      if \<not> f_readable ff then Some (Returned (-1) s)
      else if f_type ff = FD_PIPE then asleep (piperead (f_pipe ff) addr n s)
      else if f_type ff = FD_DEVICE then
        if \<not> dev_ok (f_major ff) s then Some (Returned (-1) s) else asleep (consoleread True addr n s)
      else if f_type ff = FD_INODE then do {
        s \<leftarrow> ilock (f_ip ff) s;
        (r, _, s) \<leftarrow> readi (f_ip ff) (DUser addr) (f_off (ftable s ! f)) (word_of_int n) s;
        let s = (if r > 0 then upd_file f (\<lambda>x. x\<lparr>f_off := f_off x + word_of_int r\<rparr>) s else s);
        s \<leftarrow> iunlock (f_ip ff) s;
        Some (Returned r s)
      } else panic ''fileread'')"

text \<open>The loop of \<open>filewrite\<close>, one transaction a round; the result is the \<open>i\<close> it stops at.\<close>

definition write_max :: int where
  "write_max = (MAXOPBLOCKS - 1 - 1 - 2) div 2 * int BSIZE"

function filewrite_loop :: "nat \<Rightarrow> u64 \<Rightarrow> int \<Rightarrow> int \<Rightarrow> kstate \<Rightarrow> (int \<times> kstate) option" where
  "filewrite_loop f addr n i s =
     (if i < n then do {
        let n1 = min (n - i) write_max;
        let ip = f_ip (ftable s ! f);
        s \<leftarrow> begin_op s;
        s \<leftarrow> ilock ip s;
        (r, s) \<leftarrow> writei ip (SUser (addr + word_of_int i)) (f_off (ftable s ! f)) (word_of_int n1) s;
        let s = (if r > 0 then upd_file f (\<lambda>x. x\<lparr>f_off := f_off x + word_of_int r\<rparr>) s else s);
        s \<leftarrow> iunlock ip s;
        s \<leftarrow> end_op s;
        if r \<noteq> n1 then Some (i, s) else filewrite_loop f addr n (i + n1) s
      } else Some (i, s))"
  by pat_completeness auto
termination
  by (relation "measure (\<lambda>(f, addr, n, i, s). nat (n - i))") (auto simp: write_max_def MAXOPBLOCKS_def BSIZE_def)

declare filewrite_loop.simps [simp del]

definition filewrite :: "nat \<Rightarrow> u64 \<Rightarrow> int \<Rightarrow> kstate \<Rightarrow> (unit, int) outcome option" where
  "filewrite f addr n s =
     (let ff = ftable s ! f in
      if \<not> f_writable ff then Some (Returned (-1) s)
      else if f_type ff = FD_PIPE then asleep (pipewrite (f_pipe ff) addr n s)
      else if f_type ff = FD_DEVICE then
        if \<not> dev_ok (f_major ff) s then Some (Returned (-1) s) else asleep (consolewrite True addr n s)
      else if f_type ff = FD_INODE then do {
        (i, s) \<leftarrow> filewrite_loop f addr n 0 s;
        Some (Returned (if i = n then n else -1) s)
      } else panic ''filewrite'')"

section \<open>Pipes\<close>

text \<open>
  The cleanup of \<open>pipealloc\<close>: \<open>pi\<close> is null whenever it is reached.
\<close>

definition pipealloc_bad :: "nat option \<Rightarrow> nat option \<Rightarrow> kstate \<Rightarrow> ((nat \<times> nat) option \<times> kstate) option" where
  "pipealloc_bad f0 f1 s = do {
     s \<leftarrow> (case f0 of None \<Rightarrow> Some s | Some f \<Rightarrow> fileclose f s);
     s \<leftarrow> (case f1 of None \<Rightarrow> Some s | Some f \<Rightarrow> fileclose f s);
     Some (None, s)
   }"

definition pipealloc :: "kstate \<Rightarrow> ((nat \<times> nat) option \<times> kstate) option" where
  "pipealloc s = do {
     (f0, s) \<leftarrow> filealloc s;
     case f0 of
       None \<Rightarrow> pipealloc_bad None None s
     | Some r \<Rightarrow> do {
         (f1, s) \<leftarrow> filealloc s;
         case f1 of
           None \<Rightarrow> pipealloc_bad (Some r) None s
         | Some w \<Rightarrow>
             let (pi, s) = kalloc s in
             if pi = 0 then pipealloc_bad (Some r) (Some w) s
             else
               let s = upd_pipe pi (\<lambda>p. p\<lparr>pi_readopen := True, pi_writeopen := True, pi_nwrite := 0, pi_nread := 0\<rparr>) s;
                   s = s\<lparr>lk := initlock (PipeLock pi) (lk s)\<rparr>;
                   s = upd_file r (\<lambda>x. x\<lparr>f_type := FD_PIPE, f_readable := True, f_writable := False, f_pipe := pi\<rparr>) s;
                   s = upd_file w (\<lambda>x. x\<lparr>f_type := FD_PIPE, f_readable := False, f_writable := True, f_pipe := pi\<rparr>) s
               in Some (Some (r, w), s)
       }
   }"

end
