(* ===== verification/Proc.thy ===== *)
theory Proc
  imports File CowFault
begin

text \<open>
  \<^verbatim>\<open>kernel/proc.c\<close>: the life of a process, from \<open>allocproc\<close> and \<open>fork\<close> to \<open>exit\<close>, \<open>wait\<close> and
  \<open>freeproc\<close>; the switching between processes is in theory \<open>State\<close>.

  \<open>ksyms\<close> are the addresses of the kernel's assembly routines and of \<^verbatim>\<open>initcode\<close>, fixed when the
  kernel is linked. \<open>wait\<close> and \<open>waitx\<close> that find only living children are cut at \<open>sleep\<close>, with a
  second definition for what follows; \<open>exit\<close> ends in the state in which it hands over the CPU for good.
\<close>

record ksyms =
  sym_etext :: u64
  sym_trampoline :: u64
  sym_forkret :: u64
  sym_initcode :: u64
  sym_uservec :: u64
  sym_userret :: u64
  sym_usertrap :: u64
  sym_kernelvec :: u64

section \<open>Initialisation\<close>

fun proc_mapstacks_loop :: "u64 \<Rightarrow> nat list \<Rightarrow> kstate \<Rightarrow> kstate option" where
  "proc_mapstacks_loop kpgtbl [] s = Some s"
| "proc_mapstacks_loop kpgtbl (i # is) s =
     (let (pa, s) = kalloc s in
      if pa = 0 then panic ''kalloc''
      else do {
        s \<leftarrow> kvmmap kpgtbl (KSTACK (of_nat i)) pa PGSIZE (PTE_R OR PTE_W) s;
        proc_mapstacks_loop kpgtbl is s
      })"

definition proc_mapstacks :: "u64 \<Rightarrow> kstate \<Rightarrow> kstate option" where
  "proc_mapstacks kpgtbl s = proc_mapstacks_loop kpgtbl [0..<NPROC] s"

definition procinit :: "kstate \<Rightarrow> kstate" where
  "procinit s =
     (let s = s\<lparr>lk := initlock PidLock (lk s)\<rparr>;
          s = s\<lparr>lk := initlock WaitLock (lk s)\<rparr>
      in fold (\<lambda>i s. upd_proc i (\<lambda>p. p\<lparr>p_state := UNUSED, p_kstack := KSTACK (of_nat i)\<rparr>)
           (s\<lparr>lk := initlock (PLock i) (lk s)\<rparr>)) [0..<NPROC] s)"

section \<open>Allocation\<close>

definition allocpid :: "kstate \<Rightarrow> (int \<times> kstate) option" where
  "allocpid s = do {
     s \<leftarrow> acq PidLock s;
     let pid = nextpid s;
     let s = s\<lparr>nextpid := nextpid s + 1\<rparr>;
     s \<leftarrow> rel PidLock s;
     Some (pid, s)
   }"

definition proc_pagetable :: "ksyms \<Rightarrow> nat \<Rightarrow> kstate \<Rightarrow> (u64 \<times> kstate) option" where
  "proc_pagetable k i s =
     (let (pagetable, s) = uvmcreate s in
      if pagetable = 0 then Some (0, s)
      else do {
        (r, s) \<leftarrow> mappages pagetable TRAMPOLINE PGSIZE (sym_trampoline k) (PTE_R OR PTE_X) s;
        if r < 0 then do { s \<leftarrow> uvmfree pagetable 0 s; Some (0, s) }
        else do {
          (r, s) \<leftarrow> mappages pagetable TRAPFRAME PGSIZE (p_trapframe (procs s ! i)) (PTE_R OR PTE_W) s;
          if r < 0 then do {
            s \<leftarrow> uvmunmap pagetable TRAMPOLINE 1 False s;
            s \<leftarrow> uvmfree pagetable 0 s;
            Some (0, s)
          } else Some (pagetable, s)
        }
      })"

definition proc_freepagetable :: "u64 \<Rightarrow> u64 \<Rightarrow> kstate \<Rightarrow> kstate option" where
  "proc_freepagetable pagetable sz s = do {
     s \<leftarrow> uvmunmap pagetable TRAMPOLINE 1 False s;
     s \<leftarrow> uvmunmap pagetable TRAPFRAME 1 False s;
     uvmfree pagetable sz s
   }"

definition freeproc :: "nat \<Rightarrow> kstate \<Rightarrow> kstate option" where
  "freeproc i s = do {
     s \<leftarrow> (if p_trapframe (procs s ! i) \<noteq> 0 then kfree (p_trapframe (procs s ! i)) s else Some s);
     let s = upd_proc i (\<lambda>p. p\<lparr>p_trapframe := 0\<rparr>) s;
     s \<leftarrow> (if p_pagetable (procs s ! i) \<noteq> 0
           then proc_freepagetable (p_pagetable (procs s ! i)) (p_sz (procs s ! i)) s else Some s);
     Some (upd_proc i (\<lambda>p. p\<lparr>p_pagetable := 0, p_sz := 0, p_pid := 0, p_parent := None, p_name := [],
       p_chan := NoChan, p_killed := 0, p_xstate := 0, p_state := UNUSED\<rparr>) s)
   }"

text \<open>The scan of \<open>allocproc\<close>: the entry is returned with its lock held.\<close>

fun allocproc_scan :: "nat list \<Rightarrow> kstate \<Rightarrow> (nat option \<times> kstate) option" where
  "allocproc_scan [] s = Some (None, s)"
| "allocproc_scan (i # is) s = do {
     s \<leftarrow> acq (PLock i) s;
     if p_state (procs s ! i) = UNUSED then Some (Some i, s)
     else do { s \<leftarrow> rel (PLock i) s; allocproc_scan is s }
   }"

definition allocproc_fail :: "nat \<Rightarrow> kstate \<Rightarrow> (nat option \<times> kstate) option" where
  "allocproc_fail i s = do { s \<leftarrow> freeproc i s; s \<leftarrow> rel (PLock i) s; Some (None, s) }"

definition allocproc :: "ksyms \<Rightarrow> kstate \<Rightarrow> (nat option \<times> kstate) option" where
  "allocproc k s = do {
     (found, s) \<leftarrow> allocproc_scan [0..<NPROC] s;
     case found of
       None \<Rightarrow> Some (None, s)
     | Some i \<Rightarrow> do {
         (pid, s) \<leftarrow> allocpid s;
         let s = upd_proc i (\<lambda>p. p\<lparr>p_pid := pid, p_state := USED\<rparr>) s;
         let (tf, s) = kalloc s;
         let s = upd_proc i (\<lambda>p. p\<lparr>p_trapframe := tf\<rparr>) s;
         if tf = 0 then allocproc_fail i s
         else do {
           (pt, s) \<leftarrow> proc_pagetable k i s;
           let s = upd_proc i (\<lambda>p. p\<lparr>p_pagetable := pt\<rparr>) s;
           if pt = 0 then allocproc_fail i s
           else
             let s = upd_proc i (\<lambda>p. p\<lparr>p_context_ra := sym_forkret k, p_context_sp := p_kstack p + PGSIZE,
                       p_rtime := 0, p_etime := 0, p_ctime := ticks s, p_pagefaultcount := 0\<rparr>) s
             in Some (Some i, s)
         }
       }
   }"

text \<open>\<open>safestrcpy\<close> into the 16 bytes of a process's name.\<close>

definition set_name :: "nat \<Rightarrow> u8 list \<Rightarrow> kstate \<Rightarrow> kstate" where
  "set_name i name s = upd_proc i (\<lambda>p. p\<lparr>p_name := take 15 name\<rparr>) s"

text \<open>Trapframe fields, by byte offset (proc.h).\<close>

definition tf_satp :: nat where "tf_satp = 0"
definition tf_ksp :: nat where "tf_ksp = 8"
definition tf_ktrap :: nat where "tf_ktrap = 16"
definition tf_epc :: nat where "tf_epc = 24"
definition tf_hartid :: nat where "tf_hartid = 32"
definition tf_sp :: nat where "tf_sp = 48"
definition tf_a :: "nat \<Rightarrow> nat" where "tf_a n = 112 + 8 * n"

definition userinit :: "ksyms \<Rightarrow> kstate \<Rightarrow> kstate option" where
  "userinit k s = do {
     (p, s) \<leftarrow> allocproc k s;
     case p of
       None \<Rightarrow> None
     | Some i \<Rightarrow> do {
         let s = s\<lparr>initproc := Some i\<rparr>;
         s \<leftarrow> uvmfirst (p_pagetable (procs s ! i)) (sym_initcode k) 52 s;
         let s = upd_proc i (\<lambda>p. p\<lparr>p_sz := PGSIZE\<rparr>) s;
         let s = tf_set tf_epc 0 i s;
         let s = tf_set tf_sp PGSIZE i s;
         let s = set_name i (bytes_of ''initcode'') s;
         (cwd, s) \<leftarrow> namei (bytes_of ''/'') s;
         let s = upd_proc i (\<lambda>p. p\<lparr>p_cwd := cwd, p_state := RUNNABLE\<rparr>) s;
         rel (PLock i) s
       }
   }"

definition growproc :: "int \<Rightarrow> kstate \<Rightarrow> (int \<times> kstate) option" where
  "growproc n s =
     (case myproc s of
        None \<Rightarrow> None
      | Some i \<Rightarrow>
          let sz = p_sz (procs s ! i); pt = p_pagetable (procs s ! i) in
          if n > 0 then do {
            (sz, s) \<leftarrow> uvmalloc pt sz (sz + word_of_int n) PTE_W s;
            if sz = 0 then Some (-1, s) else Some (0, upd_proc i (\<lambda>p. p\<lparr>p_sz := sz\<rparr>) s)
          } else if n < 0 then do {
            (sz, s) \<leftarrow> uvmdealloc pt sz (sz + word_of_int n) s;
            Some (0, upd_proc i (\<lambda>p. p\<lparr>p_sz := sz\<rparr>) s)
          } else Some (0, upd_proc i (\<lambda>p. p\<lparr>p_sz := sz\<rparr>) s))"

section \<open>fork\<close>

fun fork_files :: "nat \<Rightarrow> nat \<Rightarrow> nat list \<Rightarrow> kstate \<Rightarrow> kstate option" where
  "fork_files p np [] s = Some s"
| "fork_files p np (fd # fds) s =
     (case p_ofile (procs s ! p) ! fd of
        None \<Rightarrow> fork_files p np fds s
      | Some f \<Rightarrow> do {
          (f, s) \<leftarrow> filedup f s;
          let s = upd_proc np (\<lambda>x. x\<lparr>p_ofile := (p_ofile x)[fd := Some f]\<rparr>) s;
          fork_files p np fds s
        })"

definition fork :: "ksyms \<Rightarrow> kstate \<Rightarrow> (int \<times> kstate) option" where
  "fork k s =
     (case myproc s of
        None \<Rightarrow> None
      | Some p \<Rightarrow> do {
          (np, s) \<leftarrow> allocproc k s;
          case np of
            None \<Rightarrow> Some (-1, s)
          | Some np \<Rightarrow> do {
              (r, s) \<leftarrow> uvmcopy (p_pagetable (procs s ! p)) (p_pagetable (procs s ! np)) (p_sz (procs s ! p)) s;
              if r < 0 then do {
                s \<leftarrow> freeproc np s;
                s \<leftarrow> rel (PLock np) s;
                Some (-1, s)
              } else do {
                let s = upd_proc np (\<lambda>x. x\<lparr>p_sz := p_sz (procs s ! p)\<rparr>) s;
                let s = s\<lparr>mem := memmove (mem s) (p_trapframe (procs s ! np)) (p_trapframe (procs s ! p)) 288\<rparr>;
                let s = tf_set (tf_a 0) 0 np s;
                s \<leftarrow> fork_files p np [0..<NOFILE] s;
                (cwd, s) \<leftarrow> (case p_cwd (procs s ! p) of None \<Rightarrow> None | Some c \<Rightarrow> idup c s);
                let s = upd_proc np (\<lambda>x. x\<lparr>p_cwd := Some cwd\<rparr>) s;
                let s = set_name np (p_name (procs s ! p)) s;
                let pid = p_pid (procs s ! np);
                s \<leftarrow> rel (PLock np) s;
                s \<leftarrow> acq WaitLock s;
                let s = upd_proc np (\<lambda>x. x\<lparr>p_parent := Some p\<rparr>) s;
                s \<leftarrow> rel WaitLock s;
                s \<leftarrow> acq (PLock np) s;
                let s = upd_proc np (\<lambda>x. x\<lparr>p_state := RUNNABLE\<rparr>) s;
                s \<leftarrow> rel (PLock np) s;
                Some (pid, s)
              }
            }
        })"

section \<open>exit and wait\<close>

fun reparent_loop :: "nat \<Rightarrow> nat list \<Rightarrow> kstate \<Rightarrow> kstate option" where
  "reparent_loop p [] s = Some s"
| "reparent_loop p (i # is) s =
     (if p_parent (procs s ! i) = Some p then do {
        let s = upd_proc i (\<lambda>x. x\<lparr>p_parent := initproc s\<rparr>) s;
        s \<leftarrow> wakeup (ChanProc (initproc s)) s;
        reparent_loop p is s
      } else reparent_loop p is s)"

definition reparent :: "nat \<Rightarrow> kstate \<Rightarrow> kstate option" where
  "reparent p s = reparent_loop p [0..<NPROC] s"

fun exit_files :: "nat \<Rightarrow> nat list \<Rightarrow> kstate \<Rightarrow> kstate option" where
  "exit_files p [] s = Some s"
| "exit_files p (fd # fds) s =
     (case p_ofile (procs s ! p) ! fd of
        None \<Rightarrow> exit_files p fds s
      | Some f \<Rightarrow> do {
          s \<leftarrow> fileclose f s;
          let s = upd_proc p (\<lambda>x. x\<lparr>p_ofile := (p_ofile x)[fd := None]\<rparr>) s;
          exit_files p fds s
        })"

text \<open>The last part of \<open>exit\<close>, after the files and the directory are given up.\<close>

definition exit_zombie :: "nat \<Rightarrow> int \<Rightarrow> kstate \<Rightarrow> kstate option" where
  "exit_zombie p status s = do {
     s \<leftarrow> acq WaitLock s;
     s \<leftarrow> reparent p s;
     s \<leftarrow> wakeup (ChanProc (p_parent (procs s ! p))) s;
     s \<leftarrow> acq (PLock p) s;
     let s = upd_proc p (\<lambda>x. x\<lparr>p_xstate := status, p_state := ZOMBIE, p_etime := ticks s\<rparr>) s;
     s \<leftarrow> rel WaitLock s;
     sched s
   }"

definition exit :: "int \<Rightarrow> kstate \<Rightarrow> kstate option" where
  "exit status s =
     (case myproc s of
        None \<Rightarrow> None
      | Some p \<Rightarrow>
          if Some p = initproc s then panic ''init exiting''
          else do {
            s \<leftarrow> exit_files p [0..<NOFILE] s;
            s \<leftarrow> begin_op s;
            s \<leftarrow> (case p_cwd (procs s ! p) of None \<Rightarrow> None | Some c \<Rightarrow> iput c s);
            s \<leftarrow> end_op s;
            let s = upd_proc p (\<lambda>x. x\<lparr>p_cwd := None\<rparr>) s;
            exit_zombie p status s
          })"

definition int_bytes :: "int \<Rightarrow> u8 list" where
  "int_bytes x = map (\<lambda>i. ucast (drop_bit (8 * i) (word_of_int x :: u32))) [0..<4]"

text \<open>
  One scan of the table by \<open>wait\<close>: a child that was reaped (its pid, or -1 when its status could not
  be copied out, and the times \<open>waitx\<close> reports), or whether there are children.
\<close>

datatype scan = Reaped int u32 u32 | Kids bool

fun wait_scan :: "nat \<Rightarrow> u64 \<Rightarrow> nat list \<Rightarrow> bool \<Rightarrow> kstate \<Rightarrow> (scan \<times> kstate) option" where
  "wait_scan p addr [] havekids s = Some (Kids havekids, s)"
| "wait_scan p addr (i # is) havekids s =
     (if p_parent (procs s ! i) = Some p then do {
        s \<leftarrow> acq (PLock i) s;
        if p_state (procs s ! i) = ZOMBIE then do {
          let pid = p_pid (procs s ! i);
          let rtime = p_rtime (procs s ! i);
          let wtime = p_etime (procs s ! i) - p_ctime (procs s ! i) - p_rtime (procs s ! i);
          (r, s) \<leftarrow> (if addr \<noteq> 0
                     then copyout (p_pagetable (procs s ! p)) addr (int_bytes (p_xstate (procs s ! i))) s
                     else Some (0, s));
          if r < 0 then do {
            s \<leftarrow> rel (PLock i) s;
            s \<leftarrow> rel WaitLock s;
            Some (Reaped (-1) wtime rtime, s)
          } else do {
            s \<leftarrow> freeproc i s;
            s \<leftarrow> rel (PLock i) s;
            s \<leftarrow> rel WaitLock s;
            Some (Reaped pid wtime rtime, s)
          }
        } else do {
          s \<leftarrow> rel (PLock i) s;
          wait_scan p addr is True s
        }
      } else wait_scan p addr is havekids s)"

definition wait_round :: "nat \<Rightarrow> u64 \<Rightarrow> kstate \<Rightarrow> (unit, int) outcome option" where
  "wait_round p addr s = do {
     (r, s) \<leftarrow> wait_scan p addr [0..<NPROC] False s;
     case r of
       Reaped pid _ _ \<Rightarrow> Some (Returned pid s)
     | Kids havekids \<Rightarrow> do {
         (dead, s) \<leftarrow> (if \<not> havekids then Some (1, s) else killed p s);
         if dead \<noteq> 0 then do { s \<leftarrow> rel WaitLock s; Some (Returned (-1) s) }
         else do { s \<leftarrow> sleep (ChanProc (Some p)) WaitLock s; Some (Asleep () s) }
       }
   }"

definition wait :: "u64 \<Rightarrow> kstate \<Rightarrow> (unit, int) outcome option" where
  "wait addr s =
     (case myproc s of
        None \<Rightarrow> None
      | Some p \<Rightarrow> do { s \<leftarrow> acq WaitLock s; wait_round p addr s })"

definition wait_resumed :: "u64 \<Rightarrow> kstate \<Rightarrow> (unit, int) outcome option" where
  "wait_resumed addr s =
     (case myproc s of
        None \<Rightarrow> None
      | Some p \<Rightarrow> do { s \<leftarrow> sleep_resumed WaitLock s; wait_round p addr s })"

text \<open>
  \<open>waitx\<close> returns the two times besides the pid, \<open>None\<close> when it leaves the caller's variables as they
  were.
\<close>

definition waitx_round :: "nat \<Rightarrow> u64 \<Rightarrow> kstate \<Rightarrow> (unit, int \<times> (u32 \<times> u32) option) outcome option" where
  "waitx_round p addr s = do {
     (r, s) \<leftarrow> wait_scan p addr [0..<NPROC] False s;
     case r of
       Reaped pid wtime rtime \<Rightarrow> Some (Returned (pid, Some (wtime, rtime)) s)
     | Kids havekids \<Rightarrow>
         if \<not> havekids \<or> p_killed (procs s ! p) \<noteq> 0 then do { s \<leftarrow> rel WaitLock s; Some (Returned (-1, None) s) }
         else do { s \<leftarrow> sleep (ChanProc (Some p)) WaitLock s; Some (Asleep () s) }
   }"

definition waitx :: "u64 \<Rightarrow> kstate \<Rightarrow> (unit, int \<times> (u32 \<times> u32) option) outcome option" where
  "waitx addr s =
     (case myproc s of
        None \<Rightarrow> None
      | Some p \<Rightarrow> do { s \<leftarrow> acq WaitLock s; waitx_round p addr s })"

definition waitx_resumed :: "u64 \<Rightarrow> kstate \<Rightarrow> (unit, int \<times> (u32 \<times> u32) option) outcome option" where
  "waitx_resumed addr s =
     (case myproc s of
        None \<Rightarrow> None
      | Some p \<Rightarrow> do { s \<leftarrow> sleep_resumed WaitLock s; waitx_round p addr s })"

section \<open>kill and time\<close>

fun kill_from :: "nat list \<Rightarrow> int \<Rightarrow> kstate \<Rightarrow> (int \<times> kstate) option" where
  "kill_from [] pid s = Some (-1, s)"
| "kill_from (i # is) pid s = do {
     s \<leftarrow> acq (PLock i) s;
     if p_pid (procs s ! i) = pid then do {
       let s = upd_proc i (\<lambda>p. p\<lparr>p_killed := 1\<rparr>) s;
       let s = (if p_state (procs s ! i) = SLEEPING then upd_proc i (\<lambda>p. p\<lparr>p_state := RUNNABLE\<rparr>) s else s);
       s \<leftarrow> rel (PLock i) s;
       Some (0, s)
     } else do {
       s \<leftarrow> rel (PLock i) s;
       kill_from is pid s
     }
   }"

definition kill :: "int \<Rightarrow> kstate \<Rightarrow> (int \<times> kstate) option" where
  "kill pid s = kill_from [0..<NPROC] pid s"

fun update_time_from :: "nat list \<Rightarrow> kstate \<Rightarrow> kstate option" where
  "update_time_from [] s = Some s"
| "update_time_from (i # is) s = do {
     s \<leftarrow> acq (PLock i) s;
     let s = (if p_state (procs s ! i) = RUNNING then upd_proc i (\<lambda>p. p\<lparr>p_rtime := p_rtime p + 1\<rparr>) s else s);
     s \<leftarrow> rel (PLock i) s;
     update_time_from is s
   }"

definition update_time :: "kstate \<Rightarrow> kstate option" where
  "update_time s = update_time_from [0..<NPROC] s"

end
