(* ===== verification/Exec.thy ===== *)
theory Exec
  imports Proc
begin

text \<open>
  \<^verbatim>\<open>kernel/exec.c\<close>: loading a program. The argument strings are byte lists without their
  terminator; the arrays of headers that \<open>exec\<close> reads into its stack are the bytes \<open>readi\<close> returns.
\<close>

definition le16 :: "u8 list \<Rightarrow> nat \<Rightarrow> u16" where
  "le16 bs i = ucast (bs ! i) OR push_bit 8 (ucast (bs ! (i + 1)))"

definition le32 :: "u8 list \<Rightarrow> nat \<Rightarrow> u32" where
  "le32 bs i = ucast (le16 bs i) OR push_bit 16 (ucast (le16 bs (i + 2)))"

definition le64 :: "u8 list \<Rightarrow> nat \<Rightarrow> u64" where
  "le64 bs i = ucast (le32 bs i) OR push_bit 32 (ucast (le32 bs (i + 4)))"

definition u64_bytes :: "u64 \<Rightarrow> u8 list" where
  "u64_bytes x = map (\<lambda>i. ucast (drop_bit (8 * i) x)) [0..<8]"

record elfhdr =
  elf_magic :: u32
  elf_entry :: u64
  elf_phoff :: u64
  elf_phnum :: u16

definition get_elfhdr :: "u8 list \<Rightarrow> elfhdr" where
  "get_elfhdr bs = \<lparr>elf_magic = le32 bs 0, elf_entry = le64 bs 24, elf_phoff = le64 bs 32, elf_phnum = le16 bs 56\<rparr>"

record proghdr =
  ph_type :: u32
  ph_flags :: u32
  ph_off :: u64
  ph_vaddr :: u64
  ph_filesz :: u64
  ph_memsz :: u64

definition get_proghdr :: "u8 list \<Rightarrow> proghdr" where
  "get_proghdr bs = \<lparr>ph_type = le32 bs 0, ph_flags = le32 bs 4, ph_off = le64 bs 8, ph_vaddr = le64 bs 16,
     ph_filesz = le64 bs 32, ph_memsz = le64 bs 40\<rparr>"

definition ELF_MAGIC :: u32 where "ELF_MAGIC = 0x464C457F"

definition flags2perm :: "u32 \<Rightarrow> u64" where
  "flags2perm flags =
     (let perm = (if flags AND 1 \<noteq> 0 then PTE_X else 0)
      in if flags AND 2 \<noteq> 0 then perm OR PTE_W else perm)"

partial_function (option) loadseg_from ::
  "u64 \<Rightarrow> u64 \<Rightarrow> nat \<Rightarrow> u32 \<Rightarrow> u32 \<Rightarrow> u32 \<Rightarrow> kstate \<Rightarrow> (int \<times> kstate) option"
where
  "loadseg_from pagetable va ip offset sz i s =
     (if i < sz then do {
        pa \<leftarrow> walkaddr pagetable (va + ucast i) s;
        if pa = 0 then panic ''loadseg: address should exist''
        else do {
          let n = (if sz - i < 4096 then sz - i else 4096);
          (r, _, s) \<leftarrow> readi ip (DKernel pa) (offset + i) n s;
          if word_of_int r \<noteq> n then Some (-1, s)
          else loadseg_from pagetable va ip offset sz (i + 4096) s
        }
      } else Some (0, s))"

definition loadseg :: "u64 \<Rightarrow> u64 \<Rightarrow> nat \<Rightarrow> u32 \<Rightarrow> u32 \<Rightarrow> kstate \<Rightarrow> (int \<times> kstate) option" where
  "loadseg pagetable va ip offset sz s = loadseg_from pagetable va ip offset sz 0 s"

text \<open>
  The loop over the program headers, \<open>n\<close> of them from file offset \<open>off\<close> on: whether it went through,
  and the size reached, which is what has to be freed when it did not.
\<close>

fun exec_load :: "u64 \<Rightarrow> nat \<Rightarrow> nat \<Rightarrow> u32 \<Rightarrow> u64 \<Rightarrow> kstate \<Rightarrow> (bool \<times> u64 \<times> kstate) option" where
  "exec_load pagetable ip 0 off sz s = Some (True, sz, s)"
| "exec_load pagetable ip (Suc n) off sz s = do {
     (r, bs, s) \<leftarrow> readi ip DLocal off 56 s;
     if r \<noteq> 56 then Some (False, sz, s)
     else
       let ph = get_proghdr bs in
       if ph_type ph \<noteq> 1 then exec_load pagetable ip n (off + 56) sz s
       else if ph_memsz ph < ph_filesz ph then Some (False, sz, s)
       else if ph_vaddr ph + ph_memsz ph < ph_vaddr ph then Some (False, sz, s)
       else if ph_vaddr ph mod PGSIZE \<noteq> 0 then Some (False, sz, s)
       else do {
         (sz1, s) \<leftarrow> uvmalloc pagetable sz (ph_vaddr ph + ph_memsz ph) (flags2perm (ph_flags ph)) s;
         if sz1 = 0 then Some (False, sz, s)
         else do {
           (r, s) \<leftarrow> loadseg pagetable (ph_vaddr ph) ip (ucast (ph_off ph)) (ucast (ph_filesz ph)) s;
           if r < 0 then Some (False, sz1, s)
           else exec_load pagetable ip n (off + 56) sz1 s
         }
       }
   }"

text \<open>
  Pushing the argument strings, from the \<open>argc\<close>-th on; the result is the stack pointer and \<open>ustack\<close>.
\<close>

fun exec_args :: "u64 \<Rightarrow> u64 \<Rightarrow> u8 list list \<Rightarrow> nat \<Rightarrow> u64 \<Rightarrow> u64 list \<Rightarrow> kstate \<Rightarrow> ((u64 \<times> u64 list) option \<times> kstate) option" where
  "exec_args pagetable stackbase [] argc sp ustack s = Some (Some (sp, ustack @ [0]), s)"
| "exec_args pagetable stackbase (arg # args) argc sp ustack s =
     (if argc \<ge> MAXARG then Some (None, s)
      else
        let sp = sp - (of_nat (length arg) + 1);
            sp = sp - sp mod 16
        in
        if sp < stackbase then Some (None, s)
        else do {
          (r, s) \<leftarrow> copyout pagetable sp (arg @ [0]) s;
          if r < 0 then Some (None, s)
          else exec_args pagetable stackbase args (argc + 1) sp (ustack @ [sp]) s
        })"

definition exec_bad :: "u64 \<Rightarrow> u64 \<Rightarrow> nat option \<Rightarrow> kstate \<Rightarrow> (int \<times> kstate) option" where
  "exec_bad pagetable sz ip s = do {
     s \<leftarrow> (if pagetable \<noteq> 0 then proc_freepagetable pagetable sz s else Some s);
     s \<leftarrow> (case ip of None \<Rightarrow> Some s | Some ip \<Rightarrow> do { s \<leftarrow> iunlockput ip s; end_op s });
     Some (-1, s)
   }"

text \<open>The name after the last slash.\<close>

definition last_elem :: "u8 list \<Rightarrow> u8 list" where
  "last_elem path = rev (takeWhile (\<lambda>c. c \<noteq> slash) (rev path))"

text \<open>Stack, arguments and the switch to the new image.\<close>

definition exec_finish ::
  "nat \<Rightarrow> u8 list \<Rightarrow> u8 list list \<Rightarrow> u64 \<Rightarrow> u64 \<Rightarrow> u64 \<Rightarrow> kstate \<Rightarrow> (int \<times> kstate) option"
where
  "exec_finish p path argv ent pagetable sz s = do {
     let oldsz = p_sz (procs s ! p);
     let sz = PGROUNDUP sz;
     (sz1, s) \<leftarrow> uvmalloc pagetable sz (sz + 2 * PGSIZE) PTE_W s;
     if sz1 = 0 then exec_bad pagetable sz None s
     else do {
       let sz = sz1;
       s \<leftarrow> uvmclear pagetable (sz - 2 * PGSIZE) s;
       let stackbase = sz - PGSIZE;
       (pushed, s) \<leftarrow> exec_args pagetable stackbase argv 0 sz [] s;
       case pushed of
         None \<Rightarrow> exec_bad pagetable sz None s
       | Some (sp, ustack) \<Rightarrow>
           let argc = length argv;
               sp = sp - of_nat (argc + 1) * 8;
               sp = sp - sp mod 16
           in
           if sp < stackbase then exec_bad pagetable sz None s
           else do {
             (r, s) \<leftarrow> copyout pagetable sp (concat (map u64_bytes ustack)) s;
             if r < 0 then exec_bad pagetable sz None s
             else do {
               let s = tf_set (tf_a 1) sp p s;
               let s = set_name p (last_elem path) s;
               let oldpagetable = p_pagetable (procs s ! p);
               let s = upd_proc p (\<lambda>x. x\<lparr>p_pagetable := pagetable, p_sz := sz\<rparr>) s;
               let s = tf_set tf_epc ent p s;
               let s = tf_set tf_sp sp p s;
               s \<leftarrow> proc_freepagetable oldpagetable oldsz s;
               Some (int argc, s)
             }
           }
     }
   }"

definition exec :: "ksyms \<Rightarrow> u8 list \<Rightarrow> u8 list list \<Rightarrow> kstate \<Rightarrow> (int \<times> kstate) option" where
  "exec k path argv s =
     (case myproc s of
        None \<Rightarrow> None
      | Some p \<Rightarrow> do {
          s \<leftarrow> begin_op s;
          (ip, s) \<leftarrow> namei path s;
          case ip of
            None \<Rightarrow> do { s \<leftarrow> end_op s; Some (-1, s) }
          | Some ip \<Rightarrow> do {
              s \<leftarrow> ilock ip s;
              (r, bs, s) \<leftarrow> readi ip DLocal 0 64 s;
              if r \<noteq> 64 then exec_bad 0 0 (Some ip) s
              else
                let elf = get_elfhdr bs in
                if elf_magic elf \<noteq> ELF_MAGIC then exec_bad 0 0 (Some ip) s
                else do {
                  (pagetable, s) \<leftarrow> proc_pagetable k p s;
                  if pagetable = 0 then exec_bad 0 0 (Some ip) s
                  else do {
                    (ok, sz, s) \<leftarrow> exec_load pagetable ip (unat (elf_phnum elf)) (ucast (elf_phoff elf)) 0 s;
                    if \<not> ok then exec_bad pagetable sz (Some ip) s
                    else do {
                      s \<leftarrow> iunlockput ip s;
                      s \<leftarrow> end_op s;
                      exec_finish p path argv (elf_entry elf) pagetable sz s
                    }
                  }
                }
            }
        })"

end
