(* ===== verification/Syscall.thy ===== *)
theory Syscall
  imports Exec
begin

text \<open>
  \<^verbatim>\<open>kernel/syscall.c\<close>, \<^verbatim>\<open>kernel/sysproc.c\<close> and \<^verbatim>\<open>kernel/sysfile.c\<close>: arguments of
  system calls, the calls and their dispatch. A call may leave its process off the CPU: asleep, or, for
  \<open>exit\<close>, for good; what it does when it is resumed is in the functions it calls.

  \<open>env\<close> is what the calls take from outside the model: the kernel's addresses, and the contents of
  local variables that the code reads without having set them (the padding of \<open>struct stat\<close>, and the
  times in \<open>sys_waitx\<close> when \<open>waitx\<close> fails).
\<close>

record env =
  e_syms :: ksyms
  e_pad :: "u8 list"
  e_times :: "u32 \<times> u32"

abbreviation ret :: "u64 \<Rightarrow> kstate \<Rightarrow> (unit, u64) outcome option" where
  "ret r s \<equiv> Some (Returned r s)"

text \<open>The value of a call as an unsigned word.\<close>

definition reti :: "(int \<times> kstate) option \<Rightarrow> (unit, u64) outcome option" where
  "reti p = do { (r, s) \<leftarrow> p; ret (word_of_int r) s }"

definition reto :: "(unit, int) outcome option \<Rightarrow> (unit, u64) outcome option" where
  "reto p = do { r \<leftarrow> p; case r of Returned x s \<Rightarrow> ret (word_of_int x) s | Asleep _ s \<Rightarrow> Some (Asleep () s) }"

section \<open>Arguments (syscall.c)\<close>

definition fetchaddr :: "u64 \<Rightarrow> kstate \<Rightarrow> (int \<times> u64) option" where
  "fetchaddr addr s =
     (case myproc s of
        None \<Rightarrow> None
      | Some p \<Rightarrow>
          let sz = p_sz (procs s ! p) in
          if addr \<ge> sz \<or> addr + 8 > sz then Some (-1, 0)
          else do {
            (r, bs) \<leftarrow> copyin (p_pagetable (procs s ! p)) addr 8 s;
            if r \<noteq> 0 then Some (-1, 0) else Some (0, le64 bs 0)
          })"

text \<open>The length or -1, and the bytes put into the buffer.\<close>

definition fetchstr :: "u64 \<Rightarrow> u64 \<Rightarrow> kstate \<Rightarrow> (int \<times> u8 list) option" where
  "fetchstr addr mx s =
     (case myproc s of
        None \<Rightarrow> None
      | Some p \<Rightarrow> do {
          (r, bs) \<leftarrow> copyinstr (p_pagetable (procs s ! p)) addr mx s;
          if r < 0 then Some (-1, bs) else Some (int (length bs), bs)
        })"

definition argraw :: "nat \<Rightarrow> kstate \<Rightarrow> u64 option" where
  "argraw n s =
     (case myproc s of
        None \<Rightarrow> None
      | Some p \<Rightarrow> if n \<le> 5 then Some (tf_get (tf_a n) p s) else panic ''argraw'')"

definition argint :: "nat \<Rightarrow> kstate \<Rightarrow> int option" where
  "argint n s = do { x \<leftarrow> argraw n s; Some (sint (ucast x :: u32)) }"

definition argaddr :: "nat \<Rightarrow> kstate \<Rightarrow> u64 option" where
  "argaddr n s = argraw n s"

definition argstr :: "nat \<Rightarrow> u64 \<Rightarrow> kstate \<Rightarrow> (int \<times> u8 list) option" where
  "argstr n mx s = do { addr \<leftarrow> argaddr n s; fetchstr addr mx s }"

section \<open>Processes (sysproc.c)\<close>

definition sys_exit :: "kstate \<Rightarrow> (unit, u64) outcome option" where
  "sys_exit s = do { n \<leftarrow> argint 0 s; s \<leftarrow> exit n s; Some (Asleep () s) }"

definition sys_getpid :: "kstate \<Rightarrow> (unit, u64) outcome option" where
  "sys_getpid s = (case myproc s of None \<Rightarrow> None | Some p \<Rightarrow> ret (word_of_int (p_pid (procs s ! p))) s)"

definition sys_fork :: "env \<Rightarrow> kstate \<Rightarrow> (unit, u64) outcome option" where
  "sys_fork e s = reti (fork (e_syms e) s)"

definition sys_wait :: "kstate \<Rightarrow> (unit, u64) outcome option" where
  "sys_wait s = do { p \<leftarrow> argaddr 0 s; reto (wait p s) }"

definition sys_sbrk :: "kstate \<Rightarrow> (unit, u64) outcome option" where
  "sys_sbrk s = do {
     n \<leftarrow> argint 0 s;
     p \<leftarrow> myproc s;
     let addr = p_sz (procs s ! p);
     (r, s) \<leftarrow> growproc n s;
     if r < 0 then ret (-1) s else ret addr s
   }"

text \<open>The test of \<open>sys_sleep\<close> compares as unsigned integers.\<close>

definition sys_sleep_wait :: "u32 \<Rightarrow> u32 \<Rightarrow> kstate \<Rightarrow> (unit, u64) outcome option" where
  "sys_sleep_wait n ticks0 s =
     (if ticks s - ticks0 < n then do {
        p \<leftarrow> myproc s;
        (k, s) \<leftarrow> killed p s;
        if k \<noteq> 0 then do { s \<leftarrow> rel TicksLock s; ret (-1) s }
        else do { s \<leftarrow> sleep ChanTicks TicksLock s; Some (Asleep () s) }
      } else do { s \<leftarrow> rel TicksLock s; ret 0 s })"

definition sys_sleep :: "kstate \<Rightarrow> (unit, u64) outcome option" where
  "sys_sleep s = do {
     n \<leftarrow> argint 0 s;
     s \<leftarrow> acq TicksLock s;
     sys_sleep_wait (word_of_int n) (ticks s) s
   }"

definition sys_sleep_resumed :: "u32 \<Rightarrow> u32 \<Rightarrow> kstate \<Rightarrow> (unit, u64) outcome option" where
  "sys_sleep_resumed n ticks0 s = do { s \<leftarrow> sleep_resumed TicksLock s; sys_sleep_wait n ticks0 s }"

definition sys_kill :: "kstate \<Rightarrow> (unit, u64) outcome option" where
  "sys_kill s = do { pid \<leftarrow> argint 0 s; reti (kill pid s) }"

definition sys_uptime :: "kstate \<Rightarrow> (unit, u64) outcome option" where
  "sys_uptime s = do {
     s \<leftarrow> acq TicksLock s;
     let xticks = ticks s;
     s \<leftarrow> rel TicksLock s;
     ret (ucast xticks) s
   }"

definition sys_waitx :: "env \<Rightarrow> kstate \<Rightarrow> (unit, u64) outcome option" where
  "sys_waitx e s = do {
     addr \<leftarrow> argaddr 0 s;
     addr1 \<leftarrow> argaddr 1 s;
     addr2 \<leftarrow> argaddr 2 s;
     w \<leftarrow> waitx addr s;
     case w of
       Asleep _ s \<Rightarrow> Some (Asleep () s)
     | Returned (r, tm) s \<Rightarrow> do {
         let (wtime, rtime) = (case tm of None \<Rightarrow> e_times e | Some t \<Rightarrow> t);
         p \<leftarrow> myproc s;
         (r1, s) \<leftarrow> copyout (p_pagetable (procs s ! p)) addr1 (int_bytes (uint wtime)) s;
         if r1 < 0 then ret (-1) s
         else do {
           (r2, s) \<leftarrow> copyout (p_pagetable (procs s ! p)) addr2 (int_bytes (uint rtime)) s;
           if r2 < 0 then ret (-1) s else ret (word_of_int r) s
         }
       }
   }"

section \<open>File descriptors (sysfile.c)\<close>

text \<open>The descriptor and the file, \<open>None\<close> when there is none.\<close>

definition argfd :: "nat \<Rightarrow> kstate \<Rightarrow> (nat \<times> nat) option option" where
  "argfd n s = do {
     fd \<leftarrow> argint n s;
     p \<leftarrow> myproc s;
     if fd < 0 \<or> fd \<ge> int NOFILE then Some None
     else case p_ofile (procs s ! p) ! nat fd of None \<Rightarrow> Some None | Some f \<Rightarrow> Some (Some (nat fd, f))
   }"

definition fdalloc :: "nat \<Rightarrow> kstate \<Rightarrow> (nat option \<times> kstate) option" where
  "fdalloc f s = do {
     p \<leftarrow> myproc s;
     case find (\<lambda>fd. p_ofile (procs s ! p) ! fd = None) [0..<NOFILE] of
       None \<Rightarrow> Some (None, s)
     | Some fd \<Rightarrow> Some (Some fd, upd_proc p (\<lambda>x. x\<lparr>p_ofile := (p_ofile x)[fd := Some f]\<rparr>) s)
   }"

definition fd_clear :: "nat \<Rightarrow> kstate \<Rightarrow> kstate option" where
  "fd_clear fd s = do { p \<leftarrow> myproc s; Some (upd_proc p (\<lambda>x. x\<lparr>p_ofile := (p_ofile x)[fd := None]\<rparr>) s) }"

definition sys_dup :: "kstate \<Rightarrow> (unit, u64) outcome option" where
  "sys_dup s = do {
     a \<leftarrow> argfd 0 s;
     case a of
       None \<Rightarrow> ret (-1) s
     | Some (_, f) \<Rightarrow> do {
         (fd, s) \<leftarrow> fdalloc f s;
         case fd of
           None \<Rightarrow> ret (-1) s
         | Some fd \<Rightarrow> do { (_, s) \<leftarrow> filedup f s; ret (of_nat fd) s }
       }
   }"

definition sys_read :: "kstate \<Rightarrow> (unit, u64) outcome option" where
  "sys_read s = do {
     p \<leftarrow> argaddr 1 s;
     n \<leftarrow> argint 2 s;
     a \<leftarrow> argfd 0 s;
     case a of None \<Rightarrow> ret (-1) s | Some (_, f) \<Rightarrow> reto (fileread f p n s)
   }"

definition sys_write :: "kstate \<Rightarrow> (unit, u64) outcome option" where
  "sys_write s = do {
     p \<leftarrow> argaddr 1 s;
     n \<leftarrow> argint 2 s;
     a \<leftarrow> argfd 0 s;
     case a of None \<Rightarrow> ret (-1) s | Some (_, f) \<Rightarrow> reto (filewrite f p n s)
   }"

definition sys_close :: "kstate \<Rightarrow> (unit, u64) outcome option" where
  "sys_close s = do {
     a \<leftarrow> argfd 0 s;
     case a of
       None \<Rightarrow> ret (-1) s
     | Some (fd, f) \<Rightarrow> do {
         s \<leftarrow> fd_clear fd s;
         s \<leftarrow> fileclose f s;
         ret 0 s
       }
   }"

definition sys_fstat :: "env \<Rightarrow> kstate \<Rightarrow> (unit, u64) outcome option" where
  "sys_fstat e s = do {
     st \<leftarrow> argaddr 1 s;
     a \<leftarrow> argfd 0 s;
     case a of None \<Rightarrow> ret (-1) s | Some (_, f) \<Rightarrow> reti (filestat (e_pad e) f st s)
   }"

section \<open>Paths (sysfile.c)\<close>

definition fail_op :: "kstate \<Rightarrow> (unit, u64) outcome option" where
  "fail_op s = do { s \<leftarrow> end_op s; ret (-1) s }"

definition drop_op :: "nat \<Rightarrow> kstate \<Rightarrow> (unit, u64) outcome option" where
  "drop_op ip s = do { s \<leftarrow> iunlockput ip s; fail_op s }"

definition sys_link_bad :: "nat \<Rightarrow> kstate \<Rightarrow> (unit, u64) outcome option" where
  "sys_link_bad ip s = do {
     s \<leftarrow> ilock ip s;
     let s = upd_inode ip (\<lambda>x. x\<lparr>i_nlink := i_nlink x - 1\<rparr>) s;
     s \<leftarrow> iupdate ip s;
     drop_op ip s
   }"

definition sys_link :: "kstate \<Rightarrow> (unit, u64) outcome option" where
  "sys_link s = do {
     (r0, old) \<leftarrow> argstr 0 128 s;
     (r1, new) \<leftarrow> (if r0 < 0 then Some (-1, []) else argstr 1 128 s);
     if r0 < 0 \<or> r1 < 0 then ret (-1) s
     else do {
       s \<leftarrow> begin_op s;
       (ip, s) \<leftarrow> namei old s;
       case ip of
         None \<Rightarrow> fail_op s
       | Some ip \<Rightarrow> do {
           s \<leftarrow> ilock ip s;
           if i_type (itable s ! ip) = T_DIR then drop_op ip s
           else do {
             let s = upd_inode ip (\<lambda>x. x\<lparr>i_nlink := i_nlink x + 1\<rparr>) s;
             s \<leftarrow> iupdate ip s;
             s \<leftarrow> iunlock ip s;
             (dp, name, s) \<leftarrow> nameiparent new s;
             case dp of
               None \<Rightarrow> sys_link_bad ip s
             | Some dp \<Rightarrow> do {
                 s \<leftarrow> ilock dp s;
                 (r, s) \<leftarrow> (if i_dev (itable s ! dp) \<noteq> i_dev (itable s ! ip) then Some (-1, s)
                            else dirlink dp name (i_inum (itable s ! ip)) s);
                 if r < 0 then do { s \<leftarrow> iunlockput dp s; sys_link_bad ip s }
                 else do {
                   s \<leftarrow> iunlockput dp s;
                   s \<leftarrow> iput ip s;
                   s \<leftarrow> end_op s;
                   ret 0 s
                 }
               }
           }
         }
     }
   }"

partial_function (option) isdirempty_from :: "nat \<Rightarrow> u32 \<Rightarrow> kstate \<Rightarrow> (bool \<times> kstate) option" where
  "isdirempty_from dp off s =
     (if off < i_size (itable s ! dp) then do {
        (r, de, s) \<leftarrow> readi dp DLocal off 16 s;
        if r \<noteq> 16 then panic ''isdirempty: readi''
        else if de_inum de \<noteq> 0 then Some (False, s)
        else isdirempty_from dp (off + 16) s
      } else Some (True, s))"

definition isdirempty :: "nat \<Rightarrow> kstate \<Rightarrow> (bool \<times> kstate) option" where
  "isdirempty dp s = isdirempty_from dp 32 s"

text \<open>\<open>sys_unlink\<close> once the entry is found, at offset \<open>off\<close> of \<open>dp\<close>.\<close>

definition unlink_entry :: "nat \<Rightarrow> nat \<Rightarrow> u32 \<Rightarrow> kstate \<Rightarrow> (unit, u64) outcome option" where
  "unlink_entry dp ip off s = do {
     s \<leftarrow> ilock ip s;
     if sint (i_nlink (itable s ! ip)) < 1 then panic ''unlink: nlink < 1''
     else do {
       (full, s) \<leftarrow> (if i_type (itable s ! ip) = T_DIR
                     then do { (em, s) \<leftarrow> isdirempty ip s; Some (\<not> em, s) } else Some (False, s));
       if full then do { s \<leftarrow> iunlockput ip s; drop_op dp s }
       else do {
         (r, s) \<leftarrow> writei dp (SLocal (replicate 16 0)) off 16 s;
         if r \<noteq> 16 then panic ''unlink: writei''
         else do {
           s \<leftarrow> (if i_type (itable s ! ip) = T_DIR
                 then iupdate dp (upd_inode dp (\<lambda>x. x\<lparr>i_nlink := i_nlink x - 1\<rparr>) s) else Some s);
           s \<leftarrow> iunlockput dp s;
           let s = upd_inode ip (\<lambda>x. x\<lparr>i_nlink := i_nlink x - 1\<rparr>) s;
           s \<leftarrow> iupdate ip s;
           s \<leftarrow> iunlockput ip s;
           s \<leftarrow> end_op s;
           ret 0 s
         }
       }
     }
   }"

definition sys_unlink :: "kstate \<Rightarrow> (unit, u64) outcome option" where
  "sys_unlink s = do {
     (r, path) \<leftarrow> argstr 0 128 s;
     if r < 0 then ret (-1) s
     else do {
       s \<leftarrow> begin_op s;
       (dp, name, s) \<leftarrow> nameiparent path s;
       case dp of
         None \<Rightarrow> fail_op s
       | Some dp \<Rightarrow> do {
           s \<leftarrow> ilock dp s;
           if namecmp name (bytes_of ''.'') = 0 \<or> namecmp name (bytes_of ''..'') = 0 then drop_op dp s
           else do {
             (found, s) \<leftarrow> dirlookup dp name s;
             case found of None \<Rightarrow> drop_op dp s | Some (ip, off) \<Rightarrow> unlink_entry dp ip off s
           }
         }
     }
   }"

definition create_fail :: "nat \<Rightarrow> nat \<Rightarrow> kstate \<Rightarrow> (nat option \<times> kstate) option" where
  "create_fail dp ip s = do {
     let s = upd_inode ip (\<lambda>x. x\<lparr>i_nlink := 0\<rparr>) s;
     s \<leftarrow> iupdate ip s;
     s \<leftarrow> iunlockput ip s;
     s \<leftarrow> iunlockput dp s;
     Some (None, s)
   }"

text \<open>\<open>create\<close> once the new inode is allocated.\<close>

definition create_new :: "nat \<Rightarrow> u8 list \<Rightarrow> nat \<Rightarrow> u16 \<Rightarrow> u16 \<Rightarrow> u16 \<Rightarrow> kstate \<Rightarrow> (nat option \<times> kstate) option" where
  "create_new dp name ip ty major minor s = do {
     s \<leftarrow> ilock ip s;
     let s = upd_inode ip (\<lambda>x. x\<lparr>i_major := major, i_minor := minor, i_nlink := 1\<rparr>) s;
     s \<leftarrow> iupdate ip s;
     (r, s) \<leftarrow> (if ty = T_DIR then do {
                  (r, s) \<leftarrow> dirlink ip (bytes_of ''.'') (i_inum (itable s ! ip)) s;
                  if r < 0 then Some (r, s) else dirlink ip (bytes_of ''..'') (i_inum (itable s ! dp)) s
                } else Some (0, s));
     if r < 0 then create_fail dp ip s
     else do {
       (r, s) \<leftarrow> dirlink dp name (i_inum (itable s ! ip)) s;
       if r < 0 then create_fail dp ip s
       else do {
         s \<leftarrow> (if ty = T_DIR then iupdate dp (upd_inode dp (\<lambda>x. x\<lparr>i_nlink := i_nlink x + 1\<rparr>) s) else Some s);
         s \<leftarrow> iunlockput dp s;
         Some (Some ip, s)
       }
     }
   }"

definition create :: "u8 list \<Rightarrow> u16 \<Rightarrow> u16 \<Rightarrow> u16 \<Rightarrow> kstate \<Rightarrow> (nat option \<times> kstate) option" where
  "create path ty major minor s = do {
     (dp, name, s) \<leftarrow> nameiparent path s;
     case dp of
       None \<Rightarrow> Some (None, s)
     | Some dp \<Rightarrow> do {
         s \<leftarrow> ilock dp s;
         (found, s) \<leftarrow> dirlookup dp name s;
         case found of
           Some (ip, _) \<Rightarrow> do {
             s \<leftarrow> iunlockput dp s;
             s \<leftarrow> ilock ip s;
             if ty = T_FILE \<and> (i_type (itable s ! ip) = T_FILE \<or> i_type (itable s ! ip) = T_DEVICE)
             then Some (Some ip, s)
             else do { s \<leftarrow> iunlockput ip s; Some (None, s) }
           }
         | None \<Rightarrow> do {
             (ip, s) \<leftarrow> ialloc (i_dev (itable s ! dp)) ty s;
             case ip of
               None \<Rightarrow> do { s \<leftarrow> iunlockput dp s; Some (None, s) }
             | Some ip \<Rightarrow> create_new dp name ip ty major minor s
           }
       }
   }"

definition O_WRONLY :: u32 where "O_WRONLY = 1"
definition O_RDWR :: u32 where "O_RDWR = 2"
definition O_CREATE :: u32 where "O_CREATE = 0x200"
definition O_TRUNC :: u32 where "O_TRUNC = 0x400"

text \<open>The inode \<open>sys_open\<close> works on, locked.\<close>

definition open_inode :: "u8 list \<Rightarrow> u32 \<Rightarrow> kstate \<Rightarrow> (nat option \<times> kstate) option" where
  "open_inode path omode s =
     (if omode AND O_CREATE \<noteq> 0 then create path T_FILE 0 0 s
      else do {
        (ip, s) \<leftarrow> namei path s;
        case ip of
          None \<Rightarrow> Some (None, s)
        | Some ip \<Rightarrow> do {
            s \<leftarrow> ilock ip s;
            if i_type (itable s ! ip) = T_DIR \<and> omode \<noteq> 0
            then do { s \<leftarrow> iunlockput ip s; Some (None, s) }
            else Some (Some ip, s)
          }
      })"

definition open_file :: "nat \<Rightarrow> nat \<Rightarrow> u32 \<Rightarrow> kstate \<Rightarrow> kstate" where
  "open_file f ip omode s =
     (let s = (if i_type (itable s ! ip) = T_DEVICE
               then upd_file f (\<lambda>x. x\<lparr>f_type := FD_DEVICE, f_major := i_major (itable s ! ip)\<rparr>) s
               else upd_file f (\<lambda>x. x\<lparr>f_type := FD_INODE, f_off := 0\<rparr>) s)
      in upd_file f (\<lambda>x. x\<lparr>f_ip := ip, f_readable := (omode AND O_WRONLY = 0),
           f_writable := (omode AND O_WRONLY \<noteq> 0 \<or> omode AND O_RDWR \<noteq> 0)\<rparr>) s)"

definition sys_open :: "kstate \<Rightarrow> (unit, u64) outcome option" where
  "sys_open s = do {
     om \<leftarrow> argint 1 s;
     let omode = (word_of_int om :: u32);
     (n, path) \<leftarrow> argstr 0 128 s;
     if n < 0 then ret (-1) s
     else do {
       s \<leftarrow> begin_op s;
       (ip, s) \<leftarrow> open_inode path omode s;
       case ip of
         None \<Rightarrow> fail_op s
       | Some ip \<Rightarrow>
           if i_type (itable s ! ip) = T_DEVICE \<and>
              (sint (i_major (itable s ! ip)) < 0 \<or> sint (i_major (itable s ! ip)) \<ge> NDEV)
           then drop_op ip s
           else do {
             (f, s) \<leftarrow> filealloc s;
             case f of
               None \<Rightarrow> drop_op ip s
             | Some f \<Rightarrow> do {
                 (fd, s) \<leftarrow> fdalloc f s;
                 case fd of
                   None \<Rightarrow> do { s \<leftarrow> fileclose f s; drop_op ip s }
                 | Some fd \<Rightarrow> do {
                     let s = open_file f ip omode s;
                     s \<leftarrow> (if omode AND O_TRUNC \<noteq> 0 \<and> i_type (itable s ! ip) = T_FILE then itrunc ip s else Some s);
                     s \<leftarrow> iunlock ip s;
                     s \<leftarrow> end_op s;
                     ret (of_nat fd) s
                   }
               }
           }
     }
   }"

definition sys_mkdir :: "kstate \<Rightarrow> (unit, u64) outcome option" where
  "sys_mkdir s = do {
     s \<leftarrow> begin_op s;
     (r, path) \<leftarrow> argstr 0 128 s;
     if r < 0 then fail_op s
     else do {
       (ip, s) \<leftarrow> create path T_DIR 0 0 s;
       case ip of
         None \<Rightarrow> fail_op s
       | Some ip \<Rightarrow> do { s \<leftarrow> iunlockput ip s; s \<leftarrow> end_op s; ret 0 s }
     }
   }"

definition sys_mknod :: "kstate \<Rightarrow> (unit, u64) outcome option" where
  "sys_mknod s = do {
     s \<leftarrow> begin_op s;
     major \<leftarrow> argint 1 s;
     minor \<leftarrow> argint 2 s;
     (r, path) \<leftarrow> argstr 0 128 s;
     if r < 0 then fail_op s
     else do {
       (ip, s) \<leftarrow> create path T_DEVICE (word_of_int major) (word_of_int minor) s;
       case ip of
         None \<Rightarrow> fail_op s
       | Some ip \<Rightarrow> do { s \<leftarrow> iunlockput ip s; s \<leftarrow> end_op s; ret 0 s }
     }
   }"

definition sys_chdir :: "kstate \<Rightarrow> (unit, u64) outcome option" where
  "sys_chdir s = do {
     p \<leftarrow> myproc s;
     s \<leftarrow> begin_op s;
     (r, path) \<leftarrow> argstr 0 128 s;
     if r < 0 then fail_op s
     else do {
       (ip, s) \<leftarrow> namei path s;
       case ip of
         None \<Rightarrow> fail_op s
       | Some ip \<Rightarrow> do {
           s \<leftarrow> ilock ip s;
           if i_type (itable s ! ip) \<noteq> T_DIR then drop_op ip s
           else do {
             s \<leftarrow> iunlock ip s;
             s \<leftarrow> (case p_cwd (procs s ! p) of None \<Rightarrow> None | Some c \<Rightarrow> iput c s);
             s \<leftarrow> end_op s;
             ret 0 (upd_proc p (\<lambda>x. x\<lparr>p_cwd := Some ip\<rparr>) s)
           }
         }
     }
   }"

section \<open>exec and pipe\<close>

text \<open>
  The loop of \<open>sys_exec\<close> over the indices of \<open>argv\<close>: whether it reached the null pointer, the pages
  allocated for the strings and the strings in them.
\<close>

fun sys_exec_args ::
  "u64 \<Rightarrow> nat list \<Rightarrow> u64 list \<Rightarrow> u8 list list \<Rightarrow> kstate \<Rightarrow> (bool \<times> u64 list \<times> u8 list list \<times> kstate) option"
where
  "sys_exec_args uargv [] pages strs s = Some (False, pages, strs, s)"
| "sys_exec_args uargv (i # is) pages strs s = do {
     (r, uarg) \<leftarrow> fetchaddr (uargv + 8 * of_nat i) s;
     if r < 0 then Some (False, pages, strs, s)
     else if uarg = 0 then Some (True, pages, strs, s)
     else
       let (page, s) = kalloc s in
       if page = 0 then Some (False, pages, strs, s)
       else do {
         (r, bs) \<leftarrow> fetchstr uarg PGSIZE s;
         let s = s\<lparr>mem := put_bytes (mem s) page (if r < 0 then bs else bs @ [0])\<rparr>;
         if r < 0 then Some (False, pages @ [page], strs, s)
         else sys_exec_args uargv is (pages @ [page]) (strs @ [bs]) s
       }
   }"

fun kfree_all :: "u64 list \<Rightarrow> kstate \<Rightarrow> kstate option" where
  "kfree_all [] s = Some s"
| "kfree_all (p # ps) s = do { s \<leftarrow> kfree p s; kfree_all ps s }"

definition sys_exec :: "env \<Rightarrow> kstate \<Rightarrow> (unit, u64) outcome option" where
  "sys_exec e s = do {
     uargv \<leftarrow> argaddr 1 s;
     (r, path) \<leftarrow> argstr 0 128 s;
     if r < 0 then ret (-1) s
     else do {
       (ok, pages, argv, s) \<leftarrow> sys_exec_args uargv [0..<MAXARG] [] [] s;
       if \<not> ok then do { s \<leftarrow> kfree_all pages s; ret (-1) s }
       else do {
         (r, s) \<leftarrow> exec (e_syms e) path argv s;
         s \<leftarrow> kfree_all pages s;
         ret (word_of_int r) s
       }
     }
   }"

definition close_two :: "nat \<Rightarrow> nat \<Rightarrow> kstate \<Rightarrow> (unit, u64) outcome option" where
  "close_two rfile wfile s = do { s \<leftarrow> fileclose rfile s; s \<leftarrow> fileclose wfile s; ret (-1) s }"

definition sys_pipe :: "kstate \<Rightarrow> (unit, u64) outcome option" where
  "sys_pipe s = do {
     p \<leftarrow> myproc s;
     fdarray \<leftarrow> argaddr 0 s;
     (files, s) \<leftarrow> pipealloc s;
     case files of
       None \<Rightarrow> ret (-1) s
     | Some (rfile, wfile) \<Rightarrow> do {
         (fd0, s) \<leftarrow> fdalloc rfile s;
         case fd0 of
           None \<Rightarrow> close_two rfile wfile s
         | Some fd0 \<Rightarrow> do {
             (fd1, s) \<leftarrow> fdalloc wfile s;
             case fd1 of
               None \<Rightarrow> do { s \<leftarrow> fd_clear fd0 s; close_two rfile wfile s }
             | Some fd1 \<Rightarrow> do {
                 (r, s) \<leftarrow> copyout (p_pagetable (procs s ! p)) fdarray (int_bytes (int fd0)) s;
                 (r, s) \<leftarrow> (if r < 0 then Some (r, s)
                            else copyout (p_pagetable (procs s ! p)) (fdarray + 4) (int_bytes (int fd1)) s);
                 if r < 0 then do {
                   s \<leftarrow> fd_clear fd0 s;
                   s \<leftarrow> fd_clear fd1 s;
                   close_two rfile wfile s
                 } else ret 0 s
               }
           }
       }
   }"

section \<open>Dispatch (syscall.c)\<close>

definition syscalls :: "env \<Rightarrow> int \<Rightarrow> (kstate \<Rightarrow> (unit, u64) outcome option) option" where
  "syscalls e num =
     (if num = 1 then Some (sys_fork e)
      else if num = 2 then Some sys_exit
      else if num = 3 then Some sys_wait
      else if num = 4 then Some sys_pipe
      else if num = 5 then Some sys_read
      else if num = 6 then Some sys_kill
      else if num = 7 then Some (sys_exec e)
      else if num = 8 then Some (sys_fstat e)
      else if num = 9 then Some sys_chdir
      else if num = 10 then Some sys_dup
      else if num = 11 then Some sys_getpid
      else if num = 12 then Some sys_sbrk
      else if num = 13 then Some sys_sleep
      else if num = 14 then Some sys_uptime
      else if num = 15 then Some sys_open
      else if num = 16 then Some sys_write
      else if num = 17 then Some sys_mknod
      else if num = 18 then Some sys_unlink
      else if num = 19 then Some sys_link
      else if num = 20 then Some sys_mkdir
      else if num = 21 then Some sys_close
      else if num = 22 then Some (sys_waitx e)
      else None)"

definition syscall :: "env \<Rightarrow> kstate \<Rightarrow> (unit, unit) outcome option" where
  "syscall e s = do {
     p \<leftarrow> myproc s;
     let num = sint (ucast (tf_get (tf_a 7) p s) :: u32);
     case syscalls e num of
       Some f \<Rightarrow> do {
         r \<leftarrow> f s;
         case r of
           Returned x s \<Rightarrow> Some (Returned () (tf_set (tf_a 0) x p s))
         | Asleep _ s \<Rightarrow> Some (Asleep () s)
       }
     | None \<Rightarrow> do {
         s \<leftarrow> printf (bytes_of ''%d %s: unknown sys call %d'' @ [10])
                [AInt (word_of_int (p_pid (procs s ! p))), AStr (Some (p_name (procs s ! p))), AInt (word_of_int num)] s;
         Some (Returned () (tf_set (tf_a 0) (-1) p s))
       }
   }"

end
