(* ===== verification/Trap.thy ===== *)
theory Trap
  imports Syscall
begin

text \<open>
  \<^verbatim>\<open>kernel/trap.c\<close>: traps from user space and from the kernel, device interrupts and the way back to
  user space (\<open>iscowpage\<close> and the page-fault branch are in theory \<open>CowFault\<close>), and \<open>forkret\<close> of
  \<^verbatim>\<open>kernel/proc.c\<close>.

  \<open>csr\<close> is what the handler reads from the CPU's control registers and, for \<open>t_irq\<close>, from the interrupt
  controller. \<open>uregs\<close> are the registers with which the kernel jumps to \<^verbatim>\<open>userret\<close>. A trap either goes
  back to user space or leaves its process off the CPU.

  The interrupt of the disk (\<open>virtio_disk_intr\<close> of theory \<open>Virtio\<close>) only wakes a process that waits for the
  disk. The kernel above the driver is modelled on the contract \<open>disk_transfer\<close>, under which a transfer is done
  when the call returns, so the interrupt changes nothing here.
\<close>

record csr =
  t_scause :: u64
  t_stval :: u64
  t_sepc :: u64
  t_sstatus :: u64
  t_satp :: u64
  t_irq :: int

record uregs =
  r_stvec :: u64
  r_sstatus :: u64
  r_sepc :: u64
  r_satp :: u64
  r_pc :: u64

definition SSTATUS_SPP :: u64 where "SSTATUS_SPP = 0x100"
definition SSTATUS_SPIE :: u64 where "SSTATUS_SPIE = 0x20"

definition MAKE_SATP :: "u64 \<Rightarrow> u64" where
  "MAKE_SATP pagetable = 0x8000000000000000 OR drop_bit 12 pagetable"

definition set_intr :: "bool \<Rightarrow> kstate \<Rightarrow> kstate" where
  "set_intr b s = s\<lparr>lk := (lk s)\<lparr>cpus := (cpus (lk s))(hart s := (cpus (lk s) (hart s))\<lparr>intr := b\<rparr>)\<rparr>\<rparr>"

definition trapinit :: "kstate \<Rightarrow> kstate" where
  "trapinit s = s\<lparr>lk := initlock TicksLock (lk s)\<rparr>"

section \<open>Interrupts\<close>

definition clockintr :: "kstate \<Rightarrow> kstate option" where
  "clockintr s = do {
     s \<leftarrow> acq TicksLock s;
     let s = s\<lparr>ticks := ticks s + 1\<rparr>;
     s \<leftarrow> update_time s;
     s \<leftarrow> wakeup ChanTicks s;
     rel TicksLock s
   }"

definition devintr :: "csr \<Rightarrow> kstate \<Rightarrow> (nat \<times> kstate) option" where
  "devintr t s =
     (if t_scause t AND 0x8000000000000000 \<noteq> 0 \<and> t_scause t AND 0xff = 9 then do {
        s \<leftarrow> (if t_irq t = 10 then uartintr s
              else if t_irq t = 1 then Some s
              else if t_irq t \<noteq> 0 then
                printf (bytes_of ''unexpected interrupt irq=%d'' @ [10]) [AInt (word_of_int (t_irq t))] s
              else Some s);
        Some (1, s)
      }
      else if t_scause t = 0x8000000000000001 then do {
        s \<leftarrow> (if hart s = 0 then clockintr s else Some s);
        Some (2, s)
      }
      else Some (0, s))"

section \<open>Back to user space\<close>

definition usertrapret :: "env \<Rightarrow> csr \<Rightarrow> kstate \<Rightarrow> (unit, uregs) outcome option" where
  "usertrapret e t s =
     (case myproc s of
        None \<Rightarrow> None
      | Some p \<Rightarrow>
          let k = e_syms e;
              s = set_intr False s;
              s = tf_set tf_satp (t_satp t) p s;
              s = tf_set tf_ksp (p_kstack (procs s ! p) + PGSIZE) p s;
              s = tf_set tf_ktrap (sym_usertrap k) p s;
              s = tf_set tf_hartid (of_nat (hart s)) p s;
              x = (t_sstatus t AND NOT SSTATUS_SPP) OR SSTATUS_SPIE
          in Some (Returned \<lparr>r_stvec = TRAMPOLINE + (sym_uservec k - sym_trampoline k), r_sstatus = x,
               r_sepc = tf_get tf_epc p s, r_satp = MAKE_SATP (p_pagetable (procs s ! p)),
               r_pc = TRAMPOLINE + (sym_userret k - sym_trampoline k)\<rparr> s))"

section \<open>Traps\<close>

definition die :: "kstate \<Rightarrow> (unit, 'r) outcome option" where
  "die s = do { s \<leftarrow> exit (-1) s; Some (Asleep () s) }"

text \<open>The end of \<open>usertrap\<close>.\<close>

definition usertrap_leave :: "env \<Rightarrow> csr \<Rightarrow> nat \<Rightarrow> kstate \<Rightarrow> (unit, uregs) outcome option" where
  "usertrap_leave e t which_dev s = do {
     p \<leftarrow> myproc s;
     (k, s) \<leftarrow> killed p s;
     if k \<noteq> 0 then die s
     else if which_dev = 2 then do { s \<leftarrow> yield s; Some (Asleep () s) }
     else usertrapret e t s
   }"

definition usertrap_yielded :: "env \<Rightarrow> csr \<Rightarrow> kstate \<Rightarrow> (unit, uregs) outcome option" where
  "usertrap_yielded e t s = do { s \<leftarrow> yield_resumed s; usertrapret e t s }"

definition usertrap_syscall :: "env \<Rightarrow> csr \<Rightarrow> nat \<Rightarrow> kstate \<Rightarrow> (unit, uregs) outcome option" where
  "usertrap_syscall e t p s = do {
     (k, s) \<leftarrow> killed p s;
     if k \<noteq> 0 then die s
     else do {
       let s = tf_set tf_epc (tf_get tf_epc p s + 4) p s;
       let s = set_intr True s;
       r \<leftarrow> syscall e s;
       case r of
         Returned _ s \<Rightarrow> usertrap_leave e t 0 s
       | Asleep _ s \<Rightarrow> Some (Asleep () s)
     }
   }"

definition usertrap_cow :: "env \<Rightarrow> csr \<Rightarrow> nat \<Rightarrow> kstate \<Rightarrow> (unit, uregs) outcome option" where
  "usertrap_cow e t p s = do {
     let s = upd_proc p (\<lambda>x. x\<lparr>p_pagefaultcount := p_pagefaultcount x + 1\<rparr>) s;
     (ok, s) \<leftarrow> cow_fault (p_pagetable (procs s ! p)) (t_stval t) s;
     if \<not> ok then die (upd_proc p (\<lambda>x. x\<lparr>p_killed := 1\<rparr>) s)
     else usertrap_leave e t 0 (tf_set tf_epc (t_sepc t) p s)
   }"

definition usertrap_unexpected :: "env \<Rightarrow> csr \<Rightarrow> nat \<Rightarrow> kstate \<Rightarrow> (unit, uregs) outcome option" where
  "usertrap_unexpected e t p s = do {
     s \<leftarrow> printf (bytes_of ''usertrap(): unexpected scause %p pid=%d'' @ [10])
            [APtr (t_scause t), AInt (word_of_int (p_pid (procs s ! p)))] s;
     s \<leftarrow> printf (bytes_of ''            sepc=%p stval=%p'' @ [10]) [APtr (t_sepc t), APtr (t_stval t)] s;
     s \<leftarrow> setkilled p s;
     usertrap_leave e t 0 s
   }"

definition usertrap :: "env \<Rightarrow> csr \<Rightarrow> kstate \<Rightarrow> (unit, uregs) outcome option" where
  "usertrap e t s =
     (if t_sstatus t AND SSTATUS_SPP \<noteq> 0 then panic ''usertrap: not from user mode''
      else do {
        p \<leftarrow> myproc s;
        let s = tf_set tf_epc (t_sepc t) p s;
        if t_scause t = 8 then usertrap_syscall e t p s
        else do {
          (which_dev, s) \<leftarrow> devintr t s;
          if which_dev \<noteq> 0 then usertrap_leave e t which_dev s
          else do {
            cow \<leftarrow> (if t_scause t = 15 \<or> t_scause t = 13
                    then iscowpage (p_sz (procs s ! p)) (p_pagetable (procs s ! p)) (t_stval t) s else Some False);
            if cow then usertrap_cow e t p s else usertrap_unexpected e t p s
          }
        }
      })"

text \<open>\<open>kerneltrap\<close>; it gives up the CPU on a timer interrupt of a running process.\<close>

definition kerneltrap :: "csr \<Rightarrow> kstate \<Rightarrow> (unit, unit) outcome option" where
  "kerneltrap t s =
     (if t_sstatus t AND SSTATUS_SPP = 0 then panic ''kerneltrap: not from supervisor mode''
      else if intr (cpus (lk s) (hart s)) then panic ''kerneltrap: interrupts enabled''
      else do {
        (which_dev, s) \<leftarrow> devintr t s;
        if which_dev = 0 then do {
          s \<leftarrow> printf (bytes_of ''scause %p'' @ [10]) [APtr (t_scause t)] s;
          s \<leftarrow> printf (bytes_of ''sepc=%p stval=%p'' @ [10]) [APtr (t_sepc t), APtr (t_stval t)] s;
          panic ''kerneltrap''
        }
        else if which_dev = 2 \<and> (case myproc s of None \<Rightarrow> False | Some p \<Rightarrow> p_state (procs s ! p) = RUNNING)
        then do { s \<leftarrow> yield s; Some (Asleep () s) }
        else Some (Returned () s)
      })"

definition forkret :: "env \<Rightarrow> csr \<Rightarrow> kstate \<Rightarrow> (unit, uregs) outcome option" where
  "forkret e t s = do {
     p \<leftarrow> myproc s;
     s \<leftarrow> rel (PLock p) s;
     s \<leftarrow> (if first s then fsinit ROOTDEV (s\<lparr>first := False\<rparr>) else Some s);
     usertrapret e t s
   }"

end
