(* ===== verification/Boot.thy ===== *)
theory Boot
  imports Trap Virtio
begin

text \<open>
  Start-up of the first CPU: \<open>kvmmake\<close> and \<open>kvminit\<close> of \<^verbatim>\<open>kernel/vm.c\<close> and \<^verbatim>\<open>kernel/main.c\<close>.
  The calls of \<open>main\<close> that only write control registers of the CPU or the interrupt controller
  (\<open>kvminithart\<close>, \<open>trapinithart\<close>, \<open>plicinit\<close>, \<open>plicinithart\<close>) change nothing in the model and are left out.
  \<open>rd\<close> are the answers of the disk to reads of its registers.
\<close>

definition UART0 :: u64 where "UART0 = 0x10000000"
definition VIRTIO0 :: u64 where "VIRTIO0 = 0x10001000"
definition PLIC :: u64 where "PLIC = 0x0c000000"

definition kvmmake :: "ksyms \<Rightarrow> kstate \<Rightarrow> (u64 \<times> kstate) option" where
  "kvmmake k s =
     (let (kpgtbl, s) = kalloc s;
          s = s\<lparr>mem := memset (mem s) kpgtbl 0 4096\<rparr>
      in do {
        s \<leftarrow> kvmmap kpgtbl UART0 UART0 PGSIZE (PTE_R OR PTE_W) s;
        s \<leftarrow> kvmmap kpgtbl VIRTIO0 VIRTIO0 PGSIZE (PTE_R OR PTE_W) s;
        s \<leftarrow> kvmmap kpgtbl PLIC PLIC 0x400000 (PTE_R OR PTE_W) s;
        s \<leftarrow> kvmmap kpgtbl KERNBASE KERNBASE (sym_etext k - KERNBASE) (PTE_R OR PTE_X) s;
        s \<leftarrow> kvmmap kpgtbl (sym_etext k) (sym_etext k) (PHYSTOP - sym_etext k) (PTE_R OR PTE_W) s;
        s \<leftarrow> kvmmap kpgtbl TRAMPOLINE (sym_trampoline k) PGSIZE (PTE_R OR PTE_X) s;
        s \<leftarrow> proc_mapstacks kpgtbl s;
        Some (kpgtbl, s)
      })"

definition kvminit :: "ksyms \<Rightarrow> kstate \<Rightarrow> (u64 \<times> kstate) option" where
  "kvminit k s = kvmmake k s"

text \<open>The state in which the first CPU enters the scheduler, with the kernel's page table.\<close>

definition main :: "((u32 \<times> u32) list \<Rightarrow> u32 \<Rightarrow> u32) \<Rightarrow> ksyms \<Rightarrow> dstate \<Rightarrow> (u64 \<times> dstate) option" where
  "main rd k d = do {
     let s = consoleinit (kst d);
     let s = printfinit s;
     s \<leftarrow> printf [10] [] s;
     s \<leftarrow> printf (bytes_of ''xv6 kernel is booting'' @ [10]) [] s;
     s \<leftarrow> printf [10] [] s;
     s \<leftarrow> kinit s;
     (kernel_pagetable, s) \<leftarrow> kvminit k s;
     let s = procinit s;
     let s = trapinit s;
     let s = binit s;
     let s = iinit s;
     let s = fileinit s;
     d \<leftarrow> virtio_disk_init rd (d\<lparr>kst := s\<rparr>);
     s \<leftarrow> userinit k (kst d);
     Some (kernel_pagetable, d\<lparr>kst := s\<rparr>)
   }"

end
