(* ===== verification/Grep.thy ===== *)
theory Grep
  imports Prelude
begin

text \<open>
  \<^verbatim>\<open>user/grep.c\<close>: the matcher and the loop that splits what it reads into lines. Strings are byte lists
  without their terminating zero, so \<^verbatim>\<open>*text == 0\<close> is the empty list. The system call \<^verbatim>\<open>read\<close> is a
  parameter that tells how many of the wanted bytes it delivers.

  The lemmas: the matcher against the language of its pattern, and the output of \<open>grep\<close> against the list of
  the input's lines.
\<close>

section \<open>The program\<close>

function (sequential) matchhere :: "u8 list \<Rightarrow> u8 list \<Rightarrow> bool"
  and matchstar :: "u8 \<Rightarrow> u8 list \<Rightarrow> u8 list \<Rightarrow> bool" where
  "matchhere [] tx = True"
| "matchhere (r # re) tx =
     (if re \<noteq> [] \<and> hd re = 42 then matchstar r (tl re) tx
      else if r = 36 \<and> re = [] then tx = []
      else if tx \<noteq> [] \<and> (r = 46 \<or> r = hd tx) then matchhere re (tl tx)
      else False)"
| "matchstar c re tx =
     (if matchhere re tx then True
      else if tx \<noteq> [] \<and> (hd tx = c \<or> c = 46) then matchstar c re (tl tx)
      else False)"
  by pat_completeness auto
termination
  by (relation "measure (\<lambda>x. case x of Inl (re, t) \<Rightarrow> 2 * length re + length t | Inr (c, re, t) \<Rightarrow> 2 * length re + length t + 1)")
    (auto simp: neq_Nil_conv)

declare matchhere.simps [simp del] matchstar.simps [simp del]

text \<open>The \<^verbatim>\<open>do\<close> loop of \<open>match\<close>.\<close>

fun match_from :: "u8 list \<Rightarrow> u8 list \<Rightarrow> bool" where
  "match_from re [] = matchhere re []"
| "match_from re (x # tx) = (if matchhere re (x # tx) then True else match_from re tx)"

definition match :: "u8 list \<Rightarrow> u8 list \<Rightarrow> bool" where
  "match re tx = (if re \<noteq> [] \<and> hd re = 94 then matchhere (tl re) tx else match_from re tx)"

text \<open>
  The inner loop of \<open>grep\<close>: the lines of the buffer, up to a zero byte if there is one; the result is what is
  written and what stays in the buffer.
\<close>

function grep_lines :: "u8 list \<Rightarrow> u8 list \<Rightarrow> u8 list \<times> u8 list" where
  "grep_lines re p =
     (let line = takeWhile (\<lambda>c. c \<noteq> 10 \<and> c \<noteq> 0) p;
          q = dropWhile (\<lambda>c. c \<noteq> 10 \<and> c \<noteq> 0) p
      in if q \<noteq> [] \<and> hd q = 10 then
           let (out, rest) = grep_lines re (tl q)
           in ((if match re line then line @ [10] else []) @ out, rest)
         else ([], p))"
  by pat_completeness auto
termination
proof (relation "measure (\<lambda>(re, p). length p)", simp, goal_cases)
  case (1 re p x q)
  then show ?case using length_dropWhile_le [of "\<lambda>c. c \<noteq> 10 \<and> c \<noteq> 0" p] by (cases p) (auto split: if_splits simp: less_Suc_eq_le)
qed

declare grep_lines.simps [simp del]

text \<open>
  The outer loop: \<open>m\<close> are the bytes kept in \<open>buf\<close>, \<open>input\<close> those not read yet; \<open>rd k input\<close> is how many of at most
  \<open>k\<close> bytes \<^verbatim>\<open>read\<close> delivers. It goes on while \<^verbatim>\<open>read\<close> delivers anything.
\<close>

function grep :: "(nat \<Rightarrow> u8 list \<Rightarrow> nat) \<Rightarrow> u8 list \<Rightarrow> u8 list \<Rightarrow> u8 list \<Rightarrow> u8 list" where
  "grep rd re m input =
     (let n = min (rd (1024 - length m - 1) input) (length input) in
      if 0 < n then
        let (out, rest) = grep_lines re (m @ take n input)
        in out @ grep rd re rest (drop n input)
      else [])"
  by pat_completeness auto
termination by (relation "measure (\<lambda>(rd, re, m, input). length input)") auto

declare grep.simps [simp del]

text \<open>
  \<^verbatim>\<open>main\<close>: the writes it makes, as pairs of a descriptor and bytes, and its exit status. \<open>files\<close> are the files
  that \<^verbatim>\<open>open\<close> finds, \<open>stdin\<close> what descriptor 0 delivers.
\<close>

fun grep_files :: "(nat \<Rightarrow> u8 list \<Rightarrow> nat) \<Rightarrow> (u8 list \<Rightarrow> u8 list option) \<Rightarrow> u8 list \<Rightarrow> u8 list list \<Rightarrow> (nat \<times> u8 list) list \<times> nat" where
  "grep_files rd files pattern [] = ([], 0)"
| "grep_files rd files pattern (a # argv) =
     (case files a of
        None \<Rightarrow> ([(1, map of_char ''grep: cannot open '' @ a @ [10])], 1)
      | Some input \<Rightarrow>
          let (ws, status) = grep_files rd files pattern argv
          in ((1, grep rd pattern [] input) # ws, status))"

definition grep_main :: "(nat \<Rightarrow> u8 list \<Rightarrow> nat) \<Rightarrow> (u8 list \<Rightarrow> u8 list option) \<Rightarrow> u8 list \<Rightarrow> u8 list list \<Rightarrow> (nat \<times> u8 list) list \<times> nat" where
  "grep_main rd files stdin argv =
     (if length argv \<le> 1 then ([(2, map of_char ''usage: grep pattern [file ...]'' @ [10])], 1)
      else if length argv \<le> 2 then ([(1, grep rd (argv ! 1) [] stdin)], 0)
      else grep_files rd files (argv ! 1) (drop 2 argv))"

section \<open>The language of a pattern\<close>

datatype item = One u8 | Star u8

fun items :: "u8 list \<Rightarrow> item list \<times> bool" where
  "items [] = ([], False)"
| "items [r] = (if r = 36 then ([], True) else ([One r], False))"
| "items (r # x # re) =
     (if x = 42 then (let (is, a) = items re in (Star r # is, a)) else (let (is, a) = items (x # re) in (One r # is, a)))"

definition fits :: "u8 \<Rightarrow> u8 \<Rightarrow> bool" where
  "fits c x \<longleftrightarrow> c = 46 \<or> c = x"

fun lang :: "item list \<Rightarrow> u8 list set" where
  "lang [] = {[]}"
| "lang (One c # is) = {x # w | x w. fits c x \<and> w \<in> lang is}"
| "lang (Star c # is) = {v @ w | v w. (\<forall>x\<in>set v. fits c x) \<and> w \<in> lang is}"

text \<open>A tx starts with a word of the pattern, which is all of it if the pattern ends in \<^verbatim>\<open>$\<close>.\<close>

definition starts :: "item list \<times> bool \<Rightarrow> u8 list \<Rightarrow> bool" where
  "starts p tx \<longleftrightarrow> (\<exists>u v. tx = u @ v \<and> u \<in> lang (fst p) \<and> (snd p \<longrightarrow> v = []))"

definition matches :: "u8 list \<Rightarrow> u8 list \<Rightarrow> bool" where
  "matches re tx \<longleftrightarrow>
     (if re \<noteq> [] \<and> hd re = 94 then starts (items (tl re)) tx
      else \<exists>before here. tx = before @ here \<and> starts (items re) here)"

lemma startsI: "tx = u @ v \<Longrightarrow> u \<in> lang is \<Longrightarrow> (a \<longrightarrow> v = []) \<Longrightarrow> starts (is, a) tx"
  by (auto simp: starts_def)

lemma startsE:
  assumes "starts (is, a) tx"
  obtains u v where "tx = u @ v" "u \<in> lang is" "a \<longrightarrow> v = []"
  using assms by (auto simp: starts_def)

lemma starts_One: "starts (One c # is, a) tx \<longleftrightarrow> tx \<noteq> [] \<and> fits c (hd tx) \<and> starts (is, a) (tl tx)"
proof
  assume "starts (One c # is, a) tx"
  then obtain u v where "tx = u @ v" "u \<in> lang (One c # is)" and a: "a \<longrightarrow> v = []" by (rule startsE)
  then obtain x w where "tx = x # w @ v" "fits c x" "w \<in> lang is" by auto
  then show "tx \<noteq> [] \<and> fits c (hd tx) \<and> starts (is, a) (tl tx)" using a by (auto intro: startsI)
next
  assume r: "tx \<noteq> [] \<and> fits c (hd tx) \<and> starts (is, a) (tl tx)"
  then obtain u v where u: "tl tx = u @ v" "u \<in> lang is" "a \<longrightarrow> v = []" by (blast elim: startsE)
  then have "tx = (hd tx # u) @ v" using r by (cases tx) auto
  then show "starts (One c # is, a) tx" using r u by (intro startsI [of _ "hd tx # u" v]) auto
qed

lemma starts_Star:
  "starts (Star c # is, a) tx \<longleftrightarrow> starts (is, a) tx \<or> tx \<noteq> [] \<and> fits c (hd tx) \<and> starts (Star c # is, a) (tl tx)"
proof
  assume "starts (Star c # is, a) tx"
  then obtain u r where "tx = u @ r" "u \<in> lang (Star c # is)" and a: "a \<longrightarrow> r = []" by (rule startsE)
  then obtain v w where t: "tx = v @ w @ r" "\<forall>x\<in>set v. fits c x" "w \<in> lang is" by auto
  show "starts (is, a) tx \<or> tx \<noteq> [] \<and> fits c (hd tx) \<and> starts (Star c # is, a) (tl tx)"
  proof (cases v)
    case Nil
    then show ?thesis using t a by (auto intro: startsI)
  next
    case (Cons x v')
    then have "v' @ w \<in> lang (Star c # is)" using t by auto
    then have "starts (Star c # is, a) (tl tx)" using t a Cons by (intro startsI [of _ "v' @ w" r]) auto
    then show ?thesis using t Cons by simp
  qed
next
  assume r: "starts (is, a) tx \<or> tx \<noteq> [] \<and> fits c (hd tx) \<and> starts (Star c # is, a) (tl tx)"
  show "starts (Star c # is, a) tx"
  proof (cases "starts (is, a) tx")
    case True
    then obtain u v where u: "tx = u @ v" "u \<in> lang is" "a \<longrightarrow> v = []" by (rule startsE)
    then have "u \<in> lang (Star c # is)" by (auto intro: exI [of _ "[]"])
    then show ?thesis using u by (blast intro: startsI)
  next
    case False
    then obtain x t where x: "tx = x # t" "fits c x" "starts (Star c # is, a) t" using r by (cases tx) auto
    then obtain u z where u: "t = u @ z" "u \<in> lang (Star c # is)" "a \<longrightarrow> z = []" by (blast elim: startsE)
    then obtain v w where "u = v @ w" "\<forall>y\<in>set v. fits c y" "w \<in> lang is" by auto
    then have "x # u = (x # v) @ w \<and> (\<forall>y\<in>set (x # v). fits c y) \<and> w \<in> lang is" using x by simp
    then have "x # u \<in> lang (Star c # is)" unfolding lang.simps by blast
    then show ?thesis using u x by (intro startsI [of _ "x # u" z]) auto
  qed
qed

lemma matchhere_starts:
  "matchhere re tx \<longleftrightarrow> starts (items re) tx"
  "matchstar c re tx \<longleftrightarrow> starts (Star c # fst (items re), snd (items re)) tx"
proof (induction re tx and c re tx rule: matchhere_matchstar.induct)
  case (1 tx)
  show ?case by (simp add: matchhere.simps starts_def)
next
  case (2 r re tx)
  show ?case
  proof (cases re)
    case Nil
    then show ?thesis
      using 2(2) by (cases tx) (auto simp: matchhere.simps starts_One fits_def, auto simp: starts_def)
  next
    case (Cons x re')
    then show ?thesis
      using 2 by (auto simp: matchhere.simps(2) starts_One fits_def split: prod.splits)
  qed
next
  case (3 c re tx)
  show ?case
    using 3 starts_Star [of c "fst (items re)" "snd (items re)" tx]
    by (subst matchstar.simps) (auto simp: fits_def)
qed

lemma match_from_iff: "match_from re tx \<longleftrightarrow> (\<exists>before here. tx = before @ here \<and> matchhere re here)"
proof (induction tx)
  case (Cons x tx)
  show ?case
  proof
    assume "match_from re (x # tx)"
    then show "\<exists>before here. x # tx = before @ here \<and> matchhere re here"
      using Cons by (auto split: if_splits intro: exI [of _ "[]"]) (metis append_Cons)
  next
    assume "\<exists>before here. x # tx = before @ here \<and> matchhere re here"
    then obtain before here where "x # tx = before @ here" "matchhere re here" by blast
    then show "match_from re (x # tx)" using Cons by (cases before) auto
  qed
qed simp

lemma match_matches: "match re tx \<longleftrightarrow> matches re tx"
  by (simp add: match_def matches_def matchhere_starts match_from_iff)

section \<open>Lines\<close>

text \<open>The text made of lines.\<close>

definition unlines :: "u8 list list \<Rightarrow> u8 list" where
  "unlines ls = concat (map (\<lambda>l. l @ [10]) ls)"

lemma unlines_simps [simp]:
  "unlines [] = []" "unlines (l # ls) = l @ 10 # unlines ls" "unlines (ls @ ls') = unlines ls @ unlines ls'"
  by (simp_all add: unlines_def)

text \<open>A line has neither a newline nor a zero byte.\<close>

definition clean :: "u8 list \<Rightarrow> bool" where
  "clean l \<longleftrightarrow> 10 \<notin> set l \<and> 0 \<notin> set l"

lemma clean_split:
  assumes "clean l"
  shows "takeWhile (\<lambda>c. c \<noteq> 10 \<and> c \<noteq> 0) (l @ 10 # xs) = l" "dropWhile (\<lambda>c. c \<noteq> 10 \<and> c \<noteq> 0) (l @ 10 # xs) = 10 # xs"
    "dropWhile (\<lambda>c. c \<noteq> 10 \<and> c \<noteq> 0) l = []"
  using assms by (induction l) (auto simp: clean_def)

lemma grep_lines_unlines:
  assumes "\<forall>l\<in>set ls. clean l" "clean r"
  shows "grep_lines re (unlines ls @ r) = (unlines (filter (match re) ls), r)"
  using assms(1)
proof (induction ls)
  case Nil
  show ?case using clean_split(3) [OF assms(2)] by (subst grep_lines.simps) simp
next
  case (Cons l ls)
  then show ?case by (subst grep_lines.simps) (simp add: clean_split)
qed

lemma prefix_of_lines:
  assumes "p @ s = unlines ls @ rest" "\<forall>l\<in>set ls. clean l" "clean rest"
  shows "\<exists>ls1 ls2 r. ls = ls1 @ ls2 \<and> p = unlines ls1 @ r \<and> r @ s = unlines ls2 @ rest \<and> clean r"
  using assms(1,2)
proof (induction ls arbitrary: p)
  case Nil
  then have "clean p" using assms(3) by (auto simp: clean_def)
  then show ?case using Nil by auto
next
  case (Cons l ls)
  show ?case
  proof (cases "length p \<le> length l")
    case True
    then obtain z where "l = p @ z" using Cons.prems(1) by (auto simp: append_eq_append_conv2)
    then have "clean p" using Cons.prems(2) by (auto simp: clean_def)
    then show ?thesis using Cons.prems(1) by (intro exI [of _ "[]"] exI [of _ "l # ls"] exI [of _ p]) simp
  next
    case False
    then obtain z where z: "p = l @ 10 # z" "z @ s = unlines ls @ rest"
      using Cons.prems(1) by (auto simp: append_eq_append_conv2 append_eq_Cons_conv)
    then obtain ls1 ls2 r where "ls = ls1 @ ls2" "z = unlines ls1 @ r" "r @ s = unlines ls2 @ rest" "clean r"
      using Cons.IH [OF z(2)] Cons.prems(2) by auto
    then show ?thesis using z by (intro exI [of _ "l # ls1"] exI [of _ ls2] exI [of _ r]) simp
  qed
qed

text \<open>What \<^verbatim>\<open>read\<close> promises: at most what is asked, and something while there is something to read.\<close>

definition reads :: "(nat \<Rightarrow> u8 list \<Rightarrow> nat) \<Rightarrow> bool" where
  "reads rd \<longleftrightarrow> (\<forall>k input. rd k input \<le> k \<and> (0 < k \<and> input \<noteq> [] \<longrightarrow> 0 < rd k input))"

lemma grep_end: "min (rd (1024 - length m - 1) input) (length input) = 0 \<Longrightarrow> grep rd re m input = []"
  by (subst grep.simps) (simp only: Let_def, simp)

lemma grep_step:
  assumes "n = min (rd (1024 - length m - 1) input) (length input)" "0 < n" "grep_lines re (m @ take n input) = (out, r)"
  shows "grep rd re m input = out @ grep rd re r (drop n input)"
  by (subst grep.simps) (simp only: Let_def assms(1) [symmetric] assms(2,3) if_True prod.case)

lemma grep_stuck:
  assumes "reads rd" "min (rd (1024 - length m - 1) input) (length input) = 0" "clean m"
    and "m @ input = unlines ls @ rest" "\<forall>l\<in>set ls. length l < 1023"
  shows "ls = []"
proof (rule ccontr)
  assume "ls \<noteq> []"
  then obtain l ls' where l: "ls = l # ls'" by (cases ls) auto
  then have "length m \<le> length l"
    using assms(3,4) by (auto simp: append_eq_append_conv2 append_eq_Cons_conv clean_def)
  then have "0 < 1024 - length m - 1" using assms(5) l by simp
  then have "input = []" using assms(1,2) unfolding reads_def by (metis length_0_conv min_def neq0_conv)
  then have "m = l @ 10 # unlines ls' @ rest" using assms(4) l by simp
  then show False using assms(3) by (simp add: clean_def)
qed

lemma grep_lines_of:
  assumes "reads rd" "clean rest"
  shows "\<lbrakk>m @ input = unlines ls @ rest; clean m; \<forall>l\<in>set ls. clean l \<and> length l < 1023\<rbrakk>
    \<Longrightarrow> grep rd re m input = unlines (filter (match re) ls)"
proof (induction "length input" arbitrary: m input ls rule: less_induct)
  case less
  define n where "n = min (rd (1024 - length m - 1) input) (length input)"
  show ?case
  proof (cases "n = 0")
    case True
    then have "ls = []"
      using grep_stuck [OF assms(1) _ less.prems(2,1)] less.prems(3) unfolding n_def by blast
    then show ?thesis using True grep_end unfolding n_def by simp
  next
    case False
    have "(m @ take n input) @ drop n input = unlines ls @ rest" using less.prems(1) by simp
    then obtain ls1 ls2 r where s: "ls = ls1 @ ls2" "m @ take n input = unlines ls1 @ r"
        "r @ drop n input = unlines ls2 @ rest" "clean r"
      using prefix_of_lines assms(2) less.prems(3) by blast
    have "length (drop n input) < length input" using False unfolding n_def by auto
    then have "grep rd re r (drop n input) = unlines (filter (match re) ls2)"
      using less.hyps [OF _ s(3,4)] less.prems(3) s(1) by simp
    moreover have "grep_lines re (m @ take n input) = (unlines (filter (match re) ls1), r)"
      using s less.prems(3) by (simp add: grep_lines_unlines)
    ultimately show ?thesis
      using grep_step [of n rd m input re, OF n_def] False s(1) by simp
  qed
qed

text \<open>
  A first line that does not fit the buffer ends \<open>grep\<close>: nothing after it is looked at.
\<close>

lemma grep_long_line:
  assumes "reads rd" "10 \<notin> set l" "0 \<notin> set l" "1023 \<le> length l"
  shows "\<lbrakk>m @ input = l @ more; length m \<le> 1023\<rbrakk> \<Longrightarrow> grep rd re m input = []"
proof (induction "length input" arbitrary: m input rule: less_induct)
  case less
  define n where "n = min (rd (1024 - length m - 1) input) (length input)"
  have n: "n \<le> 1023 - length m" using assms(1) unfolding n_def reads_def by (auto simp: min_le_iff_disj)
  define p where "p = m @ take n input"
  have lp: "length p \<le> 1023" using n less.prems(2) unfolding p_def by simp
  have pi: "p @ drop n input = l @ more" using less.prems(1) unfolding p_def by simp
  then have "p = take (length p) l" using assms(4) lp by (auto simp: append_eq_conv_conj)
  then have "clean p" using assms(2,3) in_set_takeD by (metis clean_def)
  then have g: "grep_lines re p = ([], p)" using grep_lines_unlines [of "[]" p re] by simp
  show ?case
  proof (cases "n = 0")
    case True
    then show ?thesis using grep_end unfolding n_def by simp
  next
    case False
    then have "length (drop n input) < length input" unfolding n_def by auto
    then have "grep rd re p (drop n input) = []" using less.hyps pi lp by blast
    then show ?thesis using grep_step [of n rd m input re, OF n_def] False g unfolding p_def by simp
  qed
qed

lemma grep_files_open:
  assumes "\<forall>a\<in>set argv. files a \<noteq> None"
  shows "grep_files rd files pattern argv = (map (\<lambda>a. (1, grep rd pattern [] (the (files a)))) argv, 0)"
  using assms by (induction argv) auto

text \<open>
  C10. \<open>grep\<close> prints exactly the lines that match, in their order, however \<^verbatim>\<open>read\<close> cuts the input: for an input of
  complete lines that fit the buffer and an unfinished last one, none with a zero byte, it writes those complete
  lines that have the pattern's language in them, at the start or the end where the pattern says \<^verbatim>\<open>^\<close> or \<^verbatim>\<open>$\<close>.
  The unfinished line is never printed.
\<close>

theorem grep_prints_matching_lines:
  assumes "reads rd" "\<forall>l\<in>set ls. clean l \<and> length l < 1023" "clean rest"
  shows "grep rd re [] (unlines ls @ rest) = unlines (filter (matches re) ls)"
proof -
  have "match re = matches re" by (rule ext) (rule match_matches)
  then show ?thesis using grep_lines_of [OF assms(1,3) _ _ assms(2), of "[]" _ re] by (simp add: clean_def)
qed

text \<open>The pattern \<^verbatim>\<open>^ab*$\<close> on the lines \<^verbatim>\<open>abb\<close>, \<^verbatim>\<open>cab\<close> and an unfinished \<^verbatim>\<open>a\<close>, read two bytes at a time.\<close>

definition two_bytes :: "nat \<Rightarrow> u8 list \<Rightarrow> nat" where
  "two_bytes k input = min 2 k"

theorem grep_prints_matching_lines_witness:
  "reads two_bytes \<and>
   grep two_bytes [94, 97, 98, 42, 36] [] (unlines [[97, 98, 98], [99, 97, 98]] @ [97]) = unlines [[97, 98, 98]]"
proof -
  have r: "reads two_bytes" by (simp add: reads_def two_bytes_def)
  have "matches [94, 97, 98, 42, 36] [97, 98, 98]" "\<not> matches [94, 97, 98, 42, 36] [99, 97, 98]"
    by (simp_all add: match_matches [symmetric] match_def matchhere.simps matchstar.simps)
  then show ?thesis
    using r grep_prints_matching_lines [OF r, of "[[97, 98, 98], [99, 97, 98]]" "[97]" "[94, 97, 98, 42, 36]"]
    by (simp add: clean_def)
qed

end
