(* ===== verification/Spec2Isabelle.thy ===== *)
theory Spec2Isabelle
  imports CopyProps PartAFair PartBProps FsFree PathProps PipeProps VirtioProps Boot Grep
begin

text \<open>
  A verification library for the repository's two parts: the xv6 kernel with copy-on-write fork under
  \<^verbatim>\<open>src/initial-xv6/src/kernel\<close>, with one of its user programs, and the two threaded programs under
  \<^verbatim>\<open>src/concurrency\<close>.

  \<^bold>\<open>Conventions.\<close> C integers are words of their width (\<open>u8\<close> to \<open>u64\<close>), or \<open>int\<close> where the code's values are
  small and signed. Where an input can make a signed addition overflow, which C leaves undefined, the model has
  \<open>None\<close> (the counters of \<open>balloc\<close> and \<open>ialloc\<close>, the size of the count sort's table); differences of keys wrap. Pages
  live in a byte-addressed memory \<open>mem\<close>. Kernel code is written in the option monad with its state passed explicitly: \<open>None\<close> is a call that does not return (a panic, a lock that is never released, or a
  wait for another process, said at the definition). A call that may sleep has the result \<open>outcome\<close>: it
  returned, or it is asleep with the values of its local variables, and a second definition (named
  \<open>..._resumed\<close>) is what it does when its process runs again. Functions run on one CPU; where interleaving
  matters (spin locks, the concurrent programs) the code is a step relation over all interleavings.

  \<^bold>\<open>The kernel's memory.\<close>
  \<^item> \<open>Prelude\<close>, \<open>Riscv\<close> (\<^verbatim>\<open>riscv.h\<close>, \<^verbatim>\<open>memlayout.h\<close>), \<open>CString\<close> (\<^verbatim>\<open>string.c\<close>): words, panic, page and
    page-table-entry macros, loads and stores, the string routines. The lemmas: loads after stores, \<open>memmove\<close> on
    overlapping ranges, termination of strings, \<open>strncmp\<close>.
  \<^item> \<open>Kalloc\<close> (\<^verbatim>\<open>kalloc.c\<close>): the free list threaded through the pages and the reference counts. Its invariant is
    \<open>kinv\<close>; the locale \<open>page_pool\<close> is the contract its clients use, interpreted on \<open>kalloc\<close> and \<open>kfree\<close>.
  \<^item> \<open>Vm\<close> (\<^verbatim>\<open>vm.c\<close>): every function on Sv39 tables. \<open>PageTable\<close> is the abstract view (the tree of tables,
    \<open>lookup\<close>), \<open>VmInv\<close> the invariant \<open>vm_ok\<close> that ties all page tables to the allocator's counts, \<open>VmOps\<close> the
    elementary changes, \<open>VmCow\<close>, \<open>VmUser\<close>, \<open>CowFault\<close> and \<open>VmCopy\<close> the operations built from them
    (unmapping, the copy-on-write copy of \<open>uvmcopy\<close>, growth, the page-fault handler of \<^verbatim>\<open>trap.c\<close>, \<open>copyout\<close> and
    \<open>copyin\<close>). \<open>VmProps\<close> and \<open>CopyProps\<close> hold the properties: fork shares pages without either process seeing the
    other's writes, faults give private copies, growth is all or nothing, copies deliver their bytes and
    disturb nobody, and the one permission that \<open>copyout\<close> forgets to check.

  \<^bold>\<open>The kernel's processes and devices.\<close>
  \<^item> \<open>Spinlock\<close> (\<^verbatim>\<open>spinlock.c\<close>): the operations, a step relation with one access to a lock per step, and mutual exclusion
    in it.
  \<^item> \<open>State\<close>: the C structures as records, the kernel's global variables as the record \<open>kstate\<close>, and
    \<^verbatim>\<open>sleeplock.c\<close> and the scheduling primitives of \<^verbatim>\<open>proc.c\<close>. \<open>Frame\<close> has the lemmas the proofs share.
  \<^item> \<open>Ring\<close>: the locale \<open>ring_buffer\<close> of index-wrapping rings, interpreted for the console, the UART and pipes.
    \<open>Console\<close> (\<^verbatim>\<open>uart.c\<close>, \<^verbatim>\<open>console.c\<close>, \<^verbatim>\<open>printf.c\<close>) with \<open>ConsoleProps\<close>: the input handler refines a line
    editor on lists, the transmit ring loses nothing, printed numbers read back. \<open>Pipe\<close> (\<^verbatim>\<open>pipe.c\<close>) with
    \<open>PipeProps\<close>: writes append to and reads take from a queue.
  \<^item> \<open>Virtio\<close> (\<^verbatim>\<open>virtio_disk.c\<close>, \<^verbatim>\<open>virtio.h\<close>): the disk driver. \<open>VirtioProps\<close>: with a device that serves
    well-formed requests it implements the contract \<open>disk_transfer\<close> on which everything above it is modelled, for
    block numbers below \<open>2 ^ 31\<close>: from there on the driver's 32-bit sector number wraps and the contract is not what it does.
  \<^item> \<open>Proc\<close> (\<^verbatim>\<open>proc.c\<close>), \<open>Exec\<close> (\<^verbatim>\<open>exec.c\<close>), \<open>Syscall\<close> (\<^verbatim>\<open>syscall.c\<close>, \<^verbatim>\<open>sysproc.c\<close>, \<^verbatim>\<open>sysfile.c\<close>), \<open>Trap\<close>
    (\<^verbatim>\<open>trap.c\<close>), \<open>Boot\<close> (\<^verbatim>\<open>main.c\<close>): the rest of the kernel's call graph, from a trap down to memory and disk.

  \<^bold>\<open>The kernel's file system.\<close>
  \<^item> \<open>Bio\<close> (\<^verbatim>\<open>bio.c\<close>): the buffer cache with its linked list. \<open>BlockCache\<close> is the locale \<open>block_cache\<close>, the
    contract of a cache as its clients see it (the contents of blocks, references, held buffers), with the clients'
    lemmas; \<open>BioView\<close> interprets it on \<open>bread\<close>, \<open>bwrite\<close>, \<open>brelse\<close>, \<open>bpin\<close> and \<open>bunpin\<close>; \<open>BioProps\<close> has
    the properties.
  \<^item> \<open>Log\<close> (\<^verbatim>\<open>log.c\<close>) with \<open>LogCrash\<close>: a commit interrupted after any of its disk writes, followed by recovery,
    leaves all of the transaction or none of it. \<open>Txn\<close>: changing a block inside a transaction.
  \<^item> \<open>Fs\<close> (\<^verbatim>\<open>fs.c\<close>) and \<open>File\<close> (\<^verbatim>\<open>file.c\<close>): blocks, inodes, directories, paths and open files. \<open>FsProps\<close>:
    inodes read back as written; \<open>FsAlloc\<close>: \<open>balloc\<close> finds the first free block; \<open>FsFree\<close>: \<open>bfree\<close> undoes it; \<open>PathProps\<close>: path lookup walks
    the path's elements.

  \<^bold>\<open>A user program.\<close>
  \<^item> \<open>Grep\<close> (\<^verbatim>\<open>user/grep.c\<close>): the matcher decides the language of its pattern, and the program prints the matching lines
    however \<^verbatim>\<open>read\<close>, which is a parameter, cuts its input; a line that does not fit the buffer ends it.

  \<^bold>\<open>The concurrent programs.\<close>
  \<^item> \<open>PartA\<close> (\<^verbatim>\<open>partA.c\<close>): the file manager as a labelled transition system over its main thread, the threads of
    the requests, the forked children and the clock. \<open>PartAInv\<close>: locks and counters; \<open>PartALive\<close>: no lost wake-up;
    \<open>PartAAnswer\<close>: answers; \<open>PartAProps\<close>: a measure of the work left, and exclusion; \<open>PartAFair\<close>: every weakly fair run
    ends with all requests answered, and the race of a cancellation.
  \<^item> \<open>PartB\<close> and \<open>PartBCount\<close> (\<^verbatim>\<open>partB.c\<close>): the merge sorts and the count sorts with every order of their threads;
    \<open>PartBName\<close>: the count sort by name; \<open>PartBProps\<close>: the program sorts, its sequential sorts are stable, and what the
    count sort by name does. \<open>qsort\<close>
    of the C library is a parameter with its documented contract; \<open>Qsort\<close> is an instance for concrete runs.

  \<^bold>\<open>Termination and bounds.\<close> There is no fuel: loops are structural, or have a measure, or are partial functions in
  the option monad whose termination is part of the theorem about them (\<open>balloc\<close>, \<open>freewalk\<close>, the loops over the
  buffer list). The concrete states of the witnesses are small machines of a few pages or one process.

  \<^bold>\<open>Not modelled.\<close> The CPU's control registers and everything that only reads or writes them or the interrupt
  controller: the inline functions of \<^verbatim>\<open>riscv.h\<close>, \<^verbatim>\<open>start.c\<close>, \<^verbatim>\<open>plic.c\<close>, \<open>kvminithart\<close> and \<open>trapinithart\<close>; what a trap
  handler reads there is its argument \<open>csr\<close>. The assembly files (\<^verbatim>\<open>entry.S\<close>, \<^verbatim>\<open>swtch.S\<close>, \<^verbatim>\<open>trampoline.S\<close>,
  \<^verbatim>\<open>kernelvec.S\<close>, \<^verbatim>\<open>initcode.S\<close>): a switch of processes is a cut between two definitions. \<^verbatim>\<open>ramdisk.c\<close>, which is not
  part of the kernel's build. The other user programs under \<^verbatim>\<open>src/initial-xv6/src/user\<close> and the image builder \<^verbatim>\<open>mkfs.c\<close>:
  they are clients of the system calls (test drivers, shell utilities, a host tool) and no kernel component relies on
  them. Of \<^verbatim>\<open>partB.c\<close> the unused generators of random data; of \<^verbatim>\<open>concurrency\<close> also the scripts and the test generator.
  A memory barrier has no counterpart, since the models are sequentially consistent.
\<close>

end
